(* ===== verification/Prelude.thy ===== *)
theory Prelude
  imports Main "HOL-Library.Word" "HOL-Library.Monad_Syntax"
begin

text \<open>
  Shared types, automation and generic lemmas of the development: C integer types as words,
  little- and big-endian readings of byte strings, splitting a byte string into blocks, exact
  (non-wrapping) word arithmetic, and the disjoint OR of shifted fields. The collection
  \<open>exact\<close> holds the facts that turn a word expression into the natural number it denotes
  when it does not wrap; \<open>endian\<close> holds the equations of the byte-string readings.
\<close>

unbundle bit_operations_syntax

named_theorems exact \<open>word expressions as the naturals they denote\<close>
named_theorems endian \<open>byte strings as naturals\<close>

type_synonym byte = "8 word"
type_synonym u16 = "16 word"
type_synonym u32 = "32 word"
type_synonym u64 = "64 word"

section \<open>Byte strings as numbers\<close>

fun le_val :: "byte list \<Rightarrow> nat" where
  "le_val [] = 0"
| "le_val (b # bs) = unat b + 256 * le_val bs"

fun le_bytes :: "nat \<Rightarrow> nat \<Rightarrow> byte list" where
  "le_bytes 0 v = []"
| "le_bytes (Suc n) v = of_nat v # le_bytes n (v div 256)"

definition be_val :: "byte list \<Rightarrow> nat" where
  "be_val bs = le_val (rev bs)"

definition be_bytes :: "nat \<Rightarrow> nat \<Rightarrow> byte list" where
  "be_bytes n v = rev (le_bytes n v)"

lemma length_le_bytes [simp]: "length (le_bytes n v) = n"
  by (induction n v rule: le_bytes.induct) auto

lemma length_be_bytes [simp]: "length (be_bytes n v) = n"
  by (simp add: be_bytes_def)

lemma le_val_append [endian]: "le_val (xs @ ys) = le_val xs + 256 ^ length xs * le_val ys"
  by (induction xs) (auto simp: algebra_simps)

lemma be_val_append [endian]: "be_val (xs @ ys) = be_val xs * 256 ^ length ys + be_val ys"
  by (simp add: be_val_def le_val_append)

lemma be_val_Nil [simp]: "be_val [] = 0"
  by (simp add: be_val_def)

lemma be_val_Cons [endian]: "be_val (b # bs) = unat b * 256 ^ length bs + be_val bs"
  by (simp add: be_val_def le_val_append)

lemma unat_byte_less: "unat (b :: byte) < 256"
  using unsigned_less [of b, where ?'a = nat] by simp

lemma unat_of_nat_byte: "n < 256 \<Longrightarrow> unat (of_nat n :: byte) = n"
  by (simp add: unat_of_nat)

lemma le_val_less: "le_val bs < 256 ^ length bs"
proof (induction bs)
  case (Cons b bs)
  have "unat b < 256" by (rule unat_byte_less)
  moreover have "256 * le_val bs + 256 \<le> 256 * 256 ^ length bs"
    using Cons.IH by simp
  ultimately have "unat b + 256 * le_val bs < 256 * 256 ^ length bs"
    by linarith
  then show ?case by simp
qed simp

lemma be_val_less: "be_val bs < 256 ^ length bs"
  using le_val_less [of "rev bs"] by (simp add: be_val_def)

lemma le_val_le_bytes [endian]: "le_val (le_bytes n v) = v mod 256 ^ n"
proof (induction n v rule: le_bytes.induct)
  case (2 n v)
  have "v mod 256 + 256 * (v div 256 mod 256 ^ n) = v mod (256 * 256 ^ n)"
    using mod_mult2_eq [of v 256 "256 ^ n"] by simp
  then show ?case using 2 by (simp add: unat_of_nat)
qed simp

lemma be_val_be_bytes [endian]: "be_val (be_bytes n v) = v mod 256 ^ n"
  by (simp add: be_val_def be_bytes_def endian)

lemma unat_eq_zero_byte: "(of_nat (unat b + 256 * k) :: byte) = b"
proof -
  have "(256 :: byte) = 0" by simp
  then show ?thesis by (simp only: of_nat_add of_nat_mult of_nat_numeral) simp
qed

lemma le_bytes_le_val [endian]: "le_bytes (length bs) (le_val bs) = bs"
proof (induction bs)
  case (Cons b bs)
  have "(of_nat (unat b + 256 * le_val bs) :: byte) = b"
    by (rule unat_eq_zero_byte)
  moreover have "(unat b + 256 * le_val bs) div 256 = le_val bs"
    using unat_byte_less [of b] by simp
  ultimately show ?case using Cons by simp
qed simp

lemma le_val_inj: "length xs = length ys \<Longrightarrow> le_val xs = le_val ys \<Longrightarrow> xs = ys"
  by (metis le_bytes_le_val)

lemma be_val_inj: "length xs = length ys \<Longrightarrow> be_val xs = be_val ys \<Longrightarrow> xs = ys"
  by (metis be_val_def le_val_inj length_rev rev_is_rev_conv)

lemma le_bytes_mod: "le_bytes n (v mod 256 ^ n) = le_bytes n v"
  by (rule le_val_inj) (simp_all add: endian)

text \<open>The bytes of a string literal.\<close>

definition ascii :: "string \<Rightarrow> byte list" where
  "ascii s = map of_char s"

section \<open>Lists, blocks\<close>

text \<open>The first \<open>length xs div n\<close> full blocks of \<open>n\<close> bytes.\<close>

fun blocks_of :: "nat \<Rightarrow> 'a list \<Rightarrow> 'a list list" where
  "blocks_of n xs = (if 0 < n \<and> n \<le> length xs
     then take n xs # blocks_of n (drop n xs) else [])"

declare blocks_of.simps [simp del]

definition tail_of :: "nat \<Rightarrow> 'a list \<Rightarrow> 'a list" where
  "tail_of n xs = drop (n * (length xs div n)) xs"

lemma blocks_of_short [simp]: "length xs < n \<Longrightarrow> blocks_of n xs = []"
  by (simp add: blocks_of.simps)

lemma blocks_of_block: "0 < n \<Longrightarrow> length b = n \<Longrightarrow> blocks_of n (b @ xs) = b # blocks_of n xs"
  by (simp add: blocks_of.simps)

lemma blocks_of_append:
  assumes "0 < n" "n dvd length xs"
  shows "blocks_of n (xs @ ys) = blocks_of n xs @ blocks_of n ys"
  using assms
proof (induction n xs rule: blocks_of.induct)
  case (1 n xs)
  show ?case
  proof (cases "n \<le> length xs")
    case True
    then have "n dvd length (drop n xs)" using 1 by (simp add: dvd_diff_nat)
    with 1 True show ?thesis
      by (simp add: blocks_of.simps [of n xs] blocks_of.simps [of n "xs @ ys"])
  next
    case False
    with 1 have "xs = []" by (auto dest: dvd_imp_le)
    then show ?thesis by (simp add: blocks_of.simps [of n "[]"] \<open>0 < n\<close>)
  qed
qed

lemma length_blocks_of: "0 < n \<Longrightarrow> length (blocks_of n xs) = length xs div n"
proof (induction n xs rule: blocks_of.induct)
  case (1 n xs)
  then show ?case
    by (cases "n \<le> length xs") (auto simp: blocks_of.simps [of n xs] le_div_geq)
qed

lemma blocks_of_length: "b \<in> set (blocks_of n xs) \<Longrightarrow> length b = n"
proof (induction n xs rule: blocks_of.induct)
  case (1 n xs)
  then show ?case
    by (cases "0 < n \<and> n \<le> length xs") (auto simp: blocks_of.simps [of n xs])
qed

lemma tail_of_less: "0 < n \<Longrightarrow> length (tail_of n xs) < n"
  by (simp add: tail_of_def minus_mult_div_eq_mod)

lemma tail_of_short [simp]: "length xs < n \<Longrightarrow> tail_of n xs = xs"
  by (simp add: tail_of_def)

lemma tail_of_append: "0 < n \<Longrightarrow> n dvd length xs \<Longrightarrow> tail_of n (xs @ ys) = tail_of n ys"
  by (auto simp: tail_of_def distrib_left elim!: dvdE)

lemma concat_blocks_tail: "0 < n \<Longrightarrow> concat (blocks_of n xs) @ tail_of n xs = xs"
proof (induction n xs rule: blocks_of.induct)
  case (1 n xs)
  show ?case
  proof (cases "n \<le> length xs")
    case True
    then have "tail_of n xs = tail_of n (drop n xs)"
      using \<open>0 < n\<close> tail_of_append [of n "take n xs" "drop n xs"] by simp
    with 1 True show ?thesis by (simp add: blocks_of.simps [of n xs])
  qed simp
qed

lemma take_blocks: "0 < n \<Longrightarrow> concat (blocks_of n xs) = take (n * (length xs div n)) xs"
  using concat_blocks_tail [of n xs] append_take_drop_id [of "n * (length xs div n)" xs]
  unfolding tail_of_def by (metis append_same_eq)

lemma length_tail_of: "length (tail_of n xs) = length xs mod n"
  by (simp add: tail_of_def minus_mult_div_eq_mod)

lemma length_concat_blocks: "0 < n \<Longrightarrow> length (concat (blocks_of n xs)) = n * (length xs div n)"
  by (simp add: take_blocks)

lemma blocks_of_concat: "0 < n \<Longrightarrow> blocks_of n (concat (blocks_of n xs)) = blocks_of n xs"
proof (induction n xs rule: blocks_of.induct)
  case (1 n xs)
  show ?case
  proof (cases "n \<le> length xs")
    case True
    then show ?thesis
      using 1 by (subst (2 3) blocks_of.simps) (simp add: blocks_of_block)
  next
    case False
    then show ?thesis using 1 by simp
  qed
qed

text \<open>Appending to a byte string that is already split: only its tail takes part.\<close>

lemma blocks_of_extend:
  assumes "0 < n"
  shows "blocks_of n (xs @ ys) = blocks_of n xs @ blocks_of n (tail_of n xs @ ys)"
proof -
  have "xs @ ys = concat (blocks_of n xs) @ tail_of n xs @ ys"
    using concat_blocks_tail [OF assms, of xs] by (simp flip: append_assoc)
  moreover have "n dvd length (concat (blocks_of n xs))"
    unfolding length_concat_blocks [OF assms] by simp
  ultimately show ?thesis
    using blocks_of_append [OF assms] blocks_of_concat [OF assms] by metis
qed

lemma tail_of_extend:
  assumes "0 < n"
  shows "tail_of n (xs @ ys) = tail_of n (tail_of n xs @ ys)"
proof -
  have "xs @ ys = concat (blocks_of n xs) @ tail_of n xs @ ys"
    using concat_blocks_tail [OF assms, of xs] by (simp flip: append_assoc)
  moreover have "n dvd length (concat (blocks_of n xs))"
    unfolding length_concat_blocks [OF assms] by simp
  ultimately show ?thesis
    using tail_of_append [OF assms] by metis
qed

lemma fold_upt_invariant:
  assumes "m \<le> n" "P m s" "\<And>i s. m \<le> i \<Longrightarrow> i < n \<Longrightarrow> P i s \<Longrightarrow> P (Suc i) (f i s)"
  shows "P n (fold f [m..<n] s)"
  using assms
proof (induction n rule: dec_induct)
  case (step n)
  then have "P n (fold f [m..<n] s)" by simp
  with step show ?case by simp
qed simp

lemma and_15 [exact]: "n AND 15 = n mod (16 :: nat)"
  using take_bit_eq_mask [of 4 n] by (simp add: take_bit_eq_mod mask_eq_exp_minus_1)

section \<open>Copying into a buffer\<close>

text \<open>
  \<open>memcpy(buf + at, bs, n)\<close>, or the loop \<open>for (i = 0; i < n; i++) buf[at + i] = bs[i]\<close>;
  with a list of equal bytes it is \<open>memset\<close>.
\<close>

fun buffer_copy :: "'a list \<Rightarrow> nat \<Rightarrow> 'a list \<Rightarrow> 'a list" where
  "buffer_copy buf at [] = buf"
| "buffer_copy buf at (b # bs) = buffer_copy (buf[at := b]) (Suc at) bs"

lemma length_buffer_copy [simp]: "length (buffer_copy buf at bs) = length buf"
  by (induction buf at bs rule: buffer_copy.induct) auto

lemma buffer_copy_at:
  "at + length bs \<le> length buf \<Longrightarrow> buffer_copy buf at bs = take at buf @ bs @ drop (at + length bs) buf"
proof (induction buf at bs rule: buffer_copy.induct)
  case (2 buf at b bs)
  have "buffer_copy buf at (b # bs) = take (Suc at) (buf[at := b]) @ bs @ drop (Suc at + length bs) (buf[at := b])"
    using 2 by simp
  moreover have "take (Suc at) (buf[at := b]) = take at buf @ [b]"
    using "2.prems" by (simp add: take_Suc_conv_app_nth)
  ultimately show ?case by simp
qed simp

section \<open>Exact word arithmetic\<close>

lemma digit_eq_iff:
  "a < B \<Longrightarrow> a' < B \<Longrightarrow> a + B * b = a' + B * b' \<longleftrightarrow> a = a' \<and> b = (b' :: nat)"
  by (metis add.commute add_left_cancel div_mult_self2 div_less less_nat_zero_code
      mod_less mod_mult_self2 mult_cancel1 not_gr_zero)

lemma unat_u32_less: "unat (w :: u32) < 4294967296"
  using unsigned_less [of w, where ?'a = nat] by simp

lemma unat_u64_less: "unat (w :: u64) < 18446744073709551616"
  using unsigned_less [of w, where ?'a = nat] by simp

lemma unat_add_exact [exact]:
  "unat a + unat b < 2 ^ LENGTH('a) \<Longrightarrow> unat (a + b :: 'a::len word) = unat a + unat b"
  by (simp add: unat_word_ariths)

lemma unat_mult_exact [exact]:
  "unat a * unat b < 2 ^ LENGTH('a) \<Longrightarrow> unat (a * b :: 'a::len word) = unat a * unat b"
  by (simp add: unat_word_ariths)

lemma unat_drop_bit_div [exact]: "unat (drop_bit n (a :: 'a::len word)) = unat a div 2 ^ n"
  by (simp only: unat_drop_bit_eq drop_bit_eq_div [where 'a = nat])

lemma unat_and_mask_mod: "unat (a AND mask n :: 'a::len word) = unat a mod 2 ^ n"
  by (simp only: unsigned_take_bit_eq take_bit_eq_mod [where 'a = nat] flip: take_bit_eq_mask)

lemma unat_ucast_up [exact]:
  "LENGTH('a) \<le> LENGTH('b) \<Longrightarrow> unat (ucast (a :: 'a::len word) :: 'b::len word) = unat a"
  by (simp add: unsigned_ucast_eq take_bit_nat_eq_self less_le_trans [OF unsigned_less])

lemma unat_ucast_mod [exact]:
  "unat (ucast (a :: 'a::len word) :: 'b::len word) = unat a mod 2 ^ LENGTH('b)"
  by (simp add: unsigned_ucast_eq take_bit_eq_mod)

text \<open>The OR of fields that do not overlap is their sum.\<close>

lemma take_bit_word_small: "unat a < 2 ^ n \<Longrightarrow> take_bit n a = (a :: 'a::len word)"
  by (simp add: word_unat_eq_iff unsigned_take_bit_eq take_bit_nat_eq_self)

lemma or_disjoint_add:
  assumes "unat a < 2 ^ n"
  shows "a OR push_bit n b = (a + push_bit n b :: 'a::len word)"
proof (rule disjunctive_add [symmetric])
  have "a = take_bit n a" using assms by (simp only: take_bit_word_small)
  then have "bit a m \<Longrightarrow> m < n" for m by (metis bit_take_bit_iff)
  then show "\<not> bit a m \<or> \<not> bit (push_bit n b) m" for m
    by (meson bit_push_bit_iff leD)
qed

lemma unat_push_bit_exact [exact]:
  "unat a * 2 ^ n < 2 ^ LENGTH('a) \<Longrightarrow> unat (push_bit n a :: 'a::len word) = unat a * 2 ^ n"
  by (simp only: unsigned_push_bit_eq take_bit_nat_eq_self push_bit_eq_mult [where 'a = nat])

lemma unat_or_disjoint:
  assumes "unat a < 2 ^ n" "unat a + unat b * 2 ^ n < 2 ^ LENGTH('a)"
  shows "unat (a OR push_bit n b :: 'a::len word) = unat a + unat b * 2 ^ n"
proof -
  have "unat (push_bit n b) = unat b * 2 ^ n"
    using assms(2) by (intro unat_push_bit_exact) linarith
  then show ?thesis
    using assms by (simp only: or_disjoint_add unat_add_exact)
qed

section \<open>Masks and little-endian loads\<close>

lemma and_26_mask: "x AND 0x3ffffff = x AND mask 26" for x :: "'a::len word"
  by (simp add: mask_eq_exp_minus_1)

lemma unat_and_26 [exact]: "unat (x AND 0x3ffffff :: 'a::len word) = unat x mod 2 ^ 26"
  by (simp only: and_26_mask unat_and_mask_mod)

lemma ucast_and_ff: "ucast (x AND 0xff) = (ucast x :: byte)" for x :: "'a::len word"
proof -
  have "x AND 0xff = x AND mask 8" by (simp add: mask_eq_exp_minus_1)
  then show ?thesis
    by (simp only:) (rule bit_word_eqI, auto simp: bit_simps dest: bit_imp_le_length)
qed

text \<open>Four bytes in little-endian order, as every byte-oriented file of the program reads them.\<close>

lemma unat_load4:
  assumes "32 \<le> LENGTH('a)"
  shows "unat ((ucast a OR push_bit 8 (ucast b)) OR push_bit 16 (ucast c) OR push_bit 24 (ucast d) :: 'a::len word) = le_val [a, b, c, d]"
proof -
  have u: "unat (ucast x :: 'a word) = unat x" for x :: byte using assms by (simp add: unat_ucast_up)
  have less: "unat a < 256" "unat b < 256" "unat c < 256" "unat d < 256"
    by (rule unat_byte_less)+
  have L: "(4294967296 :: nat) \<le> 2 ^ LENGTH('a)" using power_increasing [OF assms, of "2 :: nat"] by simp
  have 1: "unat ((ucast a :: 'a word) OR push_bit 8 (ucast b)) = unat a + unat b * 2 ^ 8"
    using less L by (subst unat_or_disjoint) (simp_all add: u)
  have 2: "unat ((ucast a OR push_bit 8 (ucast b)) OR (push_bit 16 (ucast c) :: 'a word)) =
      unat a + unat b * 2 ^ 8 + unat c * 2 ^ 16"
    using less 1 L by (subst unat_or_disjoint) (simp_all add: u)
  have "unat (((ucast a OR push_bit 8 (ucast b)) OR push_bit 16 (ucast c)) OR
      (push_bit 24 (ucast d) :: 'a word)) = unat a + unat b * 2 ^ 8 + unat c * 2 ^ 16 + unat d * 2 ^ 24"
    using less 2 L by (subst unat_or_disjoint) (simp_all add: u)
  then show ?thesis by (simp add: or.assoc)
qed

definition load_le32 :: "byte \<Rightarrow> byte \<Rightarrow> byte \<Rightarrow> byte \<Rightarrow> u32" where
  "load_le32 a b c d = (ucast a OR push_bit 8 (ucast b)) OR push_bit 16 (ucast c) OR push_bit 24 (ucast d)"

lemma unat_load_le32: "unat (load_le32 a b c d) = le_val [a, b, c, d]"
  unfolding load_le32_def by (rule unat_load4) simp

lemma le_val_window:
  assumes "i + 4 \<le> length p"
  shows "le_val [p ! i, p ! (i + 1), p ! (i + 2), p ! (i + 3)] = le_val p div 256 ^ i mod 2 ^ 32"
proof -
  have "4 \<le> length (drop i p)" using assms by simp
  then obtain a b c d r where "drop i p = a # b # c # d # r"
    by (auto simp: numeral_eq_Suc Suc_le_length_iff simp del: length_drop)
  moreover from this have "p ! (i + k) = (a # b # c # d # r) ! k" for k
    using assms nth_drop [of i p k] by simp
  from this [of 0] this [of 1] this [of 2] this [of 3]
  have w: "[p ! i, p ! (i + 1), p ! (i + 2), p ! (i + 3)] = [a, b, c, d]" by simp
  ultimately have p: "p = take i p @ [a, b, c, d] @ r"
    by (metis append_Cons append_Nil append_take_drop_id)
  have "length (take i p) = i" using assms by simp
  then have "le_val p = le_val (take i p) + 256 ^ i * (le_val [a, b, c, d] + 2 ^ 32 * le_val r)"
    by (subst p, simp only: le_val_append) simp
  moreover have "le_val (take i p) < 256 ^ i"
    using le_val_less [of "take i p"] \<open>length (take i p) = i\<close> by simp
  moreover have "le_val [a, b, c, d] < 2 ^ 32" using le_val_less [of "[a, b, c, d]"] by simp
  ultimately show ?thesis unfolding w by simp
qed

lemma window: "s + k \<le> (32 :: nat) \<Longrightarrow> v div 256 ^ i mod 2 ^ 32 div 2 ^ s mod 2 ^ k = v div 2 ^ (8 * i + s) mod (2 ^ k :: nat)"
proof -
  assume s: "s + k \<le> 32"
  have "m mod 2 ^ 32 div 2 ^ s = m div 2 ^ s mod 2 ^ (32 - s)" for m :: nat
    using drop_bit_take_bit [of s 32 m] by (simp only: drop_bit_eq_div take_bit_eq_mod)
  moreover have dv: "2 ^ k dvd (2 ^ (32 - s) :: nat)"
    using s by (intro le_imp_power_dvd) simp
  ultimately have "v div 256 ^ i mod 2 ^ 32 div 2 ^ s mod 2 ^ k = (v div 256 ^ i) div 2 ^ s mod 2 ^ k"
    by (simp only: mod_mod_cancel [OF dv])
  also have "(v div 256 ^ i) div 2 ^ s = v div 2 ^ (8 * i + s)"
    by (simp add: div_mult2_eq power_add power_mult)
  finally show ?thesis .
qed

end
