(* ===== verification/Chacha20.thy ===== *)
theory Chacha20
  imports Prelude
begin

text \<open>
  Personal-HomeKit-HAP/Chacha20/chacha20_simple.c and .h: the ChaCha20 stream cipher that the
  HomeKit session layer uses. The context is a record of the sixteen schedule words, the 64
  bytes of the current keystream block (the C array of sixteen words, which the code only ever
  reads as bytes) and the number of those bytes not yet used. A pointer with a length is the
  list of the bytes it covers. A read outside the key is \<open>None\<close>.
\<close>

section \<open>The code\<close>

record chacha20_ctx =
  schedule :: "u32 list"
  keystream :: "byte list"
  available :: nat

definition ROTL32 :: "u32 \<Rightarrow> nat \<Rightarrow> u32" where
  "ROTL32 v n = (push_bit n v) OR (drop_bit (32 - n) v)"

definition LE :: "byte list \<Rightarrow> nat \<Rightarrow> u32" where
  "LE p i = ucast (p ! i) OR push_bit 8 (ucast (p ! (i + 1))) OR
     push_bit 16 (ucast (p ! (i + 2))) OR push_bit 24 (ucast (p ! (i + 3)))"

definition FROMLE :: "u32 \<Rightarrow> byte list" where
  "FROMLE i = [ucast (i AND 0xFF), ucast (drop_bit 8 i AND 0xFF),
     ucast (drop_bit 16 i AND 0xFF), ucast (drop_bit 24 i AND 0xFF)]"

definition read_LE :: "byte list \<Rightarrow> nat \<Rightarrow> u32 option" where
  "read_LE p i = (if i + 4 \<le> length p then Some (LE p i) else None)"

definition chacha20_setup ::
    "chacha20_ctx \<Rightarrow> byte list \<Rightarrow> nat \<Rightarrow> byte list \<Rightarrow> chacha20_ctx option" where
  "chacha20_setup ctx key len nonce =
     (if len = 0 then None
      else let constants = (if len = 32 then ascii ''expand 32-byte k''
                            else ascii ''expand 16-byte k'') in
      do { c0 \<leftarrow> read_LE constants 0;
           c1 \<leftarrow> read_LE constants 4;
           c2 \<leftarrow> read_LE constants 8;
           c3 \<leftarrow> read_LE constants 12;
           k0 \<leftarrow> read_LE key 0;
           k1 \<leftarrow> read_LE key 4;
           k2 \<leftarrow> read_LE key 8;
           k3 \<leftarrow> read_LE key 12;
           k4 \<leftarrow> read_LE key (16 mod len);
           k5 \<leftarrow> read_LE key (20 mod len);
           k6 \<leftarrow> read_LE key (24 mod len);
           k7 \<leftarrow> read_LE key (28 mod len);
           n0 \<leftarrow> read_LE nonce 0;
           n1 \<leftarrow> read_LE nonce 4;
           Some (ctx\<lparr>schedule := [c0, c1, c2, c3, k0, k1, k2, k3, k4, k5, k6, k7, 0, 0, n0, n1],
                     available := 0\<rparr>) })"

definition chacha20_counter_set :: "chacha20_ctx \<Rightarrow> u64 \<Rightarrow> chacha20_ctx" where
  "chacha20_counter_set ctx counter =
     ctx\<lparr>schedule := (schedule ctx)[12 := ucast (counter AND 0xFFFFFFFF),
                                    13 := ucast (drop_bit 32 counter)],
         available := 0\<rparr>"

definition QUARTERROUND :: "u32 list \<Rightarrow> nat \<Rightarrow> nat \<Rightarrow> nat \<Rightarrow> nat \<Rightarrow> u32 list" where
  "QUARTERROUND x a b c d =
     (let x = x[a := x ! a + x ! b]; x = x[d := ROTL32 (x ! d XOR x ! a) 16];
          x = x[c := x ! c + x ! d]; x = x[b := ROTL32 (x ! b XOR x ! c) 12];
          x = x[a := x ! a + x ! b]; x = x[d := ROTL32 (x ! d XOR x ! a) 8];
          x = x[c := x ! c + x ! d]; x = x[b := ROTL32 (x ! b XOR x ! c) 7]
      in x)"

definition chacha20_double_round :: "u32 list \<Rightarrow> u32 list" where
  "chacha20_double_round x =
     (let x = QUARTERROUND x 0 4 8 12;
          x = QUARTERROUND x 1 5 9 13;
          x = QUARTERROUND x 2 6 10 14;
          x = QUARTERROUND x 3 7 11 15;
          x = QUARTERROUND x 0 5 10 15;
          x = QUARTERROUND x 1 6 11 12;
          x = QUARTERROUND x 2 7 8 13;
          x = QUARTERROUND x 3 4 9 14
      in x)"

fun chacha20_rounds :: "nat \<Rightarrow> u32 list \<Rightarrow> u32 list" where
  "chacha20_rounds 0 x = x"
| "chacha20_rounds (Suc i) x = chacha20_rounds i (chacha20_double_round x)"

definition chacha20_increment :: "u32 list \<Rightarrow> u32 list" where
  "chacha20_increment s =
     (let s = s[12 := s ! 12 + 1] in
      if s ! 12 = 0 then
        let s = s[13 := s ! 13 + 1] in
        if s ! 13 = 0 then
          let s = s[14 := s ! 14 + 1] in
          if s ! 14 = 0 then s[15 := s ! 15 + 1] else s
        else s
      else s)"

text \<open>The output block, written over the words in place, and the incremented schedule.\<close>

definition chacha20_block :: "u32 list \<Rightarrow> byte list \<times> u32 list" where
  "chacha20_block sched =
     (let out = chacha20_rounds 10 sched
      in (concat (map (\<lambda>i. FROMLE (out ! i + sched ! i)) [0..<16]), chacha20_increment sched))"

text \<open>The do-while loop over \<open>n\<close> bytes: the body runs once before the test.\<close>

fun chacha20_xor :: "byte list \<Rightarrow> nat \<Rightarrow> byte list \<Rightarrow> nat \<Rightarrow> nat \<Rightarrow> byte list" where
  "chacha20_xor k j inp i n =
     (inp ! i XOR k ! j) # (if n \<le> 1 then [] else chacha20_xor k (j + 1) inp (i + 1) (n - 1))"

declare chacha20_xor.simps [simp del]

function chacha20_new_blocks :: "chacha20_ctx \<Rightarrow> byte list \<Rightarrow> chacha20_ctx \<times> byte list" where
  "chacha20_new_blocks ctx inp =
     (if length inp = 0 then (ctx, [])
      else
        let amount = min (length inp) 64;
            (k, sched) = chacha20_block (schedule ctx);
            out = chacha20_xor k 0 inp 0 amount;
            ctx = ctx\<lparr>schedule := sched, keystream := k, available := 64 - amount\<rparr>;
            (ctx, rest) = chacha20_new_blocks ctx (drop amount inp)
        in (ctx, out @ rest))"
  by pat_completeness auto
termination
  by (relation "measure (\<lambda>(ctx, inp). length inp)") auto

declare chacha20_new_blocks.simps [simp del]

definition chacha20_encrypt :: "chacha20_ctx \<Rightarrow> byte list \<Rightarrow> chacha20_ctx \<times> byte list" where
  "chacha20_encrypt ctx inp =
     (if length inp \<noteq> 0 then
        let (ctx, out, inp) =
          (if available ctx \<noteq> 0 then
             let amount = min (length inp) (available ctx);
                 out = chacha20_xor (keystream ctx) (64 - available ctx) inp 0 amount
             in (ctx\<lparr>available := available ctx - amount\<rparr>, out, drop amount inp)
           else (ctx, [], inp));
          (ctx, rest) = chacha20_new_blocks ctx inp
        in (ctx, out @ rest)
      else (ctx, []))"

definition chacha20_decrypt :: "chacha20_ctx \<Rightarrow> byte list \<Rightarrow> chacha20_ctx \<times> byte list" where
  "chacha20_decrypt ctx inp = chacha20_encrypt ctx inp"

section \<open>Well-formed contexts\<close>

definition chacha_wf :: "chacha20_ctx \<Rightarrow> bool" where
  "chacha_wf ctx \<longleftrightarrow> length (schedule ctx) = 16 \<and> available ctx \<le> 64 \<and>
     (available ctx \<noteq> 0 \<longrightarrow> length (keystream ctx) = 64)"

lemma length_QUARTERROUND [simp]: "length (QUARTERROUND x a b c d) = length x"
  by (simp add: QUARTERROUND_def Let_def)

lemma length_double_round [simp]: "length (chacha20_double_round x) = length x"
  by (simp add: chacha20_double_round_def)

lemma length_rounds [simp]: "length (chacha20_rounds i x) = length x"
  by (induction i x rule: chacha20_rounds.induct) auto

lemma length_increment [simp]: "length (chacha20_increment s) = length s"
  by (simp add: chacha20_increment_def Let_def)

lemma length_FROMLE [simp]: "length (FROMLE v) = 4"
  by (simp add: FROMLE_def)

lemma length_block [simp]: "length (fst (chacha20_block s)) = 64"
  by (simp add: chacha20_block_def Let_def length_concat comp_def sum_list_triv)

lemma snd_block [simp]: "snd (chacha20_block s) = chacha20_increment s"
  by (simp add: chacha20_block_def Let_def)

section \<open>The byte-serial reference\<close>

text \<open>One byte at a time: refill the keystream when it is used up, then XOR its next byte.\<close>

definition chacha_byte :: "chacha20_ctx \<Rightarrow> byte \<Rightarrow> chacha20_ctx \<times> byte" where
  "chacha_byte ctx b =
     (let ctx = (if available ctx = 0
                 then ctx\<lparr>schedule := chacha20_increment (schedule ctx),
                          keystream := fst (chacha20_block (schedule ctx)), available := 64\<rparr>
                 else ctx)
      in (ctx\<lparr>available := available ctx - 1\<rparr>, b XOR keystream ctx ! (64 - available ctx)))"

fun chacha_bytes :: "chacha20_ctx \<Rightarrow> byte list \<Rightarrow> chacha20_ctx \<times> byte list" where
  "chacha_bytes ctx [] = (ctx, [])"
| "chacha_bytes ctx (b # bs) =
     (let (ctx, o1) = chacha_byte ctx b; (ctx, os) = chacha_bytes ctx bs in (ctx, o1 # os))"

lemma chacha20_xor_take:
  assumes "0 < n" "i + n \<le> length inp"
  shows "chacha20_xor k j inp i n = map (\<lambda>m. inp ! (i + m) XOR k ! (j + m)) [0..<n]"
  using assms
proof (induction k j inp i n rule: chacha20_xor.induct)
  case (1 k j inp i n)
  show ?case
  proof (cases "n = 1")
    case True
    then show ?thesis by (simp add: chacha20_xor.simps)
  next
    case False
    then obtain m where n: "n = Suc m" "0 < m" using 1 by (cases n) auto
    have "[0..<Suc m] = 0 # map Suc [0..<m]" by (simp add: map_Suc_upt upt_conv_Cons)
    with 1 n show ?thesis
      by (simp add: chacha20_xor.simps [of k j inp i "Suc m"] comp_def del: upt_Suc)
  qed
qed

lemma chacha_bytes_append:
  "chacha_bytes ctx (xs @ ys) =
     (let (c1, o1) = chacha_bytes ctx xs; (c2, o2) = chacha_bytes c1 ys in (c2, o1 @ o2))"
  by (induction xs arbitrary: ctx) (auto simp: Let_def split: prod.splits)

lemma chacha_bytes_pending:
  "length xs \<le> available ctx \<Longrightarrow> p + available ctx = 64 \<Longrightarrow> chacha_bytes ctx xs =
     (ctx\<lparr>available := available ctx - length xs\<rparr>,
      map (\<lambda>m. xs ! m XOR keystream ctx ! (p + m)) [0..<length xs])"
proof (induction xs arbitrary: ctx p)
  case (Cons b xs)
  let ?ctx = "ctx\<lparr>available := available ctx - 1\<rparr>"
  have "chacha_bytes ?ctx xs = (ctx\<lparr>available := available ctx - Suc (length xs)\<rparr>,
      map (\<lambda>m. xs ! m XOR keystream ctx ! (Suc p + m)) [0..<length xs])"
    using Cons.prems Cons.IH [of ?ctx "Suc p"] by simp
  moreover have "[0..<Suc (length xs)] = 0 # map Suc [0..<length xs]"
    by (simp add: map_Suc_upt upt_conv_Cons del: upt_Suc)
  moreover have "available ctx \<noteq> 0" "64 - available ctx = p" using Cons.prems by auto
  ultimately show ?case
    by (simp add: chacha_byte_def comp_def del: upt_Suc)
qed simp

lemma chacha_bytes_refill:
  assumes "available ctx = 0" "xs \<noteq> []" "length xs \<le> 64"
  shows "chacha_bytes ctx xs =
     (ctx\<lparr>schedule := chacha20_increment (schedule ctx),
          keystream := fst (chacha20_block (schedule ctx)), available := 64 - length xs\<rparr>,
      map (\<lambda>m. xs ! m XOR fst (chacha20_block (schedule ctx)) ! m) [0..<length xs])"
proof -
  let ?c = "ctx\<lparr>schedule := chacha20_increment (schedule ctx),
    keystream := fst (chacha20_block (schedule ctx)), available := 64\<rparr>"
  have "chacha_bytes ctx xs = chacha_bytes ?c xs"
    using assms by (cases xs) (simp_all add: chacha_byte_def)
  then show ?thesis using assms chacha_bytes_pending [of xs ?c 0] by simp
qed

lemma new_blocks_bytes:
  "available ctx = 0 \<Longrightarrow> chacha20_new_blocks ctx inp = chacha_bytes ctx inp"
proof (induction ctx inp rule: chacha20_new_blocks.induct)
  case (1 ctx inp)
  show ?case
  proof (cases "inp = []")
    case True
    then show ?thesis by (simp add: chacha20_new_blocks.simps)
  next
    case False
    let ?n = "min (length inp) 64" and ?blk = "chacha20_block (schedule ctx)"
    let ?ctx = "ctx\<lparr>schedule := snd ?blk, keystream := fst ?blk, available := 64 - ?n\<rparr>"
    have head: "chacha_bytes ctx (take ?n inp) = (?ctx, chacha20_xor (fst ?blk) 0 inp 0 ?n)"
      using False 1(2) chacha_bytes_refill [of ctx "take ?n inp"]
      by (simp add: chacha20_xor_take min.commute cong: map_cong)
    have tail: "chacha20_new_blocks ?ctx (drop ?n inp) = chacha_bytes ?ctx (drop ?n inp)"
    proof (cases "drop ?n inp = []")
      case True
      then show ?thesis by (simp add: chacha20_new_blocks.simps)
    next
      case False
      then have n: "?n = 64" by auto
      show ?thesis
        using 1(1) [OF _ refl refl prod.collapse refl refl] \<open>inp \<noteq> []\<close> n by simp
    qed
    have "chacha_bytes ctx inp = chacha_bytes ctx (take ?n inp @ drop ?n inp)" by simp
    also have "\<dots> = chacha20_new_blocks ctx inp"
      using False unfolding chacha_bytes_append head
      by (simp add: chacha20_new_blocks.simps [of ctx inp] tail case_prod_beta Let_def del: snd_block)
    finally show ?thesis ..
  qed
qed

lemma encrypt_bytes:
  assumes "chacha_wf ctx"
  shows "chacha20_encrypt ctx inp = chacha_bytes ctx inp"
proof (cases "inp = [] \<or> available ctx = 0")
  case True
  then show ?thesis
    by (auto simp: chacha20_encrypt_def new_blocks_bytes split: prod.splits)
next
  case False
  let ?n = "min (length inp) (available ctx)"
  let ?ctx = "ctx\<lparr>available := available ctx - ?n\<rparr>"
  have head: "chacha_bytes ctx (take ?n inp) =
      (?ctx, chacha20_xor (keystream ctx) (64 - available ctx) inp 0 ?n)"
    using False assms chacha_bytes_pending [of "take ?n inp" ctx "64 - available ctx"]
    by (simp add: chacha20_xor_take chacha_wf_def min.commute cong: map_cong)
  have tail: "chacha20_new_blocks ?ctx (drop ?n inp) = chacha_bytes ?ctx (drop ?n inp)"
    by (cases "drop ?n inp = []") (simp add: chacha20_new_blocks.simps, simp add: new_blocks_bytes)
  have "chacha_bytes ctx inp = chacha_bytes ctx (take ?n inp @ drop ?n inp)" by simp
  also have "\<dots> = chacha20_encrypt ctx inp"
    using False unfolding chacha_bytes_append head
    by (simp add: chacha20_encrypt_def tail case_prod_beta Let_def)
  finally show ?thesis ..
qed

section \<open>The counter\<close>

definition block_counter :: "u32 list \<Rightarrow> nat" where
  "block_counter s = unat (s ! 12) + 2 ^ 32 * unat (s ! 13) + 2 ^ 64 * unat (s ! 14)
     + 2 ^ 96 * unat (s ! 15)"

lemma unat_word_Suc:
  "unat (w + 1 :: u32) = (if w + 1 = 0 then 0 else Suc (unat w))"
  by (simp add: unatSuc add.commute)

lemma word_wrap: "w + 1 = 0 \<Longrightarrow> unat (w :: u32) = 4294967295"
  by (simp add: eq_neg_iff_add_eq_0 [symmetric] unsigned_minus_1_eq_mask mask_eq_exp_minus_1)

lemma block_counter_less: "block_counter s < 2 ^ 128"
  using unat_u32_less [of "s ! 12"] unat_u32_less [of "s ! 13"] unat_u32_less [of "s ! 14"]
    unat_u32_less [of "s ! 15"]
  by (simp add: block_counter_def)

lemma increment_counter:
  assumes "length s = 16"
  shows "block_counter (chacha20_increment s) = (block_counter s + 1) mod 2 ^ 128"
proof (cases "s ! 12 + 1 = 0 \<and> s ! 13 + 1 = 0 \<and> s ! 14 + 1 = 0 \<and> s ! 15 + 1 = 0")
  case True
  then show ?thesis
    using assms by (simp add: chacha20_increment_def block_counter_def Let_def word_wrap)
next
  case False
  then have "block_counter (chacha20_increment s) = block_counter s + 1"
    using assms
    by (auto simp: chacha20_increment_def block_counter_def Let_def word_wrap unat_word_Suc)
  then show ?thesis using block_counter_less [of "chacha20_increment s"] by simp
qed

lemma counter_set_counter:
  "length (schedule ctx) = 16 \<Longrightarrow>
   block_counter (schedule (chacha20_counter_set ctx n)) = 
     unat n + 2 ^ 64 * unat (schedule ctx ! 14) + 2 ^ 96 * unat (schedule ctx ! 15)"
proof -
  have "unat (ucast (n AND 0xFFFFFFFF) :: u32) = unat n mod 2 ^ 32"
  proof -
    have "n AND 0xFFFFFFFF = n AND mask 32" by (simp add: mask_eq_exp_minus_1)
    then show ?thesis by (simp only: unat_ucast_mod unat_and_mask_mod) simp
  qed
  moreover have "unat (ucast (drop_bit 32 n) :: u32) = unat n div 2 ^ 32"
    using unsigned_less [of n, where ?'a = nat]
    by (simp add: unat_ucast_mod unat_drop_bit_div) 
  moreover assume "length (schedule ctx) = 16"
  ultimately show ?thesis
    by (simp add: block_counter_def chacha20_counter_set_def)
qed

lemma increment_fixes: "length s = 16 \<Longrightarrow> i < 12 \<Longrightarrow> chacha20_increment s ! i = s ! i"
  by (simp add: chacha20_increment_def Let_def)

lemma counter_inj:
  assumes "length s = 16" "length t = 16" "\<And>i. i < 12 \<Longrightarrow> s ! i = t ! i"
    "block_counter s = block_counter t"
  shows "s = t"
proof (rule nth_equalityI)
  have horner: "block_counter u = unat (u ! 12) + 4294967296 * (unat (u ! 13) +
      4294967296 * (unat (u ! 14) + 4294967296 * unat (u ! 15)))" for u
    by (simp add: block_counter_def)
  have "unat (s ! 12) = unat (t ! 12) \<and> unat (s ! 13) = unat (t ! 13) \<and>
        unat (s ! 14) = unat (t ! 14) \<and> unat (s ! 15) = unat (t ! 15)"
    using assms(4) by (simp only: horner digit_eq_iff unat_u32_less simp_thms)
  then have "s ! i = t ! i" if "12 \<le> i" "i < 16" for i
  proof -
    have "i = 12 \<or> i = 13 \<or> i = 14 \<or> i = 15" using that by arith
    then show ?thesis using \<open>unat (s ! 12) = _ \<and> _\<close> by (auto simp: word_unat_eq_iff)
  qed
  then show "s ! i = t ! i" if "i < length s" for i
    using that assms by (cases "i < 12") auto
qed (use assms in simp)

section \<open>Seeking\<close>

lemma chacha_bytes_keystream_irrelevant:
  assumes "available c1 = 0" "available c2 = 0" "schedule c1 = schedule c2"
  shows "snd (chacha_bytes c1 m) = snd (chacha_bytes c2 m)"
proof (cases m)
  case (Cons b bs)
  have "chacha_byte c1 b = chacha_byte c2 b"
    using assms by (simp add: chacha_byte_def)
  then show ?thesis by (simp add: Cons)
qed simp

lemma chacha_bytes_whole_blocks:
  "available ctx = 0 \<Longrightarrow> length pre = 64 * n \<Longrightarrow>
   schedule (fst (chacha_bytes ctx pre)) = (chacha20_increment ^^ n) (schedule ctx) \<and>
   available (fst (chacha_bytes ctx pre)) = 0"
proof (induction n arbitrary: ctx pre)
  case (Suc n)
  let ?c = "fst (chacha_bytes ctx (take 64 pre))"
  have c: "available ?c = 0" "schedule ?c = chacha20_increment (schedule ctx)"
    using Suc.prems chacha_bytes_refill [of ctx "take 64 pre"] by (cases pre; simp)+
  have "fst (chacha_bytes ctx pre) = fst (chacha_bytes ?c (drop 64 pre))"
    using chacha_bytes_append [of ctx "take 64 pre" "drop 64 pre"]
    by (simp add: case_prod_beta Let_def)
  then show ?case
    using Suc.IH [of ?c "drop 64 pre"] Suc.prems c by (simp add: funpow_swap1)
qed simp

lemma increments_fix:
  "length s = 16 \<Longrightarrow> length ((chacha20_increment ^^ n) s) = 16 \<and>
     (\<forall>i < 12. (chacha20_increment ^^ n) s ! i = s ! i) \<and>
     block_counter ((chacha20_increment ^^ n) s) = (block_counter s + n) mod 2 ^ 128"
  using block_counter_less [of s]
  by (induction n) (auto simp: increment_counter increment_fixes mod_Suc_eq)

lemma counter_set_seek:
  assumes "length (schedule ctx) = 16" "unat c + n < 2 ^ 64"
  shows "(chacha20_increment ^^ n) (schedule (chacha20_counter_set ctx c)) =
         schedule (chacha20_counter_set ctx (c + of_nat n))"
proof (rule counter_inj)
  let ?s = "schedule (chacha20_counter_set ctx c)"
  have s: "length ?s = 16" using assms(1) by (simp add: chacha20_counter_set_def)
  have "unat (c + of_nat n) = unat c + n"
    using assms(2) by (simp add: unat_word_ariths unat_of_nat)
  moreover have "block_counter ?s + n < 2 ^ 128"
    using assms unat_u32_less [of "schedule ctx ! 14"] unat_u32_less [of "schedule ctx ! 15"]
    by (simp add: counter_set_counter)
  ultimately show "block_counter ((chacha20_increment ^^ n) ?s) =
      block_counter (schedule (chacha20_counter_set ctx (c + of_nat n)))"
    using increments_fix [OF s, of n] assms(1) by (simp add: counter_set_counter)
  show "length ((chacha20_increment ^^ n) ?s) = 16" using increments_fix [OF s] by blast
  show "length (schedule (chacha20_counter_set ctx (c + of_nat n))) = 16"
    using assms(1) by (simp add: chacha20_counter_set_def)
  show "(chacha20_increment ^^ n) ?s ! i = schedule (chacha20_counter_set ctx (c + of_nat n)) ! i"
    if "i < 12" for i
    using increments_fix [OF s, of n] that assms(1) by (simp add: chacha20_counter_set_def)
qed

section \<open>The permutation\<close>

definition add_step :: "nat \<Rightarrow> nat \<Rightarrow> u32 list \<Rightarrow> u32 list" where
  "add_step a b x = x[a := x ! a + x ! b]"

definition rot_step :: "nat \<Rightarrow> nat \<Rightarrow> nat \<Rightarrow> u32 list \<Rightarrow> u32 list" where
  "rot_step n d a x = x[d := ROTL32 (x ! d XOR x ! a) n]"

lemma ROTL32_inverse: "0 < n \<Longrightarrow> n < 32 \<Longrightarrow> ROTL32 (ROTL32 v n) (32 - n) = v"
  by (rule bit_word_eqI) (auto simp: ROTL32_def bit_simps)

lemma ROTL32_inj: "0 < n \<Longrightarrow> n < 32 \<Longrightarrow> ROTL32 v n = ROTL32 w n \<Longrightarrow> v = w"
  by (metis ROTL32_inverse)

lemma add_step_inj:
  "a \<noteq> b \<Longrightarrow> add_step a b x = add_step a b y \<Longrightarrow> length x = length y \<Longrightarrow> a < length x \<Longrightarrow> x = y"
proof (rule nth_equalityI)
  fix i assume "a \<noteq> b" "add_step a b x = add_step a b y" "length x = length y"
    "a < length x" "i < length x"
  then have "(add_step a b x) ! j = (add_step a b y) ! j" for j by simp
  from this [of i] this [of b] show "x ! i = y ! i"
    using \<open>a \<noteq> b\<close> \<open>length x = length y\<close> \<open>a < length x\<close>
    by (cases "i = a") (auto simp: add_step_def)
qed

lemma xor_right_cancel: "a XOR c = b XOR c \<longleftrightarrow> a = (b :: 'a::len word)"
  by (metis xor.assoc xor_self_eq xor.right_neutral)

lemma rot_step_inj:
  "d \<noteq> a \<Longrightarrow> 0 < n \<Longrightarrow> n < 32 \<Longrightarrow> rot_step n d a x = rot_step n d a y \<Longrightarrow>
   length x = length y \<Longrightarrow> d < length x \<Longrightarrow> x = y"
proof (rule nth_equalityI)
  fix i assume a: "d \<noteq> a" "rot_step n d a x = rot_step n d a y" "length x = length y"
    "d < length x" "i < length x" and n: "0 < n" "n < 32"
  then have "(rot_step n d a x) ! j = (rot_step n d a y) ! j" for j by simp
  from this [of i] this [of a] show "x ! i = y ! i"
    using a by (cases "i = d") (auto simp: rot_step_def xor_right_cancel dest!: ROTL32_inj [OF n])
qed

lemma QUARTERROUND_steps:
  "QUARTERROUND x a b c d = rot_step 7 b c (add_step c d (rot_step 8 d a (add_step a b
     (rot_step 12 b c (add_step c d (rot_step 16 d a (add_step a b x)))))))"
  by (simp add: QUARTERROUND_def add_step_def rot_step_def Let_def)

lemma length_steps [simp]:
  "length (add_step a b x) = length x" "length (rot_step n a b x) = length x"
  by (simp_all add: add_step_def rot_step_def)

lemma step_eq_iff:
  "length x = length y \<Longrightarrow> a \<noteq> b \<Longrightarrow> a < length y \<Longrightarrow> add_step a b x = add_step a b y \<longleftrightarrow> x = y"
  "length x = length y \<Longrightarrow> a \<noteq> b \<Longrightarrow> a < length y \<Longrightarrow> 0 < n \<Longrightarrow> n < 32 \<Longrightarrow>
     rot_step n a b x = rot_step n a b y \<longleftrightarrow> x = y"
  using add_step_inj [of a b x y] rot_step_inj [of a b n x y] by auto

lemma QUARTERROUND_eq_iff:
  assumes "length x = length y" "distinct [a, b, c, d]" "a < length y" "b < length y"
    "c < length y" "d < length y"
  shows "QUARTERROUND x a b c d = QUARTERROUND y a b c d \<longleftrightarrow> x = y"
  using assms unfolding QUARTERROUND_steps by (simp add: step_eq_iff)

lemma double_round_eq_iff:
  "length x = 16 \<Longrightarrow> length y = 16 \<Longrightarrow>
   chacha20_double_round x = chacha20_double_round y \<longleftrightarrow> x = y"
  by (simp add: chacha20_double_round_def Let_def QUARTERROUND_eq_iff)

lemma rounds_inj:
  "chacha20_rounds i x = chacha20_rounds i y \<Longrightarrow> length x = 16 \<Longrightarrow> length y = 16 \<Longrightarrow> x = y"
proof (induction i arbitrary: x y)
  case (Suc i)
  then have "chacha20_double_round x = chacha20_double_round y" by simp
  then show ?case using Suc by (simp add: double_round_eq_iff)
qed simp
section \<open>Properties\<close>

lemma chacha_byte_wf: "chacha_wf ctx \<Longrightarrow> chacha_wf (fst (chacha_byte ctx b))"
  by (auto simp: chacha_wf_def chacha_byte_def Let_def)

lemma chacha_bytes_wf: "chacha_wf ctx \<Longrightarrow> chacha_wf (fst (chacha_bytes ctx bs))"
proof (induction bs arbitrary: ctx)
  case (Cons b bs)
  then have "chacha_wf (fst (chacha_bytes (fst (chacha_byte ctx b)) bs))"
    by (simp add: chacha_byte_wf)
  then show ?case by (simp add: case_prod_beta Let_def)
qed simp

lemma length_chacha_bytes [simp]: "length (snd (chacha_bytes ctx bs)) = length bs"
  by (induction bs arbitrary: ctx) (auto simp: Let_def case_prod_beta)

lemma chacha_byte_ctx: "fst (chacha_byte ctx b) = fst (chacha_byte ctx b')"
  by (simp add: chacha_byte_def Let_def)

lemma chacha_byte_involution: "snd (chacha_byte ctx (snd (chacha_byte ctx b))) = b"
  by (simp add: chacha_byte_def Let_def xor.assoc [symmetric])
     (simp add: xor.assoc)

lemma chacha_bytes_involution:
  "chacha_bytes ctx (snd (chacha_bytes ctx bs)) = (fst (chacha_bytes ctx bs), bs)"
proof (induction bs arbitrary: ctx)
  case (Cons b bs)
  then show ?case
    using chacha_byte_ctx [of ctx "snd (chacha_byte ctx b)" b]
    by (simp add: case_prod_beta Let_def chacha_byte_involution)
qed simp

text \<open>C32: The buffered block-wise encryption loop computes the byte-serial stream cipher: every
  byte is XORed with the next byte of the keystream, a fresh block is generated exactly when the
  64 bytes are used up, and the context after the call is that of the byte-serial run.\<close>
theorem chacha20_encrypt_stream:
  "chacha_wf ctx \<Longrightarrow> chacha20_encrypt ctx inp = chacha_bytes ctx inp"
  by (rule encrypt_bytes)

lemma chacha20_encrypt_stream_witness:
  "chacha20_encrypt \<lparr>schedule = replicate 16 7, keystream = replicate 64 5, available = 2\<rparr> [1, 2, 3]
   = chacha_bytes \<lparr>schedule = replicate 16 7, keystream = replicate 64 5, available = 2\<rparr> [1, 2, 3]"
  by (rule chacha20_encrypt_stream) (simp add: chacha_wf_def)

text \<open>Decrypting with the context that encrypted gives the plaintext back, leaves both sides'
  contexts equal, and never changes the length.\<close>
theorem chacha20_roundtrip:
  assumes "chacha_wf ctx"
  shows "chacha20_decrypt ctx (snd (chacha20_encrypt ctx m)) = (fst (chacha20_encrypt ctx m), m) \<and>
         length (snd (chacha20_encrypt ctx m)) = length m \<and> chacha_wf (fst (chacha20_encrypt ctx m))"
  using assms
  by (simp add: chacha20_decrypt_def encrypt_bytes chacha_bytes_involution chacha_bytes_wf)

lemma chacha20_roundtrip_witness:
  "snd (chacha20_decrypt \<lparr>schedule = replicate 16 7, keystream = [], available = 0\<rparr>
     (snd (chacha20_encrypt \<lparr>schedule = replicate 16 7, keystream = [], available = 0\<rparr> [1, 2, 3])))
   = [1, 2, 3]"
  using chacha20_roundtrip [of "\<lparr>schedule = replicate 16 7, keystream = [], available = 0\<rparr>" "[1, 2, 3]"]
  by (simp add: chacha_wf_def)

text \<open>Splitting a message over several calls changes nothing: encrypting two pieces in turn
  gives the ciphertext and the context of encrypting their concatenation.\<close>
theorem chacha20_split_calls:
  assumes "chacha_wf ctx"
  shows "chacha20_encrypt ctx (xs @ ys) =
    (let (c1, o1) = chacha20_encrypt ctx xs; (c2, o2) = chacha20_encrypt c1 ys in (c2, o1 @ o2))"
proof -
  have "chacha_wf (fst (chacha_bytes ctx xs))" using assms by (rule chacha_bytes_wf)
  then show ?thesis
    using assms by (simp add: encrypt_bytes chacha_bytes_append case_prod_beta Let_def)
qed

lemma chacha20_split_calls_witness:
  "fst (chacha20_encrypt \<lparr>schedule = replicate 16 7, keystream = [], available = 0\<rparr> ([1, 2] @ [3])) =
   fst (chacha20_encrypt (fst (chacha20_encrypt
     \<lparr>schedule = replicate 16 7, keystream = [], available = 0\<rparr> [1, 2])) [3])"
  using chacha20_split_calls [of "\<lparr>schedule = replicate 16 7, keystream = [], available = 0\<rparr>" "[1, 2]" "[3]"]
  by (simp add: chacha_wf_def case_prod_beta Let_def)

text \<open>Setting the block counter seeks: encrypting from counter \<open>c + n\<close> gives what a run from
  counter \<open>c\<close> gives after its first \<open>n\<close> blocks of 64 bytes, while the 64-bit counter does not
  overflow (the carry into the second counter word included).\<close>
theorem chacha20_counter_seek:
  assumes "length (schedule ctx) = 16" "unat c + n < 2 ^ 64" "length pre = 64 * n"
  shows "snd (chacha20_encrypt (chacha20_counter_set ctx (c + of_nat n)) m) =
         drop (64 * n) (snd (chacha20_encrypt (chacha20_counter_set ctx c) (pre @ m)))"
proof -
  let ?c = "chacha20_counter_set ctx c" and ?d = "chacha20_counter_set ctx (c + of_nat n)"
  have wf: "chacha_wf ?c" "chacha_wf ?d" "available ?c = 0" "available ?d = 0"
    using assms(1) by (simp_all add: chacha_wf_def chacha20_counter_set_def)
  let ?e = "fst (chacha_bytes ?c pre)"
  have "schedule ?e = schedule ?d" "available ?e = 0"
    using chacha_bytes_whole_blocks [OF wf(3) assms(3)] counter_set_seek [OF assms(1,2)] by auto
  then have "snd (chacha_bytes ?d m) = snd (chacha_bytes ?e m)"
    using wf by (intro chacha_bytes_keystream_irrelevant) auto
  then show ?thesis
    using wf assms(3) by (simp add: encrypt_bytes chacha_bytes_append case_prod_beta Let_def)
qed

lemma chacha20_counter_seek_witness:
  "snd (chacha20_encrypt (chacha20_counter_set \<lparr>schedule = replicate 16 7, keystream = [], available = 0\<rparr>
      (0xFFFFFFFF + of_nat 1)) [1, 2]) =
   drop (64 * 1) (snd (chacha20_encrypt (chacha20_counter_set
      \<lparr>schedule = replicate 16 7, keystream = [], available = 0\<rparr> 0xFFFFFFFF) (replicate 64 0 @ [1, 2])))"
  by (rule chacha20_counter_seek) simp_all

text \<open>The ten double rounds are injective on the sixteen-word states (no two schedules
  are merged before the feed-forward addition).\<close>
theorem chacha20_rounds_injective: "inj_on (chacha20_rounds 10) {x. length x = 16}"
  by (auto intro!: inj_onI dest: rounds_inj)

text \<open>With the 32-byte or 16-byte key the length announces and a nonce of at least eight
  bytes, setup reads only inside its arguments and yields a well-formed context at block 0.\<close>
theorem chacha20_setup_safe:
  assumes "len = 32 \<or> len = 16" "length key = len" "8 \<le> length nonce"
  shows "\<exists>ctx'. chacha20_setup ctx key len nonce = Some ctx' \<and> chacha_wf ctx' \<and>
    available ctx' = 0 \<and> schedule ctx' ! 12 = 0 \<and> schedule ctx' ! 13 = 0"
  using assms by (auto simp: chacha20_setup_def read_LE_def ascii_def Let_def chacha_wf_def)

lemma chacha20_setup_safe_witness:
  "\<exists>ctx'. chacha20_setup \<lparr>schedule = [], keystream = [], available = 3\<rparr> (replicate 32 1) 32 (replicate 8 2)
     = Some ctx' \<and> chacha_wf ctx' \<and> available ctx' = 0 \<and> schedule ctx' ! 12 = 0 \<and> schedule ctx' ! 13 = 0"
  by (rule chacha20_setup_safe) simp_all

end
