(* ===== verification/Digest_Machine.thy ===== *)
theory Digest_Machine
  imports Prelude
begin

text \<open>
  The interface that every hash, MAC and buffered absorber of the program offers to its clients:
  a start state made from a key (or from whatever the context held before), an operation that
  absorbs more bytes, and one that produces the digest. The provider promises that a state
  represents the bytes absorbed so far, however they were split over calls, and that the digest
  depends on the key and on those bytes alone. A piece carries its bytes and whatever else the
  call depends on (the alignment of the pointer); \<open>fits\<close> is the range of its length argument.
\<close>

locale digest_machine =
  fixes valid :: "'k \<Rightarrow> bool"
    and fits :: "'p \<Rightarrow> bool"
    and bytes :: "'p \<Rightarrow> byte list"
    and init :: "'k \<Rightarrow> 's"
    and update :: "'s \<Rightarrow> 'p \<Rightarrow> 's"
    and final :: "'s \<Rightarrow> byte list"
    and absorbed :: "'k \<Rightarrow> 's \<Rightarrow> byte list \<Rightarrow> bool"
    and digest :: "'k \<Rightarrow> byte list \<Rightarrow> byte list"
  assumes absorbed_init: "valid k \<Longrightarrow> absorbed k (init k) []"
    and absorbed_update: "absorbed k s xs \<Longrightarrow> fits p \<Longrightarrow> absorbed k (update s p) (xs @ bytes p)"
    and final_absorbed: "absorbed k s xs \<Longrightarrow> final s = digest k xs"
begin

lemma absorbed_fold:
  "absorbed k s xs \<Longrightarrow> \<forall>p \<in> set ps. fits p \<Longrightarrow>
   absorbed k (fold (\<lambda>p s. update s p) ps s) (xs @ concat (map bytes ps))"
proof (induction ps arbitrary: s xs)
  case (Cons p ps)
  then have "absorbed k (update s p) (xs @ bytes p)" by (simp add: absorbed_update)
  from Cons.IH [OF this] Cons.prems show ?case by simp
qed simp

lemma final_fold:
  assumes "valid k" "\<forall>p \<in> set ps. fits p"
  shows "final (fold (\<lambda>p s. update s p) ps (init k)) = digest k (concat (map bytes ps))"
  using absorbed_fold [OF absorbed_init [OF assms(1)] assms(2)] by (simp add: final_absorbed)

lemma final_one: "valid k \<Longrightarrow> fits p \<Longrightarrow> final (update (init k) p) = digest k (bytes p)"
  using final_fold [of k "[p]"] by simp

lemma final_two:
  "valid k \<Longrightarrow> fits p \<Longrightarrow> fits q \<Longrightarrow> final (update (update (init k) p) q) = digest k (bytes p @ bytes q)"
  using final_fold [of k "[p, q]"] by simp

lemma split_irrelevant:
  assumes "valid k" "\<forall>p \<in> set ps. fits p" "\<forall>p \<in> set qs. fits p"
    and "concat (map bytes ps) = concat (map bytes qs)"
  shows "final (fold (\<lambda>p s. update s p) ps (init k)) = final (fold (\<lambda>p s. update s p) qs (init k))"
  using assms by (simp add: final_fold)

end

end
