(* ===== verification/Poly1305.thy ===== *)
theory Poly1305
  imports Digest_Machine
begin

text \<open>
  Personal-HomeKit-HAP/poly1305-opt-master/poly1305.c: the one-time authenticator of the HomeKit
  session layer, in its 32-bit-limb form. \<open>unsigned long\<close> is the 32-bit word of the ARM boards
  the program runs on and \<open>unsigned long long\<close> the 64-bit word; both wrap. The five 26-bit limbs
  of the accumulator and of the key are kept as lists in the state record, as in the struct,
  and as the local variables the loop body works on.
\<close>

section \<open>The code\<close>

record poly1305_state =
  p_r :: "u32 list"
  p_h :: "u32 list"
  p_pad :: "u32 list"
  p_leftover :: nat
  p_buffer :: "byte list"
  p_final :: byte

definition U8TO32 :: "byte list \<Rightarrow> nat \<Rightarrow> u32" where
  "U8TO32 p i = (ucast (p ! i) OR push_bit 8 (ucast (p ! (i + 1)))
     OR push_bit 16 (ucast (p ! (i + 2))) OR push_bit 24 (ucast (p ! (i + 3))))"

definition U32TO8 :: "u32 \<Rightarrow> byte list" where
  "U32TO8 v = [ucast (v AND 0xff), ucast (drop_bit 8 v AND 0xff),
     ucast (drop_bit 16 v AND 0xff), ucast (drop_bit 24 v AND 0xff)]"

definition poly1305_init :: "poly1305_state \<Rightarrow> byte list \<Rightarrow> poly1305_state" where
  "poly1305_init st key = st\<lparr>
     p_r := [U8TO32 key 0 AND 0x3ffffff,
             drop_bit 2 (U8TO32 key 3) AND 0x3ffff03,
             drop_bit 4 (U8TO32 key 6) AND 0x3ffc0ff,
             drop_bit 6 (U8TO32 key 9) AND 0x3f03fff,
             drop_bit 8 (U8TO32 key 12) AND 0x00fffff],
     p_h := [0, 0, 0, 0, 0],
     p_pad := [U8TO32 key 16, U8TO32 key 20, U8TO32 key 24, U8TO32 key 28],
     p_leftover := 0,
     p_final := 0\<rparr>"

type_synonym limbs = "u32 \<times> u32 \<times> u32 \<times> u32 \<times> u32"

text \<open>The five 64-bit products of \<open>h *= r\<close>, with \<open>s1..s4\<close> the limbs of the key times 5.\<close>

definition poly1305_products :: "limbs \<Rightarrow> limbs \<Rightarrow> u64 \<times> u64 \<times> u64 \<times> u64 \<times> u64" where
  "poly1305_products h r =
     (let (h0, h1, h2, h3, h4) = h; (r0, r1, r2, r3, r4) = r;
          s1 = r1 * 5; s2 = r2 * 5; s3 = r3 * 5; s4 = r4 * 5;
          d0 = ucast h0 * ucast r0 + ucast h1 * ucast s4 + ucast h2 * ucast s3 +
               ucast h3 * ucast s2 + ucast h4 * ucast s1;
          d1 = ucast h0 * ucast r1 + ucast h1 * ucast r0 + ucast h2 * ucast s4 +
               ucast h3 * ucast s3 + ucast h4 * ucast s2;
          d2 = ucast h0 * ucast r2 + ucast h1 * ucast r1 + ucast h2 * ucast r0 +
               ucast h3 * ucast s4 + ucast h4 * ucast s3;
          d3 = ucast h0 * ucast r3 + ucast h1 * ucast r2 + ucast h2 * ucast r1 +
               ucast h3 * ucast r0 + ucast h4 * ucast s4;
          d4 = ucast h0 * ucast r4 + ucast h1 * ucast r3 + ucast h2 * ucast r2 +
               ucast h3 * ucast r1 + ucast h4 * ucast r0
      in (d0, d1, d2, d3, d4))"

text \<open>The partial reduction: carries of 26 bits, the last one times 5 back into the first limb.\<close>

definition poly1305_carry :: "u64 \<times> u64 \<times> u64 \<times> u64 \<times> u64 \<Rightarrow> limbs" where
  "poly1305_carry d =
     (let (d0, d1, d2, d3, d4) = d;
          c = ucast (drop_bit 26 d0) :: u32; h0 = (ucast d0 :: u32) AND 0x3ffffff;
          d1 = d1 + ucast c;
          c = ucast (drop_bit 26 d1) :: u32; h1 = (ucast d1 :: u32) AND 0x3ffffff;
          d2 = d2 + ucast c;
          c = ucast (drop_bit 26 d2) :: u32; h2 = (ucast d2 :: u32) AND 0x3ffffff;
          d3 = d3 + ucast c;
          c = ucast (drop_bit 26 d3) :: u32; h3 = (ucast d3 :: u32) AND 0x3ffffff;
          d4 = d4 + ucast c;
          c = ucast (drop_bit 26 d4) :: u32; h4 = (ucast d4 :: u32) AND 0x3ffffff;
          h0 = h0 + c * 5;
          c = drop_bit 26 h0; h0 = h0 AND 0x3ffffff;
          h1 = h1 + c
      in (h0, h1, h2, h3, h4))"

definition poly1305_add_block :: "u32 \<Rightarrow> limbs \<Rightarrow> byte list \<Rightarrow> limbs" where
  "poly1305_add_block hibit h m =
     (let (h0, h1, h2, h3, h4) = h in
      (h0 + (U8TO32 m 0 AND 0x3ffffff),
       h1 + (drop_bit 2 (U8TO32 m 3) AND 0x3ffffff),
       h2 + (drop_bit 4 (U8TO32 m 6) AND 0x3ffffff),
       h3 + (drop_bit 6 (U8TO32 m 9) AND 0x3ffffff),
       h4 + (drop_bit 8 (U8TO32 m 12) OR hibit)))"

function poly1305_loop :: "u32 \<Rightarrow> limbs \<Rightarrow> limbs \<Rightarrow> byte list \<Rightarrow> limbs" where
  "poly1305_loop hibit r h m =
     (if 16 \<le> length m
      then poly1305_loop hibit r
             (poly1305_carry (poly1305_products (poly1305_add_block hibit h m) r)) (drop 16 m)
      else h)"
  by pat_completeness auto
termination
  by (relation "measure (\<lambda>(hibit, r, h, m). length m)") auto

declare poly1305_loop.simps [simp del]

definition limbs_of :: "u32 list \<Rightarrow> limbs" where
  "limbs_of x = (x ! 0, x ! 1, x ! 2, x ! 3, x ! 4)"

definition list_of :: "limbs \<Rightarrow> u32 list" where
  "list_of h = (case h of (h0, h1, h2, h3, h4) \<Rightarrow> [h0, h1, h2, h3, h4])"

definition poly1305_blocks :: "poly1305_state \<Rightarrow> byte list \<Rightarrow> poly1305_state" where
  "poly1305_blocks st m =
     (let hibit = (if p_final st \<noteq> 0 then 0 else push_bit 24 1)
      in st\<lparr>p_h := list_of (poly1305_loop hibit (limbs_of (p_r st)) (limbs_of (p_h st)) m)\<rparr>)"

text \<open>The two last parts of \<open>poly1305_update\<close>: the full blocks, then the leftover into the buffer.\<close>

definition poly1305_update_rest :: "poly1305_state \<Rightarrow> byte list \<Rightarrow> poly1305_state" where
  "poly1305_update_rest st m =
     (let (st, m) =
        (if 16 \<le> length m then
           let want = length m - length m mod 16
           in (poly1305_blocks st (take want m), drop want m)
         else (st, m))
      in if length m \<noteq> 0 then
           st\<lparr>p_buffer := buffer_copy (p_buffer st) (p_leftover st) m,
              p_leftover := p_leftover st + length m\<rparr>
         else st)"

definition poly1305_update :: "poly1305_state \<Rightarrow> byte list \<Rightarrow> poly1305_state" where
  "poly1305_update st m =
     (if p_leftover st \<noteq> 0 then
        let want = min (16 - p_leftover st) (length m);
            st = st\<lparr>p_buffer := buffer_copy (p_buffer st) (p_leftover st) (take want m)\<rparr>;
            m = drop want m;
            st = st\<lparr>p_leftover := p_leftover st + want\<rparr>
        in if p_leftover st < 16 then st
           else poly1305_update_rest ((poly1305_blocks st (p_buffer st))\<lparr>p_leftover := 0\<rparr>) m
      else poly1305_update_rest st m)"

definition poly1305_full_carry :: "limbs \<Rightarrow> limbs" where
  "poly1305_full_carry h =
     (let (h0, h1, h2, h3, h4) = h;
          c = drop_bit 26 h1; h1 = h1 AND 0x3ffffff;
          h2 = h2 + c; c = drop_bit 26 h2; h2 = h2 AND 0x3ffffff;
          h3 = h3 + c; c = drop_bit 26 h3; h3 = h3 AND 0x3ffffff;
          h4 = h4 + c; c = drop_bit 26 h4; h4 = h4 AND 0x3ffffff;
          h0 = h0 + c * 5; c = drop_bit 26 h0; h0 = h0 AND 0x3ffffff;
          h1 = h1 + c
      in (h0, h1, h2, h3, h4))"

text \<open>\<open>h + -p\<close>, and the constant-time selection of \<open>h\<close> or \<open>h - p\<close> by a mask.\<close>

definition poly1305_select :: "limbs \<Rightarrow> limbs" where
  "poly1305_select h =
     (let (h0, h1, h2, h3, h4) = h;
          g0 = h0 + 5; c = drop_bit 26 g0; g0 = g0 AND 0x3ffffff;
          g1 = h1 + c; c = drop_bit 26 g1; g1 = g1 AND 0x3ffffff;
          g2 = h2 + c; c = drop_bit 26 g2; g2 = g2 AND 0x3ffffff;
          g3 = h3 + c; c = drop_bit 26 g3; g3 = g3 AND 0x3ffffff;
          g4 = h4 + c - push_bit 26 1;
          mask = drop_bit 31 g4 - 1;
          g0 = g0 AND mask; g1 = g1 AND mask; g2 = g2 AND mask; g3 = g3 AND mask;
          g4 = g4 AND mask;
          mask = NOT mask
      in ((h0 AND mask) OR g0, (h1 AND mask) OR g1, (h2 AND mask) OR g2,
          (h3 AND mask) OR g3, (h4 AND mask) OR g4))"

text \<open>\<open>h % 2^128\<close> as four 32-bit words.\<close>

definition poly1305_pack :: "limbs \<Rightarrow> u32 list" where
  "poly1305_pack h =
     (let (h0, h1, h2, h3, h4) = h in
      [(h0 OR push_bit 26 h1) AND 0xffffffff,
       (drop_bit 6 h1 OR push_bit 20 h2) AND 0xffffffff,
       (drop_bit 12 h2 OR push_bit 14 h3) AND 0xffffffff,
       (drop_bit 18 h3 OR push_bit 8 h4) AND 0xffffffff])"

definition poly1305_add_pad :: "u32 list \<Rightarrow> u32 list \<Rightarrow> u32 list" where
  "poly1305_add_pad h pad =
     (let f = ucast (h ! 0) + ucast (pad ! 0) :: u64; h0 = ucast f;
          f = ucast (h ! 1) + ucast (pad ! 1) + drop_bit 32 f; h1 = ucast f;
          f = ucast (h ! 2) + ucast (pad ! 2) + drop_bit 32 f; h2 = ucast f;
          f = ucast (h ! 3) + ucast (pad ! 3) + drop_bit 32 f; h3 = ucast f
      in [h0, h1, h2, h3])"

definition poly1305_finish :: "poly1305_state \<Rightarrow> poly1305_state \<times> byte list" where
  "poly1305_finish st =
     (let st =
        (if p_leftover st \<noteq> 0 then
           let i = p_leftover st;
               st = st\<lparr>p_buffer := (p_buffer st)[i := 1]\<rparr>;
               st = st\<lparr>p_buffer := buffer_copy (p_buffer st) (i + 1) (replicate (16 - (i + 1)) 0)\<rparr>;
               st = st\<lparr>p_final := 1\<rparr>
           in poly1305_blocks st (p_buffer st)
         else st);
          h = poly1305_full_carry (limbs_of (p_h st));
          h = poly1305_select h;
          h = poly1305_add_pad (poly1305_pack h) (p_pad st);
          mac = concat (map U32TO8 h)
      in (st\<lparr>p_h := [0, 0, 0, 0, 0], p_r := [0, 0, 0, 0, 0], p_pad := [0, 0, 0, 0]\<rparr>, mac))"

section \<open>Limb values\<close>

definition limb_val :: "limbs \<Rightarrow> nat" where
  "limb_val h = (case h of (h0, h1, h2, h3, h4) \<Rightarrow>
     unat h0 + 2 ^ 26 * unat h1 + 2 ^ 52 * unat h2 + 2 ^ 78 * unat h3 + 2 ^ 104 * unat h4)"

definition limbs_le :: "nat \<Rightarrow> limbs \<Rightarrow> bool" where
  "limbs_le B h = (case h of (h0, h1, h2, h3, h4) \<Rightarrow>
     unat h0 \<le> B \<and> unat h1 \<le> B \<and> unat h2 \<le> B \<and> unat h3 \<le> B \<and> unat h4 \<le> B)"

text \<open>The bound every partial reduction establishes: only the second limb can exceed 26 bits.\<close>

definition limbs_red :: "limbs \<Rightarrow> bool" where
  "limbs_red h = (case h of (h0, h1, h2, h3, h4) \<Rightarrow>
     unat h0 < 2 ^ 26 \<and> unat h1 \<le> 2 ^ 26 + 2 ^ 6 \<and> unat h2 < 2 ^ 26 \<and> unat h3 < 2 ^ 26 \<and> unat h4 < 2 ^ 26)"

lemma limbs_red_le: "limbs_red h \<Longrightarrow> limbs_le (2 ^ 26 + 2 ^ 6) h"
  by (auto simp: limbs_red_def limbs_le_def)

abbreviation prime1305 :: nat where
  "prime1305 \<equiv> 2 ^ 130 - 5"

text \<open>One product of a limb of the accumulator and a limb of the key (times 5 at most).\<close>

lemma unat_limb_product:
  fixes h r :: u32
  assumes "unat h \<le> 2 ^ 27 + 2 ^ 7" "unat r \<le> 5 * 2 ^ 26"
  shows "unat (ucast h * ucast r :: u64) = unat h * unat r \<and> unat h * unat r \<le> 5 * 2 ^ 26 * (2 ^ 27 + 2 ^ 7)"
proof -
  have "unat h * unat r \<le> (2 ^ 27 + 2 ^ 7) * (5 * 2 ^ 26)"
    using assms by (rule mult_le_mono)
  moreover have "unat (ucast x :: u64) = unat x" for x :: u32 by (simp add: unat_ucast_up)
  ultimately show ?thesis
    by (subst unat_mult_exact) simp_all
qed

lemma unat_dot5:
  assumes "\<forall>x \<in> {a0, a1, a2, a3, a4}. unat x \<le> 2 ^ 27 + 2 ^ 7"
    "\<forall>x \<in> {b0, b1, b2, b3, b4}. unat x \<le> 5 * 2 ^ 26"
  shows "unat (ucast a0 * ucast b0 + ucast a1 * ucast b1 + ucast a2 * ucast b2
      + ucast a3 * ucast b3 + ucast a4 * ucast b4 :: u64) =
    unat (a0 :: u32) * unat (b0 :: u32) + unat (a1 :: u32) * unat (b1 :: u32) +
    unat (a2 :: u32) * unat (b2 :: u32) + unat (a3 :: u32) * unat (b3 :: u32) +
    unat (a4 :: u32) * unat (b4 :: u32)"
proof -
  have p: "unat (ucast x * ucast y :: u64) = unat x * unat y \<and> unat x * unat y \<le> 5 * 2 ^ 26 * (2 ^ 27 + 2 ^ 7)"
    if "(x, y) \<in> {(a0, b0), (a1, b1), (a2, b2), (a3, b3), (a4, b4)}" for x y :: u32
    using that assms by (intro unat_limb_product) auto
  show ?thesis
    using p [of a0 b0] p [of a1 b1] p [of a2 b2] p [of a3 b3] p [of a4 b4]
    by (simp add: unat_add_exact)
qed

lemma products_value:
  fixes r0 r1 r2 r3 r4 :: u32
  assumes "limbs_le (2 ^ 27 + 2 ^ 7) (h0, h1, h2, h3, h4)"
    "limbs_le (2 ^ 26 - 1) (r0, r1, r2, r3, r4)"
    "poly1305_products (h0, h1, h2, h3, h4) (r0, r1, r2, r3, r4) = (d0, d1, d2, d3, d4)"
  shows
    "unat d0 = unat h0 * unat r0 + unat h1 * (5 * unat r4) + unat h2 * (5 * unat r3)
             + unat h3 * (5 * unat r2) + unat h4 * (5 * unat r1)"
    "unat d1 = unat h0 * unat r1 + unat h1 * unat r0 + unat h2 * (5 * unat r4)
             + unat h3 * (5 * unat r3) + unat h4 * (5 * unat r2)"
    "unat d2 = unat h0 * unat r2 + unat h1 * unat r1 + unat h2 * unat r0
             + unat h3 * (5 * unat r4) + unat h4 * (5 * unat r3)"
    "unat d3 = unat h0 * unat r3 + unat h1 * unat r2 + unat h2 * unat r1
             + unat h3 * unat r0 + unat h4 * (5 * unat r4)"
    "unat d4 = unat h0 * unat r4 + unat h1 * unat r3 + unat h2 * unat r2
             + unat h3 * unat r1 + unat h4 * unat r0"
proof -
  have s: "unat (r * 5) = 5 * unat r" if "unat r \<le> 2 ^ 26 - 1" for r :: u32
    using that by (subst unat_mult_exact) simp_all
  have r: "unat r0 \<le> 2 ^ 26 - 1" "unat r1 \<le> 2 ^ 26 - 1" "unat r2 \<le> 2 ^ 26 - 1"
    "unat r3 \<le> 2 ^ 26 - 1" "unat r4 \<le> 2 ^ 26 - 1"
    using assms(2) by (simp_all add: limbs_le_def)
  have s5: "unat (r1 * 5) = 5 * unat r1" "unat (r2 * 5) = 5 * unat r2"
    "unat (r3 * 5) = 5 * unat r3" "unat (r4 * 5) = 5 * unat r4"
    using r by (simp_all only: s)
  have h: "unat h0 \<le> 2 ^ 27 + 2 ^ 7" "unat h1 \<le> 2 ^ 27 + 2 ^ 7" "unat h2 \<le> 2 ^ 27 + 2 ^ 7"
    "unat h3 \<le> 2 ^ 27 + 2 ^ 7" "unat h4 \<le> 2 ^ 27 + 2 ^ 7"
    using assms(1) by (simp_all add: limbs_le_def)
  have b: "\<forall>x \<in> {b0, b1, b2, b3, b4}. unat x \<le> 5 * 2 ^ 26"
    if "set [b0, b1, b2, b3, b4] \<subseteq> {r0, r1, r2, r3, r4, r1 * 5, r2 * 5, r3 * 5, r4 * 5}"
    for b0 b1 b2 b3 b4 :: u32
  proof -
    have "\<forall>x \<in> {r0, r1, r2, r3, r4, r1 * 5, r2 * 5, r3 * 5, r4 * 5}. unat x \<le> 5 * 2 ^ 26"
      using r s5 by auto
    then have "\<forall>x \<in> set [b0, b1, b2, b3, b4]. unat x \<le> 5 * 2 ^ 26" using that by blast
    then show ?thesis by simp
  qed
  have a: "\<forall>x \<in> {h0, h1, h2, h3, h4}. unat x \<le> 2 ^ 27 + 2 ^ 7" using h by simp
  note dot = unat_dot5 [OF a b]
  have d: "poly1305_products (h0, h1, h2, h3, h4) (r0, r1, r2, r3, r4) = (d0, d1, d2, d3, d4)"
    by (rule assms(3))
  show
    "unat d0 = unat h0 * unat r0 + unat h1 * (5 * unat r4) + unat h2 * (5 * unat r3)
             + unat h3 * (5 * unat r2) + unat h4 * (5 * unat r1)"
    "unat d1 = unat h0 * unat r1 + unat h1 * unat r0 + unat h2 * (5 * unat r4)
             + unat h3 * (5 * unat r3) + unat h4 * (5 * unat r2)"
    "unat d2 = unat h0 * unat r2 + unat h1 * unat r1 + unat h2 * unat r0
             + unat h3 * (5 * unat r4) + unat h4 * (5 * unat r3)"
    "unat d3 = unat h0 * unat r3 + unat h1 * unat r2 + unat h2 * unat r1
             + unat h3 * unat r0 + unat h4 * (5 * unat r4)"
    "unat d4 = unat h0 * unat r4 + unat h1 * unat r3 + unat h2 * unat r2
             + unat h3 * unat r1 + unat h4 * unat r0"
    using d by (auto simp: poly1305_products_def Let_def dot s5)
qed

text \<open>One carry out of a 64-bit column.\<close>

lemma carry_out:
  assumes "unat d < 2 ^ 58"
  shows "unat (ucast (drop_bit 26 d) :: u32) = unat (d :: u64) div 2 ^ 26"
    "unat ((ucast d :: u32) AND 0x3ffffff) = unat d mod 2 ^ 26"
proof -
  have "unat d div 2 ^ 26 < 2 ^ 32"
    using assms by (simp add: less_mult_imp_div_less)
  then show "unat (ucast (drop_bit 26 d) :: u32) = unat d div 2 ^ 26"
    by (simp add: unat_ucast_mod unat_drop_bit_div)
  have "unat d mod 2 ^ 32 mod 2 ^ 26 = unat d mod 2 ^ 26"
    by (simp add: mod_mod_cancel)
  then show "unat ((ucast d :: u32) AND 0x3ffffff) = unat d mod 2 ^ 26"
    by (simp add: unat_and_26 unat_ucast_mod)
qed

lemma carry_in:
  assumes "unat d < 2 ^ 58 - 2 ^ 33"
  shows "unat (d + ucast (c :: u32) :: u64) = unat d + unat c \<and> unat d + unat c < 2 ^ 58"
proof -
  have "unat c < 2 ^ 32" using unat_u32_less [of c] by simp
  then show ?thesis
    using assms by (subst unat_add_exact) (simp_all add: unat_ucast_up)
qed

lemma div_mod_26: "x = x mod 2 ^ 26 + 2 ^ 26 * (x div 2 ^ 26)" for x :: nat
  by simp

lemma carry_sum:
  fixes a0 :: nat
  assumes "d0 = a0 + 2 ^ 26 * c0" "d1 + c0 = a1 + 2 ^ 26 * c1" "d2 + c1 = a2 + 2 ^ 26 * c2"
    "d3 + c2 = a3 + 2 ^ 26 * c3" "d4 + c3 = a4 + 2 ^ 26 * c4" "a0 + c4 * 5 = b0 + 2 ^ 26 * k"
  shows "b0 + 2 ^ 26 * (a1 + k) + 2 ^ 52 * a2 + 2 ^ 78 * a3 + 2 ^ 104 * a4 + c4 * prime1305 =
    d0 + 2 ^ 26 * d1 + 2 ^ 52 * d2 + 2 ^ 78 * d3 + 2 ^ 104 * d4"
  using assms by simp

lemma carry_value:
  fixes d0 d1 d2 d3 d4 :: u64
  assumes d: "unat d0 < 2 ^ 58 - 2 ^ 33" "unat d1 < 2 ^ 58 - 2 ^ 33" "unat d2 < 2 ^ 58 - 2 ^ 33"
      "unat d3 < 2 ^ 58 - 2 ^ 33" "unat d4 \<le> 5 * (2 ^ 27 + 2 ^ 7) * 2 ^ 26"
    and h: "poly1305_carry (d0, d1, d2, d3, d4) = (h0, h1, h2, h3, h4)"
  shows "\<exists>q. limb_val (h0, h1, h2, h3, h4) + q * prime1305 =
      unat d0 + 2 ^ 26 * unat d1 + 2 ^ 52 * unat d2 + 2 ^ 78 * unat d3 + 2 ^ 104 * unat d4"
    and "limbs_red (h0, h1, h2, h3, h4)"
proof -
  define c0 where "c0 = (ucast (drop_bit 26 d0) :: u32)"
  define e1 where "e1 = d1 + ucast c0"
  define c1 where "c1 = (ucast (drop_bit 26 e1) :: u32)"
  define e2 where "e2 = d2 + ucast c1"
  define c2 where "c2 = (ucast (drop_bit 26 e2) :: u32)"
  define e3 where "e3 = d3 + ucast c2"
  define c3 where "c3 = (ucast (drop_bit 26 e3) :: u32)"
  define e4 where "e4 = d4 + ucast c3"
  define c4 where "c4 = (ucast (drop_bit 26 e4) :: u32)"
  define g0 where "g0 = ((ucast d0 :: u32) AND 0x3ffffff) + c4 * 5"
  define g1 where "g1 = (ucast e1 :: u32) AND 0x3ffffff"
  have hs: "h0 = g0 AND 0x3ffffff" "h1 = g1 + drop_bit 26 g0"
    "h2 = ucast e2 AND 0x3ffffff" "h3 = ucast e3 AND 0x3ffffff" "h4 = ucast e4 AND 0x3ffffff"
    using h unfolding poly1305_carry_def Let_def prod.case c0_def c1_def c2_def c3_def c4_def
      e1_def e2_def e3_def e4_def g0_def g1_def by simp_all
  have v0: "unat c0 = unat d0 div 2 ^ 26" unfolding c0_def using d(1) by (intro carry_out) simp
  have e1: "unat e1 = unat d1 + unat c0" "unat e1 < 2 ^ 58" unfolding e1_def using carry_in [OF d(2), of c0] by simp_all
  have v1: "unat c1 = unat e1 div 2 ^ 26" unfolding c1_def using e1 by (intro carry_out) simp
  have e2: "unat e2 = unat d2 + unat c1" "unat e2 < 2 ^ 58" unfolding e2_def using carry_in [OF d(3), of c1] by simp_all
  have v2: "unat c2 = unat e2 div 2 ^ 26" unfolding c2_def using e2 by (intro carry_out) simp
  have e3: "unat e3 = unat d3 + unat c2" "unat e3 < 2 ^ 58" unfolding e3_def using carry_in [OF d(4), of c2] by simp_all
  have v3: "unat c3 = unat e3 div 2 ^ 26" unfolding c3_def using e3 by (intro carry_out) simp
  have e4: "unat e4 = unat d4 + unat c3" "unat e4 < 2 ^ 58"
    unfolding e4_def using d(5) carry_in [of d4 c3] by simp_all
  have v4: "unat c4 = unat e4 div 2 ^ 26" unfolding c4_def using e4 by (intro carry_out) simp
  have "unat c3 < 2 ^ 32" using unat_u32_less [of c3] by simp
  then have c4: "unat c4 \<le> 5 * (2 ^ 27 + 2 ^ 7) + 64" using v4 e4 d(5) by simp
  have m0: "unat ((ucast d0 :: u32) AND 0x3ffffff) = unat d0 mod 2 ^ 26"
    using d(1) by (intro carry_out) simp
  have s4: "unat (c4 * 5) = unat c4 * 5"
    using c4 by (subst unat_mult_exact) simp_all
  have "unat d0 mod 2 ^ 26 < 2 ^ 26" by simp
  then have g0: "unat g0 = unat d0 mod 2 ^ 26 + unat c4 * 5"
    unfolding g0_def using c4 by (subst unat_add_exact) (simp_all add: m0 s4)
  have g1: "unat g1 = unat e1 mod 2 ^ 26" unfolding g1_def using e1 by (intro carry_out) simp
  have dg: "unat (drop_bit 26 g0) = unat g0 div 2 ^ 26" by (rule unat_drop_bit_div)
  have dl: "unat g0 div 2 ^ 26 \<le> 2 ^ 6" using unat_u32_less [of g0] by simp
  have h0: "unat h0 = unat g0 mod 2 ^ 26" unfolding hs by (rule unat_and_26)
  have g1l: "unat e1 mod 2 ^ 26 < 2 ^ 26" by simp
  have h1: "unat h1 = unat e1 mod 2 ^ 26 + unat g0 div 2 ^ 26"
    unfolding hs using dl g1l by (subst unat_add_exact) (simp_all add: g1 dg)
  have h2: "unat h2 = unat e2 mod 2 ^ 26" unfolding hs using e2 by (intro carry_out) simp
  have h3: "unat h3 = unat e3 mod 2 ^ 26" unfolding hs using e3 by (intro carry_out) simp
  have h4: "unat h4 = unat e4 mod 2 ^ 26" unfolding hs using e4 by (intro carry_out) simp
  show "limbs_red (h0, h1, h2, h3, h4)"
    unfolding limbs_red_def prod.case h0 h1 h2 h3 h4
    using dl g1l by simp
  have "limb_val (h0, h1, h2, h3, h4) + unat c4 * prime1305 =
      unat d0 + 2 ^ 26 * unat d1 + 2 ^ 52 * unat d2 + 2 ^ 78 * unat d3 + 2 ^ 104 * unat d4"
    unfolding limb_val_def prod.case h1 h2 h3 h4
    by (rule carry_sum [where ?b0.0 = "unat h0" and ?c0.0 = "unat c0" and ?c1.0 = "unat c1"
          and ?c2.0 = "unat c2" and ?c3.0 = "unat c3" and ?c4.0 = "unat c4"])
      (use div_mod_26 [of "unat d0"] div_mod_26 [of "unat e1"] div_mod_26 [of "unat e2"]
        div_mod_26 [of "unat e3"] div_mod_26 [of "unat e4"] div_mod_26 [of "unat g0"]
       in \<open>simp_all only: v0 v1 v2 v3 v4 e1(1) e2(1) e3(1) e4(1) g0 h0\<close>)
  then show "\<exists>q. limb_val (h0, h1, h2, h3, h4) + q * prime1305 =
      unat d0 + 2 ^ 26 * unat d1 + 2 ^ 52 * unat d2 + 2 ^ 78 * unat d3 + 2 ^ 104 * unat d4" ..
qed

lemma product_sum:
  fixes h0 :: nat
  shows "(h0 + 2 ^ 26 * h1 + 2 ^ 52 * h2 + 2 ^ 78 * h3 + 2 ^ 104 * h4) *
      (r0 + 2 ^ 26 * r1 + 2 ^ 52 * r2 + 2 ^ 78 * r3 + 2 ^ 104 * r4) =
    (h0 * r0 + h1 * (5 * r4) + h2 * (5 * r3) + h3 * (5 * r2) + h4 * (5 * r1)) +
    2 ^ 26 * (h0 * r1 + h1 * r0 + h2 * (5 * r4) + h3 * (5 * r3) + h4 * (5 * r2)) +
    2 ^ 52 * (h0 * r2 + h1 * r1 + h2 * r0 + h3 * (5 * r4) + h4 * (5 * r3)) +
    2 ^ 78 * (h0 * r3 + h1 * r2 + h2 * r1 + h3 * r0 + h4 * (5 * r4)) +
    2 ^ 104 * (h0 * r4 + h1 * r3 + h2 * r2 + h3 * r1 + h4 * r0) +
    prime1305 * ((h1 * r4 + h2 * r3 + h3 * r2 + h4 * r1) + 2 ^ 26 * (h2 * r4 + h3 * r3 + h4 * r2)
      + 2 ^ 52 * (h3 * r4 + h4 * r3) + 2 ^ 78 * (h4 * r4))"
  by (simp add: algebra_simps)

lemma mult_bound: "a \<le> A \<Longrightarrow> b \<le> B \<Longrightarrow> a * b \<le> A * (B :: nat)"
  by (rule mult_le_mono)

lemma multiply_reduce:
  assumes "limbs_le (2 ^ 27 + 2 ^ 7) h" "limbs_le (2 ^ 26 - 1) r"
  shows "limb_val (poly1305_carry (poly1305_products h r)) mod prime1305 =
      limb_val h * limb_val r mod prime1305"
    and "limbs_red (poly1305_carry (poly1305_products h r))"
proof -
  obtain h0 h1 h2 h3 h4 where h: "h = (h0, h1, h2, h3, h4)" by (metis prod_cases5)
  obtain r0 r1 r2 r3 r4 where r: "r = (r0, r1, r2, r3, r4)" by (metis prod_cases5)
  obtain d0 d1 d2 d3 d4 where d: "poly1305_products h r = (d0, d1, d2, d3, d4)" by (metis prod_cases5)
  obtain k0 k1 k2 k3 k4 where k: "poly1305_carry (d0, d1, d2, d3, d4) = (k0, k1, k2, k3, k4)"
    by (metis prod_cases5)
  note v = products_value [OF assms [unfolded h r] d [unfolded h r]]
  have hb: "unat x \<le> 2 ^ 27 + 2 ^ 7" if "x \<in> {h0, h1, h2, h3, h4}" for x
    using assms(1) that by (auto simp: h limbs_le_def)
  have rb: "unat x \<le> 2 ^ 26" "5 * unat x \<le> 5 * 2 ^ 26" if "x \<in> {r0, r1, r2, r3, r4}" for x
    using assms(2) that by (auto simp: r limbs_le_def)
  have p: "unat x * unat y \<le> (2 ^ 27 + 2 ^ 7) * 2 ^ 26"
    "unat x * (5 * unat y) \<le> (2 ^ 27 + 2 ^ 7) * (5 * 2 ^ 26)"
    if "x \<in> {h0, h1, h2, h3, h4}" "y \<in> {r0, r1, r2, r3, r4}" for x y
    using mult_bound [OF hb [OF that(1)] rb(1) [OF that(2)]] mult_bound [OF hb [OF that(1)] rb(2) [OF that(2)]]
    by blast+
  have b0: "unat d0 < 2 ^ 58 - 2 ^ 33"
    using p [of h0 r0] p [of h1 r4] p [of h2 r3] p [of h3 r2] p [of h4 r1] unfolding v(1) by simp
  have b1: "unat d1 < 2 ^ 58 - 2 ^ 33"
    using p [of h0 r1] p [of h1 r0] p [of h2 r4] p [of h3 r3] p [of h4 r2] unfolding v(2) by simp
  have b2: "unat d2 < 2 ^ 58 - 2 ^ 33"
    using p [of h0 r2] p [of h1 r1] p [of h2 r0] p [of h3 r4] p [of h4 r3] unfolding v(3) by simp
  have b3: "unat d3 < 2 ^ 58 - 2 ^ 33"
    using p [of h0 r3] p [of h1 r2] p [of h2 r1] p [of h3 r0] p [of h4 r4] unfolding v(4) by simp
  have b4: "unat d4 \<le> 5 * (2 ^ 27 + 2 ^ 7) * 2 ^ 26"
    using p [of h0 r4] p [of h1 r3] p [of h2 r2] p [of h3 r1] p [of h4 r0] unfolding v(5) by simp
  obtain q where q: "limb_val (k0, k1, k2, k3, k4) + q * prime1305 =
      unat d0 + 2 ^ 26 * unat d1 + 2 ^ 52 * unat d2 + 2 ^ 78 * unat d3 + 2 ^ 104 * unat d4"
    using carry_value(1) [OF b0 b1 b2 b3 b4 k] by blast
  obtain q' where "limb_val h * limb_val r =
      (unat d0 + 2 ^ 26 * unat d1 + 2 ^ 52 * unat d2 + 2 ^ 78 * unat d3 + 2 ^ 104 * unat d4)
      + prime1305 * q'"
    unfolding h r limb_val_def prod.case product_sum v by blast
  then have "limb_val h * limb_val r = limb_val (k0, k1, k2, k3, k4) + prime1305 * (q + q')"
    using q by (simp add: algebra_simps)
  then have "limb_val h * limb_val r mod prime1305 = limb_val (k0, k1, k2, k3, k4) mod prime1305"
    by (simp only: mod_mult_self2)
  then show "limb_val (poly1305_carry (poly1305_products h r)) mod prime1305 =
      limb_val h * limb_val r mod prime1305" by (simp only: d k)
  show "limbs_red (poly1305_carry (poly1305_products h r))"
    unfolding d k by (rule carry_value(2) [OF b0 b1 b2 b3 b4 k])
qed

lemma U8TO32_load: "i + 4 \<le> length p \<Longrightarrow> unat (U8TO32 p i) = le_val p div 256 ^ i mod 2 ^ 32"
  using unat_load_le32 [of "p ! i" "p ! (i + 1)" "p ! (i + 2)" "p ! (i + 3)"]
  by (simp only: U8TO32_def load_le32_def le_val_window or.assoc)

text \<open>Reading a 128-bit number in limbs of 26 bits from overlapping 32-bit loads.\<close>

lemma window_26: "s + 26 \<le> (32 :: nat) \<Longrightarrow> v div 256 ^ i mod 2 ^ 32 div 2 ^ s mod 2 ^ 26 = v div 2 ^ (8 * i + s) mod (2 ^ 26 :: nat)"
  by (rule window)

lemma digits_26:
  fixes v :: nat
  shows "v mod 2 ^ 26 + 2 ^ 26 * (v div 2 ^ 26 mod 2 ^ 26) + 2 ^ 52 * (v div 2 ^ 52 mod 2 ^ 26)
    + 2 ^ 78 * (v div 2 ^ 78 mod 2 ^ 26) + 2 ^ 104 * (v div 2 ^ 104) = v"
proof -
  define a where "a = v div 2 ^ 26"
  define b where "b = v div 2 ^ 52"
  define c where "c = v div 2 ^ 78"
  define d where "d = v div 2 ^ 104"
  have e: "b = a div 2 ^ 26" "c = b div 2 ^ 26" "d = c div 2 ^ 26"
    by (simp_all add: a_def b_def c_def d_def div_mult2_eq [symmetric])
  have "v mod 2 ^ 26 + 2 ^ 26 * a = v" unfolding a_def by (rule mod_mult_div_eq)
  moreover have "a mod 2 ^ 26 + 2 ^ 26 * b = a" "b mod 2 ^ 26 + 2 ^ 26 * c = b"
    "c mod 2 ^ 26 + 2 ^ 26 * d = c"
    unfolding e by (rule mod_mult_div_eq)+
  ultimately have "v mod 2 ^ 26 + 2 ^ 26 * (a mod 2 ^ 26 + 2 ^ 26 * (b mod 2 ^ 26 +
      2 ^ 26 * (c mod 2 ^ 26 + 2 ^ 26 * d))) = v" by (simp only:)
  then show ?thesis unfolding a_def [symmetric] b_def [symmetric] c_def [symmetric] d_def [symmetric]
    by (simp add: distrib_left)
qed

lemma digits_sum:
  fixes v :: nat
  shows "(h0 + v mod 2 ^ 26) + 2 ^ 26 * (h1 + v div 2 ^ 26 mod 2 ^ 26) +
      2 ^ 52 * (h2 + v div 2 ^ 52 mod 2 ^ 26) + 2 ^ 78 * (h3 + v div 2 ^ 78 mod 2 ^ 26) +
      2 ^ 104 * (h4 + (v div 2 ^ 104 + b)) =
    h0 + 2 ^ 26 * h1 + 2 ^ 52 * h2 + 2 ^ 78 * h3 + 2 ^ 104 * h4 + (v + 2 ^ 104 * b)"
  by (subst (5) digits_26 [symmetric]) (simp only: distrib_left ac_simps)

lemma add_block_value:
  assumes h: "limbs_le (2 ^ 26 + 2 ^ 6) h" and m: "16 \<le> length m"
    and b: "hibit = 0 \<or> hibit = push_bit 24 1"
  shows "limb_val (poly1305_add_block hibit h m) =
      limb_val h + (le_val (take 16 m) + 2 ^ 104 * unat hibit)"
    and "limbs_le (2 ^ 27 + 2 ^ 7) (poly1305_add_block hibit h m)"
proof -
  obtain h0 h1 h2 h3 h4 where hh: "h = (h0, h1, h2, h3, h4)" by (metis prod_cases5)
  define v where "v = le_val (take 16 m)"
  have "length (take 16 m) = 16" using m by simp
  then have v: "v < 2 ^ 128" using le_val_less [of "take 16 m"] by (simp only: v_def) simp
  have ld: "unat (U8TO32 m i) = v div 256 ^ i mod 2 ^ 32" if "i + 4 \<le> 16" for i
    using U8TO32_load [of i "take 16 m"] that m by (simp add: v_def U8TO32_def)
  have w: "unat (drop_bit s (U8TO32 m i) AND 0x3ffffff) = v div 2 ^ (8 * i + s) mod 2 ^ 26"
    if "i + 4 \<le> 16" "s + 26 \<le> 32" for s i
    unfolding unat_and_26 unat_drop_bit_div ld [OF that(1)] by (rule window_26 [OF that(2)])
  have w0: "unat (U8TO32 m 0 AND 0x3ffffff) = v mod 2 ^ 26" using w [of 0 0] by simp
  have w1: "unat (drop_bit 2 (U8TO32 m 3) AND 0x3ffffff) = v div 2 ^ 26 mod 2 ^ 26" using w [of 3 2] by simp
  have w2: "unat (drop_bit 4 (U8TO32 m 6) AND 0x3ffffff) = v div 2 ^ 52 mod 2 ^ 26" using w [of 6 4] by simp
  have w3: "unat (drop_bit 6 (U8TO32 m 9) AND 0x3ffffff) = v div 2 ^ 78 mod 2 ^ 26" using w [of 9 6] by simp
  have t: "unat (drop_bit 8 (U8TO32 m 12)) = v div 2 ^ 104"
  proof -
    have "v div 2 ^ 96 < 2 ^ 32" using v by (simp add: less_mult_imp_div_less)
    then show ?thesis
      unfolding unat_drop_bit_div by (simp add: ld div_mult2_eq [symmetric])
  qed
  have tb: "v div 2 ^ 104 < 2 ^ 24" using v by (simp add: less_mult_imp_div_less)
  have w4: "unat (drop_bit 8 (U8TO32 m 12) OR hibit) = v div 2 ^ 104 + unat hibit"
    using b
  proof
    assume "hibit = push_bit 24 1"
    then show ?thesis using tb t by (simp only:) (subst unat_or_disjoint, simp_all)
  qed (use t in simp)
  have hb: "unat hibit \<le> 2 ^ 24" using b by auto
  have l: "unat h0 \<le> 2 ^ 26 + 2 ^ 6" "unat h1 \<le> 2 ^ 26 + 2 ^ 6" "unat h2 \<le> 2 ^ 26 + 2 ^ 6"
    "unat h3 \<le> 2 ^ 26 + 2 ^ 6" "unat h4 \<le> 2 ^ 26 + 2 ^ 6"
    using h by (simp_all add: hh limbs_le_def)
  have sm: "unat (x + y) = unat x + unat y \<and> unat x + unat y \<le> 2 ^ 27 + 2 ^ 7"
    if "unat x \<le> 2 ^ 26 + 2 ^ 6" "unat y \<le> 2 ^ 26" for x y :: u32
    using that by (subst unat_add_exact) simp_all
  have m26: "x mod 2 ^ 26 \<le> 2 ^ 26" for x :: nat
    by (simp add: less_imp_le [OF pos_mod_bound] order.strict_implies_order)
  note s0 = sm [OF l(1), of "U8TO32 m 0 AND 0x3ffffff", unfolded w0, OF m26]
  note s1 = sm [OF l(2), of "drop_bit 2 (U8TO32 m 3) AND 0x3ffffff", unfolded w1, OF m26]
  note s2 = sm [OF l(3), of "drop_bit 4 (U8TO32 m 6) AND 0x3ffffff", unfolded w2, OF m26]
  note s3 = sm [OF l(4), of "drop_bit 6 (U8TO32 m 9) AND 0x3ffffff", unfolded w3, OF m26]
  have "v div 2 ^ 104 + unat hibit \<le> 2 ^ 26" using tb hb by simp
  note s4 = sm [OF l(5), of "drop_bit 8 (U8TO32 m 12) OR hibit", unfolded w4, OF this]
  show "limbs_le (2 ^ 27 + 2 ^ 7) (poly1305_add_block hibit h m)"
    unfolding poly1305_add_block_def hh Let_def prod.case limbs_le_def
    by (intro conjI; simp only: s0 s1 s2 s3 s4)
  have "limb_val (poly1305_add_block hibit h m) = limb_val h + (v + 2 ^ 104 * unat hibit)"
    unfolding poly1305_add_block_def hh Let_def prod.case limb_val_def
      s0 [THEN conjunct1] s1 [THEN conjunct1] s2 [THEN conjunct1] s3 [THEN conjunct1] s4 [THEN conjunct1]
    by (rule digits_sum)
  then show "limb_val (poly1305_add_block hibit h m) =
      limb_val h + (le_val (take 16 m) + 2 ^ 104 * unat hibit)" by (simp only: v_def)
qed
section \<open>The polynomial\<close>

definition poly1305_number :: "u32 \<Rightarrow> byte list \<Rightarrow> nat" where
  "poly1305_number hibit b = le_val b + 2 ^ 104 * unat hibit"

definition poly1305_step :: "nat \<Rightarrow> nat \<Rightarrow> nat \<Rightarrow> nat" where
  "poly1305_step r n a = (a + n) * r mod prime1305"

lemma mod_step: "(a mod q + n) * r mod q = (a + n) * r mod (q :: nat)"
  by (metis mod_add_left_eq mod_mult_left_eq)

lemma step_cong: "a mod prime1305 = a' mod prime1305 \<Longrightarrow> poly1305_step r n a = poly1305_step r n a'"
  unfolding poly1305_step_def by (metis mod_step)

lemma block_value:
  assumes h: "limbs_red h" and r: "limbs_le (2 ^ 26 - 1) r" and m: "16 \<le> length m"
    and b: "hibit = 0 \<or> hibit = push_bit 24 1"
  defines "h' \<equiv> poly1305_carry (poly1305_products (poly1305_add_block hibit h m) r)"
  shows "limb_val h' mod prime1305 =
      poly1305_step (limb_val r) (poly1305_number hibit (take 16 m)) (limb_val h)"
    and "limbs_red h'"
  using multiply_reduce [OF add_block_value(2) [OF limbs_red_le [OF h] m b] r] add_block_value(1) [OF limbs_red_le [OF h] m b]
  by (simp_all only: h'_def poly1305_step_def poly1305_number_def)

lemma loop_value:
  assumes "limbs_red h" "limbs_le (2 ^ 26 - 1) r" "hibit = 0 \<or> hibit = push_bit 24 1"
  shows "limb_val (poly1305_loop hibit r h m) mod prime1305 =
      fold (poly1305_step (limb_val r)) (map (poly1305_number hibit) (blocks_of 16 m))
        (limb_val h mod prime1305) \<and>
    limbs_red (poly1305_loop hibit r h m)"
  using assms
proof (induction hibit r h m rule: poly1305_loop.induct)
  case (1 hibit r h m)
  show ?case
  proof (cases "16 \<le> length m")
    case True
    note bv = block_value [OF 1(2,3) True 1(4)]
    have "poly1305_step (limb_val r) (poly1305_number hibit (take 16 m)) (limb_val h mod prime1305) =
        poly1305_step (limb_val r) (poly1305_number hibit (take 16 m)) (limb_val h)"
      by (rule step_cong) (rule mod_mod_trivial)
    with 1(1) [OF True bv(2) 1(3,4)] True show ?thesis
      unfolding poly1305_loop.simps [of hibit r h m] blocks_of.simps [of 16 m] bv(1)
      by (simp only: if_True list.map fold_Cons comp_def) simp
  next
    case False
    then show ?thesis using 1(2) by (simp add: poly1305_loop.simps [of hibit r h m])
  qed
qed

lemma number_full: "length b = 16 \<Longrightarrow> poly1305_number (push_bit 24 1) b = le_val (b @ [1])"
  by (simp add: poly1305_number_def endian)

lemma number_padded: "poly1305_number 0 (b @ [1] @ replicate n 0) = le_val (b @ [1])"
proof -
  have "le_val (replicate n 0) = 0" by (induction n) auto
  then show ?thesis by (simp add: poly1305_number_def endian)
qed

section \<open>The final reduction\<close>

definition limbs_lt :: "limbs \<Rightarrow> bool" where
  "limbs_lt h = (case h of (h0, h1, h2, h3, h4) \<Rightarrow>
     unat h0 < 2 ^ 26 \<and> unat h1 < 2 ^ 26 \<and> unat h2 < 2 ^ 26 \<and> unat h3 < 2 ^ 26 \<and> unat h4 < 2 ^ 26)"

lemma limbs_lt_value: "limbs_lt h \<Longrightarrow> limb_val h < 2 ^ 130"
  by (auto simp: limbs_lt_def limb_val_def)

lemma small_carry:
  fixes x c :: u32
  assumes "unat x \<le> 2 ^ 27" "unat c \<le> 5"
  shows "unat (x + c) = unat x + unat c"
  using assms by (subst unat_add_exact) simp_all

lemma full_carry_value:
  assumes "limbs_red h"
  shows "limb_val (poly1305_full_carry h) mod prime1305 = limb_val h mod prime1305"
    "limbs_lt (poly1305_full_carry h)"
proof -
  obtain h0 h1 h2 h3 h4 where h: "h = (h0, h1, h2, h3, h4)" by (metis prod_cases5)
  define c1 where "c1 = drop_bit 26 h1"
  define e2 where "e2 = h2 + c1"
  define c2 where "c2 = drop_bit 26 e2"
  define e3 where "e3 = h3 + c2"
  define c3 where "c3 = drop_bit 26 e3"
  define e4 where "e4 = h4 + c3"
  define c4 where "c4 = drop_bit 26 e4"
  define g0 where "g0 = h0 + c4 * 5"
  define k where "k = drop_bit 26 g0"
  have hs: "poly1305_full_carry h = (g0 AND 0x3ffffff, (h1 AND 0x3ffffff) + k,
      e2 AND 0x3ffffff, e3 AND 0x3ffffff, e4 AND 0x3ffffff)"
    unfolding poly1305_full_carry_def h Let_def prod.case c1_def c2_def c3_def c4_def
      e2_def e3_def e4_def g0_def k_def by (rule refl)
  have l: "unat h0 < 2 ^ 26" "unat h1 \<le> 2 ^ 26 + 2 ^ 6" "unat h2 < 2 ^ 26" "unat h3 < 2 ^ 26" "unat h4 < 2 ^ 26"
    using assms by (simp_all add: h limbs_red_def)
  have v1: "unat c1 = unat h1 div 2 ^ 26" unfolding c1_def by (rule unat_drop_bit_div)
  have e2: "unat e2 = unat h2 + unat c1" unfolding e2_def using l v1 by (intro small_carry) simp_all
  have v2: "unat c2 = unat e2 div 2 ^ 26" unfolding c2_def by (rule unat_drop_bit_div)
  have e3: "unat e3 = unat h3 + unat c2" unfolding e3_def using l v1 e2 v2 by (intro small_carry) simp_all
  have v3: "unat c3 = unat e3 div 2 ^ 26" unfolding c3_def by (rule unat_drop_bit_div)
  have c1: "unat c1 \<le> 1" using l v1 by simp
  have c2: "unat c2 \<le> unat c1" using l v2 e2 c1 by simp
  have c3: "unat c3 \<le> unat c2" using l v3 e3 c1 c2 by simp
  have e4: "unat e4 = unat h4 + unat c3" unfolding e4_def using l c1 c2 c3 by (intro small_carry) simp_all
  have v4: "unat c4 = unat e4 div 2 ^ 26" unfolding c4_def by (rule unat_drop_bit_div)
  have c4: "unat c4 \<le> unat c3" using l v4 e4 c1 c2 c3 by simp
  have c5: "unat (c4 * 5) = unat c4 * 5"
    using c1 c2 c3 c4 by (subst unat_mult_exact) simp_all
  have g0: "unat g0 = unat h0 + unat c4 * 5"
    unfolding g0_def using l c1 c2 c3 c4 by (subst small_carry) (simp_all add: c5)
  have k: "unat k = unat g0 div 2 ^ 26" unfolding k_def by (rule unat_drop_bit_div)
  have k1: "unat k \<le> unat c4" using l k g0 c1 c2 c3 c4 by simp
  have m: "unat h1 mod 2 ^ 26 + 2 ^ 26 * unat c1 = unat h1" unfolding v1 by (rule mod_mult_div_eq)
  have ml: "unat h1 mod 2 ^ 26 < 2 ^ 26" by simp
  have g1: "unat ((h1 AND 0x3ffffff) + k) = unat h1 mod 2 ^ 26 + unat k"
    using ml k1 c1 c2 c3 c4 by (subst small_carry) (simp_all only: unat_and_26, simp_all)
  have g1l: "unat h1 mod 2 ^ 26 + unat k < 2 ^ 26"
  proof (cases "unat c1 = 0")
    case True
    then show ?thesis using ml k1 c2 c3 c4 by simp
  next
    case False
    then have "unat c1 = 1" using c1 by simp
    then have "unat h1 mod 2 ^ 26 \<le> 2 ^ 6" using m l(2) by simp
    then show ?thesis using k1 c1 c2 c3 c4 by simp
  qed
  show "limbs_lt (poly1305_full_carry h)"
    unfolding hs limbs_lt_def prod.case g1 using g1l by (simp only: unat_and_26) simp
  have lv: "limb_val (poly1305_full_carry h) = unat g0 mod 2 ^ 26 + 2 ^ 26 * (unat h1 mod 2 ^ 26 + unat k)
      + 2 ^ 52 * (unat e2 mod 2 ^ 26) + 2 ^ 78 * (unat e3 mod 2 ^ 26) + 2 ^ 104 * (unat e4 mod 2 ^ 26)"
    unfolding hs limb_val_def prod.case g1 unat_and_26 by (rule refl)
  have lh: "limb_val h = unat h0 + 2 ^ 26 * unat h1 + 2 ^ 52 * unat h2 + 2 ^ 78 * unat h3 + 2 ^ 104 * unat h4"
    unfolding h limb_val_def prod.case by (rule refl)
  have "limb_val (poly1305_full_carry h) + unat c4 * prime1305 = limb_val h"
    unfolding lv lh
    by (rule carry_sum [where ?c0.0 = 0 and ?c1.0 = "unat c1" and ?c2.0 = "unat c2" and
          ?c3.0 = "unat c3" and ?a0.0 = "unat h0"])
      (use div_mod_26 [of "unat h1"] div_mod_26 [of "unat e2"] div_mod_26 [of "unat e3"]
        div_mod_26 [of "unat e4"] div_mod_26 [of "unat g0"] in
        \<open>simp_all only: mult_0_right add_0_right v1 v2 v3 v4 e2 e3 e4 g0 k\<close>)
  then show "limb_val (poly1305_full_carry h) mod prime1305 = limb_val h mod prime1305"
    by (metis mod_mult_self1)
qed

lemma U32TO8_le: "U32TO8 v = le_bytes 4 (unat v)"
proof -
  have "(of_nat (unat v div 2 ^ n) :: byte) = ucast (drop_bit n v)" for n
    by (simp add: word_unat_eq_iff unat_of_nat unat_ucast_mod unat_drop_bit_div)
  from this [of 0] this [of 8] this [of 16] this [of 24]
  have "le_bytes (Suc (Suc (Suc (Suc 0)))) (unat v) = U32TO8 v"
    by (simp add: U32TO8_def ucast_and_ff div_mult2_eq [symmetric])
  then show ?thesis by (simp only: numeral_eq_Suc pred_numeral_simps BitM.simps)
qed

lemma unat_or_wrap:
  fixes a b :: "'a::len word"
  assumes "unat a < 2 ^ n" "n \<le> LENGTH('a)"
  shows "unat (a OR push_bit n b) = unat a + unat b mod 2 ^ (LENGTH('a) - n) * 2 ^ n"
proof -
  have "unat (push_bit n b) = take_bit LENGTH('a) (push_bit n (unat b))"
    by (simp add: unsigned_push_bit_eq)
  also have "\<dots> = push_bit n (take_bit (LENGTH('a) - n) (unat b))"
    using assms(2) by (simp add: take_bit_push_bit)
  also have "\<dots> = unat b mod 2 ^ (LENGTH('a) - n) * 2 ^ n"
    by (simp only: take_bit_eq_mod push_bit_eq_mult)
  finally have p: "unat (push_bit n b) = unat b mod 2 ^ (LENGTH('a) - n) * 2 ^ n" .
  have "unat b mod 2 ^ (LENGTH('a) - n) + 1 \<le> 2 ^ (LENGTH('a) - n)"
    by (simp add: Suc_leI)
  then have "(unat b mod 2 ^ (LENGTH('a) - n) + 1) * 2 ^ n \<le> 2 ^ (LENGTH('a) - n) * 2 ^ n"
    by (rule mult_le_mono1)
  also have "\<dots> = 2 ^ LENGTH('a)" using assms(2) by (simp flip: power_add)
  finally show ?thesis
    unfolding or_disjoint_add [OF assms(1)] using assms(1)
    by (subst unat_add_exact) (simp_all add: p distrib_right)
qed

lemma select_sum:
  fixes h0 :: nat
  assumes "h0 + 5 = m0 + 2 ^ 26 * c0" "h1 + c0 = m1 + 2 ^ 26 * c1" "h2 + c1 = m2 + 2 ^ 26 * c2"
    "h3 + c2 = m3 + 2 ^ 26 * c3"
  shows "m0 + 2 ^ 26 * m1 + 2 ^ 52 * m2 + 2 ^ 78 * m3 + 2 ^ 104 * (h4 + c3) =
    h0 + 2 ^ 26 * h1 + 2 ^ 52 * h2 + 2 ^ 78 * h3 + 2 ^ 104 * h4 + 5"
  using assms by simp

lemma select_value:
  assumes "limbs_lt h"
  shows "limb_val (poly1305_select h) = limb_val h mod prime1305"
    and "limbs_lt (poly1305_select h)"
proof -
  obtain h0 h1 h2 h3 h4 where h: "h = (h0, h1, h2, h3, h4)" by (metis prod_cases5)
  define e0 where "e0 = h0 + 5"
  define c0 where "c0 = drop_bit 26 e0"
  define e1 where "e1 = h1 + c0"
  define c1 where "c1 = drop_bit 26 e1"
  define e2 where "e2 = h2 + c1"
  define c2 where "c2 = drop_bit 26 e2"
  define e3 where "e3 = h3 + c2"
  define c3 where "c3 = drop_bit 26 e3"
  define e4 where "e4 = h4 + c3"
  define mask where "mask = drop_bit 31 (e4 - push_bit 26 1) - 1"
  have hs: "poly1305_select h =
      (h0 AND NOT mask OR (e0 AND 0x3ffffff) AND mask, h1 AND NOT mask OR (e1 AND 0x3ffffff) AND mask,
       h2 AND NOT mask OR (e2 AND 0x3ffffff) AND mask, h3 AND NOT mask OR (e3 AND 0x3ffffff) AND mask,
       h4 AND NOT mask OR (e4 - push_bit 26 1) AND mask)"
    unfolding poly1305_select_def h Let_def prod.case c1_def c2_def c3_def c0_def
      e2_def e3_def e4_def e0_def e1_def mask_def by (rule refl)
  have l: "unat h0 < 2 ^ 26" "unat h1 < 2 ^ 26" "unat h2 < 2 ^ 26" "unat h3 < 2 ^ 26" "unat h4 < 2 ^ 26"
    using assms by (simp_all add: h limbs_lt_def)
  have e0: "unat e0 = unat h0 + 5" unfolding e0_def using l by (subst small_carry) simp_all
  have v0: "unat c0 = unat e0 div 2 ^ 26" unfolding c0_def by (rule unat_drop_bit_div)
  have c0: "unat c0 \<le> 1" using l v0 e0 by simp
  have e1: "unat e1 = unat h1 + unat c0" unfolding e1_def using l c0 by (intro small_carry) simp_all
  have v1: "unat c1 = unat e1 div 2 ^ 26" unfolding c1_def by (rule unat_drop_bit_div)
  have c1: "unat c1 \<le> 1" using l v1 e1 c0 by simp
  have e2: "unat e2 = unat h2 + unat c1" unfolding e2_def using l c1 by (intro small_carry) simp_all
  have v2: "unat c2 = unat e2 div 2 ^ 26" unfolding c2_def by (rule unat_drop_bit_div)
  have c2: "unat c2 \<le> 1" using l v2 e2 c1 by simp
  have e3: "unat e3 = unat h3 + unat c2" unfolding e3_def using l c2 by (intro small_carry) simp_all
  have v3: "unat c3 = unat e3 div 2 ^ 26" unfolding c3_def by (rule unat_drop_bit_div)
  have c3: "unat c3 \<le> 1" using l v3 e3 c2 by simp
  have e4: "unat e4 = unat h4 + unat c3" unfolding e4_def using l c3 by (intro small_carry) simp_all
  have sum: "unat e0 mod 2 ^ 26 + 2 ^ 26 * (unat e1 mod 2 ^ 26) + 2 ^ 52 * (unat e2 mod 2 ^ 26)
      + 2 ^ 78 * (unat e3 mod 2 ^ 26) + 2 ^ 104 * unat e4 = limb_val h + 5"
    unfolding h limb_val_def prod.case e4
    by (rule select_sum [where ?c0.0 = "unat c0" and ?c1.0 = "unat c1" and ?c2.0 = "unat c2"])
      (use div_mod_26 [of "unat e0"] div_mod_26 [of "unat e1"] div_mod_26 [of "unat e2"]
        div_mod_26 [of "unat e3"] in \<open>simp_all only: v0 v1 v2 v3 e0 e1 e2 e3\<close>)
  have lv: "limb_val h < 2 ^ 130" by (rule limbs_lt_value [OF assms])
  have b: "unat e0 mod 2 ^ 26 < 2 ^ 26" "unat e1 mod 2 ^ 26 < 2 ^ 26" "unat e2 mod 2 ^ 26 < 2 ^ 26"
    "unat e3 mod 2 ^ 26 < 2 ^ 26" by simp_all
  have p26: "unat (push_bit 26 1 :: u32) = 2 ^ 26" by simp
  have "limb_val (poly1305_select h) = limb_val h mod prime1305 \<and> limbs_lt (poly1305_select h)"
  proof (cases "2 ^ 26 \<le> unat e4")
    case True
    then have "unat e4 = unat (push_bit 26 1 :: u32)" using e4 l c3 unfolding p26 by simp
    then have "e4 = push_bit 26 1" by (simp only: word_unat_eq_iff)
    then have g4: "e4 - push_bit 26 1 = 0" by simp
    then have "mask = - 1" unfolding mask_def by simp
    then have s: "poly1305_select h =
        (e0 AND 0x3ffffff, e1 AND 0x3ffffff, e2 AND 0x3ffffff, e3 AND 0x3ffffff, 0)"
      unfolding hs g4 by simp
    have "unat e4 = 2 ^ 26" using True e4 l c3 by simp
    then have "limb_val (poly1305_select h) + prime1305 = limb_val h"
      using sum unfolding s limb_val_def prod.case unat_and_26 by simp
    moreover from this have "limb_val (poly1305_select h) < prime1305" using lv by simp
    ultimately have "limb_val (poly1305_select h) = limb_val h mod prime1305"
      by (metis mod_add_self2 mod_less)
    then show ?thesis using b unfolding s limbs_lt_def prod.case unat_and_26 by simp
  next
    case False
    have "unat (e4 - push_bit 26 1) = 2 ^ 32 + unat e4 - 2 ^ 26"
      using False by (simp add: unat_sub_if')
    then have "unat (drop_bit 31 (e4 - push_bit 26 1)) = 1"
      using False unfolding unat_drop_bit_div by simp
    then have "drop_bit 31 (e4 - push_bit 26 1) = 1" by (metis unat_1 word_unat_eq_iff)
    then have m: "mask = 0" unfolding mask_def by simp
    have "poly1305_select h = (h0, h1, h2, h3, h4)" unfolding hs m by simp
    then have s: "poly1305_select h = h" by (simp only: h)
    have "limb_val h < prime1305"
    proof -
      have "unat e4 + 1 \<le> 2 ^ 26" using False by simp
      then have "2 ^ 104 * unat e4 + 2 ^ 104 \<le> 2 ^ 130" by simp
      then show ?thesis using sum b by simp
    qed
    then show ?thesis using s assms by simp
  qed
  then show "limb_val (poly1305_select h) = limb_val h mod prime1305" "limbs_lt (poly1305_select h)"
    by blast+
qed

definition word_val :: "u32 list \<Rightarrow> nat" where
  "word_val ws = le_val (concat (map U32TO8 ws))"

lemma word_val_four:
  "word_val [a, b, c, d] = unat a + 2 ^ 32 * unat b + 2 ^ 64 * unat c + 2 ^ 96 * unat d"
proof -
  have "le_val (U32TO8 w) = unat w" "length (U32TO8 w) = 4" for w
    using unat_u32_less [of w] by (simp_all add: U32TO8_le endian)
  then show ?thesis by (simp add: word_val_def endian)
qed

lemma pack_sum:
  fixes h0 :: nat
  assumes "h1 = m1 + 2 ^ 6 * q1" "h2 = m2 + 2 ^ 12 * q2" "h3 = m3 + 2 ^ 18 * q3" "h4 = m4 + 2 ^ 24 * q4"
  shows "h0 + 2 ^ 26 * h1 + 2 ^ 52 * h2 + 2 ^ 78 * h3 + 2 ^ 104 * h4 =
    (h0 + m1 * 2 ^ 26) + 2 ^ 32 * (q1 + m2 * 2 ^ 20) + 2 ^ 64 * (q2 + m3 * 2 ^ 14)
    + 2 ^ 96 * (q3 + m4 * 2 ^ 8) + 2 ^ 128 * q4"
  using assms by simp

lemma pack_value:
  assumes "limbs_lt h"
  shows "word_val (poly1305_pack h) = limb_val h mod 2 ^ 128"
proof -
  obtain h0 h1 h2 h3 h4 where h: "h = (h0, h1, h2, h3, h4)" by (metis prod_cases5)
  have l: "unat h0 < 2 ^ 26" "unat h1 < 2 ^ 26" "unat h2 < 2 ^ 26" "unat h3 < 2 ^ 26" "unat h4 < 2 ^ 26"
    using assms by (simp_all add: h limbs_lt_def)
  have d: "unat (drop_bit 6 h1) = unat h1 div 2 ^ 6" "unat (drop_bit 12 h2) = unat h2 div 2 ^ 12"
    "unat (drop_bit 18 h3) = unat h3 div 2 ^ 18" by (rule unat_drop_bit_div)+
  have ff: "x AND 0xffffffff = x" for x :: u32
    using word_and_max [of x] by (simp add: mask_eq_exp_minus_1 flip: mask_full)
  have w0: "unat ((h0 OR push_bit 26 h1) AND 0xffffffff) = unat h0 + unat h1 mod 2 ^ 6 * 2 ^ 26"
    unfolding ff using l by (subst unat_or_wrap) simp_all
  have w1: "unat ((drop_bit 6 h1 OR push_bit 20 h2) AND 0xffffffff) =
      unat h1 div 2 ^ 6 + unat h2 mod 2 ^ 12 * 2 ^ 20"
    unfolding ff using l by (subst unat_or_wrap) (simp_all add: d)
  have w2: "unat ((drop_bit 12 h2 OR push_bit 14 h3) AND 0xffffffff) =
      unat h2 div 2 ^ 12 + unat h3 mod 2 ^ 18 * 2 ^ 14"
    unfolding ff using l by (subst unat_or_wrap) (simp_all add: d)
  have w3: "unat ((drop_bit 18 h3 OR push_bit 8 h4) AND 0xffffffff) =
      unat h3 div 2 ^ 18 + unat h4 mod 2 ^ 24 * 2 ^ 8"
    unfolding ff using l by (subst unat_or_wrap) (simp_all add: d)
  have w: "word_val (poly1305_pack h) = (unat h0 + unat h1 mod 2 ^ 6 * 2 ^ 26) +
      2 ^ 32 * (unat h1 div 2 ^ 6 + unat h2 mod 2 ^ 12 * 2 ^ 20) +
      2 ^ 64 * (unat h2 div 2 ^ 12 + unat h3 mod 2 ^ 18 * 2 ^ 14) +
      2 ^ 96 * (unat h3 div 2 ^ 18 + unat h4 mod 2 ^ 24 * 2 ^ 8)"
    unfolding h poly1305_pack_def Let_def prod.case word_val_four w0 w1 w2 w3 by (rule refl)
  have "limb_val h = word_val (poly1305_pack h) + 2 ^ 128 * (unat h4 div 2 ^ 24)"
    unfolding w unfolding h limb_val_def prod.case by (rule pack_sum) simp_all
  moreover have "word_val (poly1305_pack h) < 2 ^ 128"
  proof -
    obtain a b c d where "poly1305_pack h = [a, b, c, d]" by (simp add: poly1305_pack_def h)
    then show ?thesis
      using unat_u32_less [of a] unat_u32_less [of b] unat_u32_less [of c] unat_u32_less [of d]
      by (simp add: word_val_four)
  qed
  ultimately show ?thesis by simp
qed

lemma add_column:
  fixes a b :: u32 and f :: u64
  shows "unat (ucast a + ucast b + drop_bit 32 f) = unat a + unat b + unat f div 2 ^ 32"
    "unat (ucast f :: u32) = unat f mod 2 ^ 32"
proof -
  have "unat (ucast a :: u64) = unat a" "unat (ucast b :: u64) = unat b" by (simp_all add: unat_ucast_up)
  moreover have "unat f div 2 ^ 32 < 2 ^ 32" using unat_u64_less [of f] by (simp add: less_mult_imp_div_less)
  ultimately show "unat (ucast a + ucast b + drop_bit 32 f) = unat a + unat b + unat f div 2 ^ 32"
    using unat_u32_less [of a] unat_u32_less [of b]
    by (simp add: unat_add_exact unat_drop_bit_div)
  show "unat (ucast f :: u32) = unat f mod 2 ^ 32" by (simp add: unat_ucast_mod)
qed

lemma pad_sum:
  fixes a0 :: nat
  assumes "m0 + 2 ^ 32 * q0 = a0 + b0" "m1 + 2 ^ 32 * q1 = a1 + b1 + q0"
    "m2 + 2 ^ 32 * q2 = a2 + b2 + q1" "m3 + 2 ^ 32 * q3 = a3 + b3 + q2"
  shows "(a0 + 2 ^ 32 * a1 + 2 ^ 64 * a2 + 2 ^ 96 * a3) + (b0 + 2 ^ 32 * b1 + 2 ^ 64 * b2 + 2 ^ 96 * b3) =
    m0 + 2 ^ 32 * m1 + 2 ^ 64 * m2 + 2 ^ 96 * m3 + 2 ^ 128 * q3"
  using assms by simp

lemma add_pad_value:
  assumes "length h = 4" "length pad = 4"
  shows "word_val (poly1305_add_pad h pad) = (word_val h + word_val pad) mod 2 ^ 128"
    and "length (poly1305_add_pad h pad) = 4"
proof -
  obtain a0 a1 a2 a3 where a: "h = [a0, a1, a2, a3]"
    using assms(1) by (auto simp: numeral_eq_Suc length_Suc_conv)
  obtain b0 b1 b2 b3 where b: "pad = [b0, b1, b2, b3]"
    using assms(2) by (auto simp: numeral_eq_Suc length_Suc_conv)
  define f0 :: u64 where "f0 = ucast a0 + ucast b0"
  define f1 :: u64 where "f1 = ucast a1 + ucast b1 + drop_bit 32 f0"
  define f2 :: u64 where "f2 = ucast a2 + ucast b2 + drop_bit 32 f1"
  define f3 :: u64 where "f3 = ucast a3 + ucast b3 + drop_bit 32 f2"
  have s: "poly1305_add_pad h pad = [ucast f0, ucast f1, ucast f2, ucast f3]"
    by (simp add: poly1305_add_pad_def Let_def a b f0_def f1_def f2_def f3_def)
  have f0: "unat f0 = unat a0 + unat b0"
    using add_column(1) [of a0 b0 0] by (simp add: f0_def)
  have f: "unat f1 = unat a1 + unat b1 + unat f0 div 2 ^ 32"
    "unat f2 = unat a2 + unat b2 + unat f1 div 2 ^ 32" "unat f3 = unat a3 + unat b3 + unat f2 div 2 ^ 32"
    by (simp_all only: f1_def f2_def f3_def add_column(1))
  have w: "word_val (poly1305_add_pad h pad) = unat f0 mod 2 ^ 32 + 2 ^ 32 * (unat f1 mod 2 ^ 32) +
      2 ^ 64 * (unat f2 mod 2 ^ 32) + 2 ^ 96 * (unat f3 mod 2 ^ 32)"
    unfolding s word_val_four add_column(2) by (rule refl)
  have "word_val h + word_val pad = word_val (poly1305_add_pad h pad) + 2 ^ 128 * (unat f3 div 2 ^ 32)"
    unfolding w unfolding a b word_val_four
    by (rule pad_sum [where ?q0.0 = "unat f0 div 2 ^ 32" and ?q1.0 = "unat f1 div 2 ^ 32" and
          ?q2.0 = "unat f2 div 2 ^ 32"]) (simp_all only: f f0 mod_mult_div_eq)
  moreover have "word_val (poly1305_add_pad h pad) < 2 ^ 128"
    unfolding s word_val_four
    using unat_u32_less [of "ucast f0"] unat_u32_less [of "ucast f1"] unat_u32_less [of "ucast f2"]
      unat_u32_less [of "ucast f3"] by simp
  ultimately show "word_val (poly1305_add_pad h pad) = (word_val h + word_val pad) mod 2 ^ 128" by simp
  show "length (poly1305_add_pad h pad) = 4" by (simp add: s)
qed
section \<open>The key\<close>

definition poly1305_key_r :: "byte list \<Rightarrow> nat" where
  "poly1305_key_r key = le_val (take 16 key) AND 0x0ffffffc0ffffffc0ffffffc0fffffff"

definition poly1305_key_s :: "byte list \<Rightarrow> nat" where
  "poly1305_key_s key = le_val (take 16 (drop 16 key))"

lemma and_digit:
  fixes a b :: nat
  assumes "a < 2 ^ n" "c < 2 ^ n"
  shows "(a + 2 ^ n * b) AND (c + 2 ^ n * d) = (a AND c) + 2 ^ n * (b AND d)"
proof -
  define X where "X = (a + 2 ^ n * b) AND (c + 2 ^ n * d)"
  have "take_bit n X = take_bit n (a + 2 ^ n * b) AND take_bit n (c + 2 ^ n * d)"
    unfolding X_def by (rule take_bit_and)
  also have "\<dots> = a AND c" using assms by (simp add: take_bit_eq_mod)
  finally have t: "X mod 2 ^ n = (a AND c)" by (simp only: take_bit_eq_mod)
  have "drop_bit n X = drop_bit n (a + 2 ^ n * b) AND drop_bit n (c + 2 ^ n * d)"
    unfolding X_def by (rule drop_bit_and)
  also have "\<dots> = b AND d" using assms by (simp add: drop_bit_eq_div)
  finally have d: "X div 2 ^ n = (b AND d)" by (simp only: drop_bit_eq_div)
  have "X = X mod 2 ^ n + 2 ^ n * (X div 2 ^ n)" by simp
  then show ?thesis unfolding t d by (simp only: X_def)
qed

lemma unat_and: "unat (a AND b :: u32) = (unat a AND unat b)"
  by (rule unsigned_and_eq)

lemma and_cut: "unat (x AND m :: u32) = (unat x mod 2 ^ 26) AND unat m" if "unat m < 2 ^ 26"
proof -
  have "unat m = take_bit 26 (unat m)" using that by (simp add: take_bit_nat_eq_self)
  then have "unat x AND unat m = take_bit 26 (unat x) AND unat m"
    by (metis take_bit_and and.assoc and.commute take_bit_of_mask take_bit_eq_mask)
  then show ?thesis by (simp add: unat_and take_bit_eq_mod)
qed

lemma and_limbs:
  fixes a0 :: nat
  assumes "a0 < 2 ^ 26" "a1 < 2 ^ 26" "a2 < 2 ^ 26" "a3 < 2 ^ 26"
    and "m0 < 2 ^ 26" "m1 < 2 ^ 26" "m2 < 2 ^ 26" "m3 < 2 ^ 26"
  shows "(a0 + 2 ^ 26 * (a1 + 2 ^ 26 * (a2 + 2 ^ 26 * (a3 + 2 ^ 26 * a4)))) AND
      (m0 + 2 ^ 26 * (m1 + 2 ^ 26 * (m2 + 2 ^ 26 * (m3 + 2 ^ 26 * m4)))) =
    (a0 AND m0) + 2 ^ 26 * (a1 AND m1) + 2 ^ 52 * (a2 AND m2) + 2 ^ 78 * (a3 AND m3) + 2 ^ 104 * (a4 AND m4)"
  by (simp only: and_digit assms) (simp add: distrib_left)

lemma unat_and_le: "unat m \<le> B \<Longrightarrow> unat (x AND m) \<le> B" for x m :: u32
  using word_and_le1 [of x m] by (simp add: word_le_nat_alt)

lemma nest_sum:
  fixes a0 :: nat
  shows "a0 + 2 ^ 26 * (a1 + 2 ^ 26 * (a2 + 2 ^ 26 * (a3 + 2 ^ 26 * a4))) =
    a0 + 2 ^ 26 * a1 + 2 ^ 52 * a2 + 2 ^ 78 * a3 + 2 ^ 104 * a4"
  by (simp add: distrib_left)

lemma init_key:
  fixes st :: poly1305_state
  assumes "32 \<le> length key"
  defines "r \<equiv> limbs_of (p_r (poly1305_init st key))"
  shows "limb_val r = poly1305_key_r key" "limbs_le (2 ^ 26 - 1) r"
proof -
  define v where "v = le_val (take 16 key)"
  have ld: "unat (U8TO32 key i) = v div 256 ^ i mod 2 ^ 32" if "i + 4 \<le> 16" for i
    using U8TO32_load [of i "take 16 key"] that assms(1) by (simp add: v_def U8TO32_def)
  have w: "unat (drop_bit s (U8TO32 key i) AND m) = (v div 2 ^ (8 * i + s) mod 2 ^ 26) AND unat m"
    if "i + 4 \<le> 16" "s + 26 \<le> 32" "unat m < 2 ^ 26" for s i m
    unfolding and_cut [OF that(3)] unat_drop_bit_div ld [OF that(1)] window_26 [OF that(2)] by (rule refl)
  have "length (take 16 key) = 16" using assms by simp
  then have v: "v < 2 ^ 128" using le_val_less [of "take 16 key"] by (simp only: v_def) simp
  have r: "r = (U8TO32 key 0 AND 0x3ffffff, drop_bit 2 (U8TO32 key 3) AND 0x3ffff03,
      drop_bit 4 (U8TO32 key 6) AND 0x3ffc0ff, drop_bit 6 (U8TO32 key 9) AND 0x3f03fff,
      drop_bit 8 (U8TO32 key 12) AND 0x00fffff)"
    by (simp add: r_def limbs_of_def poly1305_init_def)
  have w0: "unat (U8TO32 key 0 AND 0x3ffffff) = (v mod 2 ^ 26) AND 0x3ffffff" using w [of 0 0 "0x3ffffff"] by simp
  have w1: "unat (drop_bit 2 (U8TO32 key 3) AND 0x3ffff03) = (v div 2 ^ 26 mod 2 ^ 26) AND 0x3ffff03"
    using w [of 3 2 "0x3ffff03"] by simp
  have w2: "unat (drop_bit 4 (U8TO32 key 6) AND 0x3ffc0ff) = (v div 2 ^ 52 mod 2 ^ 26) AND 0x3ffc0ff"
    using w [of 6 4 "0x3ffc0ff"] by simp
  have w3: "unat (drop_bit 6 (U8TO32 key 9) AND 0x3f03fff) = (v div 2 ^ 78 mod 2 ^ 26) AND 0x3f03fff"
    using w [of 9 6 "0x3f03fff"] by simp
  have t: "unat (drop_bit 8 (U8TO32 key 12)) = v div 2 ^ 104"
  proof -
    have "v div 2 ^ 96 < 2 ^ 32" using v by (simp add: less_mult_imp_div_less)
    then show ?thesis
      unfolding unat_drop_bit_div by (simp add: ld div_mult2_eq [symmetric])
  qed
  then have w4: "unat (drop_bit 8 (U8TO32 key 12) AND 0x00fffff) = v div 2 ^ 104 AND 0x00fffff"
    by (simp add: unat_and)
  have ml: "x mod 2 ^ 26 < (2 ^ 26 :: nat)" for x by simp
  have nest: "v mod 2 ^ 26 + 2 ^ 26 * (v div 2 ^ 26 mod 2 ^ 26 + 2 ^ 26 * (v div 2 ^ 52 mod 2 ^ 26 +
      2 ^ 26 * (v div 2 ^ 78 mod 2 ^ 26 + 2 ^ 26 * (v div 2 ^ 104)))) = v"
    unfolding nest_sum by (rule digits_26)
  have k: "(0x3ffffff + 2 ^ 26 * (0x3ffff03 + 2 ^ 26 * (0x3ffc0ff + 2 ^ 26 * (0x3f03fff + 2 ^ 26 * 0x00fffff))))
      = (0x0ffffffc0ffffffc0ffffffc0fffffff :: nat)" by simp
  have m: "0x3ffffff < (2 ^ 26 :: nat)" "0x3ffff03 < (2 ^ 26 :: nat)" "0x3ffc0ff < (2 ^ 26 :: nat)"
    "0x3f03fff < (2 ^ 26 :: nat)" by simp_all
  note al = and_limbs [OF ml ml ml ml m, of v "v div 2 ^ 26" "v div 2 ^ 52" "v div 2 ^ 78" "v div 2 ^ 104" "0x00fffff"]
  have "v AND 0x0ffffffc0ffffffc0ffffffc0fffffff = limb_val r"
    unfolding r limb_val_def prod.case w0 w1 w2 w3 w4 al [symmetric] nest k by (rule refl)
  then show "limb_val r = poly1305_key_r key" by (simp add: poly1305_key_r_def v_def)
  show "limbs_le (2 ^ 26 - 1) r"
    unfolding r limbs_le_def prod.case by (intro conjI unat_and_le) simp_all
qed
section \<open>Absorbing a message\<close>

text \<open>The polynomial of RFC 8439 over the blocks, a one byte appended to each of them.\<close>

definition poly1305_fold :: "nat \<Rightarrow> byte list list \<Rightarrow> nat" where
  "poly1305_fold r bs = fold (\<lambda>b a. (a + le_val (b @ [1])) * r mod prime1305) bs 0"

definition poly1305_message_blocks :: "byte list \<Rightarrow> byte list list" where
  "poly1305_message_blocks msg =
     blocks_of 16 msg @ (if tail_of 16 msg = [] then [] else [tail_of 16 msg])"

definition poly1305_mac :: "byte list \<Rightarrow> byte list \<Rightarrow> byte list" where
  "poly1305_mac key msg = le_bytes 16
     (poly1305_fold (poly1305_key_r key) (poly1305_message_blocks msg) + poly1305_key_s key)"

definition poly1305_core :: "byte list \<Rightarrow> poly1305_state \<Rightarrow> byte list list \<Rightarrow> bool" where
  "poly1305_core key st bs \<longleftrightarrow>
     limb_val (limbs_of (p_r st)) = poly1305_key_r key \<and> limbs_le (2 ^ 26 - 1) (limbs_of (p_r st)) \<and>
     length (p_pad st) = 4 \<and> word_val (p_pad st) = poly1305_key_s key \<and>
     limbs_red (limbs_of (p_h st)) \<and>
     limb_val (limbs_of (p_h st)) mod prime1305 = poly1305_fold (poly1305_key_r key) bs \<and>
     length (p_buffer st) = 16"

definition poly1305_absorbed :: "byte list \<Rightarrow> poly1305_state \<Rightarrow> byte list \<Rightarrow> bool" where
  "poly1305_absorbed key st msg \<longleftrightarrow>
     poly1305_core key st (blocks_of 16 msg) \<and> p_final st = 0 \<and>
     p_leftover st = length (tail_of 16 msg) \<and> take (p_leftover st) (p_buffer st) = tail_of 16 msg"

lemma limbs_of_list_of [simp]: "limbs_of (list_of h) = h"
  by (auto simp: limbs_of_def list_of_def split: prod.split)

lemma poly1305_fold_append:
  "fold (\<lambda>b a. (a + le_val (b @ [1])) * r mod prime1305) bs (poly1305_fold r as) = poly1305_fold r (as @ bs)"
  by (simp add: poly1305_fold_def)

lemma core_blocks:
  assumes "poly1305_core key st bs"
    and "map (poly1305_number (if p_final st \<noteq> 0 then 0 else push_bit 24 1)) (blocks_of 16 m) =
      map (\<lambda>b. le_val (b @ [1])) cs"
  shows "poly1305_core key (poly1305_blocks st m) (bs @ cs)"
proof -
  define hibit :: u32 where "hibit = (if p_final st \<noteq> 0 then 0 else push_bit 24 1)"
  define h where "h = limbs_of (p_h st)"
  define r where "r = limbs_of (p_r st)"
  have hb: "hibit = 0 \<or> hibit = push_bit 24 1" by (simp add: hibit_def)
  have a: "limbs_red h" "limbs_le (2 ^ 26 - 1) r" "limb_val r = poly1305_key_r key"
    "limb_val h mod prime1305 = poly1305_fold (poly1305_key_r key) bs"
    using assms(1) unfolding poly1305_core_def h_def r_def by blast+
  have f: "fold (poly1305_step k) (map (\<lambda>b. le_val (b @ [1])) cs) x =
      fold (\<lambda>b a. (a + le_val (b @ [1])) * k mod prime1305) cs x" for k x
    by (induction cs arbitrary: x) (simp_all add: poly1305_step_def)
  have "limb_val (poly1305_loop hibit r h m) mod prime1305 = poly1305_fold (poly1305_key_r key) (bs @ cs) \<and>
      limbs_red (poly1305_loop hibit r h m)"
    using loop_value [OF a(1,2) hb, of m] assms(2)
    unfolding hibit_def [symmetric] a(3,4) by (simp only: f poly1305_fold_append)
  moreover have "poly1305_blocks st m = st\<lparr>p_h := list_of (poly1305_loop hibit r h m)\<rparr>"
    by (simp add: poly1305_blocks_def Let_def hibit_def r_def h_def)
  ultimately show ?thesis using assms(1) unfolding poly1305_core_def by simp
qed

lemma numbers_full: "map (poly1305_number (push_bit 24 1)) (blocks_of 16 m) = map (\<lambda>b. le_val (b @ [1])) (blocks_of 16 m)"
  by (rule map_cong [OF refl], rule number_full, erule blocks_of_length)

lemma blocks_fields [simp]:
  "p_leftover (poly1305_blocks st m) = p_leftover st" "p_buffer (poly1305_blocks st m) = p_buffer st"
  "p_final (poly1305_blocks st m) = p_final st" "p_r (poly1305_blocks st m) = p_r st"
  "p_pad (poly1305_blocks st m) = p_pad st"
  by (simp_all add: poly1305_blocks_def Let_def)

lemma core_frame:
  assumes "poly1305_core key st bs" "p_r st' = p_r st" "p_h st' = p_h st" "p_pad st' = p_pad st"
    "length (p_buffer st') = 16"
  shows "poly1305_core key st' bs"
  using assms by (simp add: poly1305_core_def)

lemma absorbed_blocks:
  assumes "poly1305_absorbed key st xs" "p_leftover st = 0"
  shows "poly1305_core key (poly1305_blocks st m) (blocks_of 16 (xs @ m))"
proof -
  have c: "poly1305_core key st (blocks_of 16 xs)" and f: "p_final st = 0" and t: "tail_of 16 xs = []"
    using assms by (auto simp: poly1305_absorbed_def)
  have "blocks_of 16 (xs @ m) = blocks_of 16 xs @ blocks_of 16 m"
    by (subst blocks_of_extend) (simp_all add: t)
  moreover have "poly1305_core key (poly1305_blocks st m) (blocks_of 16 xs @ blocks_of 16 m)"
    by (rule core_blocks [OF c]) (simp only: f numbers_full simp_thms if_False)
  ultimately show ?thesis by simp
qed

text \<open>The second half of \<open>update\<close>: full blocks straight from the input, the rest into the empty buffer.\<close>

lemma absorbed_tail:
  fixes m :: "byte list"
  assumes "poly1305_absorbed key st xs" "p_leftover st = 0"
  defines "w \<equiv> length m - length m mod 16"
  defines "st1 \<equiv> (if 16 \<le> length m then poly1305_blocks st (take w m) else st)"
  defines "r \<equiv> (if 16 \<le> length m then drop w m else m)"
  shows "poly1305_absorbed key (if length r \<noteq> 0 then
      st1\<lparr>p_buffer := buffer_copy (p_buffer st1) (p_leftover st1) r,
        p_leftover := p_leftover st1 + length r\<rparr> else st1) (xs @ m)"
proof -
  have t: "tail_of 16 xs = []" and c: "poly1305_core key st (blocks_of 16 xs)"
    and f: "p_final st = 0" and b: "length (p_buffer st) = 16"
    using assms(1,2) by (auto simp: poly1305_absorbed_def poly1305_core_def)
  have w: "w = 16 * (length m div 16)" by (simp add: w_def minus_mod_eq_mult_div)
  have tm: "tail_of 16 (xs @ m) = tail_of 16 m" using tail_of_extend [of 16 xs m] t by simp
  have bm: "blocks_of 16 (xs @ m) = blocks_of 16 (xs @ take w m)"
    by (simp add: blocks_of_extend [of 16 xs] t w blocks_of_concat flip: take_blocks)
  have r: "r = tail_of 16 m" by (simp add: r_def tail_of_def w)
  have l: "p_leftover st1 = 0" "length (p_buffer st1) = 16" "p_final st1 = 0"
    using assms(2) b f by (simp_all add: st1_def)
  have "poly1305_core key st1 (blocks_of 16 (xs @ m))"
  proof (cases "16 \<le> length m")
    case True
    then show ?thesis unfolding bm using absorbed_blocks [OF assms(1,2)] by (simp add: st1_def)
  next
    case False
    then show ?thesis unfolding bm using c by (simp add: st1_def w)
  qed
  moreover have "length r < 16" unfolding r by (rule tail_of_less) simp
  then have "buffer_copy (p_buffer st1) 0 r = r @ drop (length r) (p_buffer st1)"
    using l by (simp add: buffer_copy_at)
  ultimately show ?thesis
    using l \<open>length r < 16\<close> unfolding poly1305_absorbed_def tm
    by (auto simp: r intro: core_frame)
qed

lemma poly1305_update_absorbed:
  assumes "poly1305_absorbed key st xs"
  shows "poly1305_absorbed key (poly1305_update st m) (xs @ m)"
proof -
  have c: "poly1305_core key st (blocks_of 16 xs)" and f: "p_final st = 0" and b: "length (p_buffer st) = 16"
    and l: "p_leftover st = length (tail_of 16 xs)" and t: "take (p_leftover st) (p_buffer st) = tail_of 16 xs"
    using assms by (auto simp: poly1305_absorbed_def poly1305_core_def)
  have l16: "length (tail_of 16 xs) < 16" by (rule tail_of_less) simp
  have second: "poly1305_absorbed key (poly1305_update_rest st m) (xs @ m)"
    if "poly1305_absorbed key st xs" "p_leftover st = 0" for st xs m
    using absorbed_tail [OF that, of m] by (auto simp: poly1305_update_rest_def Let_def)
  show ?thesis
  proof (cases "p_leftover st = 0")
    case True
    then show ?thesis using second [OF assms True] by (simp add: poly1305_update_def)
  next
    case False
    define w where "w = min (16 - p_leftover st) (length m)"
    define st1 where "st1 = st\<lparr>p_buffer := buffer_copy (p_buffer st) (p_leftover st) (take w m),
      p_leftover := p_leftover st + w\<rparr>"
    have wl: "p_leftover st + w \<le> 16" "length (take w m) = w" using l l16 by (auto simp: w_def)
    have bc: "buffer_copy (p_buffer st) (p_leftover st) (take w m) =
        (tail_of 16 xs @ take w m) @ drop (p_leftover st + w) (p_buffer st)"
      using wl b t by (subst buffer_copy_at) simp_all
    show ?thesis
    proof (cases "p_leftover st + w < 16")
      case True
      then have wm: "w = length m" by (auto simp: w_def)
      then have "length (tail_of 16 xs @ m) < 16" using True l by simp
      then have "blocks_of 16 (xs @ m) = blocks_of 16 xs" "tail_of 16 (xs @ m) = tail_of 16 xs @ m"
        using blocks_of_extend [of 16 xs m] tail_of_extend [of 16 xs m] by simp_all
      moreover have "poly1305_core key st1 (blocks_of 16 xs)"
        by (rule core_frame [OF c]) (use wl b bc l in \<open>simp_all add: st1_def\<close>)
      moreover have "poly1305_update st m = st1"
        using True False by (simp add: poly1305_update_def Let_def st1_def w_def)
      ultimately show ?thesis
        using f l wm bc by (simp add: poly1305_absorbed_def st1_def)
    next
      case w16: False
      define st2 where "st2 = (poly1305_blocks st1 (p_buffer st1))\<lparr>p_leftover := 0\<rparr>"
      have full: "p_leftover st + w = 16" using w16 wl by simp
      then have buf: "p_buffer st1 = tail_of 16 xs @ take w m" using bc b by (simp add: st1_def)
      have bl: "length (p_buffer st1) = 16" using buf full l wl by simp
      have f1: "p_final st1 = 0" by (simp add: st1_def f)
      have "poly1305_core key st1 (blocks_of 16 xs)"
        by (rule core_frame [OF c]) (use bl in \<open>simp_all add: st1_def\<close>)
      then have "poly1305_core key (poly1305_blocks st1 (p_buffer st1)) (blocks_of 16 xs @ blocks_of 16 (p_buffer st1))"
        by (rule core_blocks) (simp only: f1 numbers_full simp_thms if_False)
      moreover have "blocks_of 16 xs @ blocks_of 16 (p_buffer st1) = blocks_of 16 (xs @ take w m)"
        unfolding buf by (rule blocks_of_extend [symmetric]) simp
      ultimately have c2: "poly1305_core key st2 (blocks_of 16 (xs @ take w m))"
        using bl by (auto simp: st2_def intro: core_frame)
      have "tail_of 16 (xs @ take w m) = []"
        using tail_of_extend [of 16 xs "take w m"] full l wl
        by (simp add: tail_of_def)
      then have a: "poly1305_absorbed key st2 (xs @ take w m)"
        using c2 f by (simp add: poly1305_absorbed_def) (simp add: st2_def st1_def)
      have "poly1305_absorbed key (poly1305_update st m) ((xs @ take w m) @ drop w m)"
      proof -
        have "poly1305_update st m = poly1305_update_rest st2 (drop w m)"
          unfolding poly1305_update_def Let_def st2_def st1_def w_def [symmetric]
          using False w16 by simp
        then show ?thesis using second [OF a, of "drop w m"] by (simp add: st2_def)
      qed
      then show ?thesis by simp
    qed
  qed
qed

section \<open>The authenticator\<close>

lemma poly1305_init_absorbed:
  assumes "32 \<le> length key" "length (p_buffer st) = 16"
  shows "poly1305_absorbed key (poly1305_init st key) []"
proof -
  have "word_val [U8TO32 key 16, U8TO32 key 20, U8TO32 key 24, U8TO32 key 28] = poly1305_key_s key"
  proof -
    define v where "v = le_val (take 16 (drop 16 key))"
    have ld: "unat (U8TO32 key (16 + i)) = v div 256 ^ i mod 2 ^ 32" if "i + 4 \<le> 16" for i
      using U8TO32_load [of i "take 16 (drop 16 key)"] that assms(1)
      by (simp add: v_def U8TO32_def add.assoc)
    have "length (take 16 (drop 16 key)) = 16" using assms by simp
    then have v: "v < 2 ^ 128" using le_val_less [of "take 16 (drop 16 key)"] by (simp only: v_def) simp
    have t: "v div 2 ^ 96 < 2 ^ 32" using v by (simp add: less_mult_imp_div_less)
    have w: "word_val [U8TO32 key 16, U8TO32 key 20, U8TO32 key 24, U8TO32 key 28] =
        v mod 2 ^ 32 + 2 ^ 32 * (v div 2 ^ 32 mod 2 ^ 32) + 2 ^ 64 * (v div 2 ^ 64 mod 2 ^ 32)
        + 2 ^ 96 * (v div 2 ^ 96)"
      using ld [of 0] ld [of 4] ld [of 8] ld [of 12] t by (simp add: word_val_four)
    have e: "v div 2 ^ 64 = v div 2 ^ 32 div 2 ^ 32" "v div 2 ^ 96 = v div 2 ^ 64 div 2 ^ 32"
      by (simp_all add: div_mult2_eq [symmetric])
    have "v mod 2 ^ 32 + 2 ^ 32 * (v div 2 ^ 32 mod 2 ^ 32 + 2 ^ 32 * (v div 2 ^ 64 mod 2 ^ 32
        + 2 ^ 32 * (v div 2 ^ 96))) = v"
      unfolding e by (simp only: mod_mult_div_eq)
    then show ?thesis unfolding w poly1305_key_s_def v_def [symmetric] by (simp add: distrib_left)
  qed
  then show ?thesis
    using init_key [OF assms(1), of st] assms(2)
    by (simp add: poly1305_absorbed_def poly1305_core_def poly1305_init_def)
      (simp add: limbs_of_def limbs_red_def limb_val_def poly1305_fold_def)
qed

lemma poly1305_fold_less: "poly1305_fold r bs < 2 ^ 130"
proof (cases bs rule: rev_cases)
  case (snoc as b)
  have "poly1305_fold r bs < prime1305"
    unfolding snoc poly1305_fold_def
    by (simp only: fold_append fold.simps comp_def id_apply) (rule mod_less_divisor, simp)
  then show ?thesis by simp
qed (simp add: poly1305_fold_def)

lemma finish_value:
  assumes "poly1305_core key st bs"
  shows "concat (map U32TO8 (poly1305_add_pad
      (poly1305_pack (poly1305_select (poly1305_full_carry (limbs_of (p_h st))))) (p_pad st))) =
    le_bytes 16 (poly1305_fold (poly1305_key_r key) bs + poly1305_key_s key)"
proof (rule le_val_inj)
  define g where "g = poly1305_select (poly1305_full_carry (limbs_of (p_h st)))"
  note a = assms [unfolded poly1305_core_def]
  have red: "limbs_red (limbs_of (p_h st))" using a by blast
  have lt: "limbs_lt g" unfolding g_def by (rule select_value(2) [OF full_carry_value(2) [OF red]])
  have gv: "limb_val g = poly1305_fold (poly1305_key_r key) bs"
    unfolding g_def select_value(1) [OF full_carry_value(2) [OF red]] full_carry_value(1) [OF red]
    using a by blast
  have l: "length (poly1305_pack g) = 4" "length (p_pad st) = 4"
    using a by (auto simp: poly1305_pack_def split: prod.split)
  have "word_val (poly1305_add_pad (poly1305_pack g) (p_pad st)) =
      (poly1305_fold (poly1305_key_r key) bs mod 2 ^ 128 + poly1305_key_s key) mod 2 ^ 128"
    unfolding add_pad_value(1) [OF l] pack_value [OF lt] gv using a by simp
  also have "\<dots> = (poly1305_fold (poly1305_key_r key) bs + poly1305_key_s key) mod 2 ^ 128"
    by (rule mod_add_left_eq)
  finally show "le_val (concat (map U32TO8 (poly1305_add_pad (poly1305_pack g) (p_pad st)))) =
      le_val (le_bytes 16 (poly1305_fold (poly1305_key_r key) bs + poly1305_key_s key))"
    by (simp add: word_val_def le_val_le_bytes)
  show "length (concat (map U32TO8 (poly1305_add_pad (poly1305_pack g) (p_pad st)))) =
      length (le_bytes 16 (poly1305_fold (poly1305_key_r key) bs + poly1305_key_s key))"
    using add_pad_value(2) [OF l] by (simp add: U32TO8_le length_concat comp_def sum_list_triv)
qed

lemma poly1305_finish_absorbed:
  assumes "poly1305_absorbed key st msg"
  shows "snd (poly1305_finish st) = poly1305_mac key msg"
proof (cases "p_leftover st = 0")
  case True
  then have "tail_of 16 msg = []" using assms by (simp add: poly1305_absorbed_def)
  then show ?thesis
    using finish_value [of key st "blocks_of 16 msg"] assms True
    by (simp add: poly1305_finish_def Let_def poly1305_mac_def poly1305_message_blocks_def poly1305_absorbed_def)
next
  case False
  define t where "t = tail_of 16 msg"
  define i where "i = p_leftover st"
  note a = assms [unfolded poly1305_absorbed_def poly1305_core_def]
  have t: "length t = i" "take i (p_buffer st) = t" "length (p_buffer st) = 16" "t \<noteq> []" "i < 16"
    using a False tail_of_less [of 16 msg] by (auto simp: t_def i_def)
  define buf where "buf = buffer_copy ((p_buffer st)[i := 1]) (i + 1) (replicate (16 - (i + 1)) 0)"
  have buf: "buf = t @ [1] @ replicate (15 - i) 0"
    unfolding buf_def using t
    by (subst buffer_copy_at) (simp_all add: take_Suc_conv_app_nth)
  define st1 where "st1 = st\<lparr>p_buffer := buf, p_final := 1\<rparr>"
  have lb: "length buf = 16" using buf t by simp
  have c: "poly1305_core key st1 (blocks_of 16 msg)"
    by (rule core_frame [of key st]) (use assms lb in \<open>simp_all add: poly1305_absorbed_def st1_def\<close>)
  have bb: "blocks_of 16 buf = [buf]" using lb blocks_of_block [of 16 buf "[]"] by simp
  have f1: "p_final st1 \<noteq> 0" by (simp add: st1_def)
  have "poly1305_core key (poly1305_blocks st1 buf) (blocks_of 16 msg @ [t])"
    by (rule core_blocks [OF c]) (simp add: f1 bb, simp add: buf number_padded [simplified])
  from finish_value [OF this]
  show ?thesis
    using False t(4)
    by (simp add: poly1305_finish_def Let_def poly1305_mac_def poly1305_message_blocks_def
        st1_def buf_def i_def t_def)
qed

text \<open>
  The provider's side of the interface. A key of the machine is the context's previous contents
  with the 32 bytes of the one-time key.
\<close>

interpretation poly: digest_machine
  "\<lambda>(st, key). 32 \<le> length key \<and> length (p_buffer st) = 16" "\<lambda>m. True" "\<lambda>m. m"
  "\<lambda>(st, key). poly1305_init st key" poly1305_update "\<lambda>s. snd (poly1305_finish s)"
  "\<lambda>(st, key). poly1305_absorbed key" "\<lambda>(st, key). poly1305_mac key"
  by unfold_locales
    (auto intro: poly1305_init_absorbed poly1305_update_absorbed poly1305_finish_absorbed)

text \<open>C21: For every 32-byte one-time key and every message, passed to \<open>poly1305_update\<close> in pieces of
  any sizes, \<open>poly1305_finish\<close> returns the RFC 8439 authenticator: the polynomial of the
  16-byte blocks at the clamped key modulo $2^{130}-5$, plus the second half of the key, modulo
  $2^{128}$, in little-endian order. No limb, product or carry of the code overflows.\<close>

theorem poly1305_correct:
  assumes "32 \<le> length key" "length (p_buffer st) = 16"
  shows "snd (poly1305_finish (fold (\<lambda>p s. poly1305_update s p) pieces (poly1305_init st key))) =
    le_bytes 16 (poly1305_fold (poly1305_key_r key) (poly1305_message_blocks (concat pieces))
      + poly1305_key_s key)"
  using poly.final_fold [of "(st, key)" pieces] assms by (simp add: poly1305_mac_def)

theorem poly1305_correct_witness:
  "snd (poly1305_finish (fold (\<lambda>p s. poly1305_update s p) [[1, 2], [3]]
      (poly1305_init (poly1305_state.make [] [] [] 0 (replicate 16 7) 0) (replicate 32 5)))) =
    le_bytes 16 (poly1305_fold (poly1305_key_r (replicate 32 5)) (poly1305_message_blocks [1, 2, 3])
      + poly1305_key_s (replicate 32 5))"
  using poly1305_correct [of "replicate 32 5" "poly1305_state.make [] [] [] 0 (replicate 16 7) 0"
      "[[1, 2], [3]]"]
  by (simp add: poly1305_state.make_def)

text \<open>After \<open>poly1305_finish\<close> no secret is left in the context: the key limbs, the
  accumulator and the pad are zero whatever state it was called in.\<close>

theorem poly1305_finish_wipes:
  "(let st' = fst (poly1305_finish st)
    in p_r st' = replicate 5 0 \<and> p_h st' = replicate 5 0 \<and> p_pad st' = replicate 4 0)"
  by (simp add: poly1305_finish_def Let_def numeral_eq_Suc)

end
