(* ===== verification/Tlv8.thy ===== *)
theory Tlv8
  imports Prelude "HOL-Library.Monad_Syntax"
begin

text \<open>
  Personal-HomeKit-HAP/PHKNetworkIP.cpp, the class PHKNetworkMessageData: the tag-length-value lists
  that the pairing messages carry. A record owns a block of \<open>length\<close> bytes, so the length is that of
  the list. \<open>rawData\<close>, the text behind a pointer, is the list of the bytes that may be read there. A
  read behind it, an eleventh record and a loop that does not end (\<open>delta\<close> wraps at 16 bits) are None.
\<close>

section \<open>The code\<close>

record data_record =
  r_index :: byte
  r_data :: "byte list"
  r_activate :: bool

record message_data =
  md_records :: "data_record list"
  md_count :: nat

definition empty_record :: data_record where
  "empty_record = \<lparr>r_index = 0, r_data = [], r_activate = False\<rparr>"

definition new_data :: message_data where
  "new_data = \<lparr>md_records = replicate 10 empty_record, md_count = 0\<rparr>"

text \<open>None stands for the result \<open>-1\<close>.\<close>

definition recordIndex :: "message_data \<Rightarrow> byte \<Rightarrow> nat option" where
  "recordIndex d index =
     find (\<lambda>i. r_activate (md_records d ! i) \<and> r_index (md_records d ! i) = index) [0..<md_count d]"

definition addRecord :: "message_data \<Rightarrow> data_record \<Rightarrow> message_data option" where
  "addRecord d r =
     (if md_count d < 10
      then Some (d\<lparr>md_records := (md_records d)[md_count d := r], md_count := md_count d + 1\<rparr>) else None)"

definition peek :: "byte list \<Rightarrow> nat \<Rightarrow> byte option" where
  "peek raw i = (if i < length raw then Some (raw ! i) else None)"

definition slice :: "byte list \<Rightarrow> nat \<Rightarrow> nat \<Rightarrow> byte list option" where
  "slice raw i n = (if i + n \<le> length raw then Some (take n (drop i raw)) else None)"

definition parse_step :: "byte list \<Rightarrow> nat \<Rightarrow> message_data \<Rightarrow> (nat \<times> message_data) option" where
  "parse_step raw delta d =
     do { tag \<leftarrow> peek raw delta;
          n \<leftarrow> peek raw (delta + 1);
          case recordIndex d tag of
            None \<Rightarrow> do {
              bytes \<leftarrow> slice raw (delta + 2) (unat n);
              d \<leftarrow> addRecord d \<lparr>r_index = tag, r_data = bytes, r_activate = True\<rparr>;
              Some ((delta + (length bytes + 2)) mod 2 ^ 16, d) }
          | Some index \<Rightarrow> do {
              let r = md_records d ! index;
              let newLen = unat n + length (r_data r);
              bytes \<leftarrow> slice raw (delta + 2) (newLen - length (r_data r));
              let delta = (delta + (newLen - length (r_data r) + 2)) mod 2 ^ 16;
              Some (delta, d\<lparr>md_records := (md_records d)[index := r\<lparr>r_data := r_data r @ bytes\<rparr>]\<rparr>) } }"

partial_function (option) parse_loop :: "byte list \<Rightarrow> nat \<Rightarrow> nat \<Rightarrow> message_data \<Rightarrow> message_data option" where
  "parse_loop raw len delta d =
     (if delta < len then do { (delta, d) \<leftarrow> parse_step raw delta d; parse_loop raw len delta d } else Some d)"

definition parse_data :: "byte list \<Rightarrow> nat \<Rightarrow> message_data option" where
  "parse_data raw len = parse_loop raw (len mod 2 ^ 16) 0 new_data"

function raw_record :: "byte \<Rightarrow> byte list \<Rightarrow> byte list" where
  "raw_record index bs =
     (if bs = [] then []
      else let len = (if length bs > 255 then 255 else length bs)
           in index # of_nat len # take len bs @ raw_record index (drop len bs))"
  by pat_completeness auto
termination
  by (relation "measure (\<lambda>(index, bs). length bs)") auto

declare raw_record.simps [simp del]

definition rawData :: "message_data \<Rightarrow> byte list" where
  "rawData d =
     (let buffer = concat (map (\<lambda>r. if r_activate r then raw_record (r_index r) (r_data r) else []) (md_records d))
      in take (length buffer mod 2 ^ 16) buffer)"

text \<open>The address of a record's bytes; None is the null pointer.\<close>

definition dataPtrForIndex :: "message_data \<Rightarrow> byte \<Rightarrow> byte list option" where
  "dataPtrForIndex d index = map_option (\<lambda>i. r_data (md_records d ! i)) (recordIndex d index)"

definition lengthForIndex :: "message_data \<Rightarrow> byte \<Rightarrow> nat" where
  "lengthForIndex d index =
     (case recordIndex d index of Some i \<Rightarrow> length (r_data (md_records d ! i)) | None \<Rightarrow> 0)"

text \<open>The assignment keeps the records that are empty on the right.\<close>

definition assign_data :: "message_data \<Rightarrow> message_data \<Rightarrow> message_data" where
  "assign_data d e =
     \<lparr>md_records = map (\<lambda>i. if length (r_data (md_records e ! i)) \<noteq> 0 then md_records e ! i else md_records d ! i) [0..<10],
      md_count = md_count e\<rparr>"

section \<open>Parsing\<close>

text \<open>A fragment is a tag and at most 255 bytes; \<open>merged\<close> is what a sequence of them means.\<close>

type_synonym field = "byte \<times> byte list"

definition encode_fragment :: "field \<Rightarrow> byte list" where
  "encode_fragment f = fst f # of_nat (length (snd f)) # snd f"

abbreviation fragments :: "field list \<Rightarrow> byte list" where
  "fragments fs \<equiv> concat (map encode_fragment fs)"

definition value_of :: "byte \<Rightarrow> field list \<Rightarrow> byte list" where
  "value_of t fs = concat (map snd (filter (\<lambda>f. fst f = t) fs))"

definition tags :: "field list \<Rightarrow> byte list" where
  "tags fs = rev (remdups (rev (map fst fs)))"

definition merged :: "field list \<Rightarrow> field list" where
  "merged fs = map (\<lambda>t. (t, value_of t fs)) (tags fs)"

definition record_of :: "field \<Rightarrow> data_record" where
  "record_of f = \<lparr>r_index = fst f, r_data = snd f, r_activate = True\<rparr>"

definition data_of :: "field list \<Rightarrow> message_data" where
  "data_of fs = \<lparr>md_records = map record_of fs @ replicate (10 - length fs) empty_record, md_count = length fs\<rparr>"

lemma distinct_tags [simp]: "distinct (tags fs)"
  by (simp add: tags_def)

lemma set_tags [simp]: "set (tags fs) = fst ` set fs"
  by (simp add: tags_def)

lemma tags_snoc: "tags (fs @ [f]) = (if fst f \<in> fst ` set fs then tags fs else tags fs @ [fst f])"
  by (simp add: tags_def)

lemma map_fst_merged [simp]: "map fst (merged fs) = tags fs"
  by (simp add: merged_def comp_def)

lemma length_merged [simp]: "length (merged fs) = length (tags fs)"
  by (simp add: merged_def)

lemma value_of_snoc: "value_of t (fs @ [f]) = value_of t fs @ (if fst f = t then snd f else [])"
  by (simp add: value_of_def)

lemma value_of_none: "t \<notin> fst ` set fs \<Longrightarrow> value_of t fs = []"
  by (induction fs) (auto simp: value_of_def)

lemma merged_snoc:
  "merged (fs @ [f]) =
     (if fst f \<in> fst ` set fs then map (\<lambda>g. if fst g = fst f then (fst g, snd g @ snd f) else g) (merged fs)
      else merged fs @ [f])"
  by (auto simp: merged_def tags_snoc value_of_snoc value_of_none image_iff)

lemma merged_distinct: "distinct (map fst fs) \<Longrightarrow> merged fs = fs"
proof (induction fs rule: rev_induct)
  case (snoc f fs)
  then show ?case by (simp add: merged_snoc)
qed (simp add: merged_def tags_def)

lemma record_at:
  assumes "i < length fs"
  shows "md_records (data_of fs) ! i = record_of (fs ! i)"
  using assms by (simp add: data_of_def nth_append)

lemma recordIndex_absent: "t \<notin> set (map fst fs) \<Longrightarrow> recordIndex (data_of fs) t = None"
  unfolding recordIndex_def find_None_iff
  using nth_mem by (fastforce simp: data_of_def record_of_def nth_append)

lemma recordIndex_at:
  assumes "distinct (map fst fs)" "i < length fs" "fst (fs ! i) = t"
  shows "recordIndex (data_of fs) t = Some i"
proof -
  have "fst (fs ! j) \<noteq> t" if "j < i" for j
    using nth_eq_iff_index_eq [OF assms(1), of i j] assms(2,3) that by simp
  then show ?thesis
    unfolding recordIndex_def find_Some_iff
    using assms(2,3) by (intro exI [of _ i]) (simp add: data_of_def nth_append record_of_def)
qed

lemma recordIndex_data_of:
  assumes "distinct (map fst fs)"
  shows "recordIndex (data_of fs) t = None \<longleftrightarrow> t \<notin> set (map fst fs)"
proof (cases "t \<in> set (map fst fs)")
  case True
  then obtain i where "i < length fs" "fst (fs ! i) = t" by (auto simp: in_set_conv_nth)
  then show ?thesis using recordIndex_at [OF assms] True by fastforce
qed (simp add: recordIndex_absent)

lemma length_encode_fragment [simp]: "length (encode_fragment f) = length (snd f) + 2"
  by (simp add: encode_fragment_def)

lemma fragment_length: "length (snd f) \<le> 255 \<Longrightarrow> unat (of_nat (length (snd f)) :: byte) = length (snd f)"
  by (simp add: unat_of_nat_byte)

lemma fragment_reads:
  assumes "length (snd f) \<le> 255"
  shows "peek (pre @ encode_fragment f @ post) (length pre) = Some (fst f)"
    "peek (pre @ encode_fragment f @ post) (length pre + 1) = Some (of_nat (length (snd f)))"
    "slice (pre @ encode_fragment f @ post) (length pre + 2) (length (snd f)) = Some (snd f)"
  using assms by (simp_all add: peek_def slice_def encode_fragment_def nth_append unat_of_nat_byte)

lemma addRecord_data_of:
  assumes "length ms < 10"
  shows "addRecord (data_of ms) (record_of f) = Some (data_of (ms @ [f]))"
proof -
  obtain k where k: "10 - length ms = Suc k" "10 - Suc (length ms) = k" using assms by (cases "10 - length ms") auto
  then show ?thesis using assms by (simp add: addRecord_def data_of_def list_update_append)
qed

lemma extend_data_of:
  assumes "distinct (map fst ms)" "i < length ms"
  shows "(data_of ms)\<lparr>md_records := (md_records (data_of ms))[i := record_of (fst (ms ! i), v)]\<rparr> =
    data_of (map (\<lambda>g. if fst g = fst (ms ! i) then (fst g, v) else g) ms)"
proof -
  have "(map record_of ms)[i := record_of (fst (ms ! i), v)] =
      map record_of (map (\<lambda>g. if fst g = fst (ms ! i) then (fst g, v) else g) ms)"
    using assms nth_eq_iff_index_eq [OF assms(1)] by (intro nth_equalityI) (auto simp: nth_list_update)
  then show ?thesis using assms(2) by (simp add: data_of_def list_update_append)
qed

lemma length_tags_snoc: "length (tags fs) \<le> length (tags (fs @ [f]))"
  by (simp add: tags_snoc)

lemma parse_step_fragment:
  assumes "length (snd f) \<le> 255" "length pre + length (snd f) + 2 < 2 ^ 16" "length (tags fs) \<le> 10"
  shows "parse_step (pre @ encode_fragment f @ post) (length pre) (data_of (merged fs)) =
    (if length (tags (fs @ [f])) \<le> 10
     then Some (length (pre @ encode_fragment f), data_of (merged (fs @ [f]))) else None)"
proof (cases "fst f \<in> fst ` set fs")
  case False
  then have "recordIndex (data_of (merged fs)) (fst f) = None" by (intro recordIndex_absent) simp
  then show ?thesis
    using False assms fragment_reads [OF assms(1), of pre post] fragment_length [OF assms(1)] addRecord_data_of [of "merged fs" f]
    by (simp add: parse_step_def tags_snoc merged_snoc record_of_def addRecord_def del: unat_of_nat)
      (simp add: data_of_def)
next
  case True
  have d: "distinct (map fst (merged fs))" by simp
  from True obtain i where i: "i < length (merged fs)" "fst (merged fs ! i) = fst f"
    using set_tags [of fs] by (metis in_set_conv_nth map_fst_merged length_map nth_map)
  define v where "v = snd (merged fs ! i)"
  have f: "merged fs ! i = (fst f, v)" using i(2) by (simp add: v_def prod_eq_iff)
  have r: "md_records (data_of (merged fs)) ! i = record_of (fst f, v)" using record_at [OF i(1)] f by simp
  have "(if fst g = fst f then (fst g, snd g @ snd f) else g) = (if fst g = fst f then (fst g, v @ snd f) else g)"
    if "g \<in> set (merged fs)" for g
    using that f i d by (metis (no_types) distinct_map inj_on_def nth_mem prod.collapse snd_conv fst_conv)
  then have e: "map (\<lambda>g. if fst g = fst f then (fst g, snd g @ snd f) else g) (merged fs) =
      map (\<lambda>g. if fst g = fst f then (fst g, v @ snd f) else g) (merged fs)" by simp
  show ?thesis
    using True assms fragment_reads [OF assms(1), of pre post] fragment_length [OF assms(1)] recordIndex_at [OF d i] extend_data_of [OF d i(1), of "v @ snd f"]
    by (simp add: parse_step_def tags_snoc merged_snoc e r f record_of_def del: unat_of_nat)
qed

lemma parse_loop_fragments:
  assumes "\<forall>f \<in> set gs. length (snd f) \<le> 255" "length pre + length (fragments gs) < 2 ^ 16" "length (tags fs) \<le> 10"
    "length pre + length (fragments gs) \<le> len"
  shows "parse_loop (pre @ fragments gs @ post) len (length pre) (data_of (merged fs)) =
    (if length (tags (fs @ gs)) \<le> 10
     then parse_loop (pre @ fragments gs @ post) len (length (pre @ fragments gs)) (data_of (merged (fs @ gs))) else None)"
  using assms
proof (induction gs arbitrary: fs pre)
  case (Cons f gs)
  have grow: "length (tags (fs @ [f])) \<le> length (tags (fs @ f # gs))"
    by (metis (no_types) distinct_card distinct_tags set_tags card_mono finite_imageI finite_set image_mono
        append.assoc append_Cons append_Nil set_append Un_upper1)
  show ?case
  proof (cases "length (tags (fs @ [f])) \<le> 10")
    case True
    then show ?thesis
      using parse_step_fragment [of f pre fs "fragments gs @ post"] Cons.IH [of "pre @ encode_fragment f" "fs @ [f]"] Cons.prems
      by (subst parse_loop.simps) (simp add: add.assoc)
  next
    case False
    then show ?thesis
      using parse_step_fragment [of f pre fs "fragments gs @ post"] Cons.prems grow
      by (subst parse_loop.simps) (simp add: add.assoc)
  qed
qed simp

lemma data_of_Nil: "new_data = data_of (merged [])"
  by (simp add: new_data_def data_of_def merged_def tags_def)

lemma parse_data_fragments:
  assumes "\<forall>f \<in> set gs. length (snd f) \<le> 255" "length (fragments gs) < 2 ^ 16"
  shows "parse_data (fragments gs @ post) (length (fragments gs)) =
    (if length (tags gs) \<le> 10 then Some (data_of (merged gs)) else None)"
  using parse_loop_fragments [of gs "[]" "[]" "length (fragments gs)" post] assms
  by (simp add: parse_data_def data_of_Nil) (simp add: parse_loop.simps tags_def)

lemma parse_data_overrun:
  assumes "\<forall>f \<in> set (gs @ [g]). length (snd f) \<le> 255" "length (fragments (gs @ [g])) < 2 ^ 16"
    and len: "length (fragments gs) < len" "len \<le> length (fragments (gs @ [g]))"
  shows "parse_data (fragments (gs @ [g]) @ post) len =
    (if length (tags (gs @ [g])) \<le> 10 then Some (data_of (merged (gs @ [g]))) else None)"
proof -
  have raw: "fragments (gs @ [g]) @ post = [] @ fragments gs @ encode_fragment g @ post" by simp
  have "parse_data (fragments (gs @ [g]) @ post) len = (if length (tags gs) \<le> 10
      then parse_loop (fragments gs @ encode_fragment g @ post) len (length (fragments gs)) (data_of (merged gs)) else None)"
    using parse_loop_fragments [of gs "[]" "[]" len "encode_fragment g @ post"] assms
    unfolding raw by (simp add: parse_data_def data_of_Nil) (simp add: tags_def)
  also have "\<dots> = (if length (tags (gs @ [g])) \<le> 10 then Some (data_of (merged (gs @ [g]))) else None)"
    using parse_step_fragment [of g "fragments gs" gs post] assms length_tags_snoc [of gs g]
    by (subst parse_loop.simps) (auto simp: parse_loop.simps)
  finally show ?thesis .
qed

section \<open>Writing\<close>

lemma raw_record_Nil [simp]: "raw_record t [] = []"
  by (simp add: raw_record.simps)

text \<open>The fragments of one record.\<close>

function pieces :: "byte \<Rightarrow> byte list \<Rightarrow> field list" where
  "pieces t bs = (if bs = [] then [] else (t, take 255 bs) # pieces t (drop 255 bs))"
  by pat_completeness auto
termination
  by (relation "measure (\<lambda>(index, bs). length bs)") auto

declare pieces.simps [simp del]

lemma pieces_Nil [simp]: "pieces t [] = []"
  by (simp add: pieces.simps)

lemma raw_record_pieces: "raw_record t bs = fragments (pieces t bs)"
proof (induction t bs rule: pieces.induct)
  case (1 t bs)
  then show ?case
    by (subst raw_record.simps, subst pieces.simps) (simp add: Let_def encode_fragment_def [abs_def] min_def)
qed

lemma pieces_facts:
  "\<forall>f \<in> set (pieces t bs). fst f = t \<and> length (snd f) \<le> 255" "concat (map snd (pieces t bs)) = bs"
  "pieces t bs = [] \<longleftrightarrow> bs = []"
proof (induction t bs rule: pieces.induct)
  case (1 t bs)
  { case 1 then show ?case using "1.IH" by (subst pieces.simps) auto }
  { case 2 then show ?case using "1.IH" by (subst pieces.simps) auto }
  { case 3 then show ?case by (subst pieces.simps) simp }
qed

lemma fst_pieces: "bs \<noteq> [] \<Longrightarrow> fst ` set (pieces t bs) = {t}"
  using pieces_facts [of t bs] by (cases "pieces t bs") (auto simp: image_iff)

lemma value_of_pieces: "value_of u (pieces t bs) = (if u = t then bs else [])"
proof -
  have "filter (\<lambda>f. fst f = u) (pieces t bs) = (if u = t then pieces t bs else [])"
    using pieces_facts(1) [of t bs] by (auto simp: filter_id_conv filter_empty_conv)
  then show ?thesis using pieces_facts(2) [of t bs] by (simp add: value_of_def)
qed

lemma value_of_append: "value_of t (fs @ gs) = value_of t fs @ value_of t gs"
  by (simp add: value_of_def)

lemma tags_absorb: "fst ` set gs \<subseteq> fst ` set fs \<Longrightarrow> tags (fs @ gs) = tags fs"
proof (induction gs rule: rev_induct)
  case (snoc g gs)
  have "tags ((fs @ gs) @ [g]) = tags (fs @ gs)"
    using snoc.prems by (subst tags_snoc) (auto simp: image_Un)
  then show ?case using snoc by simp
qed simp

abbreviation all_pieces :: "field list \<Rightarrow> field list" where
  "all_pieces fs \<equiv> concat (map (\<lambda>f. pieces (fst f) (snd f)) fs)"

lemma set_all_pieces: "\<forall>f \<in> set fs. snd f \<noteq> [] \<Longrightarrow> fst ` set (all_pieces fs) = fst ` set fs"
  by (induction fs) (auto simp: image_Un fst_pieces)

lemma merged_all_pieces:
  assumes "distinct (map fst fs)" "\<forall>f \<in> set fs. snd f \<noteq> []"
  shows "merged (all_pieces fs) = fs"
  using assms
proof (induction fs rule: rev_induct)
  case (snoc f fs)
  have new: "fst f \<notin> fst ` set (all_pieces fs)" using snoc.prems set_all_pieces [of fs] by auto
  obtain g gs where g: "pieces (fst f) (snd f) = g # gs"
    using pieces_facts(3) [of "fst f" "snd f"] snoc.prems by (cases "pieces (fst f) (snd f)") auto
  have gs: "fst g = fst f" "fst ` set gs \<subseteq> {fst f}" using pieces_facts(1) [of "fst f" "snd f"] g by auto
  have "tags ((all_pieces fs @ [g]) @ gs) = tags (all_pieces fs @ [g])" using gs by (intro tags_absorb) auto
  then have t: "tags (all_pieces fs @ pieces (fst f) (snd f)) = tags (all_pieces fs) @ [fst f]"
    using g gs new by (simp add: tags_snoc)
  have v: "value_of u (pieces (fst f) (snd f)) = []" if "u \<in> set (tags (all_pieces fs))" for u
  proof -
    have "u \<noteq> fst f" using that new set_tags [of "all_pieces fs"] by metis
    then show ?thesis by (simp add: value_of_pieces)
  qed
  have "merged (all_pieces (fs @ [f])) = merged (all_pieces fs) @ [(fst f, snd f)]"
    using new v value_of_pieces [of "fst f" "fst f" "snd f"]
    by (simp add: merged_def t value_of_append value_of_none del: set_tags)
  then show ?case using snoc by simp
qed (simp add: merged_def tags_def)

lemma rawData_pieces:
  assumes "length (fragments (all_pieces fs)) < 2 ^ 16"
  shows "rawData (data_of fs) = fragments (all_pieces fs)"
proof -
  have "concat (map (\<lambda>r. if r_activate r then raw_record (r_index r) (r_data r) else []) (md_records (data_of fs))) =
      fragments (all_pieces fs)"
  proof -
    have "concat (map (\<lambda>r. if r_activate r then raw_record (r_index r) (r_data r) else []) (map record_of fs)) =
        fragments (all_pieces fs)"
      by (induction fs) (simp_all add: record_of_def raw_record_pieces)
    moreover have "concat (map (\<lambda>r. if r_activate r then raw_record (r_index r) (r_data r) else []) (replicate n empty_record)) = []" for n
      by (simp add: empty_record_def)
    ultimately show ?thesis unfolding data_of_def by (simp only: message_data.simps map_append concat_append append_Nil2)
  qed
  then show ?thesis using assms by (simp add: rawData_def Let_def)
qed

lemma tlv_roundtrip_data:
  assumes "distinct (map fst fs)" "\<forall>f \<in> set fs. snd f \<noteq> []" "length fs \<le> 10"
    and "(\<Sum>f \<leftarrow> fs. length (raw_record (fst f) (snd f))) < 2 ^ 16"
  shows "parse_data (rawData (data_of fs) @ post) (length (rawData (data_of fs))) = Some (data_of fs)"
proof -
  have "length (fragments (all_pieces fs)) = (\<Sum>f \<leftarrow> fs. length (raw_record (fst f) (snd f)))"
    by (induction fs) (simp_all add: raw_record_pieces)
  then have small: "length (fragments (all_pieces fs)) < 2 ^ 16" using assms(4) by simp
  have "\<forall>f \<in> set (all_pieces fs). length (snd f) \<le> 255" using pieces_facts(1) by fastforce
  from parse_data_fragments [OF this small, of post] show ?thesis
    using assms(3) merged_all_pieces [OF assms(1,2)]
    by (simp add: rawData_pieces [OF small] flip: length_merged)
qed

section \<open>Properties\<close>

lemma data_of_lookup:
  assumes "distinct (map fst fs)"
  shows "dataPtrForIndex (data_of fs) t = map_of fs t"
    "lengthForIndex (data_of fs) t = (case map_of fs t of None \<Rightarrow> 0 | Some v \<Rightarrow> length v)"
proof -
  have "dataPtrForIndex (data_of fs) t = map_of fs t \<and>
      lengthForIndex (data_of fs) t = (case map_of fs t of None \<Rightarrow> 0 | Some v \<Rightarrow> length v)"
  proof (cases "t \<in> set (map fst fs)")
    case True
    then obtain i where i: "i < length fs" "fst (fs ! i) = t" by (auto simp: in_set_conv_nth)
    have "map_of fs t = Some (snd (fs ! i))" using assms i by (simp add: map_of_eq_Some_iff prod_eq_iff in_set_conv_nth)
        (metis i prod.collapse)
    then show ?thesis
      using i by (simp add: dataPtrForIndex_def lengthForIndex_def recordIndex_at [OF assms i] record_at record_of_def)
  next
    case False
    then have "map_of fs t = None" by (simp add: map_of_eq_None_iff)
    then show ?thesis by (simp add: dataPtrForIndex_def lengthForIndex_def recordIndex_absent [OF False])
  qed
  then show "dataPtrForIndex (data_of fs) t = map_of fs t"
    "lengthForIndex (data_of fs) t = (case map_of fs t of None \<Rightarrow> 0 | Some v \<Rightarrow> length v)" by simp_all
qed

lemma map_of_merged: "map_of (merged fs) t = (if t \<in> fst ` set fs then Some (value_of t fs) else None)"
proof -
  have "map_of (map (\<lambda>t. (t, value_of t fs)) ts) t = (if t \<in> set ts then Some (value_of t fs) else None)" for ts
    by (induction ts) auto
  then show ?thesis by (simp add: merged_def)
qed

text \<open>C16: Parsing a sequence of fragments whose tags are at most ten collects, for each tag, the bytes of
  all its fragments in order, and the lookup of a tag returns them (a null pointer and length 0 for a tag that
  does not occur). With an eleventh tag the parser writes behind its array.\<close>

theorem tlv_parse:
  assumes "\<forall>f \<in> set gs. length (snd f) \<le> 255" "length (concat (map encode_fragment gs)) < 2 ^ 16"
  shows "case parse_data (concat (map encode_fragment gs) @ post) (length (concat (map encode_fragment gs))) of
      None \<Rightarrow> 10 < card (fst ` set gs)
    | Some d \<Rightarrow> card (fst ` set gs) \<le> 10 \<and> (\<forall>t.
        dataPtrForIndex d t = (if t \<in> fst ` set gs then Some (value_of t gs) else None) \<and>
        lengthForIndex d t = length (value_of t gs))"
proof -
  have n: "length (tags gs) = card (fst ` set gs)" using distinct_card [OF distinct_tags, of gs] by simp
  have d: "distinct (map fst (merged gs))" by simp
  show ?thesis
    using parse_data_fragments [OF assms, of post]
    by (simp add: n data_of_lookup [OF d] map_of_merged value_of_none)
qed

theorem tlv_parse_witness:
  "dataPtrForIndex (the (parse_data [6, 1, 3, 3, 2, 7, 8, 3, 1, 9, 0] 10)) 3 = Some [7, 8, 9]"
proof -
  have e: "concat (map encode_fragment [(6, [3]), (3, [7, 8]), (3, [9])]) = [6, 1, 3, 3, 2, 7, 8, 3, 1, 9]"
    by (simp add: encode_fragment_def)
  have n: "length [6, 1, 3, 3, 2, 7, 8, 3, 1, 9 :: byte] = 10" by simp
  have "value_of 3 [(6, [3]), (3, [7, 8]), (3, [9])] = [7, 8, 9]" by (simp add: value_of_def)
  moreover have "card (fst ` set [(6 :: byte, [3 :: byte]), (3, [7, 8]), (3, [9])]) \<le> 10" by simp
  ultimately show ?thesis
    using tlv_parse [of "[(6, [3]), (3, [7, 8]), (3, [9])]" "[0]"] unfolding e n by (auto split: option.splits)
qed

text \<open>C15: A list of records with different tags and without empty ones survives writing and parsing, also
  when a record is longer than the 255 bytes of a fragment and whatever follows the message in memory.\<close>

theorem tlv_roundtrip:
  assumes "distinct (map fst fs)" "\<forall>f \<in> set fs. snd f \<noteq> []" "length fs \<le> 10"
    and "(\<Sum>f \<leftarrow> fs. length (raw_record (fst f) (snd f))) < 2 ^ 16"
  shows "parse_data (rawData (data_of fs) @ post) (length (rawData (data_of fs))) = Some (data_of fs)"
  by (rule tlv_roundtrip_data [OF assms])

theorem tlv_roundtrip_witness:
  "parse_data (rawData (data_of [(6, [2]), (3, replicate 384 1), (2, [5, 5])]) @ [0])
     (length (rawData (data_of [(6, [2]), (3, replicate 384 1), (2, [5, 5])]))) =
   Some (data_of [(6, [2]), (3, replicate 384 1), (2, [5, 5])])"
  by (rule tlv_roundtrip) (simp_all add: raw_record.simps)

text \<open>The length of the message is only looked at between fragments: the last one is taken whole,
  from the memory behind the message, when only its first byte lies inside.\<close>

theorem tlv_overrun:
  assumes "\<forall>f \<in> set (gs @ [g]). length (snd f) \<le> 255" "length (concat (map encode_fragment (gs @ [g]))) < 2 ^ 16"
    and "length (concat (map encode_fragment gs)) < len" "len \<le> length (concat (map encode_fragment (gs @ [g])))"
  shows "parse_data (concat (map encode_fragment (gs @ [g])) @ post) len =
    parse_data (concat (map encode_fragment (gs @ [g])) @ post) (length (concat (map encode_fragment (gs @ [g]))))"
  using parse_data_overrun [OF assms, of post] parse_data_fragments [OF assms(1,2), of post] by simp

theorem tlv_overrun_witness:
  "parse_data [6, 1, 3, 3, 2, 7, 8, 0] 4 = parse_data [6, 1, 3, 3, 2, 7, 8, 0] 7"
proof -
  have e: "concat (map encode_fragment ([(6, [3])] @ [(3, [7, 8])])) = [6, 1, 3, 3, 2, 7, 8]"
    "concat (map encode_fragment [(6, [3])]) = [6, 1, 3]" by (simp_all add: encode_fragment_def)
  have n: "length [6, 1, 3, 3, 2, 7, 8 :: byte] = 7" "length [6, 1, 3 :: byte] = 3" by simp_all
  show ?thesis using tlv_overrun [of "[(6, [3])]" "(3, [7, 8])" 4 "[0]"] unfolding e n by simp
qed

end
