(* ===== verification/Hap_Message.thy ===== *)
theory Hap_Message
  imports Tlv8
begin

text \<open>
  Personal-HomeKit-HAP/PHKNetworkIP.cpp, the classes PHKNetworkMessage and PHKNetworkResponse: the
  HTTP messages around the tag-length-value lists. A pointer into the received buffer is the list of
  the bytes from there to the end of the buffer, so that a read behind it, like a write behind one of
  the arrays \<open>method\<close>, \<open>type\<close> and \<open>directory\<close>, is None. The arrays are the strings they hold; what they hold
  before the constructor runs is the argument \<open>old\<close>.
\<close>

section \<open>The code\<close>

record message =
  msg_method :: "byte list"
  msg_type :: "byte list"
  msg_directory :: "byte list"
  msg_data :: message_data

text \<open>The bytes before the first that stops a loop, and the bytes from it on.\<close>

definition scan :: "(byte \<Rightarrow> bool) \<Rightarrow> byte list \<Rightarrow> (byte list \<times> byte list) option" where
  "scan stop ptr =
     (let rest = dropWhile (\<lambda>b. \<not> stop b) ptr
      in if rest = [] then None else Some (takeWhile (\<lambda>b. \<not> stop b) ptr, rest))"

definition advance :: "nat \<Rightarrow> byte list \<Rightarrow> byte list option" where
  "advance n ptr = (if n \<le> length ptr then Some (drop n ptr) else None)"

text \<open>The line, copied to an array of 1024 bytes, and the pointer to the next.\<close>

definition copyLine :: "byte list \<Rightarrow> (byte list \<times> byte list) option" where
  "copyLine raw =
     do { (w, rest) \<leftarrow> scan (\<lambda>b. b = 13 \<or> b = 0) raw;
          rest \<leftarrow> advance 1 rest;
          c \<leftarrow> peek rest 0;
          if length w \<le> 1024 then Some (w, if c = 10 then tl rest else rest) else None }"

definition skipTillChar :: "byte list \<Rightarrow> byte \<Rightarrow> byte list option" where
  "skipTillChar ptr target =
     do { (w, rest) \<leftarrow> scan (\<lambda>b. b = 0 \<or> b = target) ptr; advance 1 rest }"

primrec copy_lines :: "nat \<Rightarrow> byte list \<Rightarrow> byte list option" where
  "copy_lines 0 dptr = Some dptr"
| "copy_lines (Suc n) dptr = do { (w, dptr) \<leftarrow> copyLine dptr; copy_lines n dptr }"

text \<open>A string read into an array of \<open>size\<close> bytes; an empty one leaves the array as it was.\<close>

definition copy_word :: "nat \<Rightarrow> byte list \<Rightarrow> byte \<Rightarrow> byte list \<Rightarrow> (byte list \<times> byte list) option" where
  "copy_word cap old stop ptr =
     do { (w, rest) \<leftarrow> scan (\<lambda>b. b = 0 \<or> b = stop) ptr;
          if length w < cap then Some (if w = [] then old else w, rest) else None }"

fun strncmp_equal :: "byte list \<Rightarrow> byte list \<Rightarrow> bool option" where
  "strncmp_equal ptr [] = Some True"
| "strncmp_equal ptr (c # cs) =
     do { b \<leftarrow> peek ptr 0; if b = c then strncmp_equal (tl ptr) cs else Some False }"

definition isspace :: "byte \<Rightarrow> bool" where
  "isspace b \<longleftrightarrow> b = 32 \<or> 9 \<le> b \<and> b \<le> 13"

definition isdigit :: "byte \<Rightarrow> bool" where
  "isdigit b \<longleftrightarrow> 48 \<le> b \<and> b \<le> 57"

definition digits_value :: "byte list \<Rightarrow> nat" where
  "digits_value ds = foldl (\<lambda>n d. 10 * n + (unat d - 48)) 0 ds"

text \<open>\<open>strtol\<close> in base 10, with a \<open>long\<close> of 64 bits: the value and the end.\<close>

definition strtol10 :: "byte list \<Rightarrow> (int \<times> byte list) option" where
  "strtol10 ptr =
     do { (w, p) \<leftarrow> scan (\<lambda>b. \<not> isspace b) ptr;
          let neg = hd p = 45;
          let p = (if hd p = 45 \<or> hd p = 43 then tl p else p);
          (ds, rest) \<leftarrow> scan (\<lambda>b. \<not> isdigit b) p;
          let v = (if neg then - int (digits_value ds) else int (digits_value ds));
          Some (if ds = [] then (0, ptr) else (max (- (2 ^ 63)) (min (2 ^ 63 - 1) v), rest)) }"

text \<open>\<open>atoi\<close>; a number that is no \<open>int\<close> is undefined.\<close>

definition atoi :: "byte list \<Rightarrow> int option" where
  "atoi p = do { (v, e) \<leftarrow> strtol10 p; if - (2 ^ 31) \<le> v \<and> v < 2 ^ 31 then Some v else None }"

definition PHKNetworkMessage :: "message \<Rightarrow> byte list \<Rightarrow> message option" where
  "PHKNetworkMessage old raw =
     do { (method, ptr) \<leftarrow> copy_word 5 (ascii ''POST'') 32 raw;
          ptr \<leftarrow> advance 2 ptr;
          (directory, ptr) \<leftarrow> copy_word 20 (msg_directory old) 32 ptr;
          ptr \<leftarrow> skipTillChar ptr 10;
          dptr \<leftarrow> copy_lines 19 ptr;
          host \<leftarrow> strncmp_equal ptr (ascii ''Host'');
          ptr \<leftarrow> (if host then skipTillChar ptr 10 else Some ptr);
          ptr \<leftarrow> skipTillChar ptr 58;
          ptr \<leftarrow> advance 1 ptr;
          (n, ptr) \<leftarrow> strtol10 ptr;
          let dataSize = nat (n mod 2 ^ 32);
          ptr \<leftarrow> skipTillChar ptr 58;
          ptr \<leftarrow> advance 2 ptr;
          (tp, ptr) \<leftarrow> copy_word 40 (msg_type old) 13 ptr;
          ptr \<leftarrow> advance 4 ptr;
          d \<leftarrow> parse_data ptr dataSize;
          Some \<lparr>msg_method = method, msg_type = tp, msg_directory = directory, msg_data = assign_data new_data d\<rparr> }"

fun int2str :: "nat \<Rightarrow> byte list" where
  "int2str i = (if i < 10 then [48 + of_nat i] else int2str (i div 10) @ [48 + of_nat (i mod 10)])"

declare int2str.simps [simp del]

text \<open>The header is cut at 1024 bytes, but its length is not; the data and a terminator follow.\<close>

definition message_header :: "message \<Rightarrow> nat \<Rightarrow> byte list" where
  "message_header m dataSize =
     msg_method m @ ascii '' /'' @ msg_directory m @ ascii '' HTTP/1.1'' @ [13, 10] @
     ascii ''Content-Length: '' @ int2str dataSize @ [13, 10] @
     ascii ''Content-Type: '' @ msg_type m @ [13, 10, 13, 10]"

definition message_getBinaryPtr :: "message \<Rightarrow> byte list option" where
  "message_getBinaryPtr m =
     (let d = rawData (msg_data m); header = message_header m (length d)
      in if length header + length d < 1024 then Some (header @ d) else None)"

record response =
  rsp_code :: nat
  rsp_data :: message_data

definition PHKNetworkResponse :: "nat \<Rightarrow> response" where
  "PHKNetworkResponse code = \<lparr>rsp_code = code, rsp_data = new_data\<rparr>"

definition responseType :: "response \<Rightarrow> byte list" where
  "responseType r = (if rsp_code r = 200 then ascii ''OK'' else [])"

text \<open>A number written into an array of five bytes.\<close>

definition str5 :: "nat \<Rightarrow> byte list option" where
  "str5 i = (if length (int2str i) < 5 then Some (int2str i) else None)"

definition response_getBinaryPtr :: "response \<Rightarrow> byte list option" where
  "response_getBinaryPtr r =
     do { code \<leftarrow> str5 (rsp_code r);
          let temp = ascii ''HTTP/1.1 '' @ code @ ascii '' '' @ responseType r @ [13, 10] @
            ascii ''Content-Type: application/pairing+tlv8'' @ [13, 10] @ ascii ''Content-Length: '';
          let d = rawData (rsp_data r);
          n \<leftarrow> str5 (length d);
          Some (temp @ n @ [13, 10, 13, 10] @ d) }"

section \<open>Numbers\<close>

lemma int2str_digits:
  "digits_value (int2str n) = n" "\<forall>d \<in> set (int2str n). isdigit d" "int2str n \<noteq> []"
proof (induction n rule: int2str.induct)
  case (1 i)
  have digit: "unat (48 + of_nat k :: byte) = 48 + k" if "k < 10" for k
    using that by (simp add: unat_word_ariths unat_of_nat)
  { case 1 then show ?case using "1.IH" digit [of i] digit [of "i mod 10"]
      by (subst int2str.simps) (auto simp: digits_value_def) }
  { case 2 then show ?case using "1.IH" digit [of i] digit [of "i mod 10"]
      by (subst int2str.simps) (auto simp: isdigit_def word_le_nat_alt) }
  { case 3 then show ?case by (subst int2str.simps) simp }
qed

lemma length_int2str: "n < 10 ^ k \<Longrightarrow> 0 < k \<Longrightarrow> length (int2str n) \<le> k"
proof (induction k arbitrary: n)
  case (Suc k)
  show ?case
  proof (cases "n < 10")
    case False
    then have "0 < k" using Suc.prems by (cases k) auto
    moreover have "n div 10 < 10 ^ k" using Suc.prems by (simp add: less_mult_imp_div_less mult.commute)
    ultimately show ?thesis using Suc.IH [of "n div 10"] False by (subst int2str.simps) simp
  qed (subst int2str.simps, simp)
qed simp

section \<open>Reading a request\<close>

lemma scan_at: "\<forall>b \<in> set w. \<not> stop b \<Longrightarrow> stop c \<Longrightarrow> scan stop (w @ c # rest) = Some (w, c # rest)"
  by (simp add: scan_def dropWhile_append2 takeWhile_append2)

lemma advance_Suc [simp]: "advance (Suc n) (x # xs) = advance n xs" "advance 0 xs = Some xs"
  by (simp_all add: advance_def)

lemma scan_word: "0 \<notin> set w \<Longrightarrow> c \<notin> set w \<Longrightarrow> scan (\<lambda>b. b = 0 \<or> b = c) (w @ c # rest) = Some (w, c # rest)"
  by (rule scan_at) auto

lemma skipTillChar_at:
  "0 \<notin> set w \<Longrightarrow> c \<notin> set w \<Longrightarrow> skipTillChar (w @ c # rest) c = Some rest"
  by (simp add: skipTillChar_def scan_word advance_def)

lemma copy_word_at:
  "0 \<notin> set w \<Longrightarrow> c \<notin> set w \<Longrightarrow> length w < cap \<Longrightarrow>
   copy_word cap old c (w @ c # rest) = Some (if w = [] then old else w, c # rest)"
  by (simp add: copy_word_def scan_word)

lemma strtol10_at:
  assumes "\<not> isdigit c" "n < 2 ^ 63"
  shows "strtol10 (int2str n @ c # rest) = Some (int n, c # rest)"
proof -
  obtain d ds where n: "int2str n = d # ds" using int2str_digits(3) by (cases "int2str n") auto
  then have d: "isdigit d" using int2str_digits(2) [of n] by simp
  then have "\<not> isspace d" "d \<noteq> 45" "d \<noteq> 43"
    by (auto simp: isdigit_def isspace_def word_le_nat_alt)
  moreover have "scan (\<lambda>b. \<not> isspace b) (d # ds @ c # rest) = Some ([], d # ds @ c # rest)"
    using scan_at [of "[]" "\<lambda>b. \<not> isspace b" d "ds @ c # rest"] \<open>\<not> isspace d\<close> by simp
  moreover have "scan (\<lambda>b. \<not> isdigit b) (int2str n @ c # rest) = Some (int2str n, c # rest)"
    using int2str_digits(2) [of n] assms(1) by (intro scan_at) auto
  ultimately show ?thesis
    using assms(2) int2str_digits(1) [of n] by (simp add: strtol10_def n Let_def)
qed

lemma copyLine_ends:
  assumes "length xs \<le> 1024" "2 \<le> k"
  obtains w ys j where "copyLine (xs @ replicate k 0) = Some (w, ys @ replicate j 0)" "length ys \<le> length xs" "k \<le> Suc j"
proof -
  let ?stop = "\<lambda>b :: byte. b = 13 \<or> b = 0"
  obtain m where k: "k = Suc (Suc m)" using assms(2) by (metis Suc_le_D numeral_2_eq_2 Suc_le_mono)
  show thesis
  proof (cases "\<exists>x \<in> set xs. ?stop x")
    case True
    then obtain w c zs where xs: "xs = w @ c # zs" "?stop c" "\<forall>b \<in> set w. \<not> ?stop b"
      using split_list_first_prop [of xs ?stop] by blast
    define ys where "ys = (if zs = [] then [] else if hd zs = 10 then tl zs else zs)"
    have "scan ?stop (xs @ replicate k 0) = Some (w, c # zs @ replicate k 0)"
      using xs by (simp add: scan_at)
    moreover have "length w \<le> 1024" using xs(1) assms(1) by simp
    ultimately have "copyLine (xs @ replicate k 0) = Some (w, ys @ replicate k 0)"
      by (cases zs) (simp_all add: copyLine_def peek_def ys_def k)
    moreover have "length ys \<le> length xs" using xs(1) by (cases zs) (simp_all add: ys_def)
    ultimately show thesis using that by auto
  next
    case False
    then have "scan ?stop (xs @ replicate k 0) = Some (xs, replicate k 0)" by (simp add: k scan_at)
    then have "copyLine (xs @ replicate k 0) = Some (xs, [] @ replicate (Suc m) 0)"
      using assms by (simp add: copyLine_def peek_def k)
    then show thesis using that [of xs "[]" "Suc m"] k by simp
  qed
qed

lemma copy_lines_end:
  "length xs \<le> 1024 \<Longrightarrow> n < k \<Longrightarrow> \<exists>ptr. copy_lines n (xs @ replicate k 0) = Some ptr"
proof (induction n arbitrary: xs k)
  case (Suc n)
  then have xk: "length xs \<le> 1024" "2 \<le> k" by simp_all
  obtain w ys j where "copyLine (xs @ replicate k 0) = Some (w, ys @ replicate j 0)"
    "length ys \<le> length xs" "k \<le> Suc j" by (rule copyLine_ends [OF xk])
  then show ?case using Suc.IH [of ys j] Suc.prems by auto
qed simp

text \<open>A request: the request line, perhaps a line of a host, the length and the type.\<close>

definition request_text :: "byte list \<Rightarrow> byte list \<Rightarrow> byte list \<Rightarrow> nat \<Rightarrow> byte list \<Rightarrow> byte list" where
  "request_text M D host n T =
     M @ ascii '' /'' @ D @ ascii '' HTTP/1.1'' @ [13, 10] @ host @
     ascii ''Content-Length: '' @ int2str n @ [13, 10] @ ascii ''Content-Type: '' @ T @ [13, 10, 13, 10]"

definition word_ok :: "nat \<Rightarrow> byte \<Rightarrow> byte list \<Rightarrow> bool" where
  "word_ok cap c w \<longleftrightarrow> w \<noteq> [] \<and> length w < cap \<and> 0 \<notin> set w \<and> c \<notin> set w"

definition host_ok :: "byte list \<Rightarrow> bool" where
  "host_ok host \<longleftrightarrow> host = [] \<or> (\<exists>h. host = ascii ''Host'' @ h @ [10] \<and> 0 \<notin> set h \<and> 10 \<notin> set h)"

lemma request_read:
  assumes M: "word_ok 5 32 M" and D: "word_ok 20 32 D" and T: "word_ok 41 13 T" and host: "host_ok host"
    and n: "n < 2 ^ 16" and len: "length (request_text M D host n T @ body) \<le> 1024" and k: "19 < k"
  shows "PHKNetworkMessage old (request_text M D host n T @ body @ replicate k 0) =
    map_option (\<lambda>d. \<lparr>msg_method = M, msg_type = (if tl T = [] then msg_type old else tl T), msg_directory = D, msg_data = assign_data new_data d\<rparr>)
      (parse_data (body @ replicate k 0) n)"
proof -
  define p5 where "p5 = body @ replicate k 0"
  define p4 where "p4 = ascii ''Content-Type'' @ 58 # 32 # T @ 13 # 10 # 13 # 10 # p5"
  define p3 where "p3 = int2str n @ 13 # 10 # p4"
  define p2 where "p2 = ascii ''Content-Length'' @ 58 # 32 # p3"
  define p1 where "p1 = host @ p2"
  define line where "line = 32 # (ascii ''HTTP/1.1'' @ [13]) @ 10 # p1"
  define p0 where "p0 = D @ line"
  have raw: "request_text M D host n T @ body @ replicate k 0 = M @ 32 # 47 # p0"
    by (simp add: request_text_def p0_def line_def p1_def p2_def p3_def p4_def p5_def ascii_def)
  have lines: "\<exists>ptr. copy_lines 19 p1 = Some ptr"
    using copy_lines_end [of "host @ ascii ''Content-Length: '' @ int2str n @ [13, 10] @ ascii ''Content-Type: '' @ T @ [13, 10, 13, 10] @ body" 19 k]
      len k by (simp add: request_text_def p1_def p2_def p3_def p4_def p5_def ascii_def)
  have s0: "copy_word 5 (ascii ''POST'') 32 (M @ 32 # 47 # p0) = Some (M, 32 # 47 # p0)"
    using M by (subst copy_word_at) (simp_all add: word_ok_def)
  have s1: "copy_word 20 (msg_directory old) 32 p0 = Some (D, line)"
    unfolding p0_def line_def using D by (subst copy_word_at) (simp_all add: word_ok_def)
  have s2: "skipTillChar line 10 = Some p1"
    using skipTillChar_at [of "32 # ascii ''HTTP/1.1'' @ [13]" 10 p1] by (simp add: line_def ascii_def)
  have s3: "do { h \<leftarrow> strncmp_equal p1 (ascii ''Host''); (if h then skipTillChar p1 10 else Some p1) } = Some p2"
  proof (cases "host = []")
    case True
    then show ?thesis by (simp add: p1_def p2_def ascii_def peek_def)
  next
    case False
    then obtain h where h: "host = ascii ''Host'' @ h @ [10]" "0 \<notin> set h" "10 \<notin> set h" using host by (auto simp: host_ok_def)
    then show ?thesis
      using skipTillChar_at [of "ascii ''Host'' @ h" 10 p2] by (simp add: p1_def ascii_def peek_def)
  qed
  have s4: "skipTillChar p2 58 = Some (32 # p3)"
    unfolding p2_def by (rule skipTillChar_at) (simp_all add: ascii_def)
  have s5: "strtol10 p3 = Some (int n, 13 # 10 # p4)"
    unfolding p3_def using n by (intro strtol10_at) (simp_all add: isdigit_def word_le_nat_alt)
  have s6: "skipTillChar (13 # 10 # p4) 58 = Some (32 # T @ 13 # 10 # 13 # 10 # p5)"
    using skipTillChar_at [of "13 # 10 # ascii ''Content-Type''" 58 "32 # T @ 13 # 10 # 13 # 10 # p5"]
    by (simp add: p4_def ascii_def)
  have s7: "advance 2 (32 # T @ 13 # 10 # 13 # 10 # p5) = Some (tl T @ 13 # 10 # 13 # 10 # p5)"
    using T by (cases T) (simp_all add: word_ok_def advance_def)
  have s8: "copy_word 40 (msg_type old) 13 (tl T @ 13 # 10 # 13 # 10 # p5) =
      Some (if tl T = [] then msg_type old else tl T, 13 # 10 # 13 # 10 # p5)"
    using T list.set_sel(2) [of T] by (subst copy_word_at) (auto simp: word_ok_def)
  have s9: "advance 4 (13 # 10 # 13 # 10 # p5) = Some p5" by (simp add: advance_def)
  obtain ptr where l: "copy_lines 19 p1 = Some ptr" using lines by blast
  from s3 obtain h where h: "strncmp_equal p1 (ascii ''Host'') = Some h" "(if h then skipTillChar p1 10 else Some p1) = Some p2"
    by (auto simp: bind_eq_Some_conv)
  have s0b: "advance 2 (32 # 47 # p0) = Some p0" by (simp add: advance_def)
  have s4b: "advance 1 (32 # p3) = Some p3" by (simp add: advance_def)
  have s10: "nat (int n mod 4294967296) = n" using n by simp
  have "PHKNetworkMessage old (M @ 32 # 47 # p0) = do { d \<leftarrow> parse_data p5 n;
      Some \<lparr>msg_method = M, msg_type = (if tl T = [] then msg_type old else tl T), msg_directory = D,
        msg_data = assign_data new_data d\<rparr> }"
    by (simp add: PHKNetworkMessage_def s0 s0b s1 s2 l h s4 s4b s5 s6 s7 s8 s9 s10 del: advance_Suc One_nat_def)
  then show ?thesis unfolding raw by (cases "parse_data p5 n") (simp_all add: p5_def)
qed

lemma assigned_record:
  assumes "i < length fs" "length fs \<le> 10"
  shows "md_records (assign_data new_data (data_of fs)) ! i = (if snd (fs ! i) = [] then empty_record else record_of (fs ! i))"
  using assms by (simp add: assign_data_def new_data_def record_at record_of_def)

lemma assigned_lookup:
  assumes "distinct (map fst fs)" "length fs \<le> 10"
  shows "dataPtrForIndex (assign_data new_data (data_of fs)) t =
    (case map_of fs t of None \<Rightarrow> None | Some v \<Rightarrow> if v = [] then None else Some v)"
proof -
  let ?d = "assign_data new_data (data_of fs)"
  have count: "md_count ?d = length fs" by (simp add: assign_data_def data_of_def)
  have at: "r_activate (md_records ?d ! i) \<and> r_index (md_records ?d ! i) = t \<longleftrightarrow> snd (fs ! i) \<noteq> [] \<and> fst (fs ! i) = t"
    if "i < length fs" for i using assigned_record [OF that assms(2)] by (simp add: empty_record_def record_of_def)
  show ?thesis
  proof (cases "\<exists>i < length fs. fst (fs ! i) = t \<and> snd (fs ! i) \<noteq> []")
    case True
    then obtain i where i: "i < length fs" "fst (fs ! i) = t" "snd (fs ! i) \<noteq> []" by blast
    have "fst (fs ! j) \<noteq> t" if "j < i" for j
      using nth_eq_iff_index_eq [OF assms(1), of i j] i that by simp
    then have "recordIndex ?d t = Some i"
      unfolding recordIndex_def find_Some_iff using i at count by (intro exI [of _ i]) simp
    moreover have "map_of fs t = Some (snd (fs ! i))"
      using i assms(1) by (metis map_of_eq_Some_iff nth_mem prod.collapse)
    ultimately show ?thesis
      using i assigned_record [OF i(1) assms(2)] by (simp add: dataPtrForIndex_def record_of_def)
  next
    case False
    then have "recordIndex ?d t = None" unfolding recordIndex_def find_None_iff using at count by auto
    moreover have "v = []" if "map_of fs t = Some v" for v
      using False that by (metis map_of_SomeD in_set_conv_nth fst_conv snd_conv)
    ultimately show ?thesis by (simp add: dataPtrForIndex_def split: option.split)
  qed
qed

lemma assign_nonempty:
  assumes "\<forall>f \<in> set fs. snd f \<noteq> []" "length fs \<le> 10"
  shows "assign_data new_data (data_of fs) = data_of fs"
proof -
  have "md_records (assign_data new_data (data_of fs)) = md_records (data_of fs)"
  proof (rule nth_equalityI)
    show "length (md_records (assign_data new_data (data_of fs))) = length (md_records (data_of fs))"
      using assms(2) by (simp add: assign_data_def data_of_def)
    fix i assume "i < length (md_records (assign_data new_data (data_of fs)))"
    then have i: "i < 10" by (simp add: assign_data_def)
    show "md_records (assign_data new_data (data_of fs)) ! i = md_records (data_of fs) ! i"
    proof (cases "i < length fs")
      case True
      then show ?thesis using assigned_record [OF True assms(2)] assms(1) by (simp add: record_at)
    next
      case False
      then show ?thesis using i by (simp add: assign_data_def new_data_def data_of_def nth_append empty_record_def)
    qed
  qed
  then show ?thesis by (simp add: assign_data_def data_of_def)
qed

section \<open>Properties\<close>

text \<open>A request with a method, a path, perhaps a host line, a length and a type, followed in the
  buffer by a body of fragments and zeros, is read without leaving any array: the path and, for every tag, the
  bytes of its fragments are found. A tag without bytes is not found, and the type loses its first letter.\<close>

theorem message_parse:
  assumes "word_ok 5 32 M" "word_ok 20 32 D" "word_ok 41 13 T" "host_ok host" "19 < k"
    and "\<forall>f \<in> set gs. length (snd f) \<le> 255" "card (fst ` set gs) \<le> 10"
    and "length (request_text M D host (length (concat (map encode_fragment gs))) T @ concat (map encode_fragment gs)) \<le> 1024"
  shows "case PHKNetworkMessage old
        (request_text M D host (length (concat (map encode_fragment gs))) T @ concat (map encode_fragment gs) @ replicate k 0) of
      None \<Rightarrow> False
    | Some m \<Rightarrow> msg_method m = M \<and> msg_directory m = D \<and> msg_type m = (if tl T = [] then msg_type old else tl T) \<and>
        (\<forall>t. dataPtrForIndex (msg_data m) t = (if value_of t gs = [] then None else Some (value_of t gs)))"
proof -
  let ?b = "concat (map encode_fragment gs)"
  have small: "length ?b < 2 ^ 16" using assms(8) by simp
  have d: "distinct (map fst (merged gs))" by simp
  have n: "length (tags gs) \<le> 10" using assms(7) distinct_card [OF distinct_tags, of gs] by simp
  have "dataPtrForIndex (assign_data new_data (data_of (merged gs))) t =
      (if value_of t gs = [] then None else Some (value_of t gs))" for t
    using assigned_lookup [OF d, of t] n by (simp add: map_of_merged value_of_none)
  then show ?thesis
    using request_read [OF assms(1-4) small assms(8,5), of old] parse_data_fragments [OF assms(6) small, of "replicate k 0"] n
    by simp
qed

lemma sample_fragments: "concat (map encode_fragment [(6, [1])]) = [6, 1, 1]"
  by (simp add: encode_fragment_def)

lemma sample_number: "int2str 3 = [51]"
  by (simp add: int2str.simps)

theorem message_parse_witness:
  "case PHKNetworkMessage (message.make [] [] [] new_data)
      (request_text (ascii ''POST'') (ascii ''pair-setup'') (ascii ''Host: h'' @ [13, 10]) 3 (ascii ''tlv8'') @ [6, 1, 1] @ replicate 20 0)
    of None \<Rightarrow> False | Some m \<Rightarrow> msg_directory m = ascii ''pair-setup'' \<and> msg_type m = ascii ''lv8'' \<and>
      dataPtrForIndex (msg_data m) 6 = Some [1]"
proof -
  have h: "host_ok (ascii ''Host: h'' @ [13, 10])"
    unfolding host_ok_def by (intro disjI2 exI [of _ "ascii '': h'' @ [13]"]) (simp add: ascii_def)
  have n: "length [6, 1, 1 :: byte] = 3" by simp
  have v: "value_of 6 [(6, [1])] = [1]" by (simp add: value_of_def)
  show ?thesis
    using message_parse [OF _ _ _ h, of "ascii ''POST''" "ascii ''pair-setup''" "ascii ''tlv8''" 20 "[(6, [1])]" "message.make [] [] [] new_data"]
    unfolding sample_fragments n
    by (simp add: word_ok_def ascii_def request_text_def sample_number v split: option.splits)
qed

text \<open>C17: What \<open>getBinaryPtr\<close> writes for a message, the constructor reads back, apart from the first letter
  of the type.\<close>

theorem message_roundtrip:
  assumes "message_getBinaryPtr m = Some bs" "19 < k"
    and "word_ok 5 32 (msg_method m)" "word_ok 20 32 (msg_directory m)" "word_ok 41 13 (msg_type m)"
    and "msg_data m = data_of fs" "distinct (map fst fs)" "\<forall>f \<in> set fs. snd f \<noteq> []" "length fs \<le> 10"
    and "(\<Sum>f \<leftarrow> fs. length (raw_record (fst f) (snd f))) < 2 ^ 16"
  shows "PHKNetworkMessage old (bs @ replicate k 0) =
    Some (m\<lparr>msg_type := if tl (msg_type m) = [] then msg_type old else tl (msg_type m)\<rparr>)"
proof -
  define d where "d = rawData (data_of fs)"
  have bs: "bs = request_text (msg_method m) (msg_directory m) [] (length d) (msg_type m) @ d" "length bs < 1024"
    using assms(1,6) by (auto simp: message_getBinaryPtr_def message_header_def request_text_def d_def Let_def split: if_splits)
  have "host_ok []" by (simp add: host_ok_def)
  moreover have "length d < 2 ^ 16" using bs by simp
  moreover have "length (request_text (msg_method m) (msg_directory m) [] (length d) (msg_type m) @ d) \<le> 1024" using bs by simp
  ultimately have "PHKNetworkMessage old (bs @ replicate k 0) = map_option (\<lambda>d. \<lparr>msg_method = msg_method m,
      msg_type = (if tl (msg_type m) = [] then msg_type old else tl (msg_type m)), msg_directory = msg_directory m,
      msg_data = assign_data new_data d\<rparr>) (parse_data (d @ replicate k 0) (length d))"
    using request_read [OF assms(3-5) _ _ _ assms(2), of "[]" "length d" d old] bs by simp
  also have "parse_data (d @ replicate k 0) (length d) = Some (data_of fs)"
    unfolding d_def by (rule tlv_roundtrip_data [OF assms(7-10)])
  finally show ?thesis using assms(6) assign_nonempty [OF assms(8,9)] by (cases m) simp
qed

definition sample_message :: message where
  "sample_message = \<lparr>msg_method = ascii ''POST'', msg_type = ascii ''tlv8'', msg_directory = ascii ''pair-setup'',
     msg_data = data_of [(6, [1])]\<rparr>"

lemma sample_raw: "rawData (data_of [(6, [1])]) = [6, 1, 1]"
  by (simp add: rawData_def data_of_def record_of_def empty_record_def raw_record.simps)

theorem message_roundtrip_witness:
  "PHKNetworkMessage (message.make [] [] [] new_data) (the (message_getBinaryPtr sample_message) @ replicate 20 0) =
   Some (sample_message\<lparr>msg_type := ascii ''lv8''\<rparr>)"
proof -
  have b: "message_getBinaryPtr sample_message = Some (the (message_getBinaryPtr sample_message))"
    by (simp add: message_getBinaryPtr_def message_header_def sample_message_def sample_raw ascii_def Let_def int2str.simps)
  show ?thesis
    using message_roundtrip [OF b, of 20 "[(6, [1])]" "message.make [] [] [] new_data"]
    by (simp add: word_ok_def sample_message_def ascii_def raw_record.simps)
qed

end
