(* ===== verification/Hap_Aead.thy ===== *)
theory Hap_Aead
  imports Chacha20 Poly1305 Hap_Message
begin

text \<open>
  Personal-HomeKit-HAP/PHKNetworkIP.cpp: how the server encrypts. \<open>Poly1305_GenKey\<close> is the
  authenticator over padded data, \<open>message_cipher\<close> the calls every message starts with: the context of
  a key and a nonce, and the first block of the stream as the one-time key. The theorems compare
  both with the AEAD construction of RFC 8439 with a nonce of 64 bits. A read outside a buffer and a null
  pointer that is dereferenced (the log line reads \<open>buf[0]\<close> before the test for null; \<open>HomeKitLog\<close> is 1) are None.
\<close>

section \<open>The code\<close>

datatype Poly1305Type = Type_Data_Without_Length | Type_Data_With_Length

definition zero_poly :: poly1305_state where
  "zero_poly = \<lparr>p_r = replicate 5 0, p_h = replicate 5 0, p_pad = replicate 4 0, p_leftover = 0,
     p_buffer = replicate 16 0, p_final = 0\<rparr>"

definition zero_chacha :: chacha20_ctx where
  "zero_chacha = \<lparr>schedule = replicate 16 0, keystream = replicate 64 0, available = 0\<rparr>"

abbreviation updates :: "poly1305_state \<Rightarrow> byte list list \<Rightarrow> poly1305_state" where
  "updates st ps \<equiv> fold (\<lambda>p s. poly1305_update s p) ps st"

definition Poly1305_GenKey ::
  "byte list \<Rightarrow> byte list option \<Rightarrow> nat \<Rightarrow> Poly1305Type \<Rightarrow> byte list \<Rightarrow> byte list option" where
  "Poly1305_GenKey key buf len type verify =
     do { buf \<leftarrow> buf;
          b0 \<leftarrow> peek buf 0;
          if len < 2 then Some verify
          else do {
            let st = poly1305_init zero_poly key;
            let waste = replicate 16 0;
            st \<leftarrow> (if type = Type_Data_With_Length then do {
                     b1 \<leftarrow> peek buf 1;
                     d \<leftarrow> slice buf 2 len;
                     Some (updates st [[b0], [b1], take 14 waste, d]) }
                   else do { d \<leftarrow> slice buf 0 len; Some (poly1305_update st d) });
            let st = (if len mod 16 > 0 then poly1305_update st (take (16 - len mod 16) waste) else st);
            let st = poly1305_update st [if type = Type_Data_With_Length then 2 else 0];
            let st = poly1305_update st (take 7 waste);
            let st = poly1305_update st [of_nat len];
            let st = poly1305_update st [of_nat (len div 256)];
            let st = poly1305_update st (take 6 waste);
            Some (snd (poly1305_finish st)) } }"

text \<open>The start of every message: \<open>temp2\<close> is the encryption of 64 zeros.\<close>

definition message_cipher :: "chacha20_ctx \<Rightarrow> byte list \<Rightarrow> byte list \<Rightarrow> (chacha20_ctx \<times> byte list) option" where
  "message_cipher ctx key nonce =
     do { ctx \<leftarrow> chacha20_setup ctx key 32 nonce;
          Some (chacha20_encrypt ctx (replicate 64 0)) }"

section \<open>The AEAD construction\<close>

definition pad16 :: "byte list \<Rightarrow> byte list" where
  "pad16 xs = xs @ replicate ((16 - length xs mod 16) mod 16) 0"

definition aead_mac_data :: "byte list \<Rightarrow> byte list \<Rightarrow> byte list" where
  "aead_mac_data aad ct = pad16 aad @ pad16 ct @ le_bytes 8 (length aad) @ le_bytes 8 (length ct)"

definition stream_start :: "byte list \<Rightarrow> byte list \<Rightarrow> chacha20_ctx" where
  "stream_start key nonce = the (chacha20_setup zero_chacha key 32 nonce)"

definition one_time_key :: "byte list \<Rightarrow> byte list \<Rightarrow> byte list" where
  "one_time_key key nonce = snd (chacha20_encrypt (stream_start key nonce) (replicate 64 0))"

definition aead_crypt :: "byte list \<Rightarrow> byte list \<Rightarrow> byte list \<Rightarrow> byte list" where
  "aead_crypt key nonce m = drop 64 (snd (chacha20_encrypt (stream_start key nonce) (replicate 64 0 @ m)))"

definition aead_tag :: "byte list \<Rightarrow> byte list \<Rightarrow> byte list \<Rightarrow> byte list \<Rightarrow> byte list" where
  "aead_tag key nonce aad ct = poly1305_mac (one_time_key key nonce) (aead_mac_data aad ct)"

definition aead_seal :: "byte list \<Rightarrow> byte list \<Rightarrow> byte list \<Rightarrow> byte list \<Rightarrow> byte list" where
  "aead_seal key nonce aad m = (let ct = aead_crypt key nonce m in ct @ aead_tag key nonce aad ct)"

text \<open>A context that is ready for the data of a message.\<close>

definition ready :: "chacha20_ctx \<Rightarrow> byte list \<Rightarrow> byte list \<Rightarrow> bool" where
  "ready c key nonce \<longleftrightarrow> chacha_wf c \<and> (\<forall>m. snd (chacha20_encrypt c m) = aead_crypt key nonce m)"

lemma length_mac [simp]: "length (poly1305_mac key m) = 16"
  by (simp add: poly1305_mac_def)

lemma length_tag [simp]: "length (aead_tag key nonce aad ct) = 16"
  by (simp add: aead_tag_def)

lemma setup_start:
  assumes "length key = 32" "length nonce = 8"
  obtains c where "chacha20_setup ctx key 32 nonce = Some c" "chacha_wf c" "chacha_wf (stream_start key nonce)"
    "available c = 0" "available (stream_start key nonce) = 0" "schedule c = schedule (stream_start key nonce)"
  using assms by (auto simp: chacha20_setup_def stream_start_def read_LE_def ascii_def Let_def chacha_wf_def)

lemma message_cipher_ready:
  assumes "length key = 32" "length nonce = 8"
  obtains c where "message_cipher ctx key nonce = Some (c, one_time_key key nonce)" "ready c key nonce"
proof -
  obtain c where c: "chacha20_setup ctx key 32 nonce = Some c" "chacha_wf c" "chacha_wf (stream_start key nonce)"
    "available c = 0" "available (stream_start key nonce) = 0" "schedule c = schedule (stream_start key nonce)"
    by (rule setup_start [OF assms])
  let ?s = "stream_start key nonce" and ?z = "replicate 64 0"
  have same: "snd (chacha20_encrypt c m) = snd (chacha20_encrypt ?s m)" for m
    using chacha_bytes_keystream_irrelevant [OF c(4-6)] by (simp add: encrypt_bytes c(2,3))
  have "chacha_wf (fst (chacha20_encrypt c ?z))" using c(2) by (simp add: encrypt_bytes chacha_bytes_wf)
  moreover have "snd (chacha20_encrypt (fst (chacha20_encrypt c ?z)) m) = aead_crypt key nonce m" for m
  proof -
    have "snd (chacha20_encrypt c (?z @ m)) = snd (chacha20_encrypt c ?z) @ snd (chacha20_encrypt (fst (chacha20_encrypt c ?z)) m)"
      using c(2) by (simp add: encrypt_bytes chacha_bytes_wf chacha_bytes_append case_prod_beta Let_def)
    moreover have "length (snd (chacha20_encrypt c ?z)) = 64" using c(2) by (simp add: encrypt_bytes)
    ultimately show ?thesis using same [of "?z @ m"] by (simp add: aead_crypt_def)
  qed
  ultimately have "ready (fst (chacha20_encrypt c ?z)) key nonce" by (simp add: ready_def)
  moreover have "message_cipher ctx key nonce = Some (fst (chacha20_encrypt c ?z), one_time_key key nonce)"
    using c(1) same [of ?z] by (simp add: message_cipher_def one_time_key_def prod_eq_iff)
  ultimately show thesis using that by blast
qed

lemma length_aead_crypt [simp]:
  assumes "length key = 32" "length nonce = 8"
  shows "length (aead_crypt key nonce m) = length m"
proof -
  obtain c where "ready c key nonce" by (rule message_cipher_ready [OF assms])
  then show ?thesis by (metis ready_def encrypt_bytes length_chacha_bytes)
qed

lemma aead_crypt_involution:
  assumes "length key = 32" "length nonce = 8"
  shows "aead_crypt key nonce (aead_crypt key nonce m) = m"
proof -
  obtain c where "ready c key nonce" by (rule message_cipher_ready [OF assms])
  then show ?thesis by (metis ready_def encrypt_bytes chacha_bytes_involution snd_conv)
qed

lemma length_one_time_key [simp]:
  assumes "length key = 32" "length nonce = 8"
  shows "length (one_time_key key nonce) = 64"
proof -
  obtain c where "chacha_wf (stream_start key nonce)" by (rule setup_start [OF assms])
  then show ?thesis by (simp add: one_time_key_def encrypt_bytes)
qed

text \<open>The authenticator of the code is that of the construction.\<close>

lemma updates_mac:
  "32 \<le> length key \<Longrightarrow> snd (poly1305_finish (updates (poly1305_init zero_poly key) ps)) = poly1305_mac key (concat ps)"
  using poly.final_fold [of "(zero_poly, key)" ps] by (simp add: zero_poly_def)

lemma le_bytes_8:
  assumes "n < 65536"
  shows "le_bytes 8 n = [of_nat n, of_nat (n div 256)] @ replicate 6 0"
proof -
  have e: "8 = Suc (Suc (Suc (Suc (Suc (Suc (Suc (Suc 0)))))))" "6 = Suc (Suc (Suc (Suc (Suc (Suc 0)))))" by simp_all
  have z: "n div 256 div 256 = 0" using assms by (simp add: div_mult2_eq [symmetric])
  show ?thesis unfolding e le_bytes.simps z by simp
qed

lemma pad_end: "xs @ (if length xs mod 16 > 0 then take (16 - length xs mod 16) (replicate 16 0) else []) = pad16 xs"
  by (simp add: pad16_def min_def)

lemma le_bytes_8_small: "n < 256 \<Longrightarrow> le_bytes 8 n = of_nat n # take 7 (replicate 16 0)"
proof -
  have "take 7 (replicate 16 (0 :: byte)) = 0 # replicate 6 0" by (simp add: numeral_eq_Suc)
  then show "n < 256 \<Longrightarrow> le_bytes 8 n = of_nat n # take 7 (replicate 16 0)" by (simp add: le_bytes_8)
qed

text \<open>What is authenticated after the parts \<open>ps\<close> that depend on the kind of the message.\<close>

definition genkey_end :: "Poly1305Type \<Rightarrow> nat \<Rightarrow> byte list list" where
  "genkey_end type len =
     (if len mod 16 > 0 then [take (16 - len mod 16) (replicate 16 0)] else []) @
     [[if type = Type_Data_With_Length then 2 else 0], take 7 (replicate 16 0), [of_nat len], [of_nat (len div 256)],
      take 6 (replicate 16 0)]"

lemma genkey_end_mac:
  assumes "length d < 65536" "length aad = (if type = Type_Data_With_Length then 2 else 0)"
  shows "pad16 aad @ d @ concat (genkey_end type (length d)) = aead_mac_data aad d"
proof -
  have "d @ concat (if length d mod 16 > 0 then [take (16 - length d mod 16) (replicate 16 0)] else []) = pad16 d"
    by (auto simp: pad16_def)
  moreover have "le_bytes 8 (length aad) = (if type = Type_Data_With_Length then 2 else 0) # take 7 (replicate 16 0)"
    using assms(2) by (simp add: le_bytes_8_small)
  ultimately show ?thesis
    using assms(1) by (simp add: aead_mac_data_def genkey_end_def le_bytes_8 flip: append_assoc)
qed

lemma GenKey_parts:
  assumes "32 \<le> length key" "2 \<le> len" "peek buf 0 = Some b0"
    and "type = Type_Data_With_Length \<Longrightarrow> peek buf 1 = Some b1 \<and> slice buf 2 len = Some d \<and> ps = [[b0], [b1], take 14 (replicate 16 0), d]"
    and "type = Type_Data_Without_Length \<Longrightarrow> slice buf 0 len = Some d \<and> ps = [d]"
  shows "Poly1305_GenKey key (Some buf) len type verify = Some (poly1305_mac key (concat (ps @ genkey_end type len)))"
proof -
  have parts: "(if type = Type_Data_With_Length then do {
        b1 \<leftarrow> peek buf 1;
        d \<leftarrow> slice buf 2 len;
        Some (updates st [[b0], [b1], take 14 (replicate 16 0), d]) }
      else do { d \<leftarrow> slice buf 0 len; Some (poly1305_update st d) }) = Some (updates st ps)" for st
    using assms(4,5) by (cases type) simp_all
  have "Poly1305_GenKey key (Some buf) len type verify =
      Some (snd (poly1305_finish (updates (poly1305_init zero_poly key) (ps @ genkey_end type len))))"
    using assms(2) unfolding Poly1305_GenKey_def assms(3) bind.bind_lunit Let_def parts
    by (simp add: genkey_end_def)
  then show ?thesis by (simp only: updates_mac [OF assms(1)])
qed

lemma GenKey_value:
  assumes "32 \<le> length key" "2 \<le> length d" "length d < 65536" "length aad = (if type = Type_Data_With_Length then 2 else 0)"
  shows "Poly1305_GenKey key (Some (aad @ d @ post)) (length d) type verify = Some (poly1305_mac key (aead_mac_data aad d))"
proof (cases type)
  case Type_Data_Without_Length
  then have aad: "aad = []" using assms(4) by simp
  obtain x xs where d: "d = x # xs" using assms(2) by (cases d) auto
  have "Poly1305_GenKey key (Some (aad @ d @ post)) (length d) type verify =
      Some (poly1305_mac key (concat ([d] @ genkey_end type (length d))))"
    by (rule GenKey_parts [OF assms(1,2), of _ x])
      (simp_all add: aad Type_Data_Without_Length peek_def slice_def, simp add: d)
  then show ?thesis using genkey_end_mac [OF assms(3,4)] by (simp add: aad pad16_def)
next
  case Type_Data_With_Length
  then obtain x y where aad: "aad = [x, y]" using assms(4) by (auto simp: length_Suc_conv numeral_2_eq_2)
  have "Poly1305_GenKey key (Some (aad @ d @ post)) (length d) type verify =
      Some (poly1305_mac key (concat ([[x], [y], take 14 (replicate 16 0), d] @ genkey_end type (length d))))"
    by (rule GenKey_parts [OF assms(1,2), of _ x]) (simp_all add: aad Type_Data_With_Length peek_def slice_def)
  then show ?thesis using genkey_end_mac [OF assms(3,4)] by (simp add: aad pad16_def)
qed

text \<open>C18: For data of 2 to 65535 bytes, with and without the two length bytes as associated data,
  \<open>Poly1305_GenKey\<close> computes the authenticator of RFC 8439 over the padded data and the lengths. For fewer
  than 2 bytes it leaves \<open>verify\<close> as it was.\<close>

theorem genkey_aead:
  assumes "32 \<le> length key" "length d < 65536" "length aad = (if type = Type_Data_With_Length then 2 else 0)"
  shows "Poly1305_GenKey key (Some (aad @ d @ post)) (length d) type verify =
    (if length d < 2 then if aad @ d @ post = [] then None else Some verify
     else Some (poly1305_mac key (aead_mac_data aad d)))"
proof (cases "length d < 2")
  case True
  then show ?thesis by (cases "aad @ d @ post") (simp_all add: Poly1305_GenKey_def peek_def)
next
  case False
  then show ?thesis using GenKey_value [OF assms(1) _ assms(2,3)] by simp
qed

theorem genkey_aead_witness:
  "Poly1305_GenKey (replicate 32 7) (Some ([3, 0] @ [1, 2, 3] @ [9])) 3 Type_Data_With_Length (replicate 16 0) =
     Some (poly1305_mac (replicate 32 7) (aead_mac_data [3, 0] [1, 2, 3])) \<and>
   Poly1305_GenKey (replicate 32 7) (Some ([1, 0] @ [1] @ [9])) 1 Type_Data_With_Length (replicate 16 0) = Some (replicate 16 0)"
  using genkey_aead [of "replicate 32 7" "[1, 2, 3]" "[3, 0]" Type_Data_With_Length "[9]" "replicate 16 0"]
    genkey_aead [of "replicate 32 7" "[1]" "[1, 0]" Type_Data_With_Length "[9]" "replicate 16 0"]
  by (simp add: numeral_3_eq_3)

end
