(* ===== verification/Hap_Store.thy ===== *)
theory Hap_Store
  imports Prelude
begin

text \<open>
  Personal-HomeKit-HAP/PHKControllerRecord.cpp: the keys of the paired controllers, in memory and in
  a file. A record has 36 bytes of identifier, of which 32 are compared, and 32 bytes of key. The
  file is the list of its bytes. \<open>istream::get\<close> stops before a newline; whether it already notices the end
  of the file when its array is full is left to the library by the standard, the argument \<open>sees_end\<close>.
\<close>

section \<open>The code\<close>

record key_record =
  kr_controllerID :: "byte list"
  kr_publicKey :: "byte list"

record controller_store =
  cs_file :: "byte list"
  cs_records :: "key_record list"

text \<open>\<open>fs.get(buffer, 69)\<close>: the array, the rest of the file and whether the stream is still good.\<close>

definition stream_get :: "bool \<Rightarrow> byte list \<Rightarrow> byte list \<Rightarrow> byte list \<times> byte list \<times> bool" where
  "stream_get sees_end buffer file =
     (let w = takeWhile (\<lambda>b. b \<noteq> 10) (take 68 file);
          rest = drop (length w) file;
          eof = (rest = [] \<and> (length w < 68 \<or> sees_end))
      in (w @ 0 # drop (length w + 1) buffer, rest, \<not> eof \<and> w \<noteq> []))"

definition record_of_buffer :: "byte list \<Rightarrow> key_record" where
  "record_of_buffer buffer = \<lparr>kr_controllerID = take 36 buffer, kr_publicKey = take 32 (drop 36 buffer)\<rparr>"

lemma stream_get_shorter:
  assumes "(b, rest, True) = stream_get e buffer file"
  shows "length rest < length file"
proof -
  define w where "w = takeWhile (\<lambda>b. b \<noteq> 10) (take 68 file)"
  have "w \<noteq> []" "rest = drop (length w) file" using assms by (simp_all add: stream_get_def Let_def w_def)
  moreover from \<open>w \<noteq> []\<close> have "file \<noteq> []" by (auto simp: w_def)
  ultimately show ?thesis by simp
qed

function load_loop :: "bool \<Rightarrow> byte list \<Rightarrow> byte list \<Rightarrow> key_record list" where
  "load_loop sees_end buffer file =
     (let (buffer, rest, good) = stream_get sees_end buffer file
      in record_of_buffer buffer # (if good then load_loop sees_end buffer rest else []))"
  by pat_completeness auto
termination
  by (relation "measure (\<lambda>(e, buffer, file). length file)") (auto dest: stream_get_shorter)

declare load_loop.simps [simp del]

definition loadController :: "bool \<Rightarrow> byte list \<Rightarrow> controller_store" where
  "loadController sees_end file =
     \<lparr>cs_file = file, cs_records = (if file = [] then [] else load_loop sees_end (replicate 70 0) file)\<rparr>"

definition resetController :: "controller_store \<Rightarrow> controller_store" where
  "resetController s = \<lparr>cs_file = [], cs_records = []\<rparr>"

definition hasController :: "controller_store \<Rightarrow> bool" where
  "hasController s \<longleftrightarrow> length (cs_records s) > 0"

definition storeFiles :: "controller_store \<Rightarrow> controller_store" where
  "storeFiles s =
     s\<lparr>cs_file := concat (map (\<lambda>r. take 36 (kr_controllerID r) @ take 32 (kr_publicKey r)) (cs_records s))\<rparr>"

definition same_id :: "byte list \<Rightarrow> key_record \<Rightarrow> bool" where
  "same_id key r \<longleftrightarrow> take 32 (kr_controllerID r) = take 32 key"

definition doControllerKeyExist :: "controller_store \<Rightarrow> key_record \<Rightarrow> bool" where
  "doControllerKeyExist s record \<longleftrightarrow> (\<exists>r \<in> set (cs_records s). same_id (kr_controllerID record) r)"

definition addControllerKey :: "controller_store \<Rightarrow> key_record \<Rightarrow> controller_store" where
  "addControllerKey s record =
     (if \<not> doControllerKeyExist s record then storeFiles (s\<lparr>cs_records := cs_records s @ [record]\<rparr>) else s)"

fun erase_first :: "(key_record \<Rightarrow> bool) \<Rightarrow> key_record list \<Rightarrow> key_record list" where
  "erase_first P [] = []"
| "erase_first P (r # rs) = (if P r then rs else r # erase_first P rs)"

definition removeControllerKey :: "controller_store \<Rightarrow> key_record \<Rightarrow> controller_store" where
  "removeControllerKey s record =
     (if doControllerKeyExist s record
      then storeFiles (s\<lparr>cs_records := erase_first (same_id (kr_controllerID record)) (cs_records s)\<rparr>) else s)"

text \<open>The empty record has an uninitialised key and four uninitialised bytes, the arguments.\<close>

definition getControllerKey :: "byte list \<Rightarrow> byte list \<Rightarrow> controller_store \<Rightarrow> byte list \<Rightarrow> key_record" where
  "getControllerKey id_rest garbage s key =
     (case find (same_id key) (cs_records s) of Some r \<Rightarrow> r
      | None \<Rightarrow> \<lparr>kr_controllerID = replicate 32 0 @ id_rest, kr_publicKey = garbage\<rparr>)"

section \<open>The interface\<close>

text \<open>What the pairing code relies on: a lookup finds what was added first under an identifier.\<close>

locale key_store =
  fixes lookup :: "'s \<Rightarrow> 'k \<Rightarrow> 'v option" and add :: "'s \<Rightarrow> 'k \<Rightarrow> 'v \<Rightarrow> 's" and remove :: "'s \<Rightarrow> 'k \<Rightarrow> 's"
    and valid :: "'s \<Rightarrow> bool" and key_ok :: "'k \<Rightarrow> bool" and entry_ok :: "'k \<Rightarrow> 'v \<Rightarrow> bool"
  assumes lookup_add: "valid s \<Longrightarrow> entry_ok k v \<Longrightarrow>
      lookup (add s k v) j = (if j = k \<and> lookup s k = None then Some v else lookup s j)"
    and lookup_remove: "valid s \<Longrightarrow> key_ok k \<Longrightarrow> lookup (remove s k) j = (if j = k then None else lookup s j)"
    and valid_add: "valid s \<Longrightarrow> entry_ok k v \<Longrightarrow> valid (add s k v)"
    and valid_remove: "valid s \<Longrightarrow> key_ok k \<Longrightarrow> valid (remove s k)"
    and entry_key: "entry_ok k v \<Longrightarrow> key_ok k"
begin

lemma add_twice: "valid s \<Longrightarrow> entry_ok k v \<Longrightarrow> entry_ok k u \<Longrightarrow> lookup (add (add s k v) k u) j = lookup (add s k v) j"
  by (simp add: lookup_add valid_add)

lemma add_after_remove: "valid s \<Longrightarrow> entry_ok k v \<Longrightarrow> lookup (add (remove s k) k v) j = (if j = k then Some v else lookup s j)"
  using entry_key [of k v] by (simp add: lookup_add lookup_remove valid_remove)

lemma remove_added: "valid s \<Longrightarrow> entry_ok k v \<Longrightarrow> lookup (remove (add s k v) k) j = (if j = k then None else lookup s j)"
  using entry_key [of k v] by (simp add: lookup_add lookup_remove valid_add)

end

definition id_of :: "key_record \<Rightarrow> byte list" where
  "id_of r = take 32 (kr_controllerID r)"

definition store_lookup :: "controller_store \<Rightarrow> byte list \<Rightarrow> key_record option" where
  "store_lookup s k = find (\<lambda>r. id_of r = k) (cs_records s)"

definition store_ok :: "controller_store \<Rightarrow> bool" where
  "store_ok s \<longleftrightarrow> distinct (map id_of (cs_records s)) \<and>
     (\<forall>r \<in> set (cs_records s). length (kr_controllerID r) = 36 \<and> length (kr_publicKey r) = 32)"

definition record_ok :: "byte list \<Rightarrow> key_record \<Rightarrow> bool" where
  "record_ok k r \<longleftrightarrow> k = id_of r \<and> length (kr_controllerID r) = 36 \<and> length (kr_publicKey r) = 32"

lemma same_id_eq: "same_id key r \<longleftrightarrow> id_of r = take 32 key"
  by (simp add: same_id_def id_of_def)

lemma records_storeFiles [simp]: "cs_records (storeFiles s) = cs_records s"
  by (simp add: storeFiles_def)

lemma find_None_id: "find (\<lambda>r. id_of r = k) rs = None \<longleftrightarrow> k \<notin> id_of ` set rs"
  by (auto simp: find_None_iff)

lemma find_absent: "k \<notin> id_of ` set rs \<Longrightarrow> find (\<lambda>r. id_of r = k) rs = None"
  by (simp add: find_None_id)

lemma find_append: "find P (xs @ ys) = (case find P xs of None \<Rightarrow> find P ys | Some x \<Rightarrow> Some x)"
  by (induction xs) auto

lemma filter_absent: "k \<notin> id_of ` set rs \<Longrightarrow> filter (\<lambda>r. id_of r \<noteq> k) rs = rs"
  by (rule filter_True) auto

lemma erase_first_id:
  "distinct (map id_of rs) \<Longrightarrow> erase_first (\<lambda>r. id_of r = k) rs = filter (\<lambda>r. id_of r \<noteq> k) rs"
  by (induction rs) (auto simp: filter_absent)

lemma find_filter_id: "find (\<lambda>r. id_of r = j) (filter (\<lambda>r. id_of r \<noteq> k) rs) = (if j = k then None else find (\<lambda>r. id_of r = j) rs)"
  by (induction rs) auto

lemma exists_id: "doControllerKeyExist s r \<longleftrightarrow> id_of r \<in> id_of ` set (cs_records s)"
  unfolding doControllerKeyExist_def same_id_def id_of_def image_iff by (simp add: eq_commute)

lemma add_records:
  "cs_records (addControllerKey s r) = (if id_of r \<in> id_of ` set (cs_records s) then cs_records s else cs_records s @ [r])"
  by (simp add: addControllerKey_def exists_id)

lemma remove_records:
  assumes "store_ok s"
  shows "cs_records (removeControllerKey s r) = filter (\<lambda>x. id_of x \<noteq> id_of r) (cs_records s)"
proof -
  have e: "same_id (kr_controllerID r) = (\<lambda>x. id_of x = id_of r)" by (simp add: same_id_def id_of_def fun_eq_iff)
  show ?thesis
    using assms by (simp add: removeControllerKey_def exists_id e store_ok_def erase_first_id filter_absent)
qed

text \<open>Removing by identifier: the record that is passed needs no key.\<close>

definition remove_id :: "controller_store \<Rightarrow> byte list \<Rightarrow> controller_store" where
  "remove_id s k = removeControllerKey s \<lparr>kr_controllerID = k, kr_publicKey = []\<rparr>"

lemma store_ok_add: "store_ok s \<Longrightarrow> record_ok k r \<Longrightarrow> store_ok (addControllerKey s r)"
  by (auto simp: store_ok_def record_ok_def add_records)

lemma store_ok_remove: "store_ok s \<Longrightarrow> store_ok (removeControllerKey s r)"
  using remove_records [of s r] by (simp add: store_ok_def distinct_map_filter)

interpretation store: key_store store_lookup "\<lambda>s k r. addControllerKey s r" remove_id store_ok "\<lambda>k. length k = 32" record_ok
proof (unfold_locales, goal_cases)
  case (1 s k v j)
  then have k: "k = id_of v" by (simp add: record_ok_def)
  show ?case
  proof (cases "k \<in> id_of ` set (cs_records s)")
    case True
    then have "store_lookup s k \<noteq> None" by (simp add: store_lookup_def find_None_id)
    then show ?thesis using True by (simp add: store_lookup_def add_records k)
  next
    case False
    then show ?thesis by (simp add: store_lookup_def add_records k find_append find_absent split: option.split)
  qed
next
  case (2 s k j)
  then have "id_of \<lparr>kr_controllerID = k, kr_publicKey = []\<rparr> = k" by (simp add: id_of_def)
  then show ?case using 2 by (simp add: store_lookup_def remove_id_def remove_records find_filter_id)
qed (simp_all add: store_ok_add store_ok_remove remove_id_def, simp add: record_ok_def id_of_def)

section \<open>The file\<close>

definition record_bytes :: "key_record \<Rightarrow> byte list" where
  "record_bytes r = kr_controllerID r @ kr_publicKey r"

definition whole :: "key_record \<Rightarrow> bool" where
  "whole r \<longleftrightarrow> length (kr_controllerID r) = 36 \<and> length (kr_publicKey r) = 32"

lemma stream_get_record:
  assumes "whole r" "10 \<notin> set (record_bytes r)" "length buffer = 70"
  shows "stream_get sees_end buffer (record_bytes r @ file) =
    (record_bytes r @ 0 # drop 69 buffer, file, \<not> (file = [] \<and> sees_end))"
proof -
  have l: "length (record_bytes r) = 68" using assms(1) by (simp add: whole_def record_bytes_def)
  have "\<forall>b \<in> set (record_bytes r). b \<noteq> 10" using assms(2) by metis
  then have t: "takeWhile (\<lambda>b. b \<noteq> 10) (take 68 (record_bytes r @ file)) = record_bytes r"
    using l by (simp add: takeWhile_eq_all_conv)
  have "record_bytes r \<noteq> []" using l by (cases "record_bytes r") auto
  then show ?thesis unfolding stream_get_def t Let_def by (simp add: l)
qed

lemma record_of_record:
  "whole r \<Longrightarrow> record_of_buffer (record_bytes r @ rest) = r"
  by (simp add: record_of_buffer_def record_bytes_def whole_def)

lemma load_loop_records:
  assumes "\<forall>r \<in> set rs. whole r \<and> 10 \<notin> set (record_bytes r)" "rs \<noteq> []" "length buffer = 70"
  shows "load_loop True buffer (concat (map record_bytes rs)) = rs"
  using assms
proof (induction rs arbitrary: buffer)
  case (Cons r rs)
  then have r: "whole r" "10 \<notin> set (record_bytes r)" by simp_all
  have l: "length (record_bytes r @ 0 # drop 69 buffer) = 70" using r(1) Cons.prems(3) by (simp add: whole_def record_bytes_def)
  have e: "concat (map record_bytes rs) = [] \<longleftrightarrow> rs = []"
    using Cons.prems(1) by (cases rs) (auto simp: whole_def record_bytes_def)
  have IH: "rs \<noteq> [] \<Longrightarrow> load_loop True (record_bytes r @ 0 # drop 69 buffer) (concat (map record_bytes rs)) = rs"
    using Cons.IH [OF _ _ l] Cons.prems(1) by simp
  show ?case
    using stream_get_record [OF r Cons.prems(3), of True "concat (map record_bytes rs)"] record_of_record [OF r(1)] IH
    by (subst load_loop.simps) (simp add: e del: concat_eq_Nil_conv)
qed simp

lemma stored_file: "\<forall>r \<in> set (cs_records s). whole r \<Longrightarrow> cs_file (storeFiles s) = concat (map record_bytes (cs_records s))"
  unfolding storeFiles_def by (auto simp: whole_def record_bytes_def intro!: arg_cong [of _ _ concat])

section \<open>Properties\<close>

text \<open>C20: Adding, removing and looking up are those of a map from identifiers: a controller that is added is
  found unless its identifier was there before, a removed one is not found, no other is touched, and the identifiers stay
  different.\<close>

theorem controller_store:
  assumes "store_ok s" "record_ok k r"
  shows "store_ok (addControllerKey s r) \<and> store_ok (removeControllerKey s r) \<and>
    (let garbage = getControllerKey rest junk; absent = \<lparr>kr_controllerID = replicate 32 0 @ rest, kr_publicKey = junk\<rparr> in
     garbage (addControllerKey s r) k = (if store_lookup s k = None then r else garbage s k) \<and>
     garbage (removeControllerKey s r) k = absent \<and>
     (\<forall>j. length j = 32 \<longrightarrow> j \<noteq> k \<longrightarrow> garbage (addControllerKey s r) j = garbage s j \<and> garbage (removeControllerKey s r) j = garbage s j))"
proof -
  have k: "k = id_of r" "length k = 32" using assms(2) by (auto simp: record_ok_def id_of_def)
  have rem: "removeControllerKey s r = remove_id s k"
  proof -
    have "same_id (kr_controllerID r) = same_id k" by (simp add: same_id_def k id_of_def fun_eq_iff)
    then show ?thesis by (simp add: remove_id_def removeControllerKey_def doControllerKeyExist_def)
  qed
  have get: "getControllerKey rest junk s' j = (case store_lookup s' j of Some r \<Rightarrow> r
      | None \<Rightarrow> \<lparr>kr_controllerID = replicate 32 0 @ rest, kr_publicKey = junk\<rparr>)" if "length j = 32" for s' j
  proof -
    have "same_id j = (\<lambda>r. id_of r = j)" using that by (simp add: same_id_def id_of_def fun_eq_iff)
    then show ?thesis by (simp add: getControllerKey_def store_lookup_def)
  qed
  show ?thesis
    unfolding Let_def
    using store_ok_add [OF assms] store_ok_remove [OF assms(1), of r] store.lookup_add [OF assms] store.lookup_remove [OF assms(1) k(2)]
    by (simp add: get k(2) rem split: option.split)
qed

definition sample_record :: "byte \<Rightarrow> key_record" where
  "sample_record b = \<lparr>kr_controllerID = replicate 36 b, kr_publicKey = replicate 32 7\<rparr>"

theorem controller_store_witness:
  "getControllerKey [] [] (addControllerKey \<lparr>cs_file = [], cs_records = []\<rparr> (sample_record 1)) (replicate 32 1) = sample_record 1"
  using controller_store [of "\<lparr>cs_file = [], cs_records = []\<rparr>" "replicate 32 1" "sample_record 1" "[]" "[]"]
  by (simp add: store_ok_def record_ok_def id_of_def sample_record_def store_lookup_def Let_def)

text \<open>Records without a newline byte survive storing and loading, where the library notices the end of the
  file with the last record.\<close>

theorem controller_file_roundtrip:
  assumes "\<forall>r \<in> set (cs_records s). length (kr_controllerID r) = 36 \<and> length (kr_publicKey r) = 32 \<and>
      10 \<notin> set (kr_controllerID r) \<and> 10 \<notin> set (kr_publicKey r)"
  shows "cs_records (loadController True (cs_file (storeFiles s))) = cs_records s"
proof -
  have w: "\<forall>r \<in> set (cs_records s). whole r \<and> 10 \<notin> set (record_bytes r)"
    using assms by (simp add: whole_def record_bytes_def)
  then have "cs_file (storeFiles s) = concat (map record_bytes (cs_records s))" by (intro stored_file) simp
  moreover have "concat (map record_bytes (cs_records s)) = [] \<longleftrightarrow> cs_records s = []"
    using w by (cases "cs_records s") (auto simp: whole_def record_bytes_def)
  ultimately show ?thesis using load_loop_records [OF w] by (simp add: loadController_def)
qed

theorem controller_file_roundtrip_witness:
  "cs_records (loadController True (cs_file (storeFiles \<lparr>cs_file = [], cs_records = [sample_record 1, sample_record 2]\<rparr>))) =
   [sample_record 1, sample_record 2]"
  using controller_file_roundtrip [of "\<lparr>cs_file = [], cs_records = [sample_record 1, sample_record 2]\<rparr>"]
  by (simp add: sample_record_def)

text \<open>A key with a newline byte does not survive: what is read back is the part before the newline with zeros, and a
  second record whose first byte is zero.\<close>

theorem controller_file_newline:
  assumes "length (kr_controllerID r) = 36" "length (kr_publicKey r) = 32" "kr_controllerID r @ kr_publicKey r = p @ 10 # q"
    and "10 \<notin> set p" "p \<noteq> []"
  shows "cs_records (loadController sees_end (cs_file (storeFiles \<lparr>cs_file = [], cs_records = [r]\<rparr>))) =
    [record_of_buffer (p @ replicate (70 - length p) 0), record_of_buffer (0 # tl p @ replicate (70 - length p) 0)]"
proof -
  have w: "whole r" "record_bytes r = p @ 10 # q" using assms by (simp_all add: whole_def record_bytes_def)
  have l: "length (p @ 10 # q) = 68" using w by (simp add: whole_def record_bytes_def flip: w(2))
  have stored: "cs_file (storeFiles \<lparr>cs_file = [], cs_records = [r]\<rparr>) = p @ 10 # q"
    using stored_file [of "\<lparr>cs_file = [], cs_records = [r]\<rparr>"] w by simp
  have t: "takeWhile (\<lambda>b. b \<noteq> 10) (take 68 (p @ 10 # q)) = p"
    using l assms(4) by (simp add: takeWhile_append2 takeWhile_tail) (metis (mono_tags, lifting) takeWhile_eq_all_conv)
  have b: "p @ 0 # drop (Suc (length p)) (replicate 70 0) = p @ replicate (70 - length p) 0"
    using l by (simp flip: replicate_Suc add: Suc_diff_Suc)
  obtain x p' where p: "p = x # p'" using assms(5) by (cases p) auto
  have first: "stream_get sees_end (replicate 70 0) (p @ 10 # q) = (p @ replicate (70 - length p) 0, 10 # q, True)"
    unfolding stream_get_def t Let_def using b assms(5) by simp
  have second: "stream_get sees_end (p @ replicate (70 - length p) 0) (10 # q) =
      (0 # tl p @ replicate (70 - length p) 0, 10 # q, False)"
    by (simp add: stream_get_def p)
  show ?thesis
    unfolding stored loadController_def
    by (simp add: first second load_loop.simps)
qed

theorem controller_file_newline_witness:
  "cs_records (loadController True (cs_file (storeFiles \<lparr>cs_file = [],
     cs_records = [\<lparr>kr_controllerID = replicate 36 1, kr_publicKey = 2 # 10 # replicate 30 3\<rparr>]\<rparr>))) =
   [\<lparr>kr_controllerID = replicate 36 1, kr_publicKey = 2 # replicate 31 0\<rparr>,
    \<lparr>kr_controllerID = 0 # replicate 35 1, kr_publicKey = 2 # replicate 31 0\<rparr>]"
  using controller_file_newline [of "\<lparr>kr_controllerID = replicate 36 1, kr_publicKey = 2 # 10 # replicate 30 3\<rparr>"
      "replicate 36 1 @ [2]" "replicate 30 3" True]
  by (simp add: record_of_buffer_def)

end
