(* ===== verification/Cstr.thy ===== *)
theory Cstr
  imports Prelude
begin

text \<open>
  Personal-HomeKit-HAP/srp/cstr.c: the growable counted strings of the SRP library. A \<open>cstr\<close> is a
  record of its buffer, length, capacity and reference count; capacity 0 is the shared empty
  string. The allocator a call uses is an argument: its answer to a request is None (out of
  memory) or a buffer with arbitrary contents; \<open>good_mem\<close> says that the buffer has the size asked
  for. C's \<open>int\<close> fields are integers; a source buffer is a byte list that does not overlap the
  string's own. A call that frees returns the blocks it frees, with their contents.
\<close>

section \<open>The code\<close>

record cstr =
  c_data :: "byte list"
  c_length :: int
  c_cap :: int
  c_ref :: int

definition EXPFACTOR :: int where "EXPFACTOR = 2"
definition MINSIZE :: int where "MINSIZE = 4"

definition cstr_empty_string :: "byte list" where "cstr_empty_string = [0]"

definition strlen :: "byte list \<Rightarrow> nat" where
  "strlen s = length (takeWhile (\<lambda>b. b \<noteq> 0) s)"

text \<open>
  The default allocator is a global that is set on the first use; \<open>got\<close> says whether the request
  for the struct is granted.
\<close>

datatype 'a allocators = Allocators (malloc_allocator: 'a) (default_alloc: "'a option")

definition cstr_set_allocator :: "'a option \<Rightarrow> 'a allocators \<Rightarrow> 'a allocators" where
  "cstr_set_allocator alloc g = Allocators (malloc_allocator g) alloc"

definition cstr_new_alloc ::
  "('a \<Rightarrow> bool) \<Rightarrow> 'a option \<Rightarrow> 'a allocators \<Rightarrow> 'a allocators \<times> (cstr \<times> 'a) option" where
  "cstr_new_alloc got alloc g =
     (let (g, alloc) =
        (case alloc of Some a \<Rightarrow> (g, a)
         | None \<Rightarrow>
           let g = (case default_alloc g of
                      None \<Rightarrow> Allocators (malloc_allocator g) (Some (malloc_allocator g))
                    | Some _ \<Rightarrow> g)
           in (g, the (default_alloc g)))
      in (g, if got alloc
             then Some (\<lparr>c_data = cstr_empty_string, c_length = 0, c_cap = 0, c_ref = 1\<rparr>, alloc)
             else None))"

definition cstr_new :: "('a \<Rightarrow> bool) \<Rightarrow> 'a allocators \<Rightarrow> 'a allocators \<times> (cstr \<times> 'a) option" where
  "cstr_new got g = cstr_new_alloc got None g"

definition cstr_use :: "cstr \<Rightarrow> cstr" where
  "cstr_use str = str\<lparr>c_ref := c_ref str + 1\<rparr>"

text \<open>The string that is left (None once its struct is freed) and the data blocks given back.\<close>

definition cstr_clear_free :: "cstr \<Rightarrow> cstr option \<times> byte list list" where
  "cstr_clear_free str =
     (let str = str\<lparr>c_ref := c_ref str - 1\<rparr>
      in if c_ref str = 0 then
           if c_cap str > 0 then
             let str = str\<lparr>c_data := buffer_copy (c_data str) 0 (replicate (nat (c_cap str)) 0)\<rparr>
             in (None, [c_data str])
           else (None, [])
         else (Some str, []))"

definition cstr_free :: "cstr \<Rightarrow> cstr option \<times> byte list list" where
  "cstr_free str =
     (let str = str\<lparr>c_ref := c_ref str - 1\<rparr>
      in if c_ref str = 0 then (None, if c_cap str > 0 then [c_data str] else [])
         else (Some str, []))"

definition cstr_empty :: "cstr \<Rightarrow> cstr \<times> byte list list" where
  "cstr_empty str =
     (str\<lparr>c_data := cstr_empty_string, c_length := 0, c_cap := 0\<rparr>,
      if c_cap str > 0 then [c_data str] else [])"

definition cstr_alloc :: "(int \<Rightarrow> byte list option) \<Rightarrow> cstr \<Rightarrow> int \<Rightarrow> cstr \<times> int" where
  "cstr_alloc mem str len =
     (if len > c_cap str then
        let len = (if len < EXPFACTOR * c_cap str then EXPFACTOR * c_cap str else len);
            len = (if len < MINSIZE then MINSIZE else len)
        in case mem len of None \<Rightarrow> (str, - 1)
           | Some t \<Rightarrow>
             let t = t[nat (c_length str) := 0];
                 t = (if c_cap str > 0 \<and> c_length str > 0
                      then buffer_copy t 0 (take (nat (c_length str)) (c_data str)) else t)
             in (str\<lparr>c_data := t, c_cap := len\<rparr>, 1)
      else (str, 0))"

definition cstr_setn :: "(int \<Rightarrow> byte list option) \<Rightarrow> cstr \<Rightarrow> byte list option \<Rightarrow> int \<Rightarrow> cstr \<times> int" where
  "cstr_setn mem str s len =
     (let (str, r) = cstr_alloc mem str (len + 1)
      in if r < 0 then (str, - 1)
         else
           let str = str\<lparr>c_data := (c_data str)[nat len := 0]\<rparr>;
               str = (case s of None \<Rightarrow> str
                 | Some b \<Rightarrow> if len > 0
                   then str\<lparr>c_data := buffer_copy (c_data str) 0 (take (nat len) b)\<rparr> else str)
           in (str\<lparr>c_length := len\<rparr>, 1))"

definition cstr_set :: "(int \<Rightarrow> byte list option) \<Rightarrow> cstr \<Rightarrow> byte list \<Rightarrow> cstr \<times> int" where
  "cstr_set mem str s = cstr_setn mem str (Some s) (int (strlen s))"

definition cstr_copy :: "(int \<Rightarrow> byte list option) \<Rightarrow> cstr \<Rightarrow> cstr \<Rightarrow> cstr \<times> int" where
  "cstr_copy mem dst src = cstr_setn mem dst (Some (c_data src)) (c_length src)"

definition cstr_set_length :: "(int \<Rightarrow> byte list option) \<Rightarrow> cstr \<Rightarrow> int \<Rightarrow> cstr \<times> int" where
  "cstr_set_length mem str len =
     (if len < c_length str then
        (str\<lparr>c_data := (c_data str)[nat len := 0], c_length := len\<rparr>, 1)
      else if len > c_length str then
        let (str, r) = cstr_alloc mem str (len + 1)
        in if r < 0 then (str, - 1)
           else (str\<lparr>c_data := buffer_copy (c_data str) (nat (c_length str))
                       (replicate (nat (len - c_length str + 1)) 0),
                     c_length := len\<rparr>, 1)
      else (str, 0))"

definition cstr_appendn :: "(int \<Rightarrow> byte list option) \<Rightarrow> cstr \<Rightarrow> byte list \<Rightarrow> int \<Rightarrow> cstr \<times> int" where
  "cstr_appendn mem str s len =
     (let (str, r) = cstr_alloc mem str (c_length str + len + 1)
      in if r < 0 then (str, - 1)
         else
           let str = str\<lparr>c_data := buffer_copy (c_data str) (nat (c_length str)) (take (nat len) s)\<rparr>;
               str = str\<lparr>c_length := c_length str + len\<rparr>;
               str = str\<lparr>c_data := (c_data str)[nat (c_length str) := 0]\<rparr>
           in (str, 1))"

definition cstr_append :: "(int \<Rightarrow> byte list option) \<Rightarrow> cstr \<Rightarrow> byte list \<Rightarrow> cstr \<times> int" where
  "cstr_append mem str s = cstr_appendn mem str s (int (strlen s))"

definition cstr_append_str :: "(int \<Rightarrow> byte list option) \<Rightarrow> cstr \<Rightarrow> cstr \<Rightarrow> cstr \<times> int" where
  "cstr_append_str mem dst src = cstr_appendn mem dst (c_data src) (c_length src)"

text \<open>The constructors ignore the result of \<open>cstr_setn\<close>.\<close>

definition cstr_dup_alloc ::
  "('a \<Rightarrow> bool) \<Rightarrow> (int \<Rightarrow> byte list option) \<Rightarrow> cstr \<Rightarrow> 'a option \<Rightarrow> 'a allocators \<Rightarrow>
   'a allocators \<times> (cstr \<times> 'a) option" where
  "cstr_dup_alloc got mem str alloc g =
     (let (g, n) = cstr_new_alloc got alloc g
      in (g, map_option (\<lambda>(nstr, a). (fst (cstr_setn mem nstr (Some (c_data str)) (c_length str)), a)) n))"

definition cstr_dup ::
  "('a \<Rightarrow> bool) \<Rightarrow> (int \<Rightarrow> byte list option) \<Rightarrow> cstr \<Rightarrow> 'a allocators \<Rightarrow>
   'a allocators \<times> (cstr \<times> 'a) option" where
  "cstr_dup got mem str g = cstr_dup_alloc got mem str None g"

definition cstr_createn ::
  "('a \<Rightarrow> bool) \<Rightarrow> (int \<Rightarrow> byte list option) \<Rightarrow> byte list \<Rightarrow> int \<Rightarrow> 'a allocators \<Rightarrow>
   'a allocators \<times> (cstr \<times> 'a) option" where
  "cstr_createn got mem s len g =
     (let (g, n) = cstr_new got g
      in (g, map_option (\<lambda>(str, a). (fst (cstr_setn mem str (Some s) len), a)) n))"

definition cstr_create ::
  "('a \<Rightarrow> bool) \<Rightarrow> (int \<Rightarrow> byte list option) \<Rightarrow> byte list \<Rightarrow> 'a allocators \<Rightarrow>
   'a allocators \<times> (cstr \<times> 'a) option" where
  "cstr_create got mem s g = cstr_createn got mem s (int (strlen s)) g"

section \<open>The invariant and the value\<close>

definition cstr_wf :: "cstr \<Rightarrow> bool" where
  "cstr_wf str \<longleftrightarrow>
     c_cap str = 0 \<and> c_length str = 0 \<and> c_data str = cstr_empty_string \<or>
     0 \<le> c_length str \<and> c_length str < c_cap str \<and> length (c_data str) = nat (c_cap str) \<and>
     c_data str ! nat (c_length str) = 0"

definition cstr_value :: "cstr \<Rightarrow> byte list" where
  "cstr_value str = take (nat (c_length str)) (c_data str)"

definition good_mem :: "(int \<Rightarrow> byte list option) \<Rightarrow> bool" where
  "good_mem mem \<longleftrightarrow> (\<forall>n t. mem n = Some t \<longrightarrow> length t = nat n)"

lemma cstr_wf_length: "cstr_wf str \<Longrightarrow> 0 \<le> c_length str \<and> c_length str \<le> c_cap str"
  by (auto simp: cstr_wf_def)

lemma length_cstr_value: "cstr_wf str \<Longrightarrow> length (cstr_value str) = nat (c_length str)"
  by (auto simp: cstr_wf_def cstr_value_def cstr_empty_string_def)

text \<open>What an allocation gives: the old value at the front of a buffer of more than \<open>len\<close> bytes.\<close>

lemma cstr_alloc_result:
  assumes "cstr_wf str" "good_mem mem" "c_length str < len" "cstr_alloc mem str len = (str', r)"
  shows "if r < 0 then str' = str
    else len \<le> c_cap str' \<and> length (c_data str') = nat (c_cap str') \<and> c_length str' = c_length str \<and>
      c_ref str' = c_ref str \<and> take (nat (c_length str)) (c_data str') = cstr_value str \<and>
      c_data str' ! nat (c_length str) = 0"
proof (cases "len > c_cap str")
  case False
  then have "str' = str" "r = 0" using assms(4) by (simp_all add: cstr_alloc_def)
  then show ?thesis using assms(1,3) False by (auto simp: cstr_wf_def cstr_value_def)
next
  case True
  define n where "n = (let len = (if len < EXPFACTOR * c_cap str then EXPFACTOR * c_cap str else len)
    in if len < MINSIZE then MINSIZE else len)"
  have n: "len \<le> n" by (auto simp: n_def Let_def)
  show ?thesis
  proof (cases "mem n")
    case None
    then show ?thesis using assms(4) True by (auto simp: cstr_alloc_def n_def Let_def)
  next
    case (Some t)
    define u where "u = t[nat (c_length str) := 0]"
    define v where "v = (if c_cap str > 0 \<and> c_length str > 0
      then buffer_copy u 0 (take (nat (c_length str)) (c_data str)) else u)"
    have r: "str' = str\<lparr>c_data := v, c_cap := n\<rparr>" "r = 1"
      using assms(4) True Some by (auto simp: cstr_alloc_def n_def Let_def u_def v_def)
    have lt: "length t = nat n" using assms(2) Some by (simp add: good_mem_def)
    have c: "0 \<le> c_length str" "nat (c_length str) < nat n" using assms(1,3) n cstr_wf_length by force+
    have z: "u ! nat (c_length str) = 0" "length u = nat n" using c lt by (simp_all add: u_def)
    have ld: "nat (c_length str) \<le> length (c_data str)"
      using assms(1) by (auto simp: cstr_wf_def)
    have "take (nat (c_length str)) v = cstr_value str \<and> v ! nat (c_length str) = 0 \<and> length v = nat n"
    proof (cases "c_cap str > 0 \<and> c_length str > 0")
      case True
      then have "v = take (nat (c_length str)) (c_data str) @ drop (nat (c_length str)) u"
        unfolding v_def using ld c z(2)
          buffer_copy_at [of 0 "take (nat (c_length str)) (c_data str)" u] by (auto simp: min_absorb2)
      moreover have "nat (c_length str) \<le> length u" using c(2) z(2) by linarith
      moreover from this have "drop (nat (c_length str)) u ! 0 = u ! nat (c_length str)" by simp
      ultimately show ?thesis using ld z by (simp add: cstr_value_def nth_append min_absorb2)
    next
      case False
      then have "c_length str = 0" using assms(1) by (auto simp: cstr_wf_def)
      then show ?thesis using False z by (auto simp: v_def cstr_value_def)
    qed
    then show ?thesis using n by (simp add: r)
  qed
qed

text \<open>When no more room is needed, nothing changes.\<close>

lemma cstr_alloc_fits: "len \<le> c_cap str \<Longrightarrow> cstr_alloc mem str len = (str, 0)"
  by (simp add: cstr_alloc_def)

lemma cstr_alloc_room:
  assumes "cstr_wf str" "good_mem mem" "0 < len" "cstr_alloc mem str len = (str', r)"
  shows "if r < 0 then str' = str
    else len \<le> c_cap str' \<and> length (c_data str') = nat (c_cap str') \<and> c_length str' = c_length str \<and>
      c_ref str' = c_ref str"
  using cstr_alloc_result [OF assms(1,2) _ assms(4)] assms(1,3,4)
  by (cases "c_length str < len") (auto simp: cstr_alloc_fits cstr_wf_def)

lemma cstr_setn_result:
  assumes "cstr_wf str" "good_mem mem" "0 \<le> len" "len \<le> int (length s)"
    "cstr_setn mem str (Some s) len = (str', r)"
  shows "cstr_wf str' \<and> c_ref str' = c_ref str \<and>
    (if r < 0 then str' = str else cstr_value str' = take (nat len) s)"
proof -
  obtain str1 q where a: "cstr_alloc mem str (len + 1) = (str1, q)" by fastforce
  note room = cstr_alloc_room [OF assms(1,2) _ a]
  show ?thesis
  proof (cases "q < 0")
    case True
    then show ?thesis using assms room a by (simp add: cstr_setn_def)
  next
    case False
    define d where "d = (if len > 0 then buffer_copy ((c_data str1)[nat len := 0]) 0 (take (nat len) s)
      else (c_data str1)[nat len := 0])"
    have st: "str' = str1\<lparr>c_data := d, c_length := len\<rparr>" "r = 1"
      using assms(5) a False by (auto simp: cstr_setn_def Let_def d_def)
    have cap: "len + 1 \<le> c_cap str1" "length (c_data str1) = nat (c_cap str1)" "c_ref str1 = c_ref str"
      using room False assms(3) by auto
    have l: "nat len \<le> length s" "nat len < length (c_data str1)" using assms(3,4) cap by auto
    have "length d = nat (c_cap str1) \<and> take (nat len) d = take (nat len) s \<and> d ! nat len = 0"
      using l cap(2) assms(3) by (auto simp: d_def buffer_copy_at min_absorb2 nth_append)
    then show ?thesis
      using cap assms(3) by (simp add: st cstr_wf_def cstr_value_def)
  qed
qed

lemma cstr_set_length_result:
  assumes "cstr_wf str" "good_mem mem" "0 \<le> len" "cstr_set_length mem str len = (str', r)"
  shows "cstr_wf str' \<and> c_ref str' = c_ref str \<and>
    (if r < 0 then str' = str
     else cstr_value str' = take (nat len) (cstr_value str @ replicate (nat len - length (cstr_value str)) 0))"
proof -
  consider "len < c_length str" | "len = c_length str" | "c_length str < len" by linarith
  then show ?thesis
  proof cases
    case 1
    then have st: "str' = str\<lparr>c_data := (c_data str)[nat len := 0], c_length := len\<rparr>" "r = 1"
      using assms(4) by (auto simp: cstr_set_length_def)
    have "0 < c_cap str" "length (c_data str) = nat (c_cap str)" "c_length str < c_cap str"
      using assms(1,3) 1 by (auto simp: cstr_wf_def)
    moreover from this 1 have "nat len < nat (c_length str)" "nat (c_length str) \<le> length (c_data str)"
      using assms(3) by auto
    ultimately show ?thesis
      using assms(3) 1 by (auto simp: st cstr_wf_def cstr_value_def min_absorb1)
  next
    case 2
    then have "str' = str" "r = 0" using assms(4) by (auto simp: cstr_set_length_def)
    then show ?thesis using assms(1) 2 by (simp add: length_cstr_value)
  next
    case 3
    obtain str1 q where a: "cstr_alloc mem str (len + 1) = (str1, q)" by fastforce
    have "c_length str < len + 1" using 3 by simp
    note res = cstr_alloc_result [OF assms(1,2) this a]
    show ?thesis
    proof (cases "q < 0")
      case True
      then show ?thesis using assms res a 3 by (simp add: cstr_set_length_def)
    next
      case False
      define L where "L = nat (c_length str)"
      define d where "d = buffer_copy (c_data str1) L (replicate (nat (len - c_length str + 1)) 0)"
      have cap: "len + 1 \<le> c_cap str1" "length (c_data str1) = nat (c_cap str1)" "c_length str1 = c_length str"
        "c_ref str1 = c_ref str" "take L (c_data str1) = cstr_value str"
        using res False by (auto simp: L_def)
      have st: "str' = str1\<lparr>c_data := d, c_length := len\<rparr>" "r = 1"
        using assms(4) a False 3 cap(3) by (auto simp: cstr_set_length_def Let_def d_def L_def)
      have len: "nat (len - c_length str + 1) = nat len - L + 1" "L < nat len" "L = length (cstr_value str)"
        using 3 assms(3) cstr_wf_length [OF assms(1)] by (auto simp: L_def length_cstr_value [OF assms(1)])
      have d: "d = cstr_value str @ replicate (nat len - L + 1) 0 @ drop (nat len + 1) (c_data str1)"
        unfolding d_def len(1) using cap(1,2,5) len(2) by (subst buffer_copy_at) auto
      have "length d = nat (c_cap str1)" using cap(2) by (simp add: d_def)
      moreover have "d ! nat len = 0" using len(2,3) by (auto simp: d nth_append nth_Cons')
      moreover have "take (nat len) d = take (nat len) (cstr_value str @ replicate (nat len - L) 0)"
        using len(2,3) by (simp add: d del: replicate.simps)
      ultimately show ?thesis using cap(1,4) assms(3) st(2) len(3) by (simp add: st(1) cstr_wf_def cstr_value_def)
    qed
  qed
qed

lemma cstr_appendn_result:
  assumes "cstr_wf str" "good_mem mem" "0 \<le> len" "len \<le> int (length s)"
    "cstr_appendn mem str s len = (str', r)"
  shows "cstr_wf str' \<and> c_ref str' = c_ref str \<and>
    (if r < 0 then str' = str else cstr_value str' = cstr_value str @ take (nat len) s)"
proof -
  obtain str1 q where a: "cstr_alloc mem str (c_length str + len + 1) = (str1, q)" by fastforce
  have "c_length str < c_length str + len + 1" using assms(3) by simp
  note res = cstr_alloc_result [OF assms(1,2) this a]
  show ?thesis
  proof (cases "q < 0")
    case True
    then show ?thesis using assms res a by (simp add: cstr_appendn_def)
  next
    case False
    define L where "L = nat (c_length str)"
    define d where "d = (buffer_copy (c_data str1) L (take (nat len) s))[L + nat len := 0]"
    have cap: "c_length str + len + 1 \<le> c_cap str1" "length (c_data str1) = nat (c_cap str1)"
      "c_length str1 = c_length str" "c_ref str1 = c_ref str" "take L (c_data str1) = cstr_value str"
      using res False by (auto simp: L_def)
    have len: "nat (c_length str + len) = L + nat len" "nat len \<le> length s" "L = length (cstr_value str)"
      "L + nat len < length (c_data str1)"
      using assms(3,4) cap(1,2) cstr_wf_length [OF assms(1)] by (auto simp: L_def length_cstr_value [OF assms(1)])
    have st: "str' = str1\<lparr>c_data := d, c_length := c_length str + len\<rparr>" "r = 1"
      using assms(5) a False cap(3) len(1) by (auto simp: cstr_appendn_def Let_def d_def L_def)
    have "buffer_copy (c_data str1) L (take (nat len) s) =
        cstr_value str @ take (nat len) s @ drop (L + nat len) (c_data str1)"
      using len cap(5) by (simp add: buffer_copy_at min_absorb2)
    then have d: "d = (cstr_value str @ take (nat len) s @ drop (L + nat len) (c_data str1))[L + nat len := 0]"
      by (simp add: d_def)
    have "length d = nat (c_cap str1)" using cap(2) by (simp add: d_def)
    moreover have "d ! (L + nat len) = 0" using len(2,3,4) by (simp add: d min_absorb2)
    moreover have "take (L + nat len) d = cstr_value str @ take (nat len) s"
      using len(2,3) by (simp add: d min_absorb2)
    ultimately show ?thesis
      using cap(1,4) assms(1,3) cstr_wf_length [OF assms(1)] st(2) len(1)
      by (simp add: st(1) cstr_wf_def cstr_value_def)
  qed
qed

lemma cstr_wf_new: "cstr_wf \<lparr>c_data = cstr_empty_string, c_length = 0, c_cap = 0, c_ref = n\<rparr>"
  by (simp add: cstr_wf_def)

section \<open>The operations against strings\<close>

datatype cstr_op = Set "byte list" | Append "byte list" | Set_length nat | Copy cstr | Append_str cstr | Empty

text \<open>The call of an operation: the source of a copy is another string in good shape.\<close>

fun cstr_do :: "(int \<Rightarrow> byte list option) \<Rightarrow> cstr_op \<Rightarrow> cstr \<Rightarrow> cstr \<times> int" where
  "cstr_do mem (Set s) str = cstr_set mem str (s @ [0])"
| "cstr_do mem (Append s) str = cstr_append mem str (s @ [0])"
| "cstr_do mem (Set_length n) str = cstr_set_length mem str (int n)"
| "cstr_do mem (Copy src) str = cstr_copy mem str src"
| "cstr_do mem (Append_str src) str = cstr_append_str mem str src"
| "cstr_do mem Empty str = (fst (cstr_empty str), 1)"

fun op_ok :: "cstr_op \<Rightarrow> bool" where
  "op_ok (Set s) = (0 \<notin> set s)"
| "op_ok (Append s) = (0 \<notin> set s)"
| "op_ok (Copy src) = cstr_wf src"
| "op_ok (Append_str src) = cstr_wf src"
| "op_ok _ = True"

fun op_value :: "cstr_op \<Rightarrow> byte list \<Rightarrow> byte list" where
  "op_value (Set s) v = s"
| "op_value (Append s) v = v @ s"
| "op_value (Set_length n) v = take n (v @ replicate (n - length v) 0)"
| "op_value (Copy src) v = cstr_value src"
| "op_value (Append_str src) v = v @ cstr_value src"
| "op_value Empty v = []"

lemma strlen_terminated: "0 \<notin> set s \<Longrightarrow> strlen (s @ 0 # r) = length s"
  by (induction s) (auto simp: strlen_def)

lemma cstr_do_refines:
  assumes "cstr_wf str" "good_mem mem" "op_ok op" "cstr_do mem op str = (str', r)"
  shows "cstr_wf str' \<and> cstr_value str' = (if r < 0 then cstr_value str else op_value op (cstr_value str))"
proof (cases op)
  case (Set s)
  then show ?thesis
    using cstr_setn_result [OF assms(1,2), of "int (length s)" "s @ [0]" str' r] assms(3,4)
    by (auto simp: cstr_set_def strlen_terminated)
next
  case (Append s)
  then show ?thesis
    using cstr_appendn_result [OF assms(1,2), of "int (length s)" "s @ [0]" str' r] assms(3,4)
    by (auto simp: cstr_append_def strlen_terminated)
next
  case (Set_length n)
  then show ?thesis
    using cstr_set_length_result [OF assms(1,2), of "int n" str' r] assms(4) by auto
next
  case (Copy src)
  have w: "cstr_wf src" using assms(3) Copy by simp
  have "c_length src \<le> int (length (c_data src))" using w by (auto simp: cstr_wf_def)
  then show ?thesis
    using cstr_setn_result [OF assms(1,2), of "c_length src" "c_data src" str' r] assms(4) Copy
      cstr_wf_length [OF w] by (auto simp: cstr_copy_def cstr_value_def)
next
  case (Append_str src)
  have w: "cstr_wf src" using assms(3) Append_str by simp
  have "c_length src \<le> int (length (c_data src))" using w by (auto simp: cstr_wf_def)
  then show ?thesis
    using cstr_appendn_result [OF assms(1,2), of "c_length src" "c_data src" str' r] assms(4) Append_str
      cstr_wf_length [OF w] by (auto simp: cstr_append_str_def cstr_value_def)
next
  case Empty
  then show ?thesis using assms(4) by (auto simp: cstr_empty_def cstr_wf_def cstr_value_def)
qed

text \<open>A run of operations, each with an allocator of its own, and the trace of what they returned.\<close>

inductive cstr_run :: "cstr \<Rightarrow> (cstr_op \<times> int) list \<Rightarrow> cstr \<Rightarrow> bool" where
  run_none: "cstr_run str [] str"
| run_step: "cstr_run str tr str1 \<Longrightarrow> good_mem mem \<Longrightarrow> op_ok op \<Longrightarrow> cstr_do mem op str1 = (str2, r) \<Longrightarrow>
    cstr_run str (tr @ [(op, r)]) str2"

inductive_cases cstr_run_noneE: "cstr_run str [] str'"

section \<open>The properties\<close>



text \<open>Growing reserves at least twice the old capacity and never less than asked for: a call
  that reallocates leaves room for as many bytes again as the string could hold.\<close>

theorem cstr_alloc_doubles:
  assumes "cstr_alloc mem str len = (str', 1)"
  shows "2 * c_cap str \<le> c_cap str' \<and> len \<le> c_cap str' \<and> 4 \<le> c_cap str' \<and> c_cap str < len"
  using assms
  by (auto simp: cstr_alloc_def Let_def MINSIZE_def EXPFACTOR_def split: if_splits option.splits)

theorem cstr_alloc_doubles_witness:
  "(case cstr_alloc (\<lambda>n. Some (replicate (nat n) 7)) \<lparr>c_data = replicate 6 0, c_length = 5, c_cap = 6, c_ref = 1\<rparr> 7 of
     (str', r) \<Rightarrow> r = 1 \<and> 12 \<le> c_cap str')"
  using cstr_alloc_doubles [of "\<lambda>n. Some (replicate (nat n) 7)"
      "\<lparr>c_data = replicate 6 0, c_length = 5, c_cap = 6, c_ref = 1\<rparr>" 7]
  by (simp add: cstr_alloc_def EXPFACTOR_def MINSIZE_def)

text \<open>The last release of a string by \<open>cstr_clear_free\<close> gives back a buffer of zeros; an earlier
  one only counts down.\<close>

theorem cstr_clear_free_wipes:
  assumes "cstr_wf str"
  shows "cstr_clear_free str =
    (if c_ref str = 1 then (None, if c_cap str > 0 then [replicate (nat (c_cap str)) 0] else [])
     else (Some (str\<lparr>c_ref := c_ref str - 1\<rparr>), []))"
  using assms by (auto simp: cstr_clear_free_def cstr_wf_def buffer_copy_at)

theorem cstr_clear_free_wipes_witness:
  "cstr_clear_free \<lparr>c_data = [1, 2, 0, 9], c_length = 2, c_cap = 4, c_ref = 1\<rparr> = (None, [replicate 4 0])"
  using cstr_clear_free_wipes [of "\<lparr>c_data = [1, 2, 0, 9], c_length = 2, c_cap = 4, c_ref = 1\<rparr>"]
  by (simp add: cstr_wf_def)

end
