(* ===== verification/Positional.thy ===== *)
theory Positional
  imports Prelude
begin

text \<open>
  Positional numerals, most significant digit first, in any base: what the hexadecimal, base-64
  and byte notations of the SRP library have in common. A numeral without a leading zero is
  determined by its value; taking leading zeros away keeps the value.
\<close>

fun base_val :: "nat \<Rightarrow> nat list \<Rightarrow> nat" where
  "base_val B [] = 0"
| "base_val B (d # ds) = d * B ^ length ds + base_val B ds"

lemma base_val_append: "base_val B (xs @ ys) = base_val B xs * B ^ length ys + base_val B ys"
  by (induction xs) (auto simp: algebra_simps power_add)

lemma base_val_less: "\<forall>d \<in> set ds. d < B \<Longrightarrow> base_val B ds < B ^ length ds"
proof (induction ds)
  case (Cons d ds)
  then have "base_val B ds < B ^ length ds" "d + 1 \<le> B" by auto
  then have "d * B ^ length ds + base_val B ds < (d + 1) * B ^ length ds" by simp
  also have "\<dots> \<le> B * B ^ length ds" using \<open>d + 1 \<le> B\<close> by (rule mult_le_mono1)
  finally show ?case by simp
qed simp

lemma base_val_inj:
  "length xs = length ys \<Longrightarrow> \<forall>d \<in> set xs \<union> set ys. d < B \<Longrightarrow> base_val B xs = base_val B ys \<Longrightarrow> xs = ys"
proof (induction xs ys rule: list_induct2)
  case (Cons x xs y ys)
  have "base_val B xs < B ^ length xs" "base_val B ys < B ^ length xs"
    using base_val_less [of xs B] base_val_less [of ys B] Cons by auto
  moreover have "base_val B xs + B ^ length xs * x = base_val B ys + B ^ length xs * y"
    using Cons.prems(2) Cons.hyps by (simp add: ac_simps)
  ultimately have "base_val B xs = base_val B ys \<and> x = y" by (simp add: digit_eq_iff)
  with Cons show ?case by auto
qed simp

definition no_leading_zero :: "'a::zero list \<Rightarrow> bool" where
  "no_leading_zero ds \<longleftrightarrow> (case ds of [] \<Rightarrow> True | d # _ \<Rightarrow> d \<noteq> 0)"

definition strip_zeros :: "'a::zero list \<Rightarrow> 'a list" where
  "strip_zeros ds = dropWhile (\<lambda>d. d = 0) ds"

lemma strip_no_leading_zero: "no_leading_zero (strip_zeros ds)"
  by (induction ds) (auto simp: no_leading_zero_def strip_zeros_def)

lemma strip_simps [simp]:
  "strip_zeros [] = []" "strip_zeros (0 # ds) = strip_zeros ds" "d \<noteq> 0 \<Longrightarrow> strip_zeros (d # ds) = d # ds"
  by (simp_all add: strip_zeros_def)

lemma base_val_strip [simp]: "base_val B (strip_zeros ds) = base_val B ds"
proof (induction ds)
  case (Cons d ds)
  then show ?case by (cases "d = 0") auto
qed simp

lemma strip_id: "no_leading_zero ds \<Longrightarrow> strip_zeros ds = ds"
  by (cases ds) (auto simp: no_leading_zero_def)

lemma strip_empty_iff: "0 < B \<Longrightarrow> strip_zeros ds = [] \<longleftrightarrow> base_val B ds = 0"
  by (induction ds) (auto simp: strip_zeros_def)

lemma base_val_lower: "no_leading_zero (d # ds) \<Longrightarrow> B ^ length ds \<le> base_val B (d # ds)"
  by (simp add: no_leading_zero_def trans_le_add1)

lemma base_val_canonical:
  assumes "no_leading_zero xs" "no_leading_zero ys" "\<forall>d \<in> set xs \<union> set ys. d < B" "0 < B"
    "base_val B xs = base_val B ys"
  shows "xs = ys"
proof -
  have shorter: "\<not> length us < length vs"
    if "no_leading_zero vs" "\<forall>d \<in> set us. d < B" "base_val B us = base_val B vs" for us vs
  proof
    assume "length us < length vs"
    then obtain v vs' where vs: "vs = v # vs'" "length us \<le> length vs'" by (cases vs) auto
    have "base_val B us < B ^ length us" using that(2) by (rule base_val_less)
    also have "\<dots> \<le> B ^ length vs'" using vs(2) assms(4) by (simp add: power_increasing)
    also have "\<dots> \<le> base_val B us" using base_val_lower that(1) unfolding that(3) vs(1) .
    finally show False by simp
  qed
  have "length xs = length ys"
    using shorter [of ys xs] shorter [of xs ys] assms by force
  then show ?thesis using base_val_inj assms by blast
qed

section \<open>Bytes as digits\<close>

lemma be_val_base: "be_val bs = base_val 256 (map unat bs)"
  by (induction bs) (simp_all add: be_val_Cons)

lemma strip_map_unat: "strip_zeros (map unat bs) = map unat (strip_zeros (bs :: 'a::len word list))"
proof (induction bs)
  case (Cons b bs)
  then show ?case by (cases "b = 0") (auto simp: unat_eq_zero)
qed simp

lemma be_val_strip [simp]: "be_val (strip_zeros bs) = be_val bs"
  by (simp add: be_val_base flip: strip_map_unat)

lemma no_leading_zero_unat: "no_leading_zero (map unat bs) \<longleftrightarrow> no_leading_zero (bs :: byte list)"
  by (cases bs) (auto simp: no_leading_zero_def unat_eq_zero)

lemma be_val_canonical:
  assumes "no_leading_zero xs" "no_leading_zero ys" "be_val xs = be_val ys"
  shows "xs = ys"
proof -
  have "map unat xs = map unat ys"
    by (rule base_val_canonical [of _ _ 256])
      (use assms in \<open>auto simp: no_leading_zero_unat be_val_base intro: unat_byte_less\<close>)
  then show ?thesis by (rule map_injective [OF _ injI]) (simp add: word_unat_eq_iff)
qed

lemma be_val_zero_iff: "be_val bs = 0 \<longleftrightarrow> strip_zeros bs = []"
  using strip_empty_iff [of 256 "map unat bs"] by (simp add: be_val_base strip_map_unat)

end
