(* ===== verification/Conv.thy ===== *)
theory Conv
  imports Cstr Positional
begin

text \<open>
  Personal-HomeKit-HAP/srp/t_conv.c: bytes to and from hexadecimal and the base-64 notation of the
  password and parameter files. Source strings are the bytes before the terminating zero; a
  result string too. The functions that write through a pointer return what they write. None is
  an access outside an array: \<open>t_fromb64\<close> has two, for a text without digits and for one whose
  digits are all zero.
\<close>

section \<open>The code\<close>

definition hexDigitToInt :: "byte \<Rightarrow> nat" where
  "hexDigitToInt c =
     (if 48 \<le> c \<and> c \<le> 57 then unat c - 48
      else if 97 \<le> c \<and> c \<le> 102 then unat c - 97 + 10
      else if 65 \<le> c \<and> c \<le> 70 then unat c - 65 + 10
      else 0)"

text \<open>The loop over pairs, and the single first digit of an odd text; the result is \<open>chp - dst\<close> bytes.\<close>

fun fromhex_pairs :: "byte list \<Rightarrow> byte list" where
  "fromhex_pairs (a # b # src) =
     (push_bit 4 (of_nat (hexDigitToInt a)) OR of_nat (hexDigitToInt b)) # fromhex_pairs src"
| "fromhex_pairs _ = []"

definition t_fromhex :: "byte list \<Rightarrow> byte list" where
  "t_fromhex src =
     (if length src mod 2 = 1
      then of_nat (hexDigitToInt (hd src)) # fromhex_pairs (tl src)
      else fromhex_pairs src)"

definition hex_upper :: "nat \<Rightarrow> byte" where
  "hex_upper d = (if d < 10 then of_nat (48 + d) else of_nat (55 + d))"

text \<open>\<open>sprintf\<close> with \<open>%.1X\<close> of a value below 16 and with \<open>%.2X\<close> of a byte.\<close>

definition sprintf_1X :: "byte \<Rightarrow> byte list" where
  "sprintf_1X b = [hex_upper (unat b)]"

definition sprintf_2X :: "byte \<Rightarrow> byte list" where
  "sprintf_2X b = [hex_upper (unat b div 16), hex_upper (unat b mod 16)]"

fun tohex_loop :: "bool \<Rightarrow> byte list \<Rightarrow> byte list" where
  "tohex_loop notleading [] = []"
| "tohex_loop notleading (b # src) =
     (if notleading \<or> b \<noteq> 0
      then (if \<not> notleading \<and> b AND 0xf0 = 0 then sprintf_1X b else sprintf_2X b) @ tohex_loop True src
      else tohex_loop notleading src)"

definition t_tohex :: "byte list \<Rightarrow> byte list" where
  "t_tohex src = tohex_loop False src"

text \<open>A write of a string and its terminator to the start of a counted string's buffer.\<close>

definition write_data :: "cstr \<Rightarrow> byte list \<Rightarrow> cstr option" where
  "write_data str s =
     (if length s \<le> length (c_data str) then Some (str\<lparr>c_data := buffer_copy (c_data str) 0 s\<rparr>) else None)"

definition t_tohexcstr :: "(int \<Rightarrow> byte list option) \<Rightarrow> cstr \<Rightarrow> byte list \<Rightarrow> cstr option" where
  "t_tohexcstr mem dst src =
     (let (dst, r) = cstr_set_length mem dst (2 * int (length src) + 1)
      in write_data dst (t_tohex src @ [0]))"

definition b64table :: "byte list" where
  "b64table = ascii ''0123456789ABCDEFGHIJKLMNOPQRSTUVWXYZabcdefghijklmnopqrstuvwxyz./''"

text \<open>\<open>strchr(b64table, c) - b64table\<close>\<close>

definition b64_index :: "byte \<Rightarrow> nat option" where
  "b64_index c =
     (let n = length (takeWhile (\<lambda>b. b \<noteq> c) b64table) in if n < 64 then Some n else None)"

fun skip_blanks :: "byte list \<Rightarrow> byte list" where
  "skip_blanks [] = []"
| "skip_blanks (c # src) = (if c = 32 \<or> c = 9 \<or> c = 10 then skip_blanks src else c # src)"

fun b64_digits :: "byte list \<Rightarrow> byte list" where
  "b64_digits [] = []"
| "b64_digits (c # src) =
     (case b64_index c of None \<Rightarrow> [] | Some d \<Rightarrow> of_nat d # b64_digits src)"

text \<open>
  The loop that packs four digits into three bytes, in place, from the end of the array: after
  the first copy, each of the three groups of statements before the next \<open>--i < 0\<close> test.
\<close>

definition pack_2 :: "byte list \<Rightarrow> nat \<Rightarrow> nat \<Rightarrow> byte list \<times> nat" where
  "pack_2 a i j =
     (let a = a[j := a ! j OR push_bit 6 (a ! i AND 3)]; j = j - 1
      in (a[j := drop_bit 2 (a ! i AND 0x3c)], j))"

definition pack_3 :: "byte list \<Rightarrow> nat \<Rightarrow> nat \<Rightarrow> byte list \<times> nat" where
  "pack_3 a i j =
     (let a = a[j := a ! j OR push_bit 4 (a ! i AND 0xf)]; j = j - 1
      in (a[j := drop_bit 4 (a ! i AND 0x30)], j))"

definition pack_4 :: "byte list \<Rightarrow> nat \<Rightarrow> nat \<Rightarrow> byte list \<times> nat" where
  "pack_4 a i j =
     (let a = a[j := a ! j OR push_bit 2 (a ! i)]; j = j - 1 in (a[j := 0], j))"

function b64_pack :: "byte list \<Rightarrow> nat \<Rightarrow> nat \<Rightarrow> byte list \<times> nat" where
  "b64_pack a i j =
     (let a = a[j := a ! i]
      in if i = 0 then (a, j)
      else let (a, j) = pack_2 a (i - 1) j
      in if i - 1 = 0 then (a, j)
      else let (a, j) = pack_3 a (i - 2) j
      in if i - 2 = 0 then (a, j)
      else let (a, j) = pack_4 a (i - 3) j
      in if i - 3 = 0 then (a, j) else b64_pack a (i - 4) j)"
  by pat_completeness auto
termination
  by (relation "measure (\<lambda>(a, i, j). i)") simp_all

declare b64_pack.simps [simp del]

text \<open>\<open>while (a[j] == 0 && j <= size) ++j\<close>: the element is read before the bound is tested.\<close>

function b64_skip :: "byte list \<Rightarrow> nat \<Rightarrow> nat \<Rightarrow> nat option" where
  "b64_skip a sz j =
     (if j < length a
      then if a ! j = 0 \<and> j \<le> sz then b64_skip a sz (j + 1) else Some j
      else None)"
  by pat_completeness auto
termination
  by (relation "measure (\<lambda>(a, sz, j). length a - j)") auto

declare b64_skip.simps [simp del]

text \<open>
  \<open>mem\<close> answers \<open>malloc\<close>. The result is None when the code reads outside the array, and otherwise
  what is copied to \<open>dst\<close>, with the value returned.
\<close>

definition t_fromb64 :: "(nat \<Rightarrow> byte list option) \<Rightarrow> byte list \<Rightarrow> (byte list \<times> int) option" where
  "t_fromb64 mem src =
     (let src = skip_blanks src; sz = length src
      in case mem (sz + 1) of None \<Rightarrow> Some ([], - 1)
         | Some a \<Rightarrow>
           let ds = b64_digits src; a = buffer_copy a 0 ds; sz = length ds
           in if sz = 0 then None
              else let (a, j) = b64_pack a (sz - 1) sz
                   in case b64_skip a sz j of None \<Rightarrow> None
                      | Some j \<Rightarrow> Some (take (sz - j + 1) (drop j a), int sz - int j + 1))"

definition t_cstrfromb64 ::
  "(nat \<Rightarrow> byte list option) \<Rightarrow> (int \<Rightarrow> byte list option) \<Rightarrow> cstr \<Rightarrow> byte list \<Rightarrow> (cstr \<times> int) option" where
  "t_cstrfromb64 heap mem dst src =
     (let (dst, r) = cstr_set_length mem dst (int ((length src * 6 + 7) div 8))
      in case t_fromb64 heap src of None \<Rightarrow> None
         | Some (bytes, len) \<Rightarrow>
           (case write_data dst bytes of None \<Rightarrow> None
            | Some dst \<Rightarrow> Some (fst (cstr_set_length mem dst len), len)))"

definition tob64_digit :: "nat \<Rightarrow> byte list \<times> bool \<Rightarrow> byte list \<times> bool" where
  "tob64_digit c s = (let (out, notleading) = s in
     if notleading \<or> c \<noteq> 0 then (out @ [b64table ! c], True) else (out, notleading))"

definition tob64_group :: "byte \<Rightarrow> byte \<Rightarrow> byte \<Rightarrow> byte list \<times> bool \<Rightarrow> byte list \<times> bool" where
  "tob64_group b0 b1 b2 s =
     (let s = tob64_digit (unat (drop_bit 2 (b0 AND 0xfc))) s;
          s = tob64_digit (unat (push_bit 4 (b0 AND 3) OR drop_bit 4 (b1 AND 0xf0))) s;
          s = tob64_digit (unat (push_bit 2 (b1 AND 0xf) OR drop_bit 6 (b2 AND 0xc0))) s
      in tob64_digit (unat (b2 AND 0x3f)) s)"

text \<open>The loop, after \<open>pos\<close> bytes; \<open>size - pos\<close> is a multiple of 3.\<close>

fun tob64_loop :: "byte \<Rightarrow> byte \<Rightarrow> byte \<Rightarrow> byte list \<Rightarrow> byte list \<times> bool \<Rightarrow> byte list" where
  "tob64_loop b0 b1 b2 (x # y # z # src) s = tob64_loop x y z src (tob64_group b0 b1 b2 s)"
| "tob64_loop b0 b1 b2 src s = fst (tob64_group b0 b1 b2 s)"

definition t_tob64 :: "byte list \<Rightarrow> byte list" where
  "t_tob64 src =
     (let pos = length src mod 3;
          b1 = (if pos = 2 then src ! 0 else 0);
          b2 = (if pos = 1 then src ! 0 else if pos = 2 then src ! 1 else 0)
      in tob64_loop 0 b1 b2 (drop pos src) ([], False))"

definition t_tob64cstr :: "(int \<Rightarrow> byte list option) \<Rightarrow> cstr \<Rightarrow> byte list \<Rightarrow> cstr option" where
  "t_tob64cstr mem dst src =
     (let (dst, r) = cstr_set_length mem dst (int ((length src * 8 + 5) div 6) + 1)
      in write_data dst (t_tob64 src @ [0]))"

section \<open>Hexadecimal\<close>

definition hex_digits :: "byte list \<Rightarrow> nat list" where
  "hex_digits bs = concat (map (\<lambda>b. [unat b div 16, unat b mod 16]) bs)"

lemma hex_digits_Cons [simp]:
  "hex_digits [] = []" "hex_digits (b # bs) = unat b div 16 # unat b mod 16 # hex_digits bs"
  by (simp_all add: hex_digits_def)

lemma length_hex_digits [simp]: "length (hex_digits bs) = 2 * length bs"
  by (induction bs) auto

lemma hex_digits_value: "base_val 16 (hex_digits bs) = be_val bs"
proof (induction bs)
  case (Cons b bs)
  define X :: nat where "X = 16 ^ (2 * length bs)"
  have "(unat b div 16 * 16 + unat b mod 16) * X = unat b div 16 * (16 * X) + unat b mod 16 * X"
    by (simp only: distrib_right mult.assoc)
  moreover have "256 ^ length bs = X" by (simp add: X_def power_mult)
  ultimately show ?case
    using Cons by (simp add: be_val_Cons X_def [symmetric] del: div_mult_mod_eq)
qed simp

lemma hex_digits_less: "d \<in> set (hex_digits bs) \<Longrightarrow> d < 16"
  using unat_byte_less by (induction bs) (auto simp: less_mult_imp_div_less)

lemma hexDigit_upper: "d < 16 \<Longrightarrow> hexDigitToInt (hex_upper d) = d"
proof -
  assume "d < 16"
  then have "unat (hex_upper d) = (if d < 10 then 48 + d else 55 + d)"
    using unat_of_nat_byte [of "48 + d"] unat_of_nat_byte [of "55 + d"] by (simp add: hex_upper_def)
  then show ?thesis using \<open>d < 16\<close> by (simp add: hexDigitToInt_def word_le_nat_alt)
qed

lemma and_f0_zero: "b AND 0xf0 = 0 \<longleftrightarrow> unat b div 16 = 0" for b :: byte
proof -
  have "b AND 0xf0 = push_bit 4 (drop_bit 4 b)"
  proof (rule bit_word_eqI)
    fix n assume "n < LENGTH(8)"
    then have "n \<in> {0, 1, 2, 3, 4, 5, 6, 7}" by auto
    then show "bit (b AND 0xf0) n = bit (push_bit 4 (drop_bit 4 b)) n"
      by (auto simp: bit_simps)
  qed
  moreover have "unat (push_bit 4 (drop_bit 4 b)) = unat b div 16 * 16"
    using unat_byte_less [of b]
    by (subst unat_push_bit_exact) (simp_all add: unat_drop_bit_div less_mult_imp_div_less)
  ultimately show ?thesis by (simp add: word_unat_eq_iff)
qed

lemma tohex_loop_digits:
  "tohex_loop nl bs = map hex_upper (if nl then hex_digits bs else strip_zeros (hex_digits bs))"
proof (induction nl bs rule: tohex_loop.induct)
  case (2 nl b bs)
  have z: "b = 0 \<longleftrightarrow> unat b div 16 = 0 \<and> unat b mod 16 = 0"
    by (metis div_mult_mod_eq mult_0 add_0 unat_eq_zero div_0 mod_0 unat_0)
  show ?case
  proof (cases "nl \<or> b \<noteq> 0")
    case True
    then show ?thesis
      using 2(1) z
      by (cases "unat b div 16 = 0") (auto simp: and_f0_zero sprintf_1X_def sprintf_2X_def)
  next
    case False
    then show ?thesis using 2(2) z by simp
  qed
qed simp

lemma t_tohex_digits: "t_tohex bs = map hex_upper (strip_zeros (hex_digits bs))"
  by (simp add: t_tohex_def tohex_loop_digits)

fun hex_bytes :: "nat list \<Rightarrow> byte list" where
  "hex_bytes (a # b # ds) = of_nat (16 * a + b) # hex_bytes ds"
| "hex_bytes _ = []"

lemma unat_pair: "a < 16 \<Longrightarrow> b < 16 \<Longrightarrow> unat (of_nat (16 * a + b) :: byte) = 16 * a + b"
  by (rule unat_of_nat_byte) simp

lemma pair_byte:
  assumes "a < 16" "b < 16"
  shows "push_bit 4 (of_nat a) OR of_nat b = (of_nat (16 * a + b) :: byte)"
proof -
  have u: "unat (of_nat a :: byte) = a" "unat (of_nat b :: byte) = b" using assms by (simp_all add: unat_of_nat)
  have "unat (of_nat b OR push_bit 4 (of_nat a) :: byte) = b + a * 2 ^ 4"
    using assms u by (subst unat_or_disjoint) simp_all
  then have "unat (push_bit 4 (of_nat a) OR of_nat b :: byte) = 16 * a + b" by (simp add: or.commute)
  then show ?thesis using assms by (simp only: word_unat_eq_iff unat_pair)
qed

lemma fromhex_pairs_bytes:
  "\<forall>d \<in> set ds. d < 16 \<Longrightarrow> fromhex_pairs (map hex_upper ds) = hex_bytes ds"
  by (induction ds rule: hex_bytes.induct) (simp_all add: hexDigit_upper pair_byte)

lemma hex_bytes_value:
  "even (length ds) \<Longrightarrow> \<forall>d \<in> set ds. d < 16 \<Longrightarrow> be_val (hex_bytes ds) = base_val 16 ds \<and> 2 * length (hex_bytes ds) = length ds"
proof (induction ds rule: hex_bytes.induct)
  case (1 a b ds)
  then have "unat (of_nat (16 * a + b) :: byte) = 16 * a + b" by (intro unat_pair) auto
  moreover have l: "length ds = 2 * length (hex_bytes ds)" "be_val (hex_bytes ds) = base_val 16 ds" using 1 by auto
  moreover from l(1) have "(16 :: nat) ^ length ds = 256 ^ length (hex_bytes ds)" by (simp add: power_mult)
  ultimately show ?case by (simp add: be_val_Cons distrib_right del: of_nat_add of_nat_mult)
qed auto

lemma fromhex_tohex: "t_fromhex (t_tohex bs) = strip_zeros bs"
proof -
  define ds where "ds = strip_zeros (hex_digits bs)"
  have d: "\<forall>d \<in> set ds. d < 16"
    unfolding ds_def strip_zeros_def using hex_digits_less set_dropWhileD by fastforce
  have nl: "no_leading_zero ds" unfolding ds_def by (rule strip_no_leading_zero)
  have v: "base_val 16 ds = be_val bs" by (simp add: ds_def hex_digits_value)
  have "be_val (t_fromhex (t_tohex bs)) = be_val bs \<and> no_leading_zero (t_fromhex (t_tohex bs))"
  proof (cases "even (length ds)")
    case True
    then have "length ds mod 2 \<noteq> 1" by presburger
    then have "t_fromhex (t_tohex bs) = hex_bytes ds"
      using d by (simp add: t_fromhex_def t_tohex_digits ds_def [symmetric] fromhex_pairs_bytes)
    moreover have "no_leading_zero (hex_bytes ds)"
    proof (cases ds rule: hex_bytes.cases)
      case (1 a b r)
      then have "0 < a" "a < 16" "b < 16" using nl d by (auto simp: no_leading_zero_def)
      then have "unat (of_nat (16 * a + b) :: byte) \<noteq> 0" by (simp only: unat_pair)
      then show ?thesis using 1 by (auto simp: no_leading_zero_def unat_eq_zero)
    qed (simp_all add: no_leading_zero_def)
    ultimately show ?thesis using hex_bytes_value [OF True d] v by simp
  next
    case False
    then obtain a r where ds: "ds = a # r" "even (length r)" by (cases ds) auto
    then have a: "a \<noteq> 0" "a < 16" using nl d by (auto simp: no_leading_zero_def)
    have "length ds mod 2 = 1" using False by presburger
    then have "t_fromhex (t_tohex bs) = of_nat a # hex_bytes r"
      using d a ds by (simp add: t_fromhex_def t_tohex_digits ds_def [symmetric] fromhex_pairs_bytes hexDigit_upper)
    moreover have "unat (of_nat a :: byte) = a" using a by (simp add: unat_of_nat)
    moreover have "be_val (hex_bytes r) = base_val 16 r" "length r = 2 * length (hex_bytes r)"
      using hex_bytes_value [OF ds(2)] d ds(1) by auto
    ultimately show ?thesis using v ds a
      by (auto simp: be_val_Cons no_leading_zero_def power_mult unat_eq_zero)
  qed
  then have "be_val (t_fromhex (t_tohex bs)) = be_val (strip_zeros bs)"
    "no_leading_zero (t_fromhex (t_tohex bs))" by simp_all
  then show ?thesis using be_val_canonical [OF _ strip_no_leading_zero] by blast
qed

section \<open>Base 64\<close>

declare push_bit_and [simp del] drop_bit_and [simp del]

text \<open>The bytes of a list of digits, least significant first on both sides.\<close>

fun b64_le :: "byte list \<Rightarrow> byte list" where
  "b64_le [] = []"
| "b64_le [d0] = [d0]"
| "b64_le [d0, d1] = [d0 OR push_bit 6 (d1 AND 3), drop_bit 2 (d1 AND 0x3c)]"
| "b64_le [d0, d1, d2] =
    [d0 OR push_bit 6 (d1 AND 3), drop_bit 2 (d1 AND 0x3c) OR push_bit 4 (d2 AND 0xf), drop_bit 4 (d2 AND 0x30)]"
| "b64_le (d0 # d1 # d2 # d3 # ds) =
    [d0 OR push_bit 6 (d1 AND 3), drop_bit 2 (d1 AND 0x3c) OR push_bit 4 (d2 AND 0xf),
     drop_bit 4 (d2 AND 0x30) OR push_bit 2 d3] @ (if ds = [] then [0] else b64_le ds)"

fun le_base64 :: "byte list \<Rightarrow> nat" where
  "le_base64 [] = 0"
| "le_base64 (d # ds) = unat d + 64 * le_base64 ds"

lemma le_base64_rev: "le_base64 (rev ds) = base_val 64 (map unat ds)"
proof -
  have "le_base64 (xs @ [x]) = le_base64 xs + 64 ^ length xs * unat x" for xs x
    by (induction xs) (auto simp: algebra_simps)
  then show ?thesis by (induction ds) simp_all
qed

lemma and_mask_byte:
  "d AND 3 = d AND mask 2" "d AND 0xf = d AND mask 4" for d :: byte
  by (simp_all add: mask_eq_exp_minus_1)

lemma drop_and_byte:
  "unat d < 64 \<Longrightarrow> drop_bit 2 (d AND 0x3c) = drop_bit 2 d"
  "unat d < 64 \<Longrightarrow> drop_bit 4 (d AND 0x30) = drop_bit 4 d" for d :: byte
proof -
  assume d: "unat d < 64"
  then have t: "d = take_bit 6 d" by (simp add: take_bit_word_small)
  show "drop_bit 2 (d AND 0x3c) = drop_bit 2 d" "drop_bit 4 (d AND 0x30) = drop_bit 4 d"
    by (rule bit_word_eqI, subst (1 2) t, auto simp: bit_simps numeral_eq_Suc less_Suc_eq)+
qed

lemma unat_pieces:
  fixes d :: byte
  assumes "unat d < 64"
  shows "unat (d AND 3) = unat d mod 4" "unat (d AND 0xf) = unat d mod 16"
    "unat (drop_bit 2 (d AND 0x3c)) = unat d div 4" "unat (drop_bit 4 (d AND 0x30)) = unat d div 16"
  using assms by (simp_all add: and_mask_byte unat_and_mask_mod drop_and_byte unat_drop_bit_div)

lemma unat_join:
  fixes d e :: byte
  assumes "unat d < 64" "unat e < 64"
  shows "unat (d OR push_bit 6 (e AND 3)) = unat d + 64 * (unat e mod 4)"
    "unat (drop_bit 2 (d AND 0x3c) OR push_bit 4 (e AND 0xf)) = unat d div 4 + 16 * (unat e mod 16)"
    "unat (drop_bit 4 (d AND 0x30) OR push_bit 2 e) = unat d div 16 + 4 * unat e"
proof -
  note p = unat_pieces [OF assms(1)] unat_pieces [OF assms(2)]
  have "unat e mod 4 < 4" "unat e mod 16 < 16" by simp_all
  then show "unat (d OR push_bit 6 (e AND 3)) = unat d + 64 * (unat e mod 4)"
    "unat (drop_bit 2 (d AND 0x3c) OR push_bit 4 (e AND 0xf)) = unat d div 4 + 16 * (unat e mod 16)"
    "unat (drop_bit 4 (d AND 0x30) OR push_bit 2 e) = unat d div 16 + 4 * unat e"
    using assms by (subst unat_or_disjoint; simp add: p)+
qed

lemma pack_four_value:
  fixes a b c d :: nat
  shows "(a + 64 * (b mod 4)) + 256 * ((b div 4 + 16 * (c mod 16)) + 256 * ((c div 16 + 4 * d) + 256 * r)) =
    a + 64 * (b + 64 * (c + 64 * (d + 64 * r)))"
proof -
  define p q where "p = b mod 4" and "q = b div 4"
  define u v where "u = c mod 16" and "v = c div 16"
  have "b = p + 4 * q" "c = u + 16 * v" by (simp_all add: p_def q_def u_def v_def)
  then show ?thesis
    unfolding p_def [symmetric] q_def [symmetric] u_def [symmetric] v_def [symmetric]
    by (simp add: distrib_left)
qed

lemma b64_le_value:
  assumes "\<forall>d \<in> set ds. unat d < 64"
  shows "le_val (b64_le ds) = le_base64 ds"
  using assms
proof (induction ds rule: b64_le.induct)
  case (3 d0 d1)
  then show ?case using pack_four_value [of "unat d0" "unat d1" 0 0 0] by (simp add: unat_join unat_pieces)
next
  case (4 d0 d1 d2)
  then show ?case using pack_four_value [of "unat d0" "unat d1" "unat d2" 0 0] by (simp add: unat_join unat_pieces)
next
  case (5 d0 d1 d2 d3 ds)
  then have "le_val (if ds = [] then [0] else b64_le ds) = le_base64 ds" by simp
  then show ?case
    using 5(2) pack_four_value [of "unat d0" "unat d1" "unat d2" "unat d3" "le_base64 ds"]
    by (simp add: unat_join unat_pieces)
qed simp_all

lemma length_b64_le: "length (b64_le ds) \<le> length ds"
  by (induction ds rule: b64_le.induct) auto

text \<open>What the packing loop leaves: the packed bytes up to the old end, the rest as it was.\<close>

definition packed :: "byte list \<Rightarrow> nat \<Rightarrow> byte list \<Rightarrow> byte list \<Rightarrow> nat \<Rightarrow> bool" where
  "packed a j L a' j' \<longleftrightarrow> length a' = length a \<and> j' + length L = Suc j \<and>
     (\<forall>k < length L. a' ! (j - k) = L ! k) \<and> (\<forall>k > j. a' ! k = a ! k)"

lemma pack_2_after:
  assumes "0 < i" "i < j" "j < length a"
  shows "pack_2 (a[j := a ! i]) (i - 1) j =
    (a[j := a ! i OR push_bit 6 (a ! (i - 1) AND 3), j - 1 := drop_bit 2 (a ! (i - 1) AND 0x3c)], j - 1)"
  using assms by (simp add: pack_2_def Let_def)

lemma pack_3_after:
  assumes "1 < i" "i < j" "j < length a"
  shows "pack_3 (a[j := x, j - 1 := y]) (i - 2) (j - 1) =
    (a[j := x, j - 1 := y OR push_bit 4 (a ! (i - 2) AND 0xf), j - 2 := drop_bit 4 (a ! (i - 2) AND 0x30)], j - 2)"
  using assms by (simp add: pack_3_def Let_def numeral_eq_Suc)

lemma pack_4_after:
  assumes "2 < i" "i < j" "j < length a"
  shows "pack_4 (a[j := x, j - 1 := y, j - 2 := z]) (i - 3) (j - 2) =
    (a[j := x, j - 1 := y, j - 2 := z OR push_bit 2 (a ! (i - 3)), j - 3 := 0], j - 3)"
  using assms by (simp add: pack_4_def Let_def numeral_eq_Suc)

lemma rev_take_nth: "0 < i \<Longrightarrow> i \<le> length a \<Longrightarrow> rev (take i a) = a ! (i - 1) # rev (take (i - 1) a)"
  by (cases i) (simp_all add: take_Suc_conv_app_nth)

lemma b64_pack_packed:
  "i < j \<Longrightarrow> j < length a \<Longrightarrow>
   packed a j (b64_le (rev (take (Suc i) a))) (fst (b64_pack a i j)) (snd (b64_pack a i j))"
proof (induction i arbitrary: a j rule: less_induct)
  case (less i)
  note ij = less.prems
  have il: "Suc i \<le> length a" using ij by simp
  have r1: "rev (take (Suc i) a) = a ! i # rev (take i a)" using rev_take_nth [of "Suc i" a] il by simp
  have r2: "rev (take i a) = a ! (i - 1) # rev (take (i - 1) a)" if "0 < i" using rev_take_nth [of i a] il that by simp
  have r3: "rev (take (i - 1) a) = a ! (i - 2) # rev (take (i - 2) a)" if "1 < i"
    using rev_take_nth [of "i - 1" a] il that by (simp add: numeral_2_eq_2)
  have r4: "rev (take (i - 2) a) = a ! (i - 3) # rev (take (i - 3) a)" if "2 < i"
    using rev_take_nth [of "i - 2" a] il that by (simp add: numeral_3_eq_3 numeral_2_eq_2)
  define b0 where "b0 = a ! i OR push_bit 6 (a ! (i - 1) AND 3)"
  define c1 where "c1 = drop_bit 2 (a ! (i - 1) AND 0x3c)"
  define b1 where "b1 = c1 OR push_bit 4 (a ! (i - 2) AND 0xf)"
  define c2 where "c2 = drop_bit 4 (a ! (i - 2) AND 0x30)"
  define b2 where "b2 = c2 OR push_bit 2 (a ! (i - 3))"
  consider "i = 0" | "i = 1" | "i = 2" | "i = 3" | "3 < i" by linarith
  then show ?case
  proof cases
    case 1
    then have "rev (take (Suc i) a) = [a ! i]" using r1 by simp
    then show ?thesis using 1 ij by (simp add: b64_pack.simps [of a] packed_def)
  next
    case 2
    have "b64_pack a i j = (a[j := b0, j - 1 := c1], j - 1)"
      using 2 ij pack_2_after [of i j a] by (simp add: b64_pack.simps [of a] b0_def c1_def)
    moreover have "b64_le (rev (take (Suc i) a)) = [b0, c1]"
      using 2 r1 r2 by (simp add: b0_def c1_def)
    ultimately show ?thesis using 2 ij by (auto simp: packed_def less_Suc_eq numeral_eq_Suc)
  next
    case 3
    have "b64_pack a i j = (a[j := b0, j - 1 := b1, j - 2 := c2], j - 2)"
      using 3 ij pack_2_after [of i j a] pack_3_after [of i j a]
      by (simp add: b64_pack.simps [of a] b0_def b1_def c1_def c2_def)
    moreover have "b64_le (rev (take (Suc i) a)) = [b0, b1, c2]"
      using 3 r1 r2 r3 by (simp add: b0_def b1_def c1_def c2_def)
    ultimately show ?thesis using 3 ij by (auto simp: packed_def less_Suc_eq numeral_eq_Suc)
  next
    case 4
    have "b64_pack a i j = (a[j := b0, j - 1 := b1, j - 2 := b2, j - 3 := 0], j - 3)"
      using 4 ij pack_2_after [of i j a] pack_3_after [of i j a] pack_4_after [of i j a]
      by (simp add: b64_pack.simps [of a] b0_def b1_def b2_def c1_def c2_def)
    moreover have "b64_le (rev (take (Suc i) a)) = [b0, b1, b2, 0]"
      using 4 r1 r2 r3 r4 by (simp add: b0_def b1_def b2_def c1_def c2_def)
    ultimately show ?thesis using 4 ij by (auto simp: packed_def less_Suc_eq numeral_eq_Suc)
  next
    case 5
    define a' where "a' = a[j := b0, j - 1 := b1, j - 2 := b2, j - 3 := 0]"
    have st: "b64_pack a i j = b64_pack a' (i - 4) (j - 3)"
      using 5 ij pack_2_after [of i j a] pack_3_after [of i j a] pack_4_after [of i j a]
      by (simp add: b64_pack.simps [of a] a'_def b0_def b1_def b2_def c1_def c2_def)
    define L where "L = b64_le (rev (take (i - 3) a))"
    have t: "take (Suc (i - 4)) a' = take (i - 3) a"
      using 5 ij by (simp add: a'_def) (simp add: numeral_eq_Suc Suc_diff_Suc)
    have IH: "packed a' (j - 3) L (fst (b64_pack a i j)) (snd (b64_pack a i j))"
      using less.IH [of "i - 4" "j - 3" a'] 5 ij unfolding st t L_def by (simp add: a'_def)
    have ne: "rev (take (i - 3) a) \<noteq> []" using 5 ij by auto
    have "b64_le (rev (take (Suc i) a)) = b0 # b1 # b2 # L"
      using 5 r1 r2 r3 r4 ne by (simp add: b0_def b1_def b2_def c1_def c2_def L_def)
    moreover have "packed a j (b0 # b1 # b2 # L) (fst (b64_pack a i j)) (snd (b64_pack a i j))"
      unfolding packed_def
    proof (intro conjI allI impI)
      define p where "p = fst (b64_pack a i j)"
      have p: "length p = length a" "snd (b64_pack a i j) + length L = Suc (j - 3)"
        "\<And>k. k < length L \<Longrightarrow> p ! (j - 3 - k) = L ! k" "\<And>k. k > j - 3 \<Longrightarrow> p ! k = a' ! k"
        using IH by (auto simp: packed_def p_def a'_def)
      show "length (fst (b64_pack a i j)) = length a" using p(1) by (simp add: p_def)
      show "snd (b64_pack a i j) + length (b0 # b1 # b2 # L) = Suc j" using p(2) 5 ij by simp
      show "fst (b64_pack a i j) ! k = a ! k" if "k > j" for k
        using p(4) [of k] that 5 ij by (simp add: p_def [symmetric] a'_def)
      show "fst (b64_pack a i j) ! (j - k) = (b0 # b1 # b2 # L) ! k" if k: "k < length (b0 # b1 # b2 # L)" for k
      proof -
        consider "k = 0" | "k = 1" | "k = 2" | m where "k = Suc (Suc (Suc m))"
          by (metis One_nat_def Suc_1 not0_implies_Suc)
        then show ?thesis
        proof cases
          case (4 m)
          then have "p ! (j - 3 - m) = L ! m" using p(3) k by simp
          moreover have "j - k = j - 3 - m" using 4 by simp
          ultimately show ?thesis using 4 by (simp add: p_def)
        qed (use p(4) [of j] p(4) [of "j - 1"] p(4) [of "j - 2"] 5 ij in \<open>simp_all add: p_def [symmetric] a'_def\<close>)
      qed
    qed
    ultimately show ?thesis by simp
  qed
qed

lemma buffer_copy_front: "length ds \<le> length a \<Longrightarrow> buffer_copy a 0 ds = ds @ drop (length ds) a"
  using buffer_copy_at [of 0 ds a] by simp

lemma packed_segment:
  assumes "packed a j L a' j'" "j < length a"
  shows "drop j' (take (Suc j) a') = rev L"
proof (rule nth_equalityI)
  show l: "length (drop j' (take (Suc j) a')) = length (rev L)" using assms by (auto simp: packed_def)
  show "drop j' (take (Suc j) a') ! k = rev L ! k" if "k < length (drop j' (take (Suc j) a'))" for k
  proof -
    have k: "k < length L" using that l by simp
    have "length L - Suc k < length L" using k by simp
    then have "a' ! (j - (length L - Suc k)) = L ! (length L - Suc k)" using assms unfolding packed_def by blast
    moreover have "j - (length L - Suc k) = j' + k" using assms k by (auto simp: packed_def)
    ultimately show ?thesis using assms k that by (simp add: rev_nth packed_def)
  qed
qed

lemma b64_skip_found:
  assumes "j + length (takeWhile ((=) 0) (drop j (take (Suc sz) a))) \<le> sz" "sz < length a" "j \<le> sz"
  shows "\<exists>j'. b64_skip a sz j = Some j' \<and> j' \<le> sz \<and> drop j' (take (Suc sz) a) = strip_zeros (drop j (take (Suc sz) a))"
  using assms
proof (induction "sz - j" arbitrary: j)
  case 0
  then have j: "j = sz" "j < length a" by auto
  then have d: "drop j (take (Suc sz) a) = [a ! j]" by (simp add: take_Suc_conv_app_nth)
  then have "a ! j \<noteq> 0" using 0 j by (auto split: if_splits)
  then show ?case using j d by (simp add: b64_skip.simps [of a] strip_zeros_def)
next
  case (Suc n)
  have d: "drop j (take (Suc sz) a) = a ! j # drop (Suc j) (take (Suc sz) a)"
    using Suc.hyps(2) Suc.prems by (simp add: Cons_nth_drop_Suc [symmetric])
  show ?case
  proof (cases "a ! j = 0")
    case True
    have "\<exists>j'. b64_skip a sz (Suc j) = Some j' \<and> j' \<le> sz \<and>
        drop j' (take (Suc sz) a) = strip_zeros (drop (Suc j) (take (Suc sz) a))"
      using Suc.hyps(2) Suc.prems True d by (intro Suc.hyps(1)) auto
    then show ?thesis using True d Suc.prems by (simp add: b64_skip.simps [of a sz j] strip_zeros_def)
  next
    case False
    then show ?thesis using d Suc.prems by (simp add: b64_skip.simps [of a sz j] strip_zeros_def)
  qed
qed

lemma be_val_0_iff_all: "be_val bs = 0 \<longleftrightarrow> (\<forall>b \<in> set bs. b = 0)"
  using be_val_zero_iff [of bs] by (auto simp: strip_zeros_def dropWhile_eq_Nil_conv)

lemma t_fromb64_value:
  fixes src :: "byte list"
  defines "s \<equiv> skip_blanks src"
  defines "ds \<equiv> b64_digits s"
  assumes mem: "mem (length s + 1) = Some a" "length a = length s + 1"
    and digits: "\<forall>d \<in> set ds. unat d < 64" "length ds \<le> length s"
    and v: "base_val 64 (map unat ds) \<noteq> 0"
  obtains bytes where "t_fromb64 mem src = Some (bytes, int (length bytes))"
    "be_val bytes = base_val 64 (map unat ds)" "no_leading_zero bytes"
proof -
  define n where "n = length ds"
  define A where "A = buffer_copy a 0 ds"
  have A: "A = ds @ drop n a" "length A = length s + 1"
    using mem digits by (simp_all add: A_def n_def buffer_copy_front)
  have n: "0 < n" "n < length A" using v digits A by (auto simp: n_def)
  obtain A' j where p: "b64_pack A (n - 1) n = (A', j)" by fastforce
  have t: "take (Suc (n - 1)) A = ds" using n A by (simp add: n_def)
  have P: "packed A n (b64_le (rev ds)) A' j" using b64_pack_packed [of "n - 1" n A] n t p by simp
  have seg: "drop j (take (Suc n) A') = rev (b64_le (rev ds))" by (rule packed_segment [OF P n(2)])
  have lA: "length A' = length A" using P by (simp add: packed_def)
  have "b64_le (rev ds) \<noteq> []" using n by (cases "rev ds" rule: b64_le.cases) (auto simp: n_def)
  then have jn: "j \<le> n" using P by (cases "b64_le (rev ds)") (auto simp: packed_def)
  have bv: "be_val (drop j (take (Suc n) A')) = base_val 64 (map unat ds)"
    using b64_le_value [of "rev ds"] digits by (simp add: seg be_val_def le_base64_rev)
  have "\<exists>b \<in> set (drop j (take (Suc n) A')). b \<noteq> 0" using bv v be_val_0_iff_all by metis
  then have "length (takeWhile ((=) 0) (drop j (take (Suc n) A'))) < length (drop j (take (Suc n) A'))"
    by (metis (mono_tags, lifting) length_takeWhile_le nat_less_le takeWhile_eq_all_conv takeWhile_eq_take take_all_iff)
  then have "j + length (takeWhile ((=) 0) (drop j (take (Suc n) A'))) \<le> n" using jn lA n by simp
  then obtain j' where j': "b64_skip A' n j = Some j'" "j' \<le> n"
    "drop j' (take (Suc n) A') = strip_zeros (drop j (take (Suc n) A'))"
    using b64_skip_found [of j n A'] lA n jn by auto
  define bytes where "bytes = drop j' (take (Suc n) A')"
  have bl: "int (length bytes) = int n - int j' + 1" using j'(2) lA n by (simp add: bytes_def)
  have bt: "take (n - j' + 1) (drop j' A') = bytes" using j'(2) by (simp add: bytes_def drop_take Suc_diff_le)
  have "ds \<noteq> []" using n(1) by (auto simp: n_def)
  then have "t_fromb64 mem src = Some (bytes, int (length bytes))"
    using mem n p j'(1) bt bl
    by (simp add: t_fromb64_def Let_def s_def [symmetric] ds_def [symmetric] n_def [symmetric] A_def [symmetric])
  moreover have "be_val bytes = base_val 64 (map unat ds)" "no_leading_zero bytes"
    using bv j'(3) by (simp_all add: bytes_def strip_no_leading_zero)
  ultimately show thesis by (rule that)
qed

section \<open>The other direction\<close>

definition b64_groups :: "byte \<Rightarrow> byte \<Rightarrow> byte \<Rightarrow> nat list" where
  "b64_groups b0 b1 b2 = [unat b0 div 4, unat b0 mod 4 * 16 + unat b1 div 16, unat b1 mod 16 * 4 + unat b2 div 64, unat b2 mod 64]"

fun b64_all :: "byte \<Rightarrow> byte \<Rightarrow> byte \<Rightarrow> byte list \<Rightarrow> nat list" where
  "b64_all b0 b1 b2 (x # y # z # src) = b64_groups b0 b1 b2 @ b64_all x y z src"
| "b64_all b0 b1 b2 src = b64_groups b0 b1 b2"

lemma digit_pieces:
  fixes b c :: byte
  shows "unat (drop_bit 2 (b AND 0xfc)) = unat b div 4"
    "unat (push_bit 4 (b AND 3) OR drop_bit 4 (c AND 0xf0)) = unat b mod 4 * 16 + unat c div 16"
    "unat (push_bit 2 (b AND 0xf) OR drop_bit 6 (c AND 0xc0)) = unat b mod 16 * 4 + unat c div 64"
    "unat (b AND 0x3f) = unat b mod 64"
proof -
  have m: "drop_bit 2 (b AND 0xfc) = drop_bit 2 b" "drop_bit 4 (c AND 0xf0) = drop_bit 4 c"
    "drop_bit 6 (c AND 0xc0) = drop_bit 6 c"
    by (rule bit_word_eqI, auto simp: bit_simps numeral_eq_Suc less_Suc_eq dest: bit_imp_le_length)+
  have k: "b AND 0x3f = b AND mask 6" by (simp add: mask_eq_exp_minus_1)
  have p: "unat (b AND 3) = unat b mod 4" "unat (b AND 0xf) = unat b mod 16"
    by (simp_all add: and_mask_byte unat_and_mask_mod)
  have b: "unat b < 256" "unat c < 256" by (rule unat_byte_less)+
  have b': "unat b mod 4 < 4" "unat b mod 16 < 16" "unat c div 16 < 16" "unat c div 64 < 4"
    using b by (simp_all add: less_mult_imp_div_less)
  show "unat (drop_bit 2 (b AND 0xfc)) = unat b div 4" by (simp add: m unat_drop_bit_div)
  show "unat (b AND 0x3f) = unat b mod 64" by (simp add: k unat_and_mask_mod)
  have "unat (drop_bit 4 c OR push_bit 4 (b AND 3)) = unat c div 16 + unat b mod 4 * 16"
    using b' by (subst unat_or_disjoint; simp add: p unat_drop_bit_div)
  then show "unat (push_bit 4 (b AND 3) OR drop_bit 4 (c AND 0xf0)) = unat b mod 4 * 16 + unat c div 16"
    by (simp only: m or.commute [of "push_bit 4 _"] add.commute [of "unat c div 16"])
  have "unat (drop_bit 6 c OR push_bit 2 (b AND 0xf)) = unat c div 64 + unat b mod 16 * 4"
    using b' by (subst unat_or_disjoint; simp add: p unat_drop_bit_div)
  then show "unat (push_bit 2 (b AND 0xf) OR drop_bit 6 (c AND 0xc0)) = unat b mod 16 * 4 + unat c div 64"
    by (simp only: m or.commute [of "push_bit 2 _"] add.commute [of "unat c div 64"])
qed

definition digits_out :: "nat list \<Rightarrow> byte list \<times> bool \<Rightarrow> byte list \<times> bool" where
  "digits_out ds s = (fst s @ map (\<lambda>d. b64table ! d) (if snd s then ds else strip_zeros ds), snd s \<or> strip_zeros ds \<noteq> [])"

lemma digits_out_append: "digits_out (xs @ ys) s = digits_out ys (digits_out xs s)"
proof -
  have "strip_zeros (xs @ ys) = (if strip_zeros xs = [] then strip_zeros ys else strip_zeros xs @ ys)"
    by (induction xs) (auto simp: strip_zeros_def)
  then show ?thesis by (simp add: digits_out_def)
qed

lemma tob64_digit_out: "tob64_digit d s = digits_out [d] s"
  by (cases "d = 0") (auto simp: tob64_digit_def digits_out_def split: prod.split)

lemma tob64_group_out: "tob64_group b0 b1 b2 s = digits_out (b64_groups b0 b1 b2) s"
  by (simp add: tob64_group_def b64_groups_def digit_pieces tob64_digit_out Let_def
      digits_out_append [symmetric])

lemma tob64_loop_out: "tob64_loop b0 b1 b2 src s = fst (digits_out (b64_all b0 b1 b2 src) s)"
  by (induction b0 b1 b2 src s rule: tob64_loop.induct) (simp_all add: tob64_group_out digits_out_append)

lemma group_value:
  fixes a b c X :: nat
  shows "a div 4 * (64 * (64 * (64 * X))) + (a mod 4 * 16 + b div 16) * (64 * (64 * X)) +
      (b mod 16 * 4 + c div 64) * (64 * X) + c mod 64 * X = ((a * 256 + b) * 256 + c) * X"
proof -
  define p q where "p = a mod 4" and "q = a div 4"
  define r s where "r = b mod 16" and "s = b div 16"
  define u v where "u = c mod 64" and "v = c div 64"
  have "a = p + 4 * q" "b = r + 16 * s" "c = u + 64 * v" by (simp_all add: p_def q_def r_def s_def u_def v_def)
  then show ?thesis
    unfolding p_def [symmetric] q_def [symmetric] r_def [symmetric] s_def [symmetric] u_def [symmetric] v_def [symmetric]
    by (simp add: algebra_simps)
qed

lemma b64_last_value:
  "base_val 64 (b64_groups b0 b1 b2) = be_val [b0, b1, b2]" "length (b64_groups b0 b1 b2) = 4"
  using group_value [of "unat b0" 1 "unat b1" "unat b2"] by (simp_all add: b64_groups_def be_val_Cons algebra_simps)

lemma b64_all_value:
  "length src mod 3 = 0 \<Longrightarrow> base_val 64 (b64_all b0 b1 b2 src) = be_val (b0 # b1 # b2 # src) \<and>
   (64 :: nat) ^ length (b64_all b0 b1 b2 src) = 256 ^ (3 + length src)"
proof (induction b0 b1 b2 src rule: b64_all.induct)
  case (1 b0 b1 b2 x y z src)
  define X :: nat where "X = 64 ^ length (b64_all x y z src)"
  have IH: "base_val 64 (b64_all x y z src) = be_val (x # y # z # src)" "X = 256 ^ (3 + length src)"
    using 1 by (simp_all add: X_def)
  have "base_val 64 (b64_all b0 b1 b2 (x # y # z # src)) =
      ((unat b0 * 256 + unat b1) * 256 + unat b2) * X + be_val (x # y # z # src)"
    using group_value [of "unat b0" X "unat b1" "unat b2"] IH(1)
    by (simp add: b64_groups_def X_def [symmetric] power_add mult.assoc del: be_val_Cons)
  also have "\<dots> = be_val (b0 # b1 # b2 # x # y # z # src)"
    using IH(2) by (simp add: be_val_Cons algebra_simps power_add)
  moreover have "(64 :: nat) ^ 4 * X = 256 ^ (3 + length (x # y # z # src))" using IH(2) by (simp add: power_add)
  ultimately show ?case by (simp add: b64_groups_def X_def [symmetric])
qed (simp_all add: b64_last_value)

lemma b64_groups_less: "d \<in> set (b64_groups b0 b1 b2) \<Longrightarrow> d < 64"
proof -
  have "unat b0 < 256" "unat b1 < 256" "unat b2 < 256" by (rule unat_byte_less)+
  then have "unat b0 div 4 < 64" "unat b1 div 16 < 16" "unat b2 div 64 < 4"
    by (simp_all add: less_mult_imp_div_less)
  moreover have "unat b0 mod 4 < 4" "unat b1 mod 16 < 16" by simp_all
  ultimately show "d \<in> set (b64_groups b0 b1 b2) \<Longrightarrow> d < 64" by (auto simp: b64_groups_def)
qed

lemma b64_all_less: "d \<in> set (b64_all b0 b1 b2 src) \<Longrightarrow> d < 64"
  by (induction b0 b1 b2 src rule: b64_all.induct) (auto dest: b64_groups_less)

lemma t_tob64_digits:
  obtains F where "t_tob64 src = map (\<lambda>d. b64table ! d) (strip_zeros F)" "\<forall>d \<in> set F. d < 64"
    "base_val 64 F = be_val src"
proof -
  define pos where "pos = length src mod 3"
  define b1 where "b1 = (if pos = 2 then src ! 0 else 0)"
  define b2 where "b2 = (if pos = 1 then src ! 0 else if pos = 2 then src ! 1 else 0)"
  define F where "F = b64_all 0 b1 b2 (drop pos src)"
  have pl: "pos \<le> length src" "pos < 3" by (simp_all add: pos_def)
  have "length (drop pos src) = 3 * (length src div 3)" using minus_mod_eq_mult_div [of "length src" 3] by (simp add: pos_def)
  then have "base_val 64 F = be_val (0 # b1 # b2 # drop pos src)" using b64_all_value [of "drop pos src"] by (simp add: F_def)
  also have "\<dots> = be_val src"
  proof -
    consider "pos = 0" | "pos = 1" | "pos = 2" using pl(2) by linarith
    then show ?thesis
    proof cases
      case 2
      then show ?thesis using pl(1) by (cases src) (simp_all add: b1_def b2_def be_val_Cons)
    next
      case 3
      then obtain x y r where "src = x # y # r" using pl(1) by (cases src; cases "tl src") auto
      then show ?thesis using 3 by (simp add: b1_def b2_def be_val_Cons)
    qed (simp add: b1_def b2_def be_val_Cons)
  qed
  finally have "base_val 64 F = be_val src" .
  moreover have "t_tob64 src = map (\<lambda>d. b64table ! d) (strip_zeros F)"
    by (simp add: t_tob64_def Let_def tob64_loop_out digits_out_def F_def b1_def b2_def pos_def)
  moreover have "\<forall>d \<in> set F. d < 64" using b64_all_less by (auto simp: F_def)
  ultimately show thesis by (intro that)
qed

lemma b64table_facts:
  "distinct b64table" "length b64table = 64" "\<forall>c \<in> set b64table. c \<noteq> 32 \<and> c \<noteq> 9 \<and> c \<noteq> 10 \<and> c \<noteq> 0"
  by code_simp+

lemma takeWhile_distinct_nth: "distinct xs \<Longrightarrow> k < length xs \<Longrightarrow> takeWhile (\<lambda>x. x \<noteq> xs ! k) xs = take k xs"
  by (rule takeWhile_eq_take_P_nth) (auto simp: nth_eq_iff_index_eq)

lemma b64_index_nth: "d < 64 \<Longrightarrow> b64_index (b64table ! d) = Some d"
  using b64table_facts(1,2) by (simp add: b64_index_def takeWhile_distinct_nth)

lemma b64_index_less: "b64_index c = Some d \<Longrightarrow> d < 64"
  by (auto simp: b64_index_def Let_def split: if_splits)

lemma b64_digits_map:
  "\<forall>d \<in> set ds. d < 64 \<Longrightarrow> b64_digits (map (\<lambda>d. b64table ! d) ds @ rest) = map of_nat ds @ b64_digits rest"
  by (induction ds) (simp_all add: b64_index_nth)

lemma skip_blanks_text:
  assumes "\<forall>d \<in> set ds. d < 64" "ds \<noteq> []" "\<forall>c \<in> set blanks. c = 32 \<or> c = 9 \<or> c = 10"
  shows "skip_blanks (blanks @ map (\<lambda>d. b64table ! d) ds @ rest) = map (\<lambda>d. b64table ! d) ds @ rest"
  using assms(3)
proof (induction blanks)
  case Nil
  obtain d r where d: "ds = d # r" using assms(2) by (cases ds) auto
  then have "b64table ! d \<in> set b64table" using assms(1) b64table_facts(2) by simp
  then show ?case using d b64table_facts(3) by auto
qed auto

lemma unat_small_digits: "\<forall>d \<in> set ds. d < 64 \<Longrightarrow> map unat (map of_nat ds :: byte list) = ds"
  by (induction ds) (simp_all add: unat_of_nat)

lemma t_fromb64_text:
  assumes F: "\<forall>d \<in> set F. d < 64" "base_val 64 F \<noteq> 0"
    and mem: "\<And>n. \<exists>a. mem n = Some a \<and> length a = n"
    and blanks: "\<forall>c \<in> set blanks. c = 32 \<or> c = 9 \<or> c = 10"
    and rest: "b64_digits rest = []"
  obtains bytes where
    "t_fromb64 mem (blanks @ map (\<lambda>d. b64table ! d) (strip_zeros F) @ rest) = Some (bytes, int (length bytes))"
    "be_val bytes = base_val 64 F" "no_leading_zero bytes"
proof -
  define ds where "ds = strip_zeros F"
  define txts where "txts = map (\<lambda>d. b64table ! d) ds @ rest"
  have d: "\<forall>d \<in> set ds. d < 64" using F(1) set_dropWhileD by (fastforce simp: ds_def strip_zeros_def)
  have v: "base_val 64 ds = base_val 64 F" by (simp add: ds_def)
  then have ne: "ds \<noteq> []" using F(2) by auto
  have sk: "skip_blanks (blanks @ txts) = txts" unfolding txts_def by (rule skip_blanks_text [OF d ne blanks])
  have dg: "b64_digits txts = map of_nat ds" using d rest by (simp add: txts_def b64_digits_map)
  obtain a where a: "mem (length txts + 1) = Some a" "length a = length txts + 1" using mem by blast
  have l: "length (b64_digits txts) \<le> length txts" unfolding dg by (simp add: txts_def)
  have u: "map unat (b64_digits txts) = ds" unfolding dg by (rule unat_small_digits [OF d])
  have lt: "\<forall>d \<in> set (b64_digits txts). unat d < 64" using d u by (metis in_set_conv_nth length_map nth_map)
  obtain bytes where "t_fromb64 mem (blanks @ txts) = Some (bytes, int (length bytes))"
    "be_val bytes = base_val 64 F" "no_leading_zero bytes"
    using t_fromb64_value [of mem "blanks @ txts" a] a lt l F(2) v unfolding sk u by auto
  then show thesis by (intro that) (simp_all add: txts_def ds_def)
qed

lemma b64_skip_none:
  assumes "\<forall>d \<in> set (drop j a). d = 0" "j \<le> length a" "length a \<le> Suc sz"
  shows "b64_skip a sz j = None"
  using assms
proof (induction "length a - j" arbitrary: j)
  case 0
  then show ?case by (simp add: b64_skip.simps [of a])
next
  case (Suc n)
  then have d: "drop j a = a ! j # drop (Suc j) a" by (simp add: Cons_nth_drop_Suc)
  have "b64_skip a sz (Suc j) = None" using Suc.prems Suc.hyps(2) d by (intro Suc.hyps(1)) auto
  then show ?case using d Suc.prems Suc.hyps(2) by (simp add: b64_skip.simps [of a sz j])
qed

lemma t_fromb64_zeros:
  assumes mem: "\<And>n. \<exists>a. mem n = Some a \<and> length a = n"
  shows "t_fromb64 mem (replicate k 48) = None"
proof -
  have b0: "b64table ! 0 = 48" by code_simp
  have zs: "replicate k 48 = map (\<lambda>d. b64table ! d) (replicate k 0)" by (simp add: b0)
  have dg: "b64_digits (replicate k 48) = replicate k 0"
    using b64_digits_map [of "replicate k 0" "[]"] by (simp add: zs)
  have sk: "skip_blanks (replicate k 48) = replicate k 48" by (cases k) simp_all
  obtain a where a: "mem (k + 1) = Some a" "length a = k + 1" using mem by blast
  show ?thesis
  proof (cases k)
    case 0
    then show ?thesis using a by (simp add: t_fromb64_def)
  next
    case (Suc m)
    define A where "A = buffer_copy a 0 (replicate k (0 :: byte))"
    have A: "length A = Suc k" "take (Suc (k - 1)) A = replicate k 0"
      using a Suc unfolding A_def by (subst buffer_copy_front; simp)+
    obtain A' j where p: "b64_pack A (k - 1) k = (A', j)" by fastforce
    have P: "packed A k (b64_le (replicate k 0)) A' j"
      using b64_pack_packed [of "k - 1" k A] A Suc p by (simp add: replicate_append_same)
    then have seg: "drop j A' = rev (b64_le (replicate k 0))" and l: "length A' = Suc k"
      using packed_segment [OF P] A by (simp_all add: packed_def)
    have "be_val (drop j A') = le_base64 (replicate k 0)"
      using b64_le_value [of "replicate k 0"] by (simp add: seg be_val_def)
    also have "\<dots> = 0" by (induction k) simp_all
    finally have z: "\<forall>d \<in> set (drop j A'). d = 0" using be_val_0_iff_all by blast
    have "j \<le> length A'" using P l by (auto simp: packed_def)
    then have "b64_skip A' k j = None" using b64_skip_none [OF z] l by simp
    moreover have "0 < k" using Suc by simp
    ultimately show ?thesis using a p
      by (simp add: t_fromb64_def sk dg A_def Let_def del: replicate_Suc)
  qed
qed

lemma b64_roundtrip_lemma:
  assumes "be_val bs \<noteq> 0" "\<And>n. \<exists>a. mem n = Some a \<and> length a = n"
    "\<forall>c \<in> set blanks. c = 32 \<or> c = 9 \<or> c = 10" "b64_digits rest = []"
  shows "t_fromb64 mem (blanks @ t_tob64 bs @ rest) = Some (strip_zeros bs, int (length (strip_zeros bs)))"
proof -
  obtain F where F: "t_tob64 bs = map (\<lambda>d. b64table ! d) (strip_zeros F)" "\<forall>d \<in> set F. d < 64"
    "base_val 64 F = be_val bs" by (rule t_tob64_digits)
  then obtain bytes where b: "t_fromb64 mem (blanks @ t_tob64 bs @ rest) = Some (bytes, int (length bytes))"
    "be_val bytes = be_val bs" "no_leading_zero bytes"
    using t_fromb64_text [of F mem blanks rest] assms by auto
  then have "bytes = strip_zeros bs" using be_val_canonical strip_no_leading_zero by (metis be_val_strip)
  then show ?thesis using b(1) by simp
qed

section \<open>Properties\<close>

text \<open>Reading the hexadecimal text that \<open>t_tohex\<close> writes gives the bytes back without their leading
  zeros: texts of odd and even length and the empty one included.\<close>

theorem hex_roundtrip: "t_fromhex (t_tohex bs) = strip_zeros bs"
  by (rule fromhex_tohex)

text \<open>Reading a base-64 text that \<open>t_tob64\<close> wrote, with any blanks before it and any text after it
  that starts with no digit, gives the bytes back without their leading zeros, and returns their
  number, when they are not all zero: the in-place packing never reads a digit it has overwritten.\<close>

theorem b64_roundtrip:
  assumes "be_val bs \<noteq> 0" "\<And>n. \<exists>a. mem n = Some a \<and> length a = n"
    "\<forall>c \<in> set blanks. c = 32 \<or> c = 9 \<or> c = 10" "b64_digits rest = []"
  shows "t_fromb64 mem (blanks @ t_tob64 bs @ rest) = Some (strip_zeros bs, int (length (strip_zeros bs)))"
  by (rule b64_roundtrip_lemma [OF assms])

theorem b64_roundtrip_witness:
  "t_fromb64 (\<lambda>n. Some (replicate n 0xAA)) ([32] @ t_tob64 [0, 1, 2, 0xff] @ [10]) = Some ([1, 2, 0xff], 3)"
proof -
  have m: "\<And>n. \<exists>a. (\<lambda>n. Some (replicate n (0xAA :: byte))) n = Some a \<and> length a = n" by simp
  have d: "b64_digits [10] = []" by code_simp
  show ?thesis using b64_roundtrip [of "[0, 1, 2, 0xff]", OF _ m _ d, of "[32]"]
    by (simp add: be_val_Cons)
qed

text \<open>Bytes that are all zero (the empty string included) are written as the empty text, which
  \<open>t_fromb64\<close> cannot read: on a text of no digits, and on one of zero digits only, it reads
  outside its array.\<close>

theorem b64_zero_unreadable:
  assumes "\<And>n. \<exists>a. mem n = Some a \<and> length a = n" "be_val bs = 0"
  shows "t_tob64 bs = [] \<and> t_fromb64 mem (t_tob64 bs) = None \<and> t_fromb64 mem (replicate k 48) = None"
proof -
  obtain F where "t_tob64 bs = map (\<lambda>d. b64table ! d) (strip_zeros F)" "base_val 64 F = be_val bs"
    by (rule t_tob64_digits)
  then have "t_tob64 bs = []" using assms(2) strip_empty_iff [of 64 F] by simp
  then show ?thesis using t_fromb64_zeros [OF assms(1), of 0] t_fromb64_zeros [OF assms(1)] by simp
qed

theorem b64_zero_unreadable_witness:
  "t_tob64 [0, 0] = [] \<and> t_fromb64 (\<lambda>n. Some (replicate n 0xAA)) (t_tob64 [0, 0]) = None \<and>
   t_fromb64 (\<lambda>n. Some (replicate n 0xAA)) (replicate 3 48) = None"
  by (rule b64_zero_unreadable) (simp_all add: be_val_Cons)

lemma set_length_total:
  assumes "cstr_wf str" "\<And>n. \<exists>t. mem n = Some t \<and> length t = nat n" "0 \<le> len"
  obtains str' r where "cstr_set_length mem str len = (str', r)" "cstr_wf str'" "c_length str' = len"
    "len < int (length (c_data str'))"
proof -
  have g: "good_mem mem" unfolding good_mem_def using assms(2) by (metis option.inject)
  obtain str' r where s: "cstr_set_length mem str len = (str', r)" by fastforce
  have tot: "\<not> snd (cstr_alloc mem str n) < 0" for n
    using assms(2) by (auto simp: cstr_alloc_def Let_def split: option.splits) (metis option.distinct(1))+
  have l: "c_length str' = len"
    using s tot [of "len + 1"] by (cases "cstr_alloc mem str (len + 1)") (auto simp: cstr_set_length_def split: if_splits)
  have w: "cstr_wf str'" using cstr_set_length_result [OF assms(1) g assms(3) s] by auto
  have "len < int (length (c_data str'))" using l w by (auto simp: cstr_wf_def cstr_empty_string_def)
  then show thesis using s l w that by blast
qed

lemma write_data_fits:
  "length s \<le> length (c_data str) \<Longrightarrow>
   write_data str s = Some (str\<lparr>c_data := s @ drop (length s) (c_data str)\<rparr>)"
  using buffer_copy_at [of 0 s "c_data str"] by (simp add: write_data_def)

lemma length_strip_le: "length (strip_zeros ds) \<le> length ds"
  by (simp add: strip_zeros_def length_dropWhile_le)

lemma digits_bound:
  assumes "no_leading_zero ds" "base_val (2 ^ p) ds < 2 ^ (q * n)" "0 < p"
  shows "p * length ds < q * n + p"
proof (cases ds)
  case (Cons d r)
  have "(2 ^ p) ^ length r \<le> base_val (2 ^ p) ds" using base_val_lower [of d r "2 ^ p"] assms(1) Cons by simp
  then have "(2 :: nat) ^ (p * length r) < 2 ^ (q * n)" using assms(2) by (simp add: power_mult)
  then have "p * length r < q * n" by simp
  then show ?thesis using Cons by simp
qed (use assms in simp)

lemma be_val_bound: "be_val bs < 2 ^ (8 * length bs)"
  using base_val_less [of "map unat bs" 256] unat_byte_less by (auto simp: be_val_base power_mult)

lemma length_t_tob64: "length (t_tob64 bs) \<le> (length bs * 8 + 5) div 6"
proof -
  obtain F where F: "t_tob64 bs = map (\<lambda>d. b64table ! d) (strip_zeros F)" "base_val 64 F = be_val bs"
    by (rule t_tob64_digits)
  have "6 * length (strip_zeros F) < 8 * length bs + 6"
    using digits_bound [of "strip_zeros F" 6 8 "length bs"] F(2) be_val_bound [of bs] strip_no_leading_zero [of F] by simp
  then show ?thesis by (simp add: F(1))
qed

lemma length_strip_bytes:
  assumes "be_val bs < 64 ^ n"
  shows "length (strip_zeros bs) \<le> (n * 6 + 7) div 8"
proof -
  have "(64 :: nat) ^ n = 2 ^ (6 * n)" by (simp add: power_mult)
  then have "8 * length (strip_zeros (map unat bs)) < 6 * n + 8"
    using digits_bound [of "strip_zeros (map unat bs)" 8 6 n] assms strip_no_leading_zero [of "map unat bs"]
    by (simp add: be_val_base)
  then show ?thesis by (simp add: strip_map_unat)
qed

text \<open>The buffers that the counted-string versions reserve are large enough: with an allocator that
  does not fail, \<open>t_tohexcstr\<close> and \<open>t_tob64cstr\<close> leave the whole text and its terminator in the string,
  and \<open>t_cstrfromb64\<close> reads it back: the value of the string is then the bytes without their
  leading zeros.\<close>

theorem conv_cstr_fits:
  assumes "cstr_wf dst" "cstr_wf dst2" "\<And>n. \<exists>t. mem n = Some t \<and> length t = nat n"
    "\<And>n. \<exists>a. heap n = Some a \<and> length a = n"
  shows "(\<exists>d. t_tohexcstr mem dst bs = Some d \<and> take (Suc (length (t_tohex bs))) (c_data d) = t_tohex bs @ [0]) \<and>
    (\<exists>d. t_tob64cstr mem dst bs = Some d \<and> take (Suc (length (t_tob64 bs))) (c_data d) = t_tob64 bs @ [0]) \<and>
    (be_val bs \<noteq> 0 \<longrightarrow>
     (\<exists>d. t_cstrfromb64 heap mem dst2 (t_tob64 bs) = Some (d, int (length (strip_zeros bs))) \<and>
       cstr_wf d \<and> cstr_value d = strip_zeros bs))"
proof (intro conjI impI)
  show "\<exists>d. t_tohexcstr mem dst bs = Some d \<and> take (Suc (length (t_tohex bs))) (c_data d) = t_tohex bs @ [0]"
  proof -
    obtain d r where d: "cstr_set_length mem dst (2 * int (length bs) + 1) = (d, r)"
      "2 * int (length bs) + 1 < int (length (c_data d))"
      by (rule set_length_total [OF assms(1,3), of "2 * int (length bs) + 1"]) auto
    have "length (t_tohex bs @ [0]) \<le> length (c_data d)"
      using d(2) length_strip_le [of "hex_digits bs"] by (simp add: t_tohex_digits)
    then show ?thesis using d(1) by (simp add: t_tohexcstr_def write_data_fits)
  qed
  show "\<exists>d. t_tob64cstr mem dst bs = Some d \<and> take (Suc (length (t_tob64 bs))) (c_data d) = t_tob64 bs @ [0]"
  proof -
    obtain d r where d: "cstr_set_length mem dst (int ((length bs * 8 + 5) div 6) + 1) = (d, r)"
      "int ((length bs * 8 + 5) div 6) + 1 < int (length (c_data d))"
      by (rule set_length_total [OF assms(1,3), of "int ((length bs * 8 + 5) div 6) + 1"]) auto
    have "length (t_tob64 bs @ [0]) \<le> length (c_data d)"
      using d(2) length_t_tob64 [of bs] by simp
    then show ?thesis using d(1) by (simp add: t_tob64cstr_def write_data_fits)
  qed
  show "\<exists>d. t_cstrfromb64 heap mem dst2 (t_tob64 bs) = Some (d, int (length (strip_zeros bs))) \<and>
       cstr_wf d \<and> cstr_value d = strip_zeros bs" if nz: "be_val bs \<noteq> 0"
  proof -
    define n where "n = (length (t_tob64 bs) * 6 + 7) div 8"
    obtain F where F: "t_tob64 bs = map (\<lambda>d. b64table ! d) (strip_zeros F)" "\<forall>d \<in> set F. d < 64" "base_val 64 F = be_val bs"
      by (rule t_tob64_digits)
    have fb: "t_fromb64 heap (t_tob64 bs) = Some (strip_zeros bs, int (length (strip_zeros bs)))"
      using b64_roundtrip_lemma [OF nz assms(4), of "[]" "[]"] by simp
    have "be_val bs < 64 ^ length (t_tob64 bs)"
    proof -
      have "\<forall>d \<in> set (strip_zeros F). d < 64" using F(2) set_dropWhileD by (metis strip_zeros_def)
      then show ?thesis using base_val_less [of "strip_zeros F" 64] F(1,3) by simp
    qed
    then have n: "length (strip_zeros bs) \<le> n" unfolding n_def by (rule length_strip_bytes)
    obtain d r where d: "cstr_set_length mem dst2 (int n) = (d, r)" "cstr_wf d" "c_length d = int n"
      "int n < int (length (c_data d))"
      by (rule set_length_total [OF assms(2,3), of "int n"]) auto
    define e where "e = d\<lparr>c_data := strip_zeros bs @ drop (length (strip_zeros bs)) (c_data d)\<rparr>"
    have w: "write_data d (strip_zeros bs) = Some e" using n d(4) by (simp add: write_data_fits e_def)
    have we: "cstr_wf e"
    proof (cases "c_cap d = 0")
      case True
      then have "n = 0" "c_data d = [0]" using d(2,3) by (auto simp: cstr_wf_def cstr_empty_string_def)
      then show ?thesis using d(2) n True by (simp add: e_def cstr_wf_def cstr_empty_string_def)
    next
      case False
      then have "c_length d < c_cap d" "length (c_data d) = nat (c_cap d)" "c_data d ! n = 0"
        using d(2,3) by (auto simp: cstr_wf_def)
      then show ?thesis using n d(3) by (simp add: e_def cstr_wf_def nth_append)
    qed
    obtain f q where f: "cstr_set_length mem e (int (length (strip_zeros bs))) = (f, q)" "cstr_wf f"
      "c_length f = int (length (strip_zeros bs))"
      by (rule set_length_total [OF we assms(3), of "int (length (strip_zeros bs))"]) auto
    have "cstr_value f = strip_zeros bs"
    proof (cases "length (strip_zeros bs) < n")
      case True
      then have "c_data f = (c_data e)[length (strip_zeros bs) := 0]"
        using f(1) d(3) by (auto simp: cstr_set_length_def e_def)
      then show ?thesis using f(3) by (simp add: cstr_value_def e_def)
    next
      case False
      then have "f = e" using f(1) d(3) n by (auto simp: cstr_set_length_def e_def)
      then show ?thesis using f(3) by (simp add: cstr_value_def e_def)
    qed
    then show ?thesis using f d(1) fb w
      by (auto simp: t_cstrfromb64_def n_def Let_def)
  qed
qed

theorem conv_cstr_fits_witness:
  "let e = \<lparr>c_data = cstr_empty_string, c_length = 0, c_cap = 0, c_ref = 1\<rparr>;
       mem = (\<lambda>n. Some (replicate (nat n) 0xAA)); heap = (\<lambda>n. Some (replicate n 0xAA)); bs = [0, 1, 2]
   in (\<exists>d. t_tohexcstr mem e bs = Some d \<and> take (Suc (length (t_tohex bs))) (c_data d) = t_tohex bs @ [0]) \<and>
    (\<exists>d. t_tob64cstr mem e bs = Some d \<and> take (Suc (length (t_tob64 bs))) (c_data d) = t_tob64 bs @ [0]) \<and>
    (be_val bs \<noteq> 0 \<longrightarrow>
     (\<exists>d. t_cstrfromb64 heap mem e (t_tob64 bs) = Some (d, int (length (strip_zeros bs))) \<and>
       cstr_wf d \<and> cstr_value d = strip_zeros bs))"
  unfolding Let_def by (rule conv_cstr_fits) (simp_all add: cstr_wf_def)
end
