(* ===== verification/Bignum.thy ===== *)
theory Bignum
  imports Conv "HOL-Library.Monad_Syntax"
begin

text \<open>
  Personal-HomeKit-HAP/srp/t_math.c, the branch for the OpenSSL library that config.h selects: the
  arithmetic interface of the password protocol. A BIGNUM is the integer it holds. A function that
  writes a result argument returns the new value; what it leaves there when the library refuses is
  the old value, an extra argument. \<open>engine\<close> is the static \<open>default_modexp\<close>: it stays null unless the
  code is built with OPENSSL_ENGINE. Results that do not depend on the code (\<open>BIG_INTEGER_SUCCESS\<close>)
  are left out.
\<close>

section \<open>The code\<close>

type_synonym bignum = int
type_synonym modexp_meth = "bignum \<Rightarrow> bignum \<Rightarrow> bignum \<Rightarrow> bignum \<Rightarrow> bignum"

definition BIG_INTEGER_SUCCESS :: int where "BIG_INTEGER_SUCCESS = 0"
definition BIG_INTEGER_ERROR :: int where "BIG_INTEGER_ERROR = - 1"

definition BigIntegerFromInt :: "u32 \<Rightarrow> bignum" where
  "BigIntegerFromInt n = uint n"

definition BigIntegerFromBytes :: "byte list \<Rightarrow> bignum" where
  "BigIntegerFromBytes bytes = int (be_val bytes)"

fun bit_length :: "nat \<Rightarrow> nat" where
  "bit_length n = (if n = 0 then 0 else Suc (bit_length (n div 2)))"

declare bit_length.simps [simp del]

definition BigIntegerBitLen :: "bignum \<Rightarrow> nat" where
  "BigIntegerBitLen b = bit_length (nat \<bar>b\<bar>)"

definition BigIntegerByteLen :: "bignum \<Rightarrow> nat" where
  "BigIntegerByteLen b = (BigIntegerBitLen b + 7) div 8"

text \<open>The bytes written to \<open>dest\<close>; their number is returned. The length of \<open>dest\<close> is not consulted.\<close>

definition BigIntegerToBytes :: "bignum \<Rightarrow> byte list" where
  "BigIntegerToBytes src = be_bytes (BigIntegerByteLen src) (nat \<bar>src\<bar>)"

definition BigIntegerToCstr :: "(int \<Rightarrow> byte list option) \<Rightarrow> bignum \<Rightarrow> cstr \<Rightarrow> (cstr \<times> int) option" where
  "BigIntegerToCstr mem x out =
     (let n = BigIntegerByteLen x;
          (out, r) = cstr_set_length mem out (int n)
      in if r < 0 then Some (out, BIG_INTEGER_ERROR)
         else do {
           out \<leftarrow> write_data out (BigIntegerToBytes x);
           let (out, r) = cstr_set_length mem out (int (length (BigIntegerToBytes x)));
           Some (out, if r < 0 then BIG_INTEGER_ERROR else BIG_INTEGER_SUCCESS)
         })"

definition BigIntegerToCstrEx ::
  "(int \<Rightarrow> byte list option) \<Rightarrow> bignum \<Rightarrow> cstr \<Rightarrow> nat \<Rightarrow> (cstr \<times> int) option" where
  "BigIntegerToCstrEx mem x out len =
     (let (out, r) = cstr_set_length mem out (int len)
      in if r < 0 then Some (out, BIG_INTEGER_ERROR)
         else do {
           out \<leftarrow> write_data out (BigIntegerToBytes x);
           let n = length (BigIntegerToBytes x);
           if n < len then do {
             out \<leftarrow> Some (out\<lparr>c_data := buffer_copy (c_data out) (len - n) (take n (c_data out))\<rparr>);
             Some (out\<lparr>c_data := buffer_copy (c_data out) 0 (replicate (len - n) 0)\<rparr>, BIG_INTEGER_SUCCESS)
           }
           else Some (out, BIG_INTEGER_SUCCESS)
         })"

text \<open>The text of \<open>BN_bn2hex\<close>: a sign, and two upper-case digits for each byte (one for zero).\<close>

definition BigIntegerToHex :: "bignum \<Rightarrow> byte list" where
  "BigIntegerToHex src =
     (if src < 0 then [45] else []) @
     (if src = 0 then [48] else concat (map sprintf_2X (BigIntegerToBytes src)))"

definition BigIntegerModInt :: "bignum \<Rightarrow> nat \<Rightarrow> nat" where
  "BigIntegerModInt d m = nat \<bar>d\<bar> mod m"

definition BigIntegerDivInt :: "bignum \<Rightarrow> nat \<Rightarrow> bignum" where
  "BigIntegerDivInt d m = sgn d * (\<bar>d\<bar> div int m)"

text \<open>\<open>top\<close> and \<open>d[0]\<close> of the representation, with words of 64 bits.\<close>

definition bn_top :: "bignum \<Rightarrow> nat" where
  "bn_top b = (BigIntegerBitLen b + 63) div 64"

definition bn_word0 :: "bignum \<Rightarrow> nat" where
  "bn_word0 b = nat \<bar>b\<bar> mod 2 ^ 64"

definition BigIntegerCmpInt :: "bignum \<Rightarrow> nat \<Rightarrow> int" where
  "BigIntegerCmpInt c1 c2 =
     (if bn_top c1 > 1 then 1
      else if bn_top c1 < 1 then (if c2 > 0 then - 1 else 0)
      else if bn_word0 c1 > c2 then 1
      else if bn_word0 c1 < c2 then - 1 else 0)"

lemma bit_length_0 [simp]: "bit_length 0 = 0"
  by (simp add: bit_length.simps)

lemma bit_length_pos: "0 < n \<Longrightarrow> bit_length n = Suc (bit_length (n div 2))"
  by (subst bit_length.simps) simp

lemma bit_length_bounds: "n < 2 ^ bit_length n" "0 < n \<Longrightarrow> 2 ^ (bit_length n - 1) \<le> n"
proof (induction n rule: bit_length.induct)
  case (1 n)
  { case 1
    show ?case
    proof (cases "n = 0")
      case False
      then have "n div 2 < 2 ^ bit_length (n div 2)" using "1.IH" by blast
      then show ?thesis using False by (simp add: bit_length_pos)
    qed simp
  next
    case 2
    show ?case
    proof (cases "n div 2 = 0")
      case True
      then have "n = 1" using 2 by simp
      then show ?thesis by (simp add: bit_length_pos)
    next
      case False
      then have "(2 :: nat) ^ (bit_length (n div 2) - 1) \<le> n div 2" using "1.IH" 2 by simp
      moreover have "bit_length (n div 2) \<noteq> 0" using False by (simp add: bit_length_pos)
      then obtain k where "bit_length (n div 2) = Suc k" by (cases "bit_length (n div 2)") auto
      ultimately show ?thesis using 2 by (simp add: bit_length_pos)
    qed
  }
qed

lemma bit_length_0_iff [simp]: "bit_length n = 0 \<longleftrightarrow> n = 0"
  by (cases "n = 0") (simp_all add: bit_length_pos)

lemma bit_length_le_iff: "bit_length n \<le> k \<longleftrightarrow> n < 2 ^ k"
proof
  assume "bit_length n \<le> k"
  then have "(2 :: nat) ^ bit_length n \<le> 2 ^ k" by simp
  then show "n < 2 ^ k" using bit_length_bounds(1) [of n] by linarith
next
  assume a: "n < 2 ^ k"
  show "bit_length n \<le> k"
  proof (rule ccontr)
    assume "\<not> bit_length n \<le> k"
    then have k: "k \<le> bit_length n - 1" "0 < n" by (auto intro: Suc_leI gr0I)
    then have "(2 :: nat) ^ k \<le> 2 ^ (bit_length n - 1)" by simp
    then show False using bit_length_bounds(2) [OF k(2)] a by linarith
  qed
qed

text \<open>For a value that is not negative the comparison with a word is the comparison; the sign is not
  looked at.\<close>

lemma BigIntegerCmpInt_value:
  assumes "c < 2 ^ 64"
  shows "BigIntegerCmpInt b c = sgn (\<bar>b\<bar> - int c)"
proof -
  define n where "n = nat \<bar>b\<bar>"
  have i: "\<bar>b\<bar> = int n" by (simp add: n_def)
  have top: "bn_top b = (bit_length n + 63) div 64" by (simp add: bn_top_def BigIntegerBitLen_def n_def)
  consider "n = 0" | "0 < n" "n < 2 ^ 64" | "2 ^ 64 \<le> n" by linarith
  then show ?thesis
  proof cases
    case 1
    then show ?thesis unfolding i by (simp add: BigIntegerCmpInt_def top sgn_if)
  next
    case 2
    then have "bit_length n \<le> 64" "bit_length n \<noteq> 0" by (simp_all add: bit_length_le_iff)
    moreover have "k \<le> 64 \<Longrightarrow> k \<noteq> 0 \<Longrightarrow> (k + 63) div 64 = 1" for k :: nat by (rule div_nat_eqI) simp_all
    ultimately have "bn_top b = 1" unfolding top by blast
    moreover have "bn_word0 b = n" using 2 by (simp add: bn_word0_def n_def [symmetric])
    ultimately show ?thesis unfolding i by (simp add: BigIntegerCmpInt_def sgn_if)
  next
    case 3
    then have "\<not> bit_length n \<le> 64" by (simp add: bit_length_le_iff)
    then have "1 < bn_top b" unfolding top by simp
    then show ?thesis using 3 assms unfolding i by (simp add: BigIntegerCmpInt_def sgn_if)
  qed
qed

lemma BigIntegerCmpInt_0: "BigIntegerCmpInt t 0 > 0 \<longleftrightarrow> t \<noteq> 0"
  using BigIntegerCmpInt_value [of 0 t] by (auto simp: sgn_if)

lemma BigIntegerDivInt_nat: "BigIntegerDivInt (int n) m = int (n div m)"
  by (simp add: BigIntegerDivInt_def zdiv_int sgn_if)

text \<open>
  The digits, least significant first. With a radix below 2 the loop does not end, and a digit
  from 64 on is the terminator of the table or lies behind it: both are None.
\<close>

definition to_string_digit :: "nat \<Rightarrow> byte option" where
  "to_string_digit d = (if d < 64 then Some (b64table ! d) else None)"

function to_string_loop :: "nat \<Rightarrow> bignum \<Rightarrow> byte list option" where
  "to_string_loop radix t =
     (if BigIntegerCmpInt t 0 > 0 then
        (if 2 \<le> radix then do {
           c \<leftarrow> to_string_digit (BigIntegerModInt t radix);
           p \<leftarrow> to_string_loop radix (BigIntegerDivInt t radix);
           Some (c # p)
         }
         else None)
      else Some [])"
  by pat_completeness auto
termination
proof (relation "measure (\<lambda>(radix, t). nat \<bar>t\<bar>)", simp)
  fix radix :: nat and t :: bignum and c :: byte
  assume t: "0 < BigIntegerCmpInt t 0" "2 \<le> radix"
  then have "0 < \<bar>t\<bar>" by (simp add: BigIntegerCmpInt_0)
  then have "\<bar>t\<bar> div int radix < \<bar>t\<bar>" using t(2) by (intro int_div_less_self) simp_all
  moreover have "\<bar>BigIntegerDivInt t radix\<bar> = \<bar>t\<bar> div int radix"
    using \<open>0 < \<bar>t\<bar>\<close> t(2) by (simp add: BigIntegerDivInt_def abs_mult abs_sgn_eq pos_imp_zdiv_nonneg_iff)
  ultimately show "((radix, BigIntegerDivInt t radix), radix, t) \<in> measure (\<lambda>(radix, t). nat \<bar>t\<bar>)"
    by simp
qed

declare to_string_loop.simps [simp del]

text \<open>The reversal in place: \<open>i\<close> is \<open>dest\<close> and \<open>j\<close> is \<open>p\<close>.\<close>

function reverse_loop :: "byte list \<Rightarrow> nat \<Rightarrow> nat \<Rightarrow> byte list" where
  "reverse_loop buf i j =
     (if j > i then reverse_loop (buf[j := buf ! i, i := buf ! j]) (i + 1) (j - 1) else buf)"
  by pat_completeness auto
termination
  by (relation "measure (\<lambda>(buf, i, j). j - i)") auto

declare reverse_loop.simps [simp del]

definition BigIntegerToString :: "bignum \<Rightarrow> nat \<Rightarrow> byte list option" where
  "BigIntegerToString src radix =
     do { c \<leftarrow> to_string_digit (BigIntegerModInt src radix);
          p \<leftarrow> to_string_loop radix (BigIntegerDivInt src radix);
          let buf = c # p;
          Some (reverse_loop buf 0 (length buf - 1)) }"

definition BigIntegerCmp :: "bignum \<Rightarrow> bignum \<Rightarrow> int" where
  "BigIntegerCmp c1 c2 = sgn (c1 - c2)"

definition BigIntegerLShift :: "bignum \<Rightarrow> nat \<Rightarrow> bignum" where
  "BigIntegerLShift x bits = x * 2 ^ bits"

definition BigIntegerAdd :: "bignum \<Rightarrow> bignum \<Rightarrow> bignum" where
  "BigIntegerAdd a1 a2 = a1 + a2"

definition BigIntegerAddInt :: "bignum \<Rightarrow> nat \<Rightarrow> bignum" where
  "BigIntegerAddInt a1 a2 = a1 + int a2"

definition BigIntegerSub :: "bignum \<Rightarrow> bignum \<Rightarrow> bignum" where
  "BigIntegerSub s1 s2 = s1 - s2"

definition BigIntegerSubInt :: "bignum \<Rightarrow> nat \<Rightarrow> bignum" where
  "BigIntegerSubInt s1 s2 = s1 - int s2"

definition BigIntegerMul :: "bignum \<Rightarrow> bignum \<Rightarrow> bignum" where
  "BigIntegerMul m1 m2 = m1 * m2"

definition BigIntegerMulInt :: "bignum \<Rightarrow> nat \<Rightarrow> bignum" where
  "BigIntegerMulInt m1 m2 = m1 * int m2"

text \<open>\<open>BN_mod\<close> and \<open>BN_mod_mul\<close> refuse a zero modulus; the first truncates, the second does not.\<close>

definition BigIntegerMod :: "bignum \<Rightarrow> bignum \<Rightarrow> bignum \<Rightarrow> bignum" where
  "BigIntegerMod r d m = (if m = 0 then r else sgn d * (\<bar>d\<bar> mod \<bar>m\<bar>))"

definition BigIntegerModMul :: "bignum \<Rightarrow> bignum \<Rightarrow> bignum \<Rightarrow> bignum \<Rightarrow> bignum" where
  "BigIntegerModMul r m1 m2 modulus = (if modulus = 0 then r else (m1 * m2) mod \<bar>modulus\<bar>)"

text \<open>
  The exponentiations of the library: the Montgomery ones refuse an even modulus and leave the
  result argument as it was, and both answer 1 for a zero exponent.
\<close>

definition BN_mod_exp_mont :: modexp_meth where
  "BN_mod_exp_mont r b e m = (if even m then r else if e = 0 then 1 else b ^ nat \<bar>e\<bar> mod \<bar>m\<bar>)"

definition BN_mod_exp :: modexp_meth where
  "BN_mod_exp r b e m = (if e = 0 then 1 else if m = 0 then r else b ^ nat \<bar>e\<bar> mod \<bar>m\<bar>)"

definition BigIntegerModExp ::
  "modexp_meth option \<Rightarrow> bignum \<Rightarrow> bignum \<Rightarrow> bignum \<Rightarrow> bignum \<Rightarrow> bignum option \<Rightarrow> bignum" where
  "BigIntegerModExp engine r b e m a =
     (case engine of Some f \<Rightarrow> f r b e m
      | None \<Rightarrow>
        if a = None then BN_mod_exp r b e m
        else if bn_top b = 1 then BN_mod_exp_mont r (int (bn_word0 b)) e m
        else BN_mod_exp_mont r b e m)"

definition BigIntegerModAccelNew :: "modexp_meth option \<Rightarrow> bignum \<Rightarrow> bignum option" where
  "BigIntegerModAccelNew engine m = (if engine \<noteq> None then None else Some m)"

text \<open>The probabilistic test of the library is an argument.\<close>

definition BigIntegerCheckPrime :: "(bignum \<Rightarrow> nat \<Rightarrow> bool) \<Rightarrow> bignum \<Rightarrow> bool" where
  "BigIntegerCheckPrime BN_is_prime n = BN_is_prime n 25"

section \<open>Text in a radix\<close>

lemma to_string_digit_value:
  "2 \<le> radix \<Longrightarrow> radix \<le> 64 \<Longrightarrow> to_string_digit (BigIntegerModInt (int n) radix) = Some (b64table ! (n mod radix))"
proof -
  assume "2 \<le> radix" "radix \<le> 64"
  then have "n mod radix < 64" using mod_less_divisor [of radix n] by linarith
  then show ?thesis by (simp add: to_string_digit_def BigIntegerModInt_def)
qed

fun radix_digits :: "nat \<Rightarrow> nat \<Rightarrow> nat list" where
  "radix_digits radix n = (if n = 0 \<or> radix < 2 then [] else n mod radix # radix_digits radix (n div radix))"

declare radix_digits.simps [simp del]

lemma to_string_loop_digits:
  assumes "2 \<le> radix" "radix \<le> 64"
  shows "to_string_loop radix (int n) = Some (map (\<lambda>d. b64table ! d) (radix_digits radix n))"
  using assms
proof (induction radix n rule: radix_digits.induct)
  case (1 radix n)
  then show ?case
    by (cases "n = 0")
      (simp_all add: to_string_loop.simps [of radix "int n"] radix_digits.simps [of radix n] BigIntegerCmpInt_0
        to_string_digit_value BigIntegerDivInt_nat
        to_string_loop.simps [of radix 0] radix_digits.simps [of radix 0])
qed

lemma radix_digits_value:
  "2 \<le> radix \<Longrightarrow> base_val radix (rev (radix_digits radix n)) = n \<and> (\<forall>d \<in> set (radix_digits radix n). d < radix) \<and>
   no_leading_zero (rev (radix_digits radix n))"
proof (induction radix n rule: radix_digits.induct)
  case (1 radix n)
  show ?case
  proof (cases "n = 0")
    case True
    then show ?thesis by (simp add: radix_digits.simps no_leading_zero_def)
  next
    case False
    let ?r = "rev (radix_digits radix (n div radix))"
    have IH: "base_val radix ?r = n div radix" "\<forall>d \<in> set ?r. d < radix" "no_leading_zero ?r"
      using 1 False by auto
    have e: "rev (radix_digits radix n) = ?r @ [n mod radix]"
      using False 1 by (simp add: radix_digits.simps [of radix n])
    have "no_leading_zero (?r @ [n mod radix])"
    proof (cases ?r)
      case Nil
      then have "n div radix = 0" using IH(1) by simp
      then have "n mod radix = n" using 1(2) by (metis add_0 div_mult_mod_eq mult_0)
      then show ?thesis using Nil False by (simp add: no_leading_zero_def)
    next
      case (Cons d ds)
      then show ?thesis using IH(3) by (simp add: no_leading_zero_def)
    qed
    moreover have "\<forall>d \<in> set (radix_digits radix n). d < radix"
      using IH(2) 1(2) False by (simp add: radix_digits.simps [of radix n])
    ultimately show ?thesis unfolding e using IH(1) by (simp add: base_val_append)
  qed
qed

lemma reverse_loop_swaps:
  "i + j + 1 = length buf \<Longrightarrow> length (reverse_loop buf i j) = length buf \<and>
   (\<forall>k < length buf. reverse_loop buf i j ! k =
      (if i \<le> k \<and> k \<le> j then buf ! (length buf - 1 - k) else buf ! k))"
proof (induction buf i j rule: reverse_loop.induct)
  case (1 buf i j)
  show ?case
  proof (cases "i < j")
    case False
    then have "reverse_loop buf i j = buf" by (simp add: reverse_loop.simps)
    moreover have "k = length buf - 1 - k" if "i \<le> k" "k \<le> j" for k using that False 1(2) by linarith
    ultimately show ?thesis by auto
  next
    case True
    define b where "b = buf[j := buf ! i, i := buf ! j]"
    have l: "length b = length buf" by (simp add: b_def)
    have "(i + 1) + (j - 1) + 1 = length b" using 1(2) True l by simp
    note IH = "1.IH" [OF True, folded b_def, OF this]
    have e: "reverse_loop buf i j = reverse_loop b (i + 1) (j - 1)"
      using True by (simp add: reverse_loop.simps [of buf] b_def)
    have "reverse_loop b (i + 1) (j - 1) ! k = (if i \<le> k \<and> k \<le> j then buf ! (length buf - 1 - k) else buf ! k)"
      if k: "k < length buf" for k
    proof -
      have ij: "length buf - 1 - i = j" "length buf - 1 - j = i" using 1(2) by auto
      have r: "reverse_loop b (i + 1) (j - 1) ! k =
          (if i + 1 \<le> k \<and> k \<le> j - 1 then b ! (length buf - 1 - k) else b ! k)"
        using IH k l by simp
      consider "k = i" | "k = j" | "k \<noteq> i" "k \<noteq> j" by blast
      then show ?thesis
      proof cases
        case 1
        then show ?thesis using r ij True k by (simp add: b_def)
      next
        case 2
        then show ?thesis using r ij True k by (auto simp: b_def)
      next
        case 3
        moreover have "length buf - 1 - k \<noteq> i" "length buf - 1 - k \<noteq> j" using 3 k ij 1(2) by auto
        ultimately show ?thesis using r True by (auto simp: b_def)
      qed
    qed
    then show ?thesis using IH l e by simp
  qed
qed

lemma reverse_loop_rev: "buf \<noteq> [] \<Longrightarrow> reverse_loop buf 0 (length buf - 1) = rev buf"
proof -
  assume ne: "buf \<noteq> []"
  have s: "length (reverse_loop buf 0 (length buf - 1)) = length buf \<and>
    (\<forall>k < length buf. reverse_loop buf 0 (length buf - 1) ! k =
      (if 0 \<le> k \<and> k \<le> length buf - 1 then buf ! (length buf - 1 - k) else buf ! k))"
    using ne by (intro reverse_loop_swaps) (simp add: Suc_leI)
  show ?thesis using s by (intro nth_equalityI) (auto simp: rev_nth)
qed

lemma BigIntegerToString_digits:
  assumes "2 \<le> radix" "radix \<le> 64"
  shows "BigIntegerToString (int n) radix =
    Some (map (\<lambda>d. b64table ! d) (if n = 0 then [0] else rev (radix_digits radix n)))"
  using assms to_string_loop_digits [OF assms, of "n div radix"]
  by (simp add: BigIntegerToString_def to_string_digit_value BigIntegerDivInt_nat Let_def
      reverse_loop_rev [where buf = "_ # _", simplified] radix_digits.simps [of radix n] radix_digits.simps [of radix 0] rev_map)

section \<open>Bytes\<close>

lemma BigIntegerByteLen_bound: "nat \<bar>b\<bar> < 256 ^ BigIntegerByteLen b"
proof -
  have "BigIntegerBitLen b \<le> 8 * BigIntegerByteLen b" by (simp add: BigIntegerByteLen_def)
  then have "nat \<bar>b\<bar> < 2 ^ (8 * BigIntegerByteLen b)" by (simp add: BigIntegerBitLen_def bit_length_le_iff)
  then show ?thesis by (simp add: power_mult)
qed

lemma BigIntegerByteLen_le_iff: "BigIntegerByteLen b \<le> n \<longleftrightarrow> nat \<bar>b\<bar> < 256 ^ n"
proof -
  have "BigIntegerByteLen b \<le> n \<longleftrightarrow> BigIntegerBitLen b \<le> 8 * n" by (auto simp: BigIntegerByteLen_def)
  then show ?thesis by (simp add: BigIntegerBitLen_def bit_length_le_iff power_mult)
qed

lemma length_BigIntegerToBytes [simp]: "length (BigIntegerToBytes b) = BigIntegerByteLen b"
  by (simp add: BigIntegerToBytes_def)

lemma be_val_BigIntegerToBytes [simp]: "be_val (BigIntegerToBytes b) = nat \<bar>b\<bar>"
  using BigIntegerByteLen_bound [of b] by (simp add: BigIntegerToBytes_def be_val_be_bytes)

lemma from_to_bytes: "0 \<le> b \<Longrightarrow> BigIntegerFromBytes (BigIntegerToBytes b) = b"
  by (simp add: BigIntegerFromBytes_def)

lemma to_bytes_no_leading_zero: "no_leading_zero (BigIntegerToBytes b)"
proof (cases "BigIntegerToBytes b")
  case (Cons x xs)
  have "x \<noteq> 0"
  proof
    assume "x = 0"
    then have "nat \<bar>b\<bar> < 256 ^ length xs"
      using be_val_BigIntegerToBytes [of b] be_val_less [of xs] Cons by (simp add: be_val_Cons)
    then have "BigIntegerByteLen b \<le> length xs" by (simp add: BigIntegerByteLen_le_iff)
    then show False using Cons length_BigIntegerToBytes [of b] by simp
  qed
  then show ?thesis using Cons by (simp add: no_leading_zero_def)
qed (simp add: no_leading_zero_def)

lemma to_from_bytes: "BigIntegerToBytes (BigIntegerFromBytes bs) = strip_zeros bs"
  using to_bytes_no_leading_zero [of "BigIntegerFromBytes bs"]
  by (intro be_val_canonical) (simp_all add: BigIntegerFromBytes_def strip_no_leading_zero)

definition total_mem :: "(int \<Rightarrow> byte list option) \<Rightarrow> bool" where
  "total_mem mem \<longleftrightarrow> (\<forall>n. \<exists>t. mem n = Some t \<and> length t = nat n)"

lemma set_length_mem:
  assumes "cstr_wf str" "total_mem mem"
  obtains str' r where "cstr_set_length mem str (int n) = (str', r)" "cstr_wf str'" "c_length str' = int n"
    "n < length (c_data str')" "0 \<le> r"
    "cstr_value str' = take n (cstr_value str @ replicate (n - length (cstr_value str)) 0)"
    "c_ref str' = c_ref str"
proof -
  have g: "good_mem mem" unfolding good_mem_def using assms(2) by (metis option.inject total_mem_def)
  obtain str' r where s: "cstr_set_length mem str (int n) = (str', r)" "cstr_wf str'" "c_length str' = int n"
    "int n < int (length (c_data str'))"
    by (rule set_length_total [OF assms(1), of mem "int n"]) (use assms(2) in \<open>auto simp: total_mem_def\<close>)
  have "0 \<le> r"
    using s(1) assms(2) by (auto simp: cstr_set_length_def cstr_alloc_def total_mem_def Let_def split: if_splits option.splits)
      (metis option.distinct(1))+
  moreover from this have "c_ref str' = c_ref str \<and>
      cstr_value str' = take n (cstr_value str @ replicate (n - length (cstr_value str)) 0)"
    using cstr_set_length_result [OF assms(1) g _ s(1)] by simp
  ultimately show thesis using s that by simp
qed

lemma write_prefix:
  assumes "cstr_wf str" "c_length str = int n" "length bs \<le> n"
  shows "write_data str bs = Some (str\<lparr>c_data := bs @ drop (length bs) (c_data str)\<rparr>)"
    "cstr_wf (str\<lparr>c_data := bs @ drop (length bs) (c_data str)\<rparr>)"
    "cstr_value (str\<lparr>c_data := bs @ drop (length bs) (c_data str)\<rparr>) = bs @ drop (length bs) (cstr_value str)"
proof -
  have n: "n < length (c_data str)" using assms by (auto simp: cstr_wf_def cstr_empty_string_def)
  then show "write_data str bs = Some (str\<lparr>c_data := bs @ drop (length bs) (c_data str)\<rparr>)"
    using assms(3) by (intro write_data_fits) simp
  show "cstr_wf (str\<lparr>c_data := bs @ drop (length bs) (c_data str)\<rparr>)"
  proof (cases "c_cap str = 0")
    case True
    then have "bs = []" using assms by (auto simp: cstr_wf_def)
    then show ?thesis using assms(1) by simp
  next
    case False
    then show ?thesis using assms by (auto simp: cstr_wf_def nth_append)
  qed
  show "cstr_value (str\<lparr>c_data := bs @ drop (length bs) (c_data str)\<rparr>) = bs @ drop (length bs) (cstr_value str)"
    using assms n by (simp add: cstr_value_def drop_take)
qed

lemma BigIntegerToCstr_result:
  assumes "cstr_wf out" "total_mem mem"
  obtains out' r where "BigIntegerToCstr mem x out = Some (out', BIG_INTEGER_SUCCESS)" "cstr_wf out'"
    "cstr_value out' = BigIntegerToBytes x" "c_length out' = int (BigIntegerByteLen x)" "c_ref out' = c_ref out"
proof -
  define n where "n = BigIntegerByteLen x"
  obtain o1 r where o1: "cstr_set_length mem out (int n) = (o1, r)" "cstr_wf o1" "c_length o1 = int n" "0 \<le> r"
    "c_ref o1 = c_ref out" by (rule set_length_mem [OF assms])
  define o2 where "o2 = o1\<lparr>c_data := BigIntegerToBytes x @ drop (length (BigIntegerToBytes x)) (c_data o1)\<rparr>"
  have o2: "write_data o1 (BigIntegerToBytes x) = Some o2" "cstr_wf o2"
    "cstr_value o2 = BigIntegerToBytes x @ drop n (cstr_value o1)" "c_length o2 = int n" "c_ref o2 = c_ref out"
    using write_prefix [OF o1(2,3), of "BigIntegerToBytes x"] o1(3,5) by (simp_all add: o2_def n_def)
  have "length (cstr_value o1) = n" using length_cstr_value [OF o1(2)] o1(3) by simp
  moreover have "cstr_set_length mem o2 (int n) = (o2, 0)" using o2(4) by (simp add: cstr_set_length_def)
  ultimately show thesis
    using o1 o2 by (intro that [of o2]) (simp_all add: BigIntegerToCstr_def n_def [symmetric] BIG_INTEGER_SUCCESS_def)
qed

lemma BigIntegerToCstrEx_result:
  assumes "cstr_wf out" "total_mem mem" "BigIntegerByteLen x \<le> len"
  obtains out' where "BigIntegerToCstrEx mem x out len = Some (out', BIG_INTEGER_SUCCESS)" "cstr_wf out'"
    "cstr_value out' = be_bytes len (nat \<bar>x\<bar>)" "c_length out' = int len"
proof -
  define b where "b = BigIntegerToBytes x"
  define n where "n = BigIntegerByteLen x"
  have n: "n \<le> len" "length b = n" using assms(3) by (simp_all add: n_def b_def)
  obtain o1 r where o1: "cstr_set_length mem out (int len) = (o1, r)" "cstr_wf o1" "c_length o1 = int len" "0 \<le> r"
    "len < length (c_data o1)" by (rule set_length_mem [OF assms(1,2)])
  define o2 where "o2 = o1\<lparr>c_data := b @ drop n (c_data o1)\<rparr>"
  have o2: "write_data o1 b = Some o2" "cstr_wf o2" "cstr_value o2 = b @ drop n (cstr_value o1)" "c_length o2 = int len"
    using write_prefix [OF o1(2,3), of b] o1(3) n by (simp_all add: o2_def)
  have l1: "length (cstr_value o1) = len" using length_cstr_value [OF o1(2)] o1(3) by simp
  have padded: "be_bytes len (nat \<bar>x\<bar>) = replicate (len - n) 0 @ b"
  proof (rule be_val_inj)
    have "be_val (replicate k 0 @ b) = be_val b" for k by (induction k) (simp_all add: be_val_Cons)
    moreover have "nat \<bar>x\<bar> < 256 ^ len" using assms(3) by (simp add: BigIntegerByteLen_le_iff)
    ultimately show "be_val (be_bytes len (nat \<bar>x\<bar>)) = be_val (replicate (len - n) 0 @ b)"
      by (simp add: be_val_be_bytes b_def)
  qed (use n in simp)
  have ex: "BigIntegerToCstrEx mem x out len =
    (if n < len then Some (o2\<lparr>c_data := buffer_copy (buffer_copy (c_data o2) (len - n) (take n (c_data o2))) 0 (replicate (len - n) 0)\<rparr>,
       BIG_INTEGER_SUCCESS) else Some (o2, BIG_INTEGER_SUCCESS))"
    using o1 o2(1) n by (simp add: BigIntegerToCstrEx_def b_def [symmetric] Let_def)
  show thesis
  proof (cases "n < len")
    case False
    then have "n = len" using n by simp
    then show thesis using ex o2 l1 n padded by (intro that [of o2]) simp_all
  next
    case True
    define D where "D = c_data o2"
    have D: "length D = length (c_data o1)" "take n D = b" "length D > len"
      using o1(5) n by (simp_all add: D_def o2_def)
    define E where "E = buffer_copy (buffer_copy D (len - n) b) 0 (replicate (len - n) 0)"
    have "buffer_copy D (len - n) b = take (len - n) D @ b @ drop len D"
      using D n by (subst buffer_copy_at) simp_all
    then have E: "E = replicate (len - n) 0 @ b @ drop len D"
      using D n buffer_copy_at [of 0 "replicate (len - n) (0 :: byte)" "take (len - n) D @ b @ drop len D"]
      by (simp add: E_def)
    define o3 where "o3 = o2\<lparr>c_data := E\<rparr>"
    have "E = (replicate (len - n) 0 @ b) @ drop len D" "length (replicate (len - n) 0 @ b) = len"
      using n by (simp_all add: E)
    then have z: "E ! len = D ! len" "length E = length D" using n D
      by (metis Cons_nth_drop_Suc nth_append_length, simp)
    have "c_cap o2 \<noteq> 0" using o2(2,4) True by (auto simp: cstr_wf_def)
    then have "cstr_wf o3" using o2(2,4) z by (auto simp: cstr_wf_def o3_def D_def)
    moreover have "cstr_value o3 = be_bytes len (nat \<bar>x\<bar>)"
      using o2(4) n padded by (simp add: cstr_value_def o3_def E)
    ultimately show thesis using ex True o2(4) D
      by (intro that [of o3]) (simp_all add: o3_def E_def D_def)
  qed
qed

section \<open>Properties\<close>

lemma BigIntegerToString_text:
  assumes "2 \<le> radix" "radix \<le> 64"
  obtains ds where "BigIntegerToString (int n) radix = Some (map (\<lambda>d. b64table ! d) ds)"
    "base_val radix ds = n" "\<forall>d \<in> set ds. d < radix" "if n = 0 then ds = [0] else no_leading_zero ds" "ds \<noteq> []"
proof (rule that)
  let ?ds = "if n = 0 then [0] else rev (radix_digits radix n)"
  show "BigIntegerToString (int n) radix = Some (map (\<lambda>d. b64table ! d) ?ds)"
    by (rule BigIntegerToString_digits [OF assms])
  show "base_val radix ?ds = n" "\<forall>d \<in> set ?ds. d < radix" "if n = 0 then ?ds = [0] else no_leading_zero ?ds"
    using radix_digits_value [OF assms(1), of n] assms by auto
  show "?ds \<noteq> []" using radix_digits_value [OF assms(1), of n] by auto
qed

text \<open>For every radix from 2 to 64 \<open>BigIntegerToString\<close> ends and writes the digits of the value, most
  significant first and without a leading zero (one zero digit for 0); in radix 64 the text is
  one that \<open>t_fromb64\<close> reads back as the bytes of the value.\<close>

theorem bignum_string:
  assumes "2 \<le> radix" "radix \<le> 64" "\<And>n. \<exists>a. mem n = Some a \<and> length a = n"
  shows "\<exists>ds. BigIntegerToString (int n) radix = Some (map (\<lambda>d. b64table ! d) ds) \<and> base_val radix ds = n \<and>
    (\<forall>d \<in> set ds. d < radix) \<and> (ds = [0] \<or> no_leading_zero ds) \<and> ds \<noteq> [] \<and>
    (radix = 64 \<and> n \<noteq> 0 \<longrightarrow>
     t_fromb64 mem (map (\<lambda>d. b64table ! d) ds) = Some (BigIntegerToBytes (int n), int (BigIntegerByteLen (int n))))"
proof -
  obtain ds where ds: "BigIntegerToString (int n) radix = Some (map (\<lambda>d. b64table ! d) ds)"
    "base_val radix ds = n" "\<forall>d \<in> set ds. d < radix" "if n = 0 then ds = [0] else no_leading_zero ds" "ds \<noteq> []"
    by (rule BigIntegerToString_text [OF assms(1,2), of n])
  have "t_fromb64 mem (map (\<lambda>d. b64table ! d) ds) = Some (BigIntegerToBytes (int n), int (BigIntegerByteLen (int n)))"
    if r: "radix = 64" "n \<noteq> 0"
  proof -
    obtain bytes where b: "t_fromb64 mem ([] @ map (\<lambda>d. b64table ! d) (strip_zeros ds) @ []) = Some (bytes, int (length bytes))"
      "be_val bytes = base_val 64 ds" "no_leading_zero bytes"
      by (rule t_fromb64_text [of ds mem "[]" "[]"]) (use ds r assms(3) in auto)
    have "bytes = BigIntegerToBytes (int n)"
      using b(2,3) ds(2) r by (intro be_val_canonical) (simp_all add: to_bytes_no_leading_zero)
    then show ?thesis using b(1) ds(4) r by (simp add: strip_id)
  qed
  then show ?thesis using ds by (intro exI [of _ ds]) (auto split: if_splits)
qed

theorem bignum_string_witness: "BigIntegerToString 1000 16 = Some (ascii ''3E8'')"
proof -
  obtain ds where ds: "BigIntegerToString (int 1000) 16 = Some (map (\<lambda>d. b64table ! d) ds)" "base_val 16 ds = 1000"
    "\<forall>d \<in> set ds. d < 16" "ds = [0] \<or> no_leading_zero ds"
    using bignum_string [of 16 "\<lambda>n. Some (replicate n 0)" 1000] by auto
  have "ds = [3, 14, 8]"
    using ds(2,3,4) by (intro base_val_canonical [of _ _ 16]) (auto simp: no_leading_zero_def)
  moreover have "map (\<lambda>d. b64table ! d) [3, 14, 8] = ascii ''3E8''" by code_simp
  ultimately show ?thesis using ds(1) by simp
qed

lemma fromhex_2X: "fromhex_pairs (concat (map sprintf_2X bs)) = bs"
proof (induction bs)
  case (Cons b bs)
  have l: "unat b div 16 < 16" "unat b mod 16 < 16" using unat_byte_less [of b] by (simp_all add: less_mult_imp_div_less)
  have "of_nat (16 * (unat b div 16) + unat b mod 16) = b" by simp
  then show ?case using Cons l by (simp add: sprintf_2X_def hexDigit_upper pair_byte del: of_nat_add of_nat_mult)
qed simp

lemma length_2X: "length (concat (map sprintf_2X bs)) = 2 * length bs"
  by (induction bs) (simp_all add: sprintf_2X_def)

text \<open>Reading the text of \<open>BigIntegerToHex\<close> gives the bytes of the value, and the bytes and the value
  determine each other: for every positive value.\<close>

theorem bignum_hex_roundtrip:
  assumes "0 < x"
  shows "t_fromhex (BigIntegerToHex x) = BigIntegerToBytes x \<and> BigIntegerFromBytes (t_fromhex (BigIntegerToHex x)) = x"
proof -
  have "even (length (BigIntegerToHex x))" using assms by (simp add: BigIntegerToHex_def length_2X del: length_concat)
  then have "length (BigIntegerToHex x) mod 2 \<noteq> 1" by presburger
  then have "t_fromhex (BigIntegerToHex x) = BigIntegerToBytes x"
    using assms by (simp add: t_fromhex_def) (simp add: BigIntegerToHex_def fromhex_2X)
  then show ?thesis using assms by (simp add: from_to_bytes)
qed

theorem bignum_hex_roundtrip_witness: "t_fromhex (BigIntegerToHex 1000) = BigIntegerToBytes 1000"
  using bignum_hex_roundtrip [of 1000] by simp

text \<open>With an allocator that does not fail, \<open>BigIntegerToCstr\<close> leaves the shortest big-endian bytes of
  the value in the string and \<open>BigIntegerToCstrEx\<close> the bytes padded with zeros to the length asked
  for, in place; both keep the string well-formed and can be read back.\<close>

theorem bignum_cstr:
  assumes "cstr_wf out" "total_mem mem" "0 \<le> x" "BigIntegerByteLen x \<le> len"
  shows "(\<exists>out'. BigIntegerToCstr mem x out = Some (out', BIG_INTEGER_SUCCESS) \<and> cstr_wf out' \<and>
      no_leading_zero (cstr_value out') \<and> BigIntegerFromBytes (cstr_value out') = x) \<and>
    (\<exists>out'. BigIntegerToCstrEx mem x out len = Some (out', BIG_INTEGER_SUCCESS) \<and> cstr_wf out' \<and>
      length (cstr_value out') = len \<and> BigIntegerFromBytes (cstr_value out') = x)"
proof (intro conjI)
  show "\<exists>out'. BigIntegerToCstr mem x out = Some (out', BIG_INTEGER_SUCCESS) \<and> cstr_wf out' \<and>
      no_leading_zero (cstr_value out') \<and> BigIntegerFromBytes (cstr_value out') = x"
    by (rule BigIntegerToCstr_result [OF assms(1,2), of x]) (use assms(3) in \<open>auto simp: to_bytes_no_leading_zero from_to_bytes\<close>)
  have "nat \<bar>x\<bar> < 256 ^ len" using assms(4) by (simp add: BigIntegerByteLen_le_iff)
  then have v: "BigIntegerFromBytes (be_bytes len (nat \<bar>x\<bar>)) = x"
    using assms(3) by (simp add: BigIntegerFromBytes_def be_val_be_bytes)
  show "\<exists>out'. BigIntegerToCstrEx mem x out len = Some (out', BIG_INTEGER_SUCCESS) \<and> cstr_wf out' \<and>
      length (cstr_value out') = len \<and> BigIntegerFromBytes (cstr_value out') = x"
    by (rule BigIntegerToCstrEx_result [OF assms(1,2,4)]) (use v in auto)
qed

theorem bignum_cstr_witness:
  "\<exists>out'. BigIntegerToCstrEx (\<lambda>n. Some (replicate (nat n) 0xAA)) 258
     \<lparr>c_data = cstr_empty_string, c_length = 0, c_cap = 0, c_ref = 1\<rparr> 4 = Some (out', BIG_INTEGER_SUCCESS) \<and>
     length (cstr_value out') = 4 \<and> BigIntegerFromBytes (cstr_value out') = 258"
  using bignum_cstr [of "\<lparr>c_data = cstr_empty_string, c_length = 0, c_cap = 0, c_ref = 1\<rparr>"
      "\<lambda>n. Some (replicate (nat n) 0xAA)" 258 4]
  by (auto simp: cstr_wf_def total_mem_def BigIntegerByteLen_le_iff)

text \<open>The comparison with a word looks at the representation of the magnitude: it is right for values
  that are not negative, and treats a negative one as its absolute value.\<close>

theorem bignum_compare:
  assumes "c < 2 ^ 64"
  shows "BigIntegerCmpInt b c = sgn (\<bar>b\<bar> - int c)"
  by (rule BigIntegerCmpInt_value [OF assms])

theorem bignum_compare_witness: "BigIntegerCmpInt (- 5) 3 = 1"
  using bignum_compare [of 3 "- 5"] by simp

end
