(* ===== verification/Sha512.thy ===== *)
theory Sha512
  imports Digest_Machine
begin

text \<open>
  openssl/crypto/sha/sha512.c: the hash under the HomeKit key derivation, message authentication
  and SRP layers (\<open>SHACTX\<close> of Configuration.h). The context is the record \<open>sha512_ctx\<close>; its union
  of 16 words and 128 bytes is kept as the bytes. All three C bodies of
  \<open>sha512_block_data_order\<close> are modelled (the register-starved one, the small-footprint one and
  the unrolled one, on a little-endian machine) and proved to compute the compression function
  of FIPS 180-4; the buffering of \<open>Update\<close> and the padding of \<open>Final\<close> are proved against the
  hash of the whole message. \<open>size_t\<close> has 32 bits, so the line that adds \<open>len >> 61\<close> is dead.
\<close>

section \<open>The code\<close>

record sha512_ctx =
  s_h :: "u64 list"
  s_Nl :: u64
  s_Nh :: u64
  s_u :: "byte list"
  s_num :: nat
  s_md_len :: nat

definition SHA384_Init :: "sha512_ctx \<Rightarrow> sha512_ctx" where
  "SHA384_Init c = c\<lparr>
     s_h := [0xcbbb9d5dc1059ed8, 0x629a292a367cd507, 0x9159015a3070dd17, 0x152fecd8f70e5939,
       0x67332667ffc00b31, 0x8eb44a8768581511, 0xdb0c2e0d64f98fa7, 0x47b5481dbefa4fa4],
     s_Nl := 0, s_Nh := 0, s_num := 0, s_md_len := 48\<rparr>"

definition SHA512_Init :: "sha512_ctx \<Rightarrow> sha512_ctx" where
  "SHA512_Init c = c\<lparr>
     s_h := [0x6a09e667f3bcc908, 0xbb67ae8584caa73b, 0x3c6ef372fe94f82b, 0xa54ff53a5f1d36f1,
       0x510e527fade682d1, 0x9b05688c2b3e6c1f, 0x1f83d9abfb41bd6b, 0x5be0cd19137e2179],
     s_Nl := 0, s_Nh := 0, s_num := 0, s_md_len := 64\<rparr>"

text \<open>The macro that gives a literal its 64-bit type, and the table of round constants.\<close>

definition U64 :: "u64 \<Rightarrow> u64" where [simp]: "U64 x = x"

definition K512 :: "u64 list" where
  "K512 =
    [U64 0x428a2f98d728ae22, U64 0x7137449123ef65cd, U64 0xb5c0fbcfec4d3b2f, U64 0xe9b5dba58189dbbc,
     U64 0x3956c25bf348b538, U64 0x59f111f1b605d019, U64 0x923f82a4af194f9b, U64 0xab1c5ed5da6d8118,
     U64 0xd807aa98a3030242, U64 0x12835b0145706fbe, U64 0x243185be4ee4b28c, U64 0x550c7dc3d5ffb4e2,
     U64 0x72be5d74f27b896f, U64 0x80deb1fe3b1696b1, U64 0x9bdc06a725c71235, U64 0xc19bf174cf692694,
     U64 0xe49b69c19ef14ad2, U64 0xefbe4786384f25e3, U64 0x0fc19dc68b8cd5b5, U64 0x240ca1cc77ac9c65,
     U64 0x2de92c6f592b0275, U64 0x4a7484aa6ea6e483, U64 0x5cb0a9dcbd41fbd4, U64 0x76f988da831153b5,
     U64 0x983e5152ee66dfab, U64 0xa831c66d2db43210, U64 0xb00327c898fb213f, U64 0xbf597fc7beef0ee4,
     U64 0xc6e00bf33da88fc2, U64 0xd5a79147930aa725, U64 0x06ca6351e003826f, U64 0x142929670a0e6e70,
     U64 0x27b70a8546d22ffc, U64 0x2e1b21385c26c926, U64 0x4d2c6dfc5ac42aed, U64 0x53380d139d95b3df,
     U64 0x650a73548baf63de, U64 0x766a0abb3c77b2a8, U64 0x81c2c92e47edaee6, U64 0x92722c851482353b,
     U64 0xa2bfe8a14cf10364, U64 0xa81a664bbc423001, U64 0xc24b8b70d0f89791, U64 0xc76c51a30654be30,
     U64 0xd192e819d6ef5218, U64 0xd69906245565a910, U64 0xf40e35855771202a, U64 0x106aa07032bbd1b8,
     U64 0x19a4c116b8d2d0c8, U64 0x1e376c085141ab53, U64 0x2748774cdf8eeb99, U64 0x34b0bcb5e19b48a8,
     U64 0x391c0cb3c5c95a63, U64 0x4ed8aa4ae3418acb, U64 0x5b9cca4f7763e373, U64 0x682e6ff3d6b2b8a3,
     U64 0x748f82ee5defb2fc, U64 0x78a5636f43172f60, U64 0x84c87814a1f0ab72, U64 0x8cc702081a6439ec,
     U64 0x90befffa23631e28, U64 0xa4506cebde82bde9, U64 0xbef9a3f7b2c67915, U64 0xc67178f2e372532b,
     U64 0xca273eceea26619c, U64 0xd186b8c721c0c207, U64 0xeada7dd6cde0eb1e, U64 0xf57d4f7fee6ed178,
     U64 0x06f067aa72176fba, U64 0x0a637dc5a2c898a6, U64 0x113f9804bef90dae, U64 0x1b710b35131c471b,
     U64 0x28db77f523047d84, U64 0x32caab7b40c72493, U64 0x3c9ebe0a15c9bebc, U64 0x431d67c49c100d4c,
     U64 0x4cc5d4becb3e42b6, U64 0x597f299cfc657e2a, U64 0x5fcb6fab3ad6faec, U64 0x6c44198c4a475817]"

definition PULL64 :: "byte list \<Rightarrow> nat \<Rightarrow> u64" where
  "PULL64 W i =
     (let B = (\<lambda>j. push_bit ((7 - j) * 8) (ucast (W ! (8 * i + j)) :: u64))
      in B 0 OR B 1 OR B 2 OR B 3 OR B 4 OR B 5 OR B 6 OR B 7)"

definition ROTR :: "u64 \<Rightarrow> nat \<Rightarrow> u64" where
  "ROTR x s = drop_bit s x OR push_bit (64 - s) x"

definition Sigma0 :: "u64 \<Rightarrow> u64" where
  "Sigma0 x = ROTR x 28 XOR ROTR x 34 XOR ROTR x 39"

definition Sigma1 :: "u64 \<Rightarrow> u64" where
  "Sigma1 x = ROTR x 14 XOR ROTR x 18 XOR ROTR x 41"

definition sigma0 :: "u64 \<Rightarrow> u64" where
  "sigma0 x = ROTR x 1 XOR ROTR x 8 XOR drop_bit 7 x"

definition sigma1 :: "u64 \<Rightarrow> u64" where
  "sigma1 x = ROTR x 19 XOR ROTR x 61 XOR drop_bit 6 x"

definition Ch :: "u64 \<Rightarrow> u64 \<Rightarrow> u64 \<Rightarrow> u64" where
  "Ch x y z = (x AND y) XOR (NOT x AND z)"

definition Maj :: "u64 \<Rightarrow> u64 \<Rightarrow> u64 \<Rightarrow> u64" where
  "Maj x y z = (x AND y) XOR (x AND z) XOR (y AND z)"

type_synonym regs = "u64 \<times> u64 \<times> u64 \<times> u64 \<times> u64 \<times> u64 \<times> u64 \<times> u64"

definition regs_of :: "u64 list \<Rightarrow> regs" where
  "regs_of h = (h ! 0, h ! 1, h ! 2, h ! 3, h ! 4, h ! 5, h ! 6, h ! 7)"

text \<open>\<open>ctx->h[0] += a; ... ctx->h[7] += h;\<close>\<close>

definition add_regs :: "u64 list \<Rightarrow> regs \<Rightarrow> u64 list" where
  "add_regs hs r = (case r of (a, b, c, d, e, f, g, h) \<Rightarrow>
     [hs ! 0 + a, hs ! 1 + b, hs ! 2 + c, hs ! 3 + d, hs ! 4 + e, hs ! 5 + f, hs ! 6 + g, hs ! 7 + h])"

subsection \<open>The unrolled body\<close>

text \<open>A round assigns two of the eight variables it is given: the results are the new \<open>d\<close> and \<open>h\<close>.\<close>

definition ROUND_00_15 ::
  "nat \<Rightarrow> u64 \<Rightarrow> u64 \<Rightarrow> u64 \<Rightarrow> u64 \<Rightarrow> u64 \<Rightarrow> u64 \<Rightarrow> u64 \<Rightarrow> u64 \<Rightarrow> u64 \<Rightarrow> u64 \<times> u64" where
  "ROUND_00_15 i T1 a b c d e f g h =
     (let T1 = T1 + (h + Sigma1 e + Ch e f g + K512 ! i);
          h = Sigma0 a + Maj a b c
      in (d + T1, h + T1))"

definition ROUND_16_80 ::
  "nat \<Rightarrow> nat \<Rightarrow> u64 \<Rightarrow> u64 \<Rightarrow> u64 \<Rightarrow> u64 \<Rightarrow> u64 \<Rightarrow> u64 \<Rightarrow> u64 \<Rightarrow> u64 \<Rightarrow> u64 list \<Rightarrow> u64 list \<times> u64 \<times> u64" where
  "ROUND_16_80 i j a b c d e f g h X =
     (let s0 = sigma0 (X ! ((j + 1) AND 15));
          s1 = sigma1 (X ! ((j + 14) AND 15));
          T1 = X ! (j AND 15) + (s0 + s1 + X ! ((j + 9) AND 15));
          X = X[j AND 15 := T1]
      in (X, ROUND_00_15 (i + j) T1 a b c d e f g h))"

definition sha512_rounds_first :: "byte list \<Rightarrow> regs \<Rightarrow> u64 list \<times> regs" where
  "sha512_rounds_first W r =
     (let (a, b, c, d, e, f, g, h) = r; X = replicate 16 0;
          T1 = PULL64 W 0; X = X[0 := T1]; (d, h) = ROUND_00_15 0 T1 a b c d e f g h;
          T1 = PULL64 W 1; X = X[1 := T1]; (c, g) = ROUND_00_15 1 T1 h a b c d e f g;
          T1 = PULL64 W 2; X = X[2 := T1]; (b, f) = ROUND_00_15 2 T1 g h a b c d e f;
          T1 = PULL64 W 3; X = X[3 := T1]; (a, e) = ROUND_00_15 3 T1 f g h a b c d e;
          T1 = PULL64 W 4; X = X[4 := T1]; (h, d) = ROUND_00_15 4 T1 e f g h a b c d;
          T1 = PULL64 W 5; X = X[5 := T1]; (g, c) = ROUND_00_15 5 T1 d e f g h a b c;
          T1 = PULL64 W 6; X = X[6 := T1]; (f, b) = ROUND_00_15 6 T1 c d e f g h a b;
          T1 = PULL64 W 7; X = X[7 := T1]; (e, a) = ROUND_00_15 7 T1 b c d e f g h a;
          T1 = PULL64 W 8; X = X[8 := T1]; (d, h) = ROUND_00_15 8 T1 a b c d e f g h;
          T1 = PULL64 W 9; X = X[9 := T1]; (c, g) = ROUND_00_15 9 T1 h a b c d e f g;
          T1 = PULL64 W 10; X = X[10 := T1]; (b, f) = ROUND_00_15 10 T1 g h a b c d e f;
          T1 = PULL64 W 11; X = X[11 := T1]; (a, e) = ROUND_00_15 11 T1 f g h a b c d e;
          T1 = PULL64 W 12; X = X[12 := T1]; (h, d) = ROUND_00_15 12 T1 e f g h a b c d;
          T1 = PULL64 W 13; X = X[13 := T1]; (g, c) = ROUND_00_15 13 T1 d e f g h a b c;
          T1 = PULL64 W 14; X = X[14 := T1]; (f, b) = ROUND_00_15 14 T1 c d e f g h a b;
          T1 = PULL64 W 15; X = X[15 := T1]; (e, a) = ROUND_00_15 15 T1 b c d e f g h a
      in (X, a, b, c, d, e, f, g, h))"

definition sha512_rounds_next :: "nat \<Rightarrow> u64 list \<times> regs \<Rightarrow> u64 list \<times> regs" where
  "sha512_rounds_next i s =
    (let (X, a, b, c, d, e, f, g, h) = s;
     (X, d, h) = ROUND_16_80 i 0 a b c d e f g h X;
     (X, c, g) = ROUND_16_80 i 1 h a b c d e f g X;
     (X, b, f) = ROUND_16_80 i 2 g h a b c d e f X;
     (X, a, e) = ROUND_16_80 i 3 f g h a b c d e X;
     (X, h, d) = ROUND_16_80 i 4 e f g h a b c d X;
     (X, g, c) = ROUND_16_80 i 5 d e f g h a b c X;
     (X, f, b) = ROUND_16_80 i 6 c d e f g h a b X;
     (X, e, a) = ROUND_16_80 i 7 b c d e f g h a X;
     (X, d, h) = ROUND_16_80 i 8 a b c d e f g h X;
     (X, c, g) = ROUND_16_80 i 9 h a b c d e f g X;
     (X, b, f) = ROUND_16_80 i 10 g h a b c d e f X;
     (X, a, e) = ROUND_16_80 i 11 f g h a b c d e X;
     (X, h, d) = ROUND_16_80 i 12 e f g h a b c d X;
     (X, g, c) = ROUND_16_80 i 13 d e f g h a b c X;
     (X, f, b) = ROUND_16_80 i 14 c d e f g h a b X;
     (X, e, a) = ROUND_16_80 i 15 b c d e f g h a X
     in (X, a, b, c, d, e, f, g, h))"

definition sha512_block_unrolled :: "u64 list \<Rightarrow> byte list \<Rightarrow> u64 list" where
  "sha512_block_unrolled hs W =
     (let s = sha512_rounds_first W (regs_of hs);
          s = fold sha512_rounds_next [16, 32, 48, 64] s
      in add_regs hs (snd s))"

subsection \<open>The small-footprint body\<close>

definition small_round_first :: "byte list \<Rightarrow> nat \<Rightarrow> u64 list \<times> regs \<Rightarrow> u64 list \<times> regs" where
  "small_round_first W i s =
     (let (X, a, b, c, d, e, f, g, h) = s;
          T1 = PULL64 W i; X = X[i := T1];
          T1 = T1 + (h + Sigma1 e + Ch e f g + K512 ! i);
          T2 = Sigma0 a + Maj a b c;
          h = g; g = f; f = e; e = d + T1; d = c; c = b; b = a; a = T1 + T2
      in (X, a, b, c, d, e, f, g, h))"

definition small_round_next :: "nat \<Rightarrow> u64 list \<times> regs \<Rightarrow> u64 list \<times> regs" where
  "small_round_next i s =
     (let (X, a, b, c, d, e, f, g, h) = s;
          s0 = sigma0 (X ! ((i + 1) AND 15));
          s1 = sigma1 (X ! ((i + 14) AND 15));
          T1 = X ! (i AND 15) + (s0 + s1 + X ! ((i + 9) AND 15));
          X = X[i AND 15 := T1];
          T1 = T1 + (h + Sigma1 e + Ch e f g + K512 ! i);
          T2 = Sigma0 a + Maj a b c;
          h = g; g = f; f = e; e = d + T1; d = c; c = b; b = a; a = T1 + T2
      in (X, a, b, c, d, e, f, g, h))"

definition sha512_block_small :: "u64 list \<Rightarrow> byte list \<Rightarrow> u64 list" where
  "sha512_block_small hs W =
     (let s = (replicate 16 0, regs_of hs);
          s = fold (small_round_first W) [0..<16] s;
          s = fold small_round_next [16..<80] s
      in add_regs hs (snd s))"

subsection \<open>The body for few registers\<close>

text \<open>
  The variables slide down the array \<open>X[9+80]\<close>: \<open>F\<close> is the index of \<open>F[0]\<close> in it. The state is
  the array with \<open>A\<close> and \<open>E\<close>.
\<close>

definition i386_round :: "u64 \<Rightarrow> nat \<Rightarrow> u64 list \<times> u64 \<times> u64 \<Rightarrow> u64 list \<times> u64 \<times> u64" where
  "i386_round T i s =
     (let (X, A, E) = s; F = 80 - i;
          X = X[F + 0 := A]; X = X[F + 4 := E]; X = X[F + 8 := T];
          T = T + (X ! (F + 7) + Sigma1 E + Ch E (X ! (F + 5)) (X ! (F + 6)) + K512 ! i);
          E = X ! (F + 3) + T;
          A = T + Sigma0 A + Maj A (X ! (F + 1)) (X ! (F + 2))
      in (X, A, E))"

definition i386_round_first :: "byte list \<Rightarrow> nat \<Rightarrow> u64 list \<times> u64 \<times> u64 \<Rightarrow> u64 list \<times> u64 \<times> u64" where
  "i386_round_first W i s = i386_round (PULL64 W i) i s"

definition i386_round_next :: "nat \<Rightarrow> u64 list \<times> u64 \<times> u64 \<Rightarrow> u64 list \<times> u64 \<times> u64" where
  "i386_round_next i s =
     (let (X, A, E) = s; F = 80 - i;
          T = sigma0 (X ! (F + 8 + 16 - 1));
          T = T + sigma1 (X ! (F + 8 + 16 - 14));
          T = T + (X ! (F + 8 + 16) + X ! (F + 8 + 16 - 9))
      in i386_round T i (X, A, E))"

definition sha512_block_i386 :: "u64 list \<Rightarrow> byte list \<Rightarrow> u64 list" where
  "sha512_block_i386 hs W =
     (let X = replicate 89 0; F = 80; A = hs ! 0; E = hs ! 4;
          X = X[F + 1 := hs ! 1, F + 2 := hs ! 2, F + 3 := hs ! 3,
                F + 5 := hs ! 5, F + 6 := hs ! 6, F + 7 := hs ! 7];
          s = (X, A, E);
          s = fold (i386_round_first W) [0..<16] s;
          (X, A, E) = fold i386_round_next [16..<80] s;
          F = 0
      in [hs ! 0 + A, hs ! 1 + X ! (F + 1), hs ! 2 + X ! (F + 2), hs ! 3 + X ! (F + 3),
          hs ! 4 + E, hs ! 5 + X ! (F + 5), hs ! 6 + X ! (F + 6), hs ! 7 + X ! (F + 7)])"

subsection \<open>Blocks, update and final\<close>

text \<open>\<open>while (num--)\<close> over the input, \<open>W += SHA_LBLOCK\<close> being 128 bytes.\<close>

fun sha512_block_data_order :: "u64 list \<Rightarrow> byte list \<Rightarrow> nat \<Rightarrow> u64 list" where
  "sha512_block_data_order hs W 0 = hs"
| "sha512_block_data_order hs W (Suc num) =
     sha512_block_data_order (sha512_block_unrolled hs W) (drop 128 W) num"

definition ctx_blocks :: "sha512_ctx \<Rightarrow> byte list \<Rightarrow> nat \<Rightarrow> sha512_ctx" where
  "ctx_blocks c W num = c\<lparr>s_h := sha512_block_data_order (s_h c) W num\<rparr>"

text \<open>The copying loop for data a word load cannot read in place.\<close>

function unaligned_blocks :: "sha512_ctx \<Rightarrow> byte list \<Rightarrow> sha512_ctx \<times> byte list" where
  "unaligned_blocks c data =
     (if 128 \<le> length data
      then let c = c\<lparr>s_u := buffer_copy (s_u c) 0 (take 128 data)\<rparr>;
               c = ctx_blocks c (s_u c) 1
           in unaligned_blocks c (drop 128 data)
      else (c, data))"
  by pat_completeness auto
termination
  by (relation "measure (\<lambda>(c, data). length data)") auto

declare unaligned_blocks.simps [simp del]

text \<open>
  The last part of \<open>SHA512_Update\<close>; the flag says that the macro
  \<open>SHA512_BLOCK_CAN_MANAGE_UNALIGNED_DATA\<close> is not defined and the pointer is not a multiple of 8.
\<close>

definition sha512_update_rest :: "bool \<Rightarrow> sha512_ctx \<Rightarrow> byte list \<Rightarrow> sha512_ctx" where
  "sha512_update_rest unaligned c data =
     (let (c, data) =
        (if 128 \<le> length data then
           if unaligned then unaligned_blocks c data
           else (ctx_blocks c data (length data div 128), drop (length data - length data mod 128) data)
         else (c, data))
      in if length data \<noteq> 0 then c\<lparr>s_u := buffer_copy (s_u c) 0 data, s_num := length data\<rparr>
         else c)"

definition SHA512_Update :: "bool \<Rightarrow> sha512_ctx \<Rightarrow> byte list \<Rightarrow> sha512_ctx" where
  "SHA512_Update unaligned c data =
     (if length data = 0 then c
      else
        let l = s_Nl c + push_bit 3 (of_nat (length data));
            c = (if l < s_Nl c then c\<lparr>s_Nh := s_Nh c + 1\<rparr> else c);
            c = c\<lparr>s_Nl := l\<rparr>
        in if s_num c \<noteq> 0 then
             let n = 128 - s_num c
             in if length data < n then
                  c\<lparr>s_u := buffer_copy (s_u c) (s_num c) data, s_num := s_num c + length data\<rparr>
                else
                  let c = c\<lparr>s_u := buffer_copy (s_u c) (s_num c) (take n data), s_num := 0\<rparr>;
                      data = drop n data;
                      c = ctx_blocks c (s_u c) 1
                  in sha512_update_rest unaligned c data
           else sha512_update_rest unaligned c data)"

definition store_be64 :: "u64 \<Rightarrow> byte list" where
  "store_be64 t = [ucast (drop_bit 56 t), ucast (drop_bit 48 t), ucast (drop_bit 40 t),
     ucast (drop_bit 32 t), ucast (drop_bit 24 t), ucast (drop_bit 16 t), ucast (drop_bit 8 t), ucast t]"

text \<open>
  \<open>SHA512_Final\<close> in three parts: the 0x80 byte, with a block of its own when the length does
  not fit behind it (the index where zeros go on is returned); zeros, the length and the last
  block; the output. None is the return value 0 (a null \<open>md\<close>, or a length that is no digest's).
\<close>

definition final_mark :: "sha512_ctx \<Rightarrow> sha512_ctx \<times> nat" where
  "final_mark c =
     (let n = s_num c;
          c = c\<lparr>s_u := (s_u c)[n := 0x80]\<rparr>;
          n = n + 1
      in if n > 128 - 16 then
           let c = c\<lparr>s_u := buffer_copy (s_u c) n (replicate (128 - n) 0)\<rparr>
           in (ctx_blocks c (s_u c) 1, 0)
         else (c, n))"

definition final_length :: "sha512_ctx \<times> nat \<Rightarrow> sha512_ctx" where
  "final_length s =
     (let (c, n) = s;
          c = c\<lparr>s_u := buffer_copy (s_u c) n (replicate (128 - 16 - n) 0)\<rparr>;
          c = c\<lparr>s_u := buffer_copy (s_u c) (128 - 16) (store_be64 (s_Nh c) @ store_be64 (s_Nl c))\<rparr>
      in ctx_blocks c (s_u c) 1)"

definition SHA512_Final :: "bool \<Rightarrow> sha512_ctx \<Rightarrow> sha512_ctx \<times> byte list option" where
  "SHA512_Final md_null c =
     (let c = final_length (final_mark c)
      in if md_null then (c, None)
         else if s_md_len c = 48 then (c, Some (concat (map store_be64 (take (48 div 8) (s_h c)))))
         else if s_md_len c = 64 then (c, Some (concat (map store_be64 (take (64 div 8) (s_h c)))))
         else (c, None))"

definition SHA512_Transform :: "sha512_ctx \<Rightarrow> byte list \<Rightarrow> sha512_ctx" where
  "SHA512_Transform c data = ctx_blocks c data 1"

text \<open>The one-shot functions, on a context of any content; a null \<open>md\<close> is the static buffer.\<close>

definition SHA384 :: "sha512_ctx \<Rightarrow> bool \<Rightarrow> byte list \<Rightarrow> byte list option" where
  "SHA384 c unaligned d = snd (SHA512_Final False (SHA512_Update unaligned (SHA384_Init c) d))"

definition SHA512 :: "sha512_ctx \<Rightarrow> bool \<Rightarrow> byte list \<Rightarrow> byte list option" where
  "SHA512 c unaligned d = snd (SHA512_Final False (SHA512_Update unaligned (SHA512_Init c) d))"

section \<open>The compression function of FIPS 180-4\<close>

fun sched :: "byte list \<Rightarrow> nat \<Rightarrow> u64" where
  "sched W t = (if t < 16 then PULL64 W t
     else sigma1 (sched W (t - 2)) + sched W (t - 7) + sigma0 (sched W (t - 15)) + sched W (t - 16))"

declare sched.simps [simp del]

definition fips_step :: "byte list \<Rightarrow> nat \<Rightarrow> regs \<Rightarrow> regs" where
  "fips_step W t r =
     (let (a, b, c, d, e, f, g, h) = r;
          T1 = h + Sigma1 e + Ch e f g + K512 ! t + sched W t;
          T2 = Sigma0 a + Maj a b c
      in (T1 + T2, a, b, c, d + T1, e, f, g))"

definition fips_rounds :: "byte list \<Rightarrow> nat \<Rightarrow> regs \<Rightarrow> regs" where
  "fips_rounds W n r = fold (fips_step W) [0..<n] r"

definition sha512_compress :: "u64 list \<Rightarrow> byte list \<Rightarrow> u64 list" where
  "sha512_compress hs W = add_regs hs (fips_rounds W 80 (regs_of hs))"

lemma fips_rounds_add: "fips_rounds W (m + n) r = fold (fips_step W) [m..<m + n] (fips_rounds W m r)"
  by (simp add: fips_rounds_def upt_add_eq_append [of 0 m n, simplified])

lemma fips_rounds_Suc: "fips_rounds W (Suc n) r = fips_step W n (fips_rounds W n r)"
  by (simp add: fips_rounds_def)

lemma fips_rounds_0 [simp]: "fips_rounds W 0 r = r"
  by (simp add: fips_rounds_def)

lemma round_step:
  "ROUND_00_15 t (sched W t) a b c d e f g h = (d', h') \<Longrightarrow>
   fips_step W t (a, b, c, d, e, f, g, h) = (h', a, b, c, d', e, f, g)"
  by (auto simp: ROUND_00_15_def fips_step_def Let_def ac_simps)

lemma eight_rounds:
  assumes t: "[t..<u] = [t0, t1, t2, t3, t4, t5, t6, t7]"
    and r: "ROUND_00_15 t0 (sched W t0) a b c d e f g h = (d1, h1)"
      "ROUND_00_15 t1 (sched W t1) h1 a b c d1 e f g = (c1, g1)"
      "ROUND_00_15 t2 (sched W t2) g1 h1 a b c1 d1 e f = (b1, f1)"
      "ROUND_00_15 t3 (sched W t3) f1 g1 h1 a b1 c1 d1 e = (a1, e1)"
      "ROUND_00_15 t4 (sched W t4) e1 f1 g1 h1 a1 b1 c1 d1 = (h2, d2)"
      "ROUND_00_15 t5 (sched W t5) d2 e1 f1 g1 h2 a1 b1 c1 = (g2, c2)"
      "ROUND_00_15 t6 (sched W t6) c2 d2 e1 f1 g2 h2 a1 b1 = (f2, b2)"
      "ROUND_00_15 t7 (sched W t7) b2 c2 d2 e1 f2 g2 h2 a1 = (e2, a2)"
  shows "fold (fips_step W) [t..<u] (a, b, c, d, e, f, g, h) = (a2, b2, c2, d2, e2, f2, g2, h2)"
  unfolding t using r [THEN round_step] by (simp only: fold_simps)

lemma sched_first: "t < 16 \<Longrightarrow> sched W t = PULL64 W t"
  by (simp add: sched.simps)

lemma rounds_first:
  "sha512_rounds_first W (a, b, c, d, e, f, g, h) = (map (sched W) [0..<16], fips_rounds W 16 (a, b, c, d, e, f, g, h))"
  unfolding sha512_rounds_first_def Let_def prod.case
  apply (split prod.split, intro allI impI)+
  subgoal premises prems
  proof -
    
    have l: "(replicate 16 0)[0 := PULL64 W 0, 1 := PULL64 W 1, 2 := PULL64 W 2, 3 := PULL64 W 3,
      4 := PULL64 W 4, 5 := PULL64 W 5, 6 := PULL64 W 6, 7 := PULL64 W 7, 8 := PULL64 W 8, 9 := PULL64 W 9,
      10 := PULL64 W 10, 11 := PULL64 W 11, 12 := PULL64 W 12, 13 := PULL64 W 13, 14 := PULL64 W 14,
      15 := PULL64 W 15] = map (sched W) [0..<16]"
      by (simp add: numeral_eq_Suc upt_rec sched_first)
    have w: "PULL64 W t = sched W t" if "t < 16" for t using that by (simp add: sched_first)
    have p: "PULL64 W 0 = sched W 0" "PULL64 W 1 = sched W 1" "PULL64 W 2 = sched W 2" "PULL64 W 3 = sched W 3"
      "PULL64 W 4 = sched W 4" "PULL64 W 5 = sched W 5" "PULL64 W 6 = sched W 6" "PULL64 W 7 = sched W 7"
      "PULL64 W 8 = sched W 8" "PULL64 W 9 = sched W 9" "PULL64 W 10 = sched W 10" "PULL64 W 11 = sched W 11"
      "PULL64 W 12 = sched W 12" "PULL64 W 13 = sched W 13" "PULL64 W 14 = sched W 14" "PULL64 W 15 = sched W 15"
      by (simp_all add: sched_first)
    have u: "[0..<8] = [0, 1, 2, 3, 4, 5, 6, 7 :: nat]" "[8..<16] = [8, 9, 10, 11, 12, 13, 14, 15 :: nat]"
      by (simp_all add: upt_rec)
    have n: "(8 :: nat) + 8 = 16" by simp
    show ?thesis
      unfolding l fips_rounds_add [of W 8 8, unfolded n] unfolding fips_rounds_def
        eight_rounds [OF u(1) prems(1-8) [unfolded p]] eight_rounds [OF u(2) prems(9-16) [unfolded p]]
      by (rule refl)
  qed
  done

section \<open>The circular window of the schedule\<close>

definition window :: "byte list \<Rightarrow> nat \<Rightarrow> u64 list \<Rightarrow> bool" where
  "window W t X \<longleftrightarrow> length X = 16 \<and> (\<forall>s < t. t \<le> s + 16 \<longrightarrow> X ! (s mod 16) = sched W s)"

lemma window_first: "window W 16 (map (sched W) [0..<16])"
  by (simp add: window_def del: upt_Suc)

lemma window_nth: "window W t X \<Longrightarrow> s < t \<Longrightarrow> t \<le> s + 16 \<Longrightarrow> k = s mod 16 \<Longrightarrow> X ! k = sched W s"
  by (simp add: window_def)

lemma window_next:
  assumes "window W t X" "16 \<le> t"
  defines "T1 \<equiv> X ! (t mod 16) + (sigma0 (X ! ((t + 1) mod 16)) + sigma1 (X ! ((t + 14) mod 16)) + X ! ((t + 9) mod 16))"
  shows "T1 = sched W t" and "window W (Suc t) (X[t mod 16 := T1])"
proof -
  have m: "(t + k) mod 16 = (t - (16 - k)) mod 16" if "k \<le> 16" for k
  proof -
    have "t + k = (t - (16 - k)) + 16" using that assms(2) by simp
    then show ?thesis by (metis mod_add_self2)
  qed
  have x: "X ! ((t + k) mod 16) = sched W (t - (16 - k))" if "k < 16" for k
    by (rule window_nth [OF assms(1)]) (use that assms(2) m [of k] in simp_all)
  have "X ! (t mod 16) = sched W (t - 16)" "X ! ((t + 1) mod 16) = sched W (t - 15)"
    "X ! ((t + 14) mod 16) = sched W (t - 2)" "X ! ((t + 9) mod 16) = sched W (t - 7)"
    using x [of 0] x [of 1] x [of 14] x [of 9] by simp_all
  then show T: "T1 = sched W t"
    using assms(2) by (simp add: T1_def sched.simps [of W t] ac_simps)
  have ne: "s mod 16 \<noteq> t mod 16" if "s < t" "t < s + 16" for s
  proof
    assume "s mod 16 = t mod 16"
    then have "16 dvd t - s" using that by (metis mod_eq_dvd_iff_nat less_imp_le)
    then show False using that by (auto dest: dvd_imp_le)
  qed
  show "window W (Suc t) (X[t mod 16 := T1])"
    unfolding window_def
  proof (intro conjI allI impI)
    fix s assume s: "s < Suc t" "Suc t \<le> s + 16"
    show "X[t mod 16 := T1] ! (s mod 16) = sched W s"
    proof (cases "s = t")
      case True
      then show ?thesis using assms(1) T by (simp add: window_def)
    next
      case False
      then have "s < t" "t < s + 16" using s by simp_all
      then show ?thesis using ne [of s] by (simp add: window_nth [OF assms(1)])
    qed
  qed (use assms(1) in \<open>simp add: window_def\<close>)
qed

lemma round_next:
  assumes "window W t X" "ROUND_16_80 i j a b c d e f g h X = (X', d', h')"
    and "t = i + j" "16 \<le> i" "i mod 16 = 0"
  shows "window W (Suc t) X'" "ROUND_00_15 t (sched W t) a b c d e f g h = (d', h')"
proof -
  have m: "(j + k) mod 16 = (t + k) mod 16" for k
    using mod_add_left_eq [of i 16 "j + k"] assms(3,5) by (simp add: add.assoc)
  have "16 \<le> t" using assms by simp
  note w = window_next [OF assms(1) this]
  have "ROUND_16_80 i j a b c d e f g h X =
      (X[t mod 16 := sched W t], ROUND_00_15 t (sched W t) a b c d e f g h)"
    unfolding ROUND_16_80_def Let_def and_15 m m [of 0, unfolded add_0_right] assms(3) [symmetric] w(1)
    by (rule refl)
  with assms(2) w(2) show "window W (Suc t) X'" "ROUND_00_15 t (sched W t) a b c d e f g h = (d', h')"
    unfolding w(1) by simp_all
qed

text \<open>What every implementation keeps between rounds: the window, and the eight variables.\<close>

definition rounds_state :: "byte list \<Rightarrow> regs \<Rightarrow> nat \<Rightarrow> u64 list \<times> regs \<Rightarrow> bool" where
  "rounds_state W r t s \<longleftrightarrow> window W t (fst s) \<and> snd s = fips_rounds W t r"

lemma rounds_next:
  assumes "rounds_state W r i s" "16 \<le> i" "i mod 16 = 0"
  shows "rounds_state W r (i + 16) (sha512_rounds_next i s)"
proof -
  obtain X a b c d e f g h where s: "s = (X, a, b, c, d, e, f, g, h)" by (cases s) auto
  have w: "window W i X" and r: "fips_rounds W i r = (a, b, c, d, e, f, g, h)"
    using assms(1) by (simp_all add: rounds_state_def s)
  show ?thesis
    unfolding s sha512_rounds_next_def Let_def prod.case
    apply (split prod.split, intro allI impI, hypsubst?)+
    subgoal premises prems
    proof -
      have sc: "Suc i = i + 1" "Suc (i + 1) = i + 2" "Suc (i + 2) = i + 3" "Suc (i + 3) = i + 4"
        "Suc (i + 4) = i + 5" "Suc (i + 5) = i + 6" "Suc (i + 6) = i + 7" "Suc (i + 7) = i + 8"
        "Suc (i + 8) = i + 9" "Suc (i + 9) = i + 10" "Suc (i + 10) = i + 11" "Suc (i + 11) = i + 12"
        "Suc (i + 12) = i + 13" "Suc (i + 13) = i + 14" "Suc (i + 14) = i + 15" "Suc (i + 15) = i + 16"
        by simp_all
      have w0: "window W (i + 0) X" using w by simp
      note r0 = round_next [OF w0 prems(1) refl assms(2,3), unfolded sc add_0_right]
      note r1 = round_next [OF r0(1) prems(2) refl assms(2,3), unfolded sc add_0_right]
      note r2 = round_next [OF r1(1) prems(3) refl assms(2,3), unfolded sc add_0_right]
      note r3 = round_next [OF r2(1) prems(4) refl assms(2,3), unfolded sc add_0_right]
      note r4 = round_next [OF r3(1) prems(5) refl assms(2,3), unfolded sc add_0_right]
      note r5 = round_next [OF r4(1) prems(6) refl assms(2,3), unfolded sc add_0_right]
      note r6 = round_next [OF r5(1) prems(7) refl assms(2,3), unfolded sc add_0_right]
      note r7 = round_next [OF r6(1) prems(8) refl assms(2,3), unfolded sc add_0_right]
      note r8 = round_next [OF r7(1) prems(9) refl assms(2,3), unfolded sc add_0_right]
      note r9 = round_next [OF r8(1) prems(10) refl assms(2,3), unfolded sc add_0_right]
      note r10 = round_next [OF r9(1) prems(11) refl assms(2,3), unfolded sc add_0_right]
      note r11 = round_next [OF r10(1) prems(12) refl assms(2,3), unfolded sc add_0_right]
      note r12 = round_next [OF r11(1) prems(13) refl assms(2,3), unfolded sc add_0_right]
      note r13 = round_next [OF r12(1) prems(14) refl assms(2,3), unfolded sc add_0_right]
      note r14 = round_next [OF r13(1) prems(15) refl assms(2,3), unfolded sc add_0_right]
      note r15 = round_next [OF r14(1) prems(16) refl assms(2,3), unfolded sc add_0_right]
      have u: "[i..<i + 8] = [i, i + 1, i + 2, i + 3, i + 4, i + 5, i + 6, i + 7]"
        "[i + 8..<i + 16] = [i + 8, i + 9, i + 10, i + 11, i + 12, i + 13, i + 14, i + 15]"
        by (simp_all add: upt_rec)
      have n: "i + 16 = i + 8 + 8" by simp
      have "fips_rounds W (i + 16) r =
          fold (fips_step W) [i + 8..<i + 16] (fold (fips_step W) [i..<i + 8] (fips_rounds W i r))"
        unfolding n by (simp only: fips_rounds_add)
      then show ?thesis
        using r15(1) unfolding rounds_state_def fst_conv snd_conv r
        unfolding eight_rounds [OF u(1) r0(2) r1(2) r2(2) r3(2) r4(2) r5(2) r6(2) r7(2)]
          eight_rounds [OF u(2) r8(2) r9(2) r10(2) r11(2) r12(2) r13(2) r14(2) r15(2)] by simp
    qed
    done
qed
lemma block_unrolled: "sha512_block_unrolled hs W = sha512_compress hs W"
proof -
  obtain a b c d e f g h where r: "regs_of hs = (a, b, c, d, e, f, g, h)" by (metis prod_cases3)
  have "rounds_state W (regs_of hs) 16 (sha512_rounds_first W (regs_of hs))"
    unfolding r rounds_first rounds_state_def by (simp only: fst_conv snd_conv window_first)
  from rounds_next [OF rounds_next [OF rounds_next [OF rounds_next [OF this]]]]
  have "rounds_state W (regs_of hs) 80 (fold sha512_rounds_next [16, 32, 48, 64] (sha512_rounds_first W (regs_of hs)))"
    by simp
  then show ?thesis
    by (simp add: sha512_block_unrolled_def sha512_compress_def rounds_state_def)
qed

lemma small_first_state:
  assumes "t < 16" "length (fst s) = 16 \<and> (\<forall>k < t. fst s ! k = sched W k) \<and> snd s = fips_rounds W t r"
  shows "length (fst (small_round_first W t s)) = 16 \<and>
    (\<forall>k < Suc t. fst (small_round_first W t s) ! k = sched W k) \<and>
    snd (small_round_first W t s) = fips_rounds W (Suc t) r"
proof -
  obtain X a b c d e f g h where s: "s = (X, a, b, c, d, e, f, g, h)" by (cases s) auto
  have r: "fips_rounds W t r = (a, b, c, d, e, f, g, h)" using assms(2) by (simp add: s)
  have "small_round_first W t s = (X[t := sched W t], fips_step W t (a, b, c, d, e, f, g, h))"
    using assms(1) by (simp add: small_round_first_def s sched_first Let_def fips_step_def ac_simps)
  with assms r show ?thesis
    by (auto simp: s fips_rounds_Suc nth_list_update less_Suc_eq)
qed

lemma small_next_state:
  assumes "16 \<le> t" "rounds_state W r t s"
  shows "rounds_state W r (Suc t) (small_round_next t s)"
proof -
  obtain X a b c d e f g h where s: "s = (X, a, b, c, d, e, f, g, h)" by (cases s) auto
  have r: "fips_rounds W t r = (a, b, c, d, e, f, g, h)" and w: "window W t X"
    using assms(2) by (simp_all add: s rounds_state_def)
  note wn = window_next [OF w assms(1)]
  have "small_round_next t s = (X[t mod 16 := sched W t], fips_step W t (a, b, c, d, e, f, g, h))"
    unfolding s small_round_next_def Let_def prod.case and_15 wn(1) fips_step_def
    by (simp add: ac_simps)
  then show ?thesis
    using wn(2) unfolding wn(1) by (simp add: rounds_state_def fips_rounds_Suc r)
qed

lemma block_small: "sha512_block_small hs W = sha512_compress hs W"
proof -
  let ?r = "regs_of hs"
  let ?s = "fold (small_round_first W) [0..<16] (replicate 16 0, ?r)"
  have "length (fst ?s) = 16 \<and> (\<forall>k < 16. fst ?s ! k = sched W k) \<and> snd ?s = fips_rounds W 16 ?r"
    by (rule fold_upt_invariant [where P = "\<lambda>t s. length (fst s) = 16 \<and>
          (\<forall>k < t. fst s ! k = sched W k) \<and> snd s = fips_rounds W t ?r"])
      (simp, simp, rule small_first_state)
  then have "rounds_state W ?r 16 ?s" by (simp add: rounds_state_def window_def)
  then have "rounds_state W ?r 80 (fold small_round_next [16..<80] ?s)"
    by (rule fold_upt_invariant [where P = "rounds_state W ?r", rotated]) (auto intro: small_next_state)
  then show ?thesis
    by (simp add: sha512_block_small_def sha512_compress_def rounds_state_def del: upt_Suc upt_rec_numeral)
qed

definition i386_state :: "byte list \<Rightarrow> regs \<Rightarrow> nat \<Rightarrow> u64 list \<times> u64 \<times> u64 \<Rightarrow> bool" where
  "i386_state W r t s \<longleftrightarrow>
     (case s of (X, A, E) \<Rightarrow> length X = 89 \<and> (\<forall>k < t. t \<le> k + 16 \<longrightarrow> X ! (88 - k) = sched W k) \<and>
       fips_rounds W t r = (A, X ! (80 - t + 1), X ! (80 - t + 2), X ! (80 - t + 3),
         E, X ! (80 - t + 5), X ! (80 - t + 6), X ! (80 - t + 7)))"

lemma i386_round_state:
  assumes "t < 80" "i386_state W r t s" "T = sched W t"
  shows "i386_state W r (Suc t) (i386_round T t s)"
proof -
  obtain X A E where s: "s = (X, A, E)" by (cases s) auto
  define F where "F = 80 - t"
  have l: "length X = 89" and w: "\<And>k. k < t \<Longrightarrow> t \<le> k + 16 \<Longrightarrow> X ! (88 - k) = sched W k"
    and r: "fips_rounds W t r = (A, X ! (F + 1), X ! (F + 2), X ! (F + 3), E, X ! (F + 5), X ! (F + 6), X ! (F + 7))"
    using assms(2) by (simp_all add: i386_state_def s F_def)
  define Y where "Y = X[F := A, F + 4 := E, F + 8 := T]"
  have F: "F + 8 < length X" "0 < F" "80 - Suc t = F - 1" using l assms(1) by (simp_all add: F_def)
  have y: "Y ! (F + 1) = X ! (F + 1)" "Y ! (F + 2) = X ! (F + 2)" "Y ! (F + 3) = X ! (F + 3)"
    "Y ! (F + 5) = X ! (F + 5)" "Y ! (F + 6) = X ! (F + 6)" "Y ! (F + 7) = X ! (F + 7)"
    "Y ! F = A" "Y ! (F + 4) = E" "Y ! (F + 8) = T"
    using F by (simp_all add: Y_def)
  define T1 where "T1 = T + (Y ! (F + 7) + Sigma1 E + Ch E (Y ! (F + 5)) (Y ! (F + 6)) + K512 ! t)"
  have st: "i386_round T t s = (Y, T1 + Sigma0 A + Maj A (Y ! (F + 1)) (Y ! (F + 2)), Y ! (F + 3) + T1)"
    by (simp add: i386_round_def s Let_def F_def [symmetric] Y_def T1_def)
  have i: "F - 1 + 1 = F" "F - 1 + 2 = F + 1" "F - 1 + 3 = F + 2" "F - 1 + 5 = F + 4" "F - 1 + 6 = F + 5"
    "F - 1 + 7 = F + 6" using F by simp_all
  have "fips_rounds W (Suc t) r = (T1 + Sigma0 A + Maj A (Y ! (F + 1)) (Y ! (F + 2)), Y ! F, Y ! (F + 1), Y ! (F + 2),
      Y ! (F + 3) + T1, Y ! (F + 4), Y ! (F + 5), Y ! (F + 6))"
    unfolding fips_rounds_Suc r fips_step_def Let_def prod.case T1_def y assms(3)
    by (simp add: ac_simps)
  moreover have "Y ! (88 - k) = sched W k" if "k < Suc t" "Suc t \<le> k + 16" for k
  proof (cases "k = t")
    case True
    then have "88 - k = F + 8" using assms(1) by (simp add: F_def)
    then show ?thesis using y(9) True assms(3) by simp
  next
    case False
    then have "88 - k \<noteq> F" "88 - k \<noteq> F + 4" "88 - k \<noteq> F + 8" "k < t" "t \<le> k + 16"
      using that assms(1) by (simp_all add: F_def)
    then show ?thesis using w [of k] by (simp add: Y_def)
  qed
  ultimately show ?thesis
    unfolding i386_state_def st prod.case F(3) i using l by (simp add: Y_def)
qed

lemma block_i386:
  assumes "length hs = 8"
  shows "sha512_block_i386 hs W = sha512_compress hs W"
proof -
  let ?r = "regs_of hs"
  define X :: "u64 list" where "X = (replicate 89 0)[81 := hs ! 1, 82 := hs ! 2, 83 := hs ! 3,
      85 := hs ! 5, 86 := hs ! 6, 87 := hs ! 7]"
  let ?s = "fold (i386_round_first W) [0..<16] (X, hs ! 0, hs ! 4)"
  have "i386_state W ?r 0 (X, hs ! 0, hs ! 4)"
    by (simp add: i386_state_def X_def regs_of_def)
  then have "i386_state W ?r 16 ?s"
    by (rule fold_upt_invariant [where P = "i386_state W ?r", rotated])
      (simp_all add: i386_round_first_def i386_round_state sched_first)
  then have "i386_state W ?r 80 (fold i386_round_next [16..<80] ?s)"
  proof (rule fold_upt_invariant [where P = "i386_state W ?r", rotated])
    fix t and s :: "u64 list \<times> u64 \<times> u64" assume t: "16 \<le> t" "t < 80" and st: "i386_state W ?r t s"
    obtain Y A E where s: "s = (Y, A, E)" by (cases s) auto
    have w: "Y ! (88 - k) = sched W k" if "k < t" "t \<le> k + 16" for k
      using st that by (simp add: i386_state_def s)
    have "Y ! (80 - t + 8 + 16 - 1) = sched W (t - 15)" "Y ! (80 - t + 8 + 16 - 14) = sched W (t - 2)"
      "Y ! (80 - t + 8 + 16) = sched W (t - 16)" "Y ! (80 - t + 8 + 16 - 9) = sched W (t - 7)"
      using w [of "t - 15"] w [of "t - 2"] w [of "t - 16"] w [of "t - 7"] t by simp_all
    then have "i386_round_next t s = i386_round (sched W t) t s"
      using t unfolding i386_round_next_def s Let_def prod.case
      by (simp only: sched.simps [of W t]) (simp add: ac_simps)
    then show "i386_state W ?r (Suc t) (i386_round_next t s)"
      using i386_round_state [OF t(2) st refl] by simp
  qed simp_all
  then show ?thesis
    unfolding X_def
    by (simp add: sha512_block_i386_def sha512_compress_def i386_state_def Let_def add_regs_def
        split: prod.splits del: upt_Suc upt_rec_numeral)
qed

section \<open>The hash\<close>

definition sha512_state :: "u64 list \<Rightarrow> byte list list \<Rightarrow> u64 list" where
  "sha512_state iv bs = fold (\<lambda>b hs. sha512_compress hs b) bs iv"

definition sha512_pad :: "byte list \<Rightarrow> byte list" where
  "sha512_pad msg =
     msg @ [0x80] @ replicate ((239 - length msg mod 128) mod 128) 0 @ be_bytes 16 (8 * length msg)"

definition sha512_iv :: "u64 list" where
  "sha512_iv = s_h (SHA512_Init (sha512_ctx.make [] 0 0 [] 0 0))"

definition sha384_iv :: "u64 list" where
  "sha384_iv = s_h (SHA384_Init (sha512_ctx.make [] 0 0 [] 0 0))"

definition sha512_hash :: "byte list \<Rightarrow> byte list" where
  "sha512_hash msg = concat (map store_be64
     (sha512_state sha512_iv (blocks_of 128 (sha512_pad msg))))"

definition sha384_hash :: "byte list \<Rightarrow> byte list" where
  "sha384_hash msg = concat (map store_be64 (take 6
     (sha512_state sha384_iv (blocks_of 128 (sha512_pad msg)))))"

lemma sched_take: "sched (take 128 W) t = sched W t" if "128 \<le> length W"
proof (induction t rule: less_induct)
  case (less t)
  have "PULL64 (take 128 W) t = PULL64 W t" if "t < 16"
    using that by (simp add: PULL64_def)
  then show ?case
    using less.IH by (simp add: sched.simps [of _ t])
qed

lemma compress_take: "128 \<le> length W \<Longrightarrow> sha512_compress hs (take 128 W) = sha512_compress hs W"
proof -
  assume "128 \<le> length W"
  then have "fips_step (take 128 W) = fips_step W"
    by (intro ext) (simp add: fips_step_def sched_take)
  then show ?thesis by (simp add: sha512_compress_def fips_rounds_def)
qed

lemma length_compress: "length (sha512_compress hs W) = 8"
  by (simp add: sha512_compress_def add_regs_def split: prod.split)

lemma length_sha512_state: "length iv = 8 \<Longrightarrow> length (sha512_state iv bs) = 8"
  unfolding sha512_state_def by (induction bs arbitrary: iv) (simp_all add: length_compress)

lemma state_append: "sha512_state iv (as @ bs) = sha512_state (sha512_state iv as) bs"
  by (simp add: sha512_state_def)

lemma blocks_data_order:
  "128 * num \<le> length W \<Longrightarrow>
   sha512_block_data_order hs W num = sha512_state hs (blocks_of 128 (take (128 * num) W))"
proof (induction hs W num rule: sha512_block_data_order.induct)
  case (2 hs W num)
  have "blocks_of 128 (take (128 * Suc num) W) = take 128 W # blocks_of 128 (take (128 * num) (drop 128 W))"
    using 2(2) by (subst blocks_of.simps) (simp add: drop_take)
  moreover have "sha512_block_unrolled hs W = sha512_compress hs (take 128 W)"
    using 2(2) by (simp add: block_unrolled compress_take)
  ultimately show ?case using 2 by (simp add: sha512_state_def)
qed (simp add: sha512_state_def)

lemma one_block: "length W = 128 \<Longrightarrow> sha512_block_data_order hs W 1 = sha512_state hs [W]"
  using blocks_data_order [of 1 W hs] blocks_of_block [of 128 W "[]"] by simp

section \<open>Absorbing a message\<close>

definition sha512_core :: "u64 list \<Rightarrow> nat \<Rightarrow> sha512_ctx \<Rightarrow> byte list list \<Rightarrow> bool" where
  "sha512_core iv n c bs \<longleftrightarrow> length iv = 8 \<and> s_h c = sha512_state iv bs \<and> length (s_u c) = 128 \<and> s_md_len c = n"

definition sha512_count :: "sha512_ctx \<Rightarrow> nat" where
  "sha512_count c = 2 ^ 64 * unat (s_Nh c) + unat (s_Nl c)"

definition sha512_buffered :: "u64 list \<Rightarrow> nat \<Rightarrow> sha512_ctx \<Rightarrow> byte list \<Rightarrow> bool" where
  "sha512_buffered iv n c msg \<longleftrightarrow>
     sha512_core iv n c (blocks_of 128 msg) \<and>
     s_num c = length (tail_of 128 msg) \<and> take (s_num c) (s_u c) = tail_of 128 msg"

definition sha512_absorbed :: "u64 list \<Rightarrow> nat \<Rightarrow> sha512_ctx \<Rightarrow> byte list \<Rightarrow> bool" where
  "sha512_absorbed iv n c msg \<longleftrightarrow>
     sha512_buffered iv n c msg \<and> sha512_count c = 8 * length msg mod 2 ^ 128"

text \<open>The 128-bit count of bits: the carry into the high word is seen by the wrap of the low one.\<close>

lemma count_update:
  fixes c :: sha512_ctx
  assumes "length data < 2 ^ 32"
  defines "l \<equiv> s_Nl c + push_bit 3 (of_nat (length data))"
  shows "2 ^ 64 * unat (if l < s_Nl c then s_Nh c + 1 else s_Nh c) + unat l =
    (sha512_count c + 8 * length data) mod 2 ^ 128"
proof -
  define n where "n = 8 * length data"
  have n: "n < 2 ^ 35" using assms(1) by (simp add: n_def)
  have "unat (of_nat (length data) :: u64) = length data" using assms(1) by (simp add: unat_of_nat)
  then have p: "unat (push_bit 3 (of_nat (length data)) :: u64) = n"
    using assms(1) by (subst unat_push_bit_exact) (simp_all add: n_def)
  have l: "unat l = (unat (s_Nl c) + n) mod 2 ^ 64" unfolding l_def by (simp add: unat_word_ariths p)
  have b: "unat (s_Nl c) < 2 ^ 64" "unat (s_Nh c) < 2 ^ 64"
    using unat_u64_less [of "s_Nl c"] unat_u64_less [of "s_Nh c"] by simp_all
  have h: "unat (s_Nh c + 1) = (unat (s_Nh c) + 1) mod 2 ^ 64" by (simp add: unat_word_ariths)
  show ?thesis
  proof (cases "unat (s_Nl c) + n < 2 ^ 64")
    case True
    then have "unat l = unat (s_Nl c) + n" using l by simp
    then show ?thesis using b True by (simp add: word_less_nat_alt sha512_count_def n_def)
  next
    case False
    then have e: "unat l + 2 ^ 64 = unat (s_Nl c) + n"
      using l b n by (simp add: le_mod_geq)
    then have lt: "l < s_Nl c" using n by (simp add: word_less_nat_alt)
    show ?thesis
    proof (cases "unat (s_Nh c) + 1 < 2 ^ 64")
      case True
      then have "unat (s_Nh c + 1) = unat (s_Nh c) + 1" using h by simp
      then show ?thesis using e lt b unat_u64_less [of l] True
        by (simp add: sha512_count_def n_def [symmetric])
    next
      case False
      then have "unat (s_Nh c) + 1 = 2 ^ 64" using b by simp
      moreover from this have "unat (s_Nh c + 1) = 0" using h by simp
      ultimately show ?thesis using e lt unat_u64_less [of l]
        by (simp add: sha512_count_def n_def [symmetric] le_mod_geq)
    qed
  qed
qed

lemma ctx_blocks_fields [simp]:
  "s_Nl (ctx_blocks c W k) = s_Nl c" "s_Nh (ctx_blocks c W k) = s_Nh c" "s_u (ctx_blocks c W k) = s_u c"
  "s_num (ctx_blocks c W k) = s_num c" "s_md_len (ctx_blocks c W k) = s_md_len c"
  by (simp_all add: ctx_blocks_def)

lemma core_ctx_blocks:
  assumes "sha512_core iv n c bs" "128 * k \<le> length W"
  shows "sha512_core iv n (ctx_blocks c W k) (bs @ blocks_of 128 (take (128 * k) W))"
  using assms by (simp add: sha512_core_def state_append blocks_data_order ctx_blocks_def)

lemma core_one_block:
  "sha512_core iv n c bs \<Longrightarrow> length W = 128 \<Longrightarrow> sha512_core iv n (ctx_blocks c W 1) (bs @ [W])"
  using core_ctx_blocks [of iv n c bs 1 W] blocks_of_block [of 128 W "[]"] by simp

lemma sha512_core_frame:
  "sha512_core iv n c bs \<Longrightarrow> s_h c' = s_h c \<Longrightarrow> length (s_u c') = 128 \<Longrightarrow> s_md_len c' = s_md_len c \<Longrightarrow>
   sha512_core iv n c' bs"
  by (simp add: sha512_core_def)

lemma unaligned_blocks_core:
  assumes "sha512_core iv n c bs"
  shows "sha512_core iv n (fst (unaligned_blocks c data)) (bs @ blocks_of 128 data) \<and>
    snd (unaligned_blocks c data) = tail_of 128 data \<and>
    s_num (fst (unaligned_blocks c data)) = s_num c \<and>
    s_Nl (fst (unaligned_blocks c data)) = s_Nl c \<and> s_Nh (fst (unaligned_blocks c data)) = s_Nh c"
  using assms
proof (induction c data arbitrary: bs rule: unaligned_blocks.induct)
  case (1 c data)
  show ?case
  proof (cases "128 \<le> length data")
    case True
    define c1 where "c1 = c\<lparr>s_u := buffer_copy (s_u c) 0 (take 128 data)\<rparr>"
    have u: "s_u c1 = take 128 data"
      using True 1(2) by (simp add: c1_def buffer_copy_at sha512_core_def)
    have "sha512_core iv n c1 bs"
      by (rule sha512_core_frame [OF 1(2)]) (use True u in \<open>simp_all add: c1_def\<close>)
    then have c2: "sha512_core iv n (ctx_blocks c1 (s_u c1) 1) (bs @ [take 128 data])"
      using core_one_block [of iv n c1 bs "s_u c1"] True by (simp add: u)
    have st: "unaligned_blocks c data = unaligned_blocks (ctx_blocks c1 (s_u c1) 1) (drop 128 data)"
      using True by (subst unaligned_blocks.simps) (simp add: c1_def)
    have "blocks_of 128 data = take 128 data # blocks_of 128 (drop 128 data)"
      using True by (subst blocks_of.simps) simp
    moreover have "tail_of 128 data = tail_of 128 (drop 128 data)"
      using True tail_of_append [of 128 "take 128 data" "drop 128 data"] by simp
    ultimately show ?thesis
      using 1(1) [OF True c1_def refl c2] unfolding st by (simp add: c1_def)
  next
    case False
    then show ?thesis using 1(2) by (simp add: unaligned_blocks.simps [of c])
  qed
qed

lemma update_rest_buffered:
  fixes data :: "byte list" and una :: bool
  assumes "sha512_core iv n c (blocks_of 128 xs)" "tail_of 128 xs = []" "s_num c = 0"
  defines "c' \<equiv> sha512_update_rest una c data"
  shows "sha512_buffered iv n c' (xs @ data)" "s_Nl c' = s_Nl c" "s_Nh c' = s_Nh c"
proof -
  have t: "tail_of 128 (xs @ data) = tail_of 128 data"
    "blocks_of 128 (xs @ data) = blocks_of 128 xs @ blocks_of 128 data"
    using tail_of_extend [of 128 xs data] blocks_of_extend [of 128 xs data] assms(2) by simp_all
  define r where "r = (if 128 \<le> length data then
      if una then unaligned_blocks c data
      else (ctx_blocks c data (length data div 128), drop (length data - length data mod 128) data)
    else (c, data))"
  have d: "length data - length data mod 128 = 128 * (length data div 128)"
    by (simp add: minus_mod_eq_mult_div)
  have b: "blocks_of 128 (take (128 * (length data div 128)) data) = blocks_of 128 data"
    using blocks_of_concat [of 128 data] by (simp add: take_blocks)
  have "sha512_core iv n (fst r) (blocks_of 128 xs @ blocks_of 128 data) \<and> snd r = tail_of 128 data \<and>
      s_num (fst r) = s_num c \<and> s_Nl (fst r) = s_Nl c \<and> s_Nh (fst r) = s_Nh c"
  proof (cases "128 \<le> length data \<and> \<not> una")
    case True
    then show ?thesis
      using core_ctx_blocks [OF assms(1), of "length data div 128" data] b
      by (simp add: r_def d tail_of_def)
  next
    case False
    then show ?thesis using unaligned_blocks_core [OF assms(1), of data] assms(1) by (auto simp: r_def)
  qed
  then have r: "sha512_core iv n (fst r) (blocks_of 128 xs @ blocks_of 128 data)" "snd r = tail_of 128 data"
    "s_num (fst r) = 0" "s_Nl (fst r) = s_Nl c" "s_Nh (fst r) = s_Nh c" using assms(3) by simp_all
  have c': "c' = (if length (snd r) \<noteq> 0
      then (fst r)\<lparr>s_u := buffer_copy (s_u (fst r)) 0 (snd r), s_num := length (snd r)\<rparr> else fst r)"
    unfolding c'_def sha512_update_rest_def Let_def r_def [symmetric] by (simp add: case_prod_beta)
  have l: "length (tail_of 128 data) < 128" by (rule tail_of_less) simp
  have "length (s_u (fst r)) = 128" using r(1) by (simp add: sha512_core_def)
  then have "sha512_core iv n c' (blocks_of 128 xs @ blocks_of 128 data)"
    using r(1) by (auto simp: c' intro: sha512_core_frame)
  moreover have "s_num c' = length (tail_of 128 data)" "take (s_num c') (s_u c') = tail_of 128 data"
    using r(2,3) l \<open>length (s_u (fst r)) = 128\<close> by (auto simp: c' buffer_copy_at)
  ultimately show "sha512_buffered iv n c' (xs @ data)"
    by (simp add: sha512_buffered_def t)
  show "s_Nl c' = s_Nl c" "s_Nh c' = s_Nh c" using r(4,5) by (simp_all add: c')
qed

lemma SHA512_Update_absorbed:
  assumes "sha512_absorbed iv n c xs" "length data < 2 ^ 32"
  shows "sha512_absorbed iv n (SHA512_Update una c data) (xs @ data)"
proof (cases "data = []")
  case True
  then show ?thesis using assms by (simp add: SHA512_Update_def)
next
  case False
  define l where "l = s_Nl c + push_bit 3 (of_nat (length data))"
  define c1 where "c1 = (if l < s_Nl c then c\<lparr>s_Nh := s_Nh c + 1\<rparr> else c)\<lparr>s_Nl := l\<rparr>"
  have b: "sha512_buffered iv n c xs" and cnt: "sha512_count c = 8 * length xs mod 2 ^ 128"
    using assms(1) by (simp_all add: sha512_absorbed_def)
  have core: "sha512_core iv n c1 (blocks_of 128 xs)"
    using b by (simp add: sha512_buffered_def sha512_core_def c1_def)
  have f: "s_num c1 = length (tail_of 128 xs)" "take (s_num c1) (s_u c1) = tail_of 128 xs" "length (s_u c1) = 128"
    using b core by (auto simp: sha512_buffered_def c1_def sha512_core_def)
  have "sha512_count c1 = (sha512_count c + 8 * length data) mod 2 ^ 128"
    using count_update [OF assms(2), of c] by (auto simp: sha512_count_def c1_def l_def)
  then have count1: "sha512_count c1 = 8 * length (xs @ data) mod 2 ^ 128"
    unfolding cnt by (simp add: mod_add_left_eq distrib_left)
  have tl: "length (tail_of 128 xs) < 128" by (rule tail_of_less) simp
  have st: "SHA512_Update una c data =
      (if s_num c1 \<noteq> 0 then
         if length data < 128 - s_num c1
         then c1\<lparr>s_u := buffer_copy (s_u c1) (s_num c1) data, s_num := s_num c1 + length data\<rparr>
         else let c2 = c1\<lparr>s_u := buffer_copy (s_u c1) (s_num c1) (take (128 - s_num c1) data), s_num := 0\<rparr>
              in sha512_update_rest una (ctx_blocks c2 (s_u c2) 1) (drop (128 - s_num c1) data)
       else sha512_update_rest una c1 data)"
    using False by (simp add: SHA512_Update_def Let_def c1_def l_def)
  show ?thesis
  proof (cases "s_num c1 = 0")
    case True
    then have "SHA512_Update una c data = sha512_update_rest una c1 data" by (simp add: st)
    then show ?thesis
      using update_rest_buffered [OF core, of una data] True f count1
      by (simp add: sha512_absorbed_def sha512_count_def)
  next
    case num: False
    show ?thesis
    proof (cases "length data < 128 - s_num c1")
      case True
      then have s: "SHA512_Update una c data =
          c1\<lparr>s_u := buffer_copy (s_u c1) (s_num c1) data, s_num := s_num c1 + length data\<rparr>"
        using num by (simp add: st)
      have bc: "buffer_copy (s_u c1) (s_num c1) data =
          (tail_of 128 xs @ data) @ drop (s_num c1 + length data) (s_u c1)"
        using True f by (subst buffer_copy_at) simp_all
      have "length (tail_of 128 xs @ data) < 128" using True f by simp
      then have "blocks_of 128 (xs @ data) = blocks_of 128 xs" "tail_of 128 (xs @ data) = tail_of 128 xs @ data"
        using blocks_of_extend [of 128 xs data] tail_of_extend [of 128 xs data] by simp_all
      then show ?thesis
        unfolding s using core f count1 bc True
        by (simp add: sha512_absorbed_def sha512_buffered_def sha512_count_def sha512_core_def)
    next
      case False
      define w where "w = 128 - s_num c1"
      define c2 where "c2 = c1\<lparr>s_u := buffer_copy (s_u c1) (s_num c1) (take w data), s_num := 0\<rparr>"
      have w: "w \<le> length data" "s_num c1 + w = 128" using False f tl by (simp_all add: w_def)
      have u: "s_u c2 = tail_of 128 xs @ take w data"
        using w f by (simp add: c2_def buffer_copy_at)
      have ul: "length (s_u c2) = 128" using u w f by simp
      have "sha512_core iv n c2 (blocks_of 128 xs)"
        by (rule sha512_core_frame [OF core]) (use ul in \<open>simp_all add: c2_def\<close>)
      from core_one_block [OF this ul]
      have "sha512_core iv n (ctx_blocks c2 (s_u c2) 1) (blocks_of 128 xs @ [s_u c2])" .
      moreover have "blocks_of 128 (xs @ take w data) = blocks_of 128 xs @ [s_u c2]"
        using blocks_of_extend [of 128 xs "take w data"] blocks_of_block [of 128 "s_u c2" "[]"] ul
        by (simp add: u)
      ultimately have c3: "sha512_core iv n (ctx_blocks c2 (s_u c2) 1) (blocks_of 128 (xs @ take w data))"
        by simp
      have t: "tail_of 128 (xs @ take w data) = []"
        using tail_of_extend [of 128 xs "take w data"] ul by (simp add: tail_of_def u)
      have s: "SHA512_Update una c data =
          sha512_update_rest una (ctx_blocks c2 (s_u c2) 1) (drop w data)"
        using num False by (simp add: st Let_def c2_def w_def)
      show ?thesis
        unfolding s using update_rest_buffered [OF c3 t, of una "drop w data"] count1
        by (simp add: sha512_absorbed_def sha512_count_def c2_def)
    qed
  qed
qed
section \<open>The digest\<close>

lemma store_be64_be: "store_be64 w = be_bytes 8 (unat w)"
proof -
  have e: "(of_nat (unat w div 2 ^ n) :: byte) = ucast (drop_bit n w)" for n
    by (simp add: word_unat_eq_iff unat_of_nat unat_ucast_mod unat_drop_bit_div)
  have "le_bytes (Suc (Suc (Suc (Suc (Suc (Suc (Suc (Suc 0)))))))) (unat w) = rev (store_be64 w)"
    using e [of 0] e [of 8] e [of 16] e [of 24] e [of 32] e [of 40] e [of 48] e [of 56]
    by (simp add: store_be64_def div_mult2_eq [symmetric])
  then have "rev (le_bytes 8 (unat w)) = store_be64 w"
    by (simp only: numeral_eq_Suc pred_numeral_simps BitM.simps rev_rev_ident)
  then show ?thesis by (simp add: be_bytes_def)
qed

lemma store_count:
  "store_be64 (s_Nh c) @ store_be64 (s_Nl c) = be_bytes 16 (sha512_count c)"
proof (rule be_val_inj)
  have b: "unat (s_Nl c) < 2 ^ 64" "unat (s_Nh c) < 2 ^ 64"
    using unat_u64_less [of "s_Nl c"] unat_u64_less [of "s_Nh c"] by simp_all
  then show "be_val (store_be64 (s_Nh c) @ store_be64 (s_Nl c)) = be_val (be_bytes 16 (sha512_count c))"
    by (simp add: store_be64_be be_val_append be_val_be_bytes sha512_count_def)
qed (simp add: store_be64_be)

lemma be_bytes_mod: "be_bytes n (v mod 256 ^ n) = be_bytes n v"
  by (simp add: be_bytes_def le_bytes_mod)

lemma final_blocks:
  assumes "sha512_absorbed iv n c msg"
  defines "t \<equiv> tail_of 128 msg"
  shows "sha512_state iv (blocks_of 128 (sha512_pad msg)) =
    (if length t + 1 > 112
     then sha512_state (s_h c) [t @ [0x80] @ replicate (127 - length t) 0,
       replicate 112 0 @ be_bytes 16 (sha512_count c)]
     else sha512_state (s_h c) [t @ [0x80] @ replicate (111 - length t) 0 @ be_bytes 16 (sha512_count c)])"
proof -
  have h: "s_h c = sha512_state iv (blocks_of 128 msg)" and
    cnt: "be_bytes 16 (sha512_count c) = be_bytes 16 (8 * length msg)"
    using assms(1) be_bytes_mod [of 16 "8 * length msg"]
    by (simp_all add: sha512_absorbed_def sha512_buffered_def sha512_core_def)
  have lt: "length t = length msg mod 128" "length t < 128"
    by (simp_all add: t_def length_tail_of)
  define z where "z = (239 - length t) mod 128"
  have "blocks_of 128 (sha512_pad msg) = blocks_of 128 msg @
      blocks_of 128 (t @ [0x80] @ replicate z 0 @ be_bytes 16 (8 * length msg))"
    using blocks_of_extend [of 128 msg "[0x80] @ replicate z 0 @ be_bytes 16 (8 * length msg)"]
    unfolding sha512_pad_def lt(1) [symmetric] z_def [symmetric] t_def [symmetric] by simp
  also have "blocks_of 128 (t @ [0x80] @ replicate z 0 @ be_bytes 16 (8 * length msg)) =
      (if length t + 1 > 112
       then [t @ [0x80] @ replicate (127 - length t) 0, replicate 112 0 @ be_bytes 16 (8 * length msg)]
       else [t @ [0x80] @ replicate (111 - length t) 0 @ be_bytes 16 (8 * length msg)])"
  proof (cases "length t + 1 > 112")
    case True
    then have "239 - length t < 128" using lt by simp
    then have "z = (127 - length t) + 112" using lt(2) True unfolding z_def by simp
    then have "t @ [0x80] @ replicate z 0 @ be_bytes 16 (8 * length msg) =
        (t @ [0x80] @ replicate (127 - length t) 0) @ (replicate 112 0 @ be_bytes 16 (8 * length msg)) @ []"
      by (simp add: replicate_add)
    then show ?thesis using True lt(2)
      by (simp only: if_True) (subst blocks_of_block, simp, simp, subst blocks_of_block, simp_all)
  next
    case False
    then have "239 - length t = (111 - length t) + 128" by simp
    then have "z = 111 - length t" unfolding z_def by (simp only: mod_add_self2) simp
    then have "t @ [0x80] @ replicate z 0 @ be_bytes 16 (8 * length msg) =
        (t @ [0x80] @ replicate (111 - length t) 0 @ be_bytes 16 (8 * length msg)) @ []" by simp
    then show ?thesis using False lt(2)
      by (simp only: if_False) (subst blocks_of_block, simp_all)
  qed
  finally show ?thesis by (simp add: state_append h cnt)
qed

lemma SHA512_Final_absorbed:
  assumes "sha512_absorbed iv n c msg"
  shows "s_h (fst (SHA512_Final null c)) = sha512_state iv (blocks_of 128 (sha512_pad msg)) \<and>
    snd (SHA512_Final null c) =
      (if null \<or> n \<notin> {48, 64} then None
       else Some (concat (map store_be64 (take (n div 8) (sha512_state iv (blocks_of 128 (sha512_pad msg)))))))"
proof -
  define t where "t = tail_of 128 msg"
  have c: "length (s_u c) = 128" "s_num c = length t" "take (length t) (s_u c) = t" "s_md_len c = n"
    using assms by (auto simp: sha512_absorbed_def sha512_buffered_def sha512_core_def t_def)
  have lt: "length t < 128" by (simp add: t_def length_tail_of)
  define c1 where "c1 = c\<lparr>s_u := (s_u c)[length t := 0x80]\<rparr>"
  define p where "p = final_mark c"
  define c2 where "c2 = (fst p)\<lparr>s_u := buffer_copy (buffer_copy (s_u (fst p)) (snd p) (replicate (112 - snd p) 0))
      112 (store_be64 (s_Nh (fst p)) @ store_be64 (s_Nl (fst p)))\<rparr>"
  have st: "final_length (final_mark c) = ctx_blocks c2 (s_u c2) 1"
    by (simp add: final_length_def c2_def p_def case_prod_beta Let_def)
  have p_def: "p = (if length t + 1 > 112 then
      (ctx_blocks (c1\<lparr>s_u := buffer_copy (s_u c1) (length t + 1) (replicate (128 - (length t + 1)) 0)\<rparr>)
        (buffer_copy (s_u c1) (length t + 1) (replicate (128 - (length t + 1)) 0)) 1, 0)
    else (c1, length t + 1))"
    by (simp add: p_def final_mark_def Let_def c(2) c1_def)
  have u1: "s_u c1 = t @ [0x80] @ drop (length t + 1) (s_u c)"
    using c lt by (simp add: c1_def upd_conv_take_nth_drop)
  have cnt: "store_be64 (s_Nh (fst p)) @ store_be64 (s_Nl (fst p)) = be_bytes 16 (sha512_count c)"
    using store_count [of c] by (simp add: p_def c1_def)
  have "s_h (ctx_blocks c2 (s_u c2) 1) = sha512_state iv (blocks_of 128 (sha512_pad msg))"
  proof (cases "length t + 1 > 112")
    case True
    define b where "b = buffer_copy (s_u c1) (length t + 1) (replicate (128 - (length t + 1)) 0)"
    have b: "b = t @ [0x80] @ replicate (127 - length t) 0"
      unfolding b_def using lt c by (subst buffer_copy_at) (simp_all add: u1)
    have bl: "length b = 128" using lt by (simp add: b)
    have p: "p = (ctx_blocks (c1\<lparr>s_u := b\<rparr>) b 1, 0)" using True by (simp add: p_def b_def)
    have u2: "s_u c2 = replicate 112 0 @ be_bytes 16 (sha512_count c)"
      unfolding c2_def using bl cnt by (simp add: p buffer_copy_at)
    have "s_h c2 = sha512_state (s_h c) [b]"
      using one_block [OF bl] by (simp add: c2_def p ctx_blocks_def c1_def)
    then have "s_h (ctx_blocks c2 (s_u c2) 1) = sha512_state (s_h c) [b, replicate 112 0 @ be_bytes 16 (sha512_count c)]"
      using one_block [of "s_u c2"] u2 by (simp add: ctx_blocks_def sha512_state_def)
    then show ?thesis
      unfolding final_blocks [OF assms] t_def [symmetric] using True by (simp add: b)
  next
    case False
    have p: "p = (c1, length t + 1)" using False by (simp add: p_def)
    have k: "112 - length t = Suc (111 - length t)" using False by simp
    have u2: "s_u c2 = t @ [0x80] @ replicate (111 - length t) 0 @ be_bytes 16 (sha512_count c)"
      unfolding c2_def using False c cnt k by (simp add: p u1 buffer_copy_at)
    have "s_h c2 = s_h c" by (simp add: c2_def p c1_def)
    moreover have "length (s_u c2) = 128" using u2 False by simp
    ultimately have "s_h (ctx_blocks c2 (s_u c2) 1) = sha512_state (s_h c) [s_u c2]"
      using one_block [of "s_u c2"] by (simp add: ctx_blocks_def)
    then show ?thesis
      unfolding final_blocks [OF assms] t_def [symmetric] using False by (simp add: u2)
  qed
  moreover have "s_md_len (ctx_blocks c2 (s_u c2) 1) = n" using c by (simp add: c2_def p_def c1_def)
  ultimately show ?thesis unfolding SHA512_Final_def st Let_def by auto
qed

lemma sha_init_absorbed:
  assumes "length (s_u c) = 128"
  shows "sha512_absorbed sha512_iv 64 (SHA512_Init c) []"
    "sha512_absorbed sha384_iv 48 (SHA384_Init c) []"
  using assms
  by (simp_all add: sha512_absorbed_def sha512_buffered_def sha512_core_def sha512_state_def sha512_count_def
      SHA512_Init_def SHA384_Init_def sha512_iv_def sha384_iv_def)

lemma length_sha512_iv [simp]: "length sha512_iv = 8"
  by (simp add: sha512_iv_def SHA512_Init_def)

lemma length_store_be64s: "length (concat (map store_be64 ws)) = 8 * length ws"
  by (induction ws) (simp_all add: store_be64_def)

lemma length_sha512_hash [simp]: "length (sha512_hash msg) = 64"
  by (simp add: sha512_hash_def length_store_be64s length_sha512_state)

lemma final_length_buffer:
  "sha512_absorbed iv n c msg \<Longrightarrow> length (s_u (fst (SHA512_Final null c))) = 128"
  by (auto simp: SHA512_Final_def final_length_def final_mark_def Let_def sha512_absorbed_def
      sha512_buffered_def sha512_core_def)

lemma final_hash:
  "sha512_absorbed sha512_iv 64 c msg \<Longrightarrow> snd (SHA512_Final False c) = Some (sha512_hash msg)"
  "sha512_absorbed sha384_iv 48 c msg \<Longrightarrow> snd (SHA512_Final False c) = Some (sha384_hash msg)"
  using SHA512_Final_absorbed [of sha512_iv 64 c msg False]
    SHA512_Final_absorbed [of sha384_iv 48 c msg False]
    length_sha512_state [OF length_sha512_iv]
  by (simp_all add: sha512_hash_def sha384_hash_def)

text \<open>The provider's side of the interface, for both digest lengths: a piece is its alignment and its bytes.\<close>

interpretation sha512: digest_machine
  "\<lambda>c. length (s_u c) = 128" "\<lambda>p. length (snd p) < 2 ^ 32" snd
  SHA512_Init "\<lambda>c p. SHA512_Update (fst p) c (snd p)" "\<lambda>c. the (snd (SHA512_Final False c))"
  "\<lambda>k. sha512_absorbed sha512_iv 64" "\<lambda>k. sha512_hash"
  by unfold_locales (simp_all add: sha_init_absorbed SHA512_Update_absorbed final_hash)

interpretation sha384: digest_machine
  "\<lambda>c. length (s_u c) = 128" "\<lambda>p. length (snd p) < 2 ^ 32" snd
  SHA384_Init "\<lambda>c p. SHA512_Update (fst p) c (snd p)" "\<lambda>c. the (snd (SHA512_Final False c))"
  "\<lambda>k. sha512_absorbed sha384_iv 48" "\<lambda>k. sha384_hash"
  by unfold_locales (simp_all add: sha_init_absorbed SHA512_Update_absorbed final_hash)

section \<open>The properties\<close>

text \<open>C23: The three C bodies of the block function (unrolled with rotating variable names, looped
  over a 16-word circular window, and sliding down an 89-word array) compute the same function,
  the 80 rounds of the FIPS 180-4 compression over the recursively defined message schedule.\<close>

theorem sha512_blocks_agree:
  assumes "length hs = 8"
  shows "sha512_block_unrolled hs W = sha512_compress hs W \<and>
    sha512_block_small hs W = sha512_compress hs W \<and> sha512_block_i386 hs W = sha512_compress hs W"
  using assms by (simp add: block_unrolled block_small block_i386)

theorem sha512_blocks_agree_witness:
  "sha512_block_unrolled (replicate 8 1) (replicate 128 2) = sha512_compress (replicate 8 1) (replicate 128 2) \<and>
   sha512_block_small (replicate 8 1) (replicate 128 2) = sha512_compress (replicate 8 1) (replicate 128 2) \<and>
   sha512_block_i386 (replicate 8 1) (replicate 128 2) = sha512_compress (replicate 8 1) (replicate 128 2)"
  by (rule sha512_blocks_agree) simp

text \<open>C24: However a message is split over calls of \<open>SHA512_Update\<close>, aligned or not, and whatever the
  context held before \<open>SHA512_Init\<close>, \<open>SHA512_Final\<close> returns the SHA-512 digest of the message: the
  128-bit bit count, the partial block and the one- or two-block padding are right at every length.\<close>

theorem sha512_streaming:
  assumes "length (s_u c) = 128" "\<forall>p \<in> set pieces. length (snd p) < 2 ^ 32"
  shows "snd (SHA512_Final False (fold (\<lambda>(una, data) c. SHA512_Update una c data) pieces (SHA512_Init c))) =
    Some (sha512_hash (concat (map snd pieces)))"
  using final_hash(1) [OF sha512.absorbed_fold [OF sha512.absorbed_init [OF assms(1)] assms(2)]]
  by (simp add: case_prod_beta')

theorem sha512_streaming_witness:
  "snd (SHA512_Final False (fold (\<lambda>(una, data) c. SHA512_Update una c data) [(True, [97]), (False, [98, 99])]
      (SHA512_Init (sha512_ctx.make [] 5 6 (replicate 128 9) 7 8)))) = Some (sha512_hash [97, 98, 99])"
  using sha512_streaming [of "sha512_ctx.make [] 5 6 (replicate 128 9) 7 8" "[(True, [97]), (False, [98, 99])]"]
  by (simp add: sha512_ctx.make_def)

text \<open>\<open>SHA512_Final\<close> writes a digest exactly when \<open>md\<close> is not null and the context was
  initialised by \<open>SHA384_Init\<close> or \<open>SHA512_Init\<close>: 48 or 64 bytes, otherwise it returns 0.\<close>

theorem sha512_final_output:
  "map_option length (snd (SHA512_Final md_null c)) =
     (if md_null then None else if s_md_len c \<in> {48, 64} then Some (s_md_len c) else None)"
proof -
  define c1 where "c1 = final_length (final_mark c)"
  have "length (s_h c1) = 8"
    by (simp add: c1_def final_length_def Let_def ctx_blocks_def block_unrolled length_compress split: prod.split)
  moreover have "s_md_len c1 = s_md_len c"
    by (simp add: c1_def final_length_def final_mark_def Let_def)
  ultimately show ?thesis
    by (auto simp: SHA512_Final_def c1_def [symmetric] Let_def length_store_be64s)
qed

text \<open>The one-shot functions \<open>SHA384\<close> and \<open>SHA512\<close> return the digest of their argument.\<close>

theorem sha512_one_shot:
  assumes "length (s_u c) = 128" "length d < 2 ^ 32"
  shows "SHA512 c una d = Some (sha512_hash d) \<and> SHA384 c una d = Some (sha384_hash d)"
  using final_hash(1) [OF SHA512_Update_absorbed [OF sha_init_absorbed(1) [OF assms(1)] assms(2)]]
    final_hash(2) [OF SHA512_Update_absorbed [OF sha_init_absorbed(2) [OF assms(1)] assms(2)]]
  by (simp add: SHA512_def SHA384_def)

theorem sha512_one_shot_witness:
  "SHA512 (sha512_ctx.make [] 5 6 (replicate 128 9) 7 8) True [1] = Some (sha512_hash [1]) \<and>
   SHA384 (sha512_ctx.make [] 5 6 (replicate 128 9) 7 8) True [1] = Some (sha384_hash [1])"
  by (rule sha512_one_shot) (simp_all add: sha512_ctx.make_def)

end
