(* ===== verification/Hmac.thy ===== *)
theory Hmac
  imports Sha512
begin

text \<open>
  Personal-HomeKit-HAP/rfc6234-master/sha.c and hmac.c: the wrappers over the OpenSSL hash and
  the keyed hash of RFC 2104 over them. Context pointers are options (None is the null pointer),
  the error codes are integers as in sha.h, and C's \<open>||\<close>, which turns every code into 0 or 1, is
  \<open>or_else\<close>. The contents of uninitialised local contexts are arguments.
\<close>

section \<open>The code\<close>

definition shaSuccess :: int where "shaSuccess = 0"
definition shaNull :: int where "shaNull = 1"
definition shaInputTooLong :: int where "shaInputTooLong = 2"
definition shaStateError :: int where "shaStateError = 3"
definition shaBadParam :: int where "shaBadParam = 4"

lemmas sha_codes = shaSuccess_def shaNull_def shaInputTooLong_def shaStateError_def shaBadParam_def

text \<open>\<open>f(...) || g(...)\<close> for calls that change a state: the second runs when the first returns 0.\<close>

definition or_else :: "('s \<Rightarrow> 's \<times> int) \<Rightarrow> ('s \<Rightarrow> 's \<times> int) \<Rightarrow> 's \<Rightarrow> 's \<times> int" where
  "or_else f g s =
     (let (s, r) = f s
      in if r \<noteq> 0 then (s, 1) else let (s, q) = g s in (s, if q \<noteq> 0 then 1 else 0))"

text \<open>The conversion of an \<open>int\<close> argument to the \<open>unsigned int\<close> of the callee.\<close>

definition unsigned_of :: "int \<Rightarrow> nat" where
  "unsigned_of x = nat (x mod 2 ^ 32)"

definition SHA512Reset :: "sha512_ctx \<Rightarrow> sha512_ctx \<times> int" where
  "SHA512Reset c = (SHA512_Init c, 0)"

definition SHA512Input :: "byte list \<Rightarrow> nat \<Rightarrow> sha512_ctx \<Rightarrow> sha512_ctx \<times> int" where
  "SHA512Input data len c = (SHA512_Update False c (take len data), 0)"

definition SHA512FinalBits :: "byte list \<Rightarrow> nat \<Rightarrow> sha512_ctx \<Rightarrow> sha512_ctx \<times> int" where
  "SHA512FinalBits data len c = (SHA512_Update False c (take len data), 0)"

text \<open>The result is written over the first bytes of \<open>md\<close>, if there is one.\<close>

definition SHA512Result :: "sha512_ctx \<times> byte list \<Rightarrow> (sha512_ctx \<times> byte list) \<times> int" where
  "SHA512Result s =
     (let (c, md) = s; (c, out) = SHA512_Final False c
      in ((c, case out of None \<Rightarrow> md | Some d \<Rightarrow> buffer_copy md 0 d), 0))"

record hmac_ctx =
  hm_hashSize :: int
  hm_blockSize :: int
  hm_sha :: sha512_ctx
  hm_k_opad :: "byte list"
  hm_Computed :: int
  hm_Corrupted :: int

text \<open>The two loops that fill a pad, \<open>x\<close> being the pad byte.\<close>

definition key_pad :: "byte \<Rightarrow> byte list \<Rightarrow> int \<Rightarrow> byte list" where
  "key_pad x key key_len =
     map (\<lambda>i. if int i < key_len then key ! i XOR x else x) [0..<128]"

text \<open>
  The shortening of a long key: \<open>tcontext\<close> and \<open>tempkey\<close> are uninitialised locals. The result
  is an error code or the key and length used from then on.
\<close>

definition short_key :: "sha512_ctx \<Rightarrow> byte list \<Rightarrow> byte list \<Rightarrow> int \<Rightarrow> int + byte list \<times> int" where
  "short_key tcontext tempkey key key_len =
     (if key_len > 128 then
        let (s, err) =
          or_else (or_else (\<lambda>(c, t). let (c, r) = SHA512Reset c in ((c, t), r))
              (\<lambda>(c, t). let (c, r) = SHA512Input key (unsigned_of key_len) c in ((c, t), r)))
            SHA512Result (tcontext, tempkey)
        in if err \<noteq> shaSuccess then Inl err else Inr (snd s, 64)
      else Inr (key, key_len))"

definition hmacReset ::
  "sha512_ctx \<Rightarrow> byte list \<Rightarrow> byte list \<Rightarrow> int \<Rightarrow> hmac_ctx option \<Rightarrow> hmac_ctx option \<times> int" where
  "hmacReset tcontext tempkey key key_len context =
     (case context of None \<Rightarrow> (None, shaNull)
      | Some h \<Rightarrow>
        let h = h\<lparr>hm_Computed := 0, hm_Corrupted := shaSuccess, hm_blockSize := 128, hm_hashSize := 64\<rparr>
        in case short_key tcontext tempkey key key_len of Inl err \<Rightarrow> (Some h, err)
        | Inr (key, key_len) \<Rightarrow>
          let k_ipad = key_pad 0x36 key key_len;
              h = h\<lparr>hm_k_opad := key_pad 0x5c key key_len\<rparr>;
              (c, ret) = or_else SHA512Reset (SHA512Input k_ipad 128) (hm_sha h)
          in (Some (h\<lparr>hm_sha := c, hm_Corrupted := ret\<rparr>), ret))"

definition hmacInput :: "byte list \<Rightarrow> int \<Rightarrow> hmac_ctx option \<Rightarrow> hmac_ctx option \<times> int" where
  "hmacInput txt text_len context =
     (case context of None \<Rightarrow> (None, shaNull)
      | Some h \<Rightarrow>
        if hm_Corrupted h \<noteq> 0 then (Some h, hm_Corrupted h)
        else if hm_Computed h \<noteq> 0 then (Some (h\<lparr>hm_Corrupted := shaStateError\<rparr>), shaStateError)
        else let (c, r) = SHA512Input txt (unsigned_of text_len) (hm_sha h)
             in (Some (h\<lparr>hm_sha := c, hm_Corrupted := r\<rparr>), r))"

text \<open>
  The byte \<open>bits\<close> is passed where a pointer is expected: what is hashed is what memory holds at that
  address (the argument \<open>mem\<close>), \<open>bit_count\<close> bytes of it.
\<close>

definition hmacFinalBits ::
  "(nat \<Rightarrow> byte list) \<Rightarrow> byte \<Rightarrow> nat \<Rightarrow> hmac_ctx option \<Rightarrow> hmac_ctx option \<times> int" where
  "hmacFinalBits mem bits bit_count context =
     (case context of None \<Rightarrow> (None, shaNull)
      | Some h \<Rightarrow>
        if hm_Corrupted h \<noteq> 0 then (Some h, hm_Corrupted h)
        else if hm_Computed h \<noteq> 0 then (Some (h\<lparr>hm_Corrupted := shaStateError\<rparr>), shaStateError)
        else let (c, r) = SHA512FinalBits (mem (unat bits)) bit_count (hm_sha h)
             in (Some (h\<lparr>hm_sha := c, hm_Corrupted := r\<rparr>), r))"

text \<open>The chain of \<open>hmacResult\<close>, with the digest as the temporary buffer it also is.\<close>

definition hmac_outer :: "hmac_ctx \<Rightarrow> sha512_ctx \<times> byte list \<Rightarrow> (sha512_ctx \<times> byte list) \<times> int" where
  "hmac_outer h =
     or_else (or_else (or_else (or_else SHA512Result
       (\<lambda>(c, d). let (c, r) = SHA512Reset c in ((c, d), r)))
       (\<lambda>(c, d). let (c, r) = SHA512Input (hm_k_opad h) (unsigned_of (hm_blockSize h)) c in ((c, d), r)))
       (\<lambda>(c, d). let (c, r) = SHA512Input d (unsigned_of (hm_hashSize h)) c in ((c, d), r)))
       SHA512Result"

definition hmacResult ::
  "hmac_ctx option \<times> byte list \<Rightarrow> (hmac_ctx option \<times> byte list) \<times> int" where
  "hmacResult s =
     (let (context, digest) = s
      in case context of None \<Rightarrow> ((None, digest), shaNull)
      | Some h \<Rightarrow>
        if hm_Corrupted h \<noteq> 0 then ((Some h, digest), hm_Corrupted h)
        else if hm_Computed h \<noteq> 0
        then ((Some (h\<lparr>hm_Corrupted := shaStateError\<rparr>), digest), shaStateError)
        else let ((c, digest), ret) = hmac_outer h (hm_sha h, digest)
             in ((Some (h\<lparr>hm_sha := c, hm_Computed := 1, hm_Corrupted := ret\<rparr>), digest), ret))"

text \<open>Uninitialised memory of a call: the two contexts and the buffer for a long key.\<close>

record hmac_stack =
  st_context :: hmac_ctx
  st_tcontext :: sha512_ctx
  st_tempkey :: "byte list"

definition on_context ::
  "(hmac_ctx option \<Rightarrow> hmac_ctx option \<times> int) \<Rightarrow> hmac_ctx option \<times> byte list \<Rightarrow>
   (hmac_ctx option \<times> byte list) \<times> int" where
  "on_context f s = (let (context, digest) = s; (context, r) = f context in ((context, digest), r))"

definition hmac :: "hmac_stack \<Rightarrow> byte list \<Rightarrow> int \<Rightarrow> byte list \<Rightarrow> int \<Rightarrow> byte list \<Rightarrow> byte list \<times> int" where
  "hmac st message_array len key key_len digest =
     (let ((context, digest), r) =
        or_else (or_else (on_context (hmacReset (st_tcontext st) (st_tempkey st) key key_len))
            (on_context (hmacInput message_array len)))
          hmacResult (Some (st_context st), digest)
      in (digest, r))"

section \<open>RFC 2104\<close>

definition hmac_key :: "byte list \<Rightarrow> byte list" where
  "hmac_key key = (let k = (if length key > 128 then sha512_hash key else key)
    in k @ replicate (128 - length k) 0)"

definition hmac_mac :: "byte list \<Rightarrow> byte list \<Rightarrow> byte list" where
  "hmac_mac key msg =
     sha512_hash (map (\<lambda>b. b XOR 0x5c) (hmac_key key) @
       sha512_hash (map (\<lambda>b. b XOR 0x36) (hmac_key key) @ msg))"

lemma length_hmac_key [simp]: "length (hmac_key key) = 128"
  by (simp add: hmac_key_def Let_def)

lemma length_hmac_mac [simp]: "length (hmac_mac key msg) = 64"
  by (simp add: hmac_mac_def)

abbreviation sha_state :: "sha512_ctx \<Rightarrow> byte list \<Rightarrow> bool" where
  "sha_state \<equiv> sha512_absorbed sha512_iv 64"

lemma unsigned_of_small [simp]: "0 \<le> x \<Longrightarrow> x < 2 ^ 31 \<Longrightarrow> unsigned_of x = nat x"
  by (simp add: unsigned_of_def)

lemma SHA512Input_state:
  assumes "sha_state c xs" "length d < 2 ^ 31" "n = length d"
  shows "snd (SHA512Input d n c) = 0" "sha_state (fst (SHA512Input d n c)) (xs @ d)"
  using sha512.absorbed_update [OF assms(1), of "(False, d)"] assms by (simp_all add: SHA512Input_def)

lemma SHA512Reset_state:
  assumes "length (s_u c) = 128"
  shows "snd (SHA512Reset c) = 0" "sha_state (fst (SHA512Reset c)) []"
  using sha512.absorbed_init [OF assms] by (simp_all add: SHA512Reset_def)

lemma SHA512Result_state:
  assumes "sha_state c xs" "length md = 64"
  obtains c' where "SHA512Result (c, md) = ((c', sha512_hash xs), 0)" "length (s_u c') = 128"
proof
  show "SHA512Result (c, md) = ((fst (SHA512_Final False c), sha512_hash xs), 0)"
    using final_hash(1) [OF assms(1)] assms(2)
    by (simp add: SHA512Result_def case_prod_beta buffer_copy_at)
  show "length (s_u (fst (SHA512_Final False c))) = 128" by (rule final_length_buffer [OF assms(1)])
qed

lemma or_else_ok:
  "f s = (s', 0) \<Longrightarrow> g s' = (s'', 0) \<Longrightarrow> or_else f g s = (s'', 0)"
  by (simp add: or_else_def)

text \<open>Reset and one input, as the code chains them.\<close>

lemma reset_input:
  assumes "length (s_u c) = 128" "length d < 2 ^ 31" "n = length d"
  obtains c' where "or_else SHA512Reset (SHA512Input d n) c = (c', 0)" "sha_state c' d"
proof
  let ?c = "fst (SHA512Reset c)"
  show "or_else SHA512Reset (SHA512Input d n) c = (fst (SHA512Input d n ?c), 0)"
    using SHA512Reset_state(1) [OF assms(1)] SHA512Input_state(1) [OF SHA512Reset_state(2) [OF assms(1)] assms(2,3)]
    by (intro or_else_ok [of _ _ ?c]) (simp_all add: prod_eq_iff)
  show "sha_state (fst (SHA512Input d n ?c)) d"
    using SHA512Input_state(2) [OF SHA512Reset_state(2) [OF assms(1)] assms(2,3)] by simp
qed

lemma key_pad_xor:
  assumes "length k \<le> 128"
  shows "key_pad x k (int (length k)) = map (\<lambda>b. b XOR x) (k @ replicate (128 - length k) 0)"
  using assms by (intro nth_equalityI) (auto simp: key_pad_def nth_append)

lemma short_key_pads:
  assumes "key_len = int (length key)" "length key < 2 ^ 31" "length (s_u tc) = 128" "length tk = 64"
  obtains k where "short_key tc tk key key_len = Inr (k, int (length k))"
    "\<And>x. key_pad x k (int (length k)) = map (\<lambda>b. b XOR x) (hmac_key key)"
proof (cases "length key > 128")
  case True
  let ?c = "fst (SHA512Reset tc)"
  let ?d = "fst (SHA512Input key (unsigned_of key_len) ?c)"
  have n: "unsigned_of key_len = length key" using assms(1,2) by simp
  note r = SHA512Reset_state [OF assms(3)]
  note i = SHA512Input_state [OF r(2) assms(2) n]
  obtain c' where res: "SHA512Result (?d, tk) = ((c', sha512_hash key), 0)"
    using SHA512Result_state [OF i(2) assms(4)] by auto
  have "or_else (or_else (\<lambda>(c, t). let (c, r) = SHA512Reset c in ((c, t), r))
      (\<lambda>(c, t). let (c, r) = SHA512Input key (unsigned_of key_len) c in ((c, t), r))) SHA512Result (tc, tk)
    = ((c', sha512_hash key), 0)"
    using res by (simp add: or_else_def SHA512Reset_def SHA512Input_def)
  then have "short_key tc tk key key_len = Inr (sha512_hash key, int (length (sha512_hash key)))"
    using True assms(1) by (simp add: short_key_def sha_codes)
  moreover have "\<And>x. key_pad x (sha512_hash key) (int (length (sha512_hash key))) = map (\<lambda>b. b XOR x) (hmac_key key)"
    using True key_pad_xor [of "sha512_hash key"] by (simp add: hmac_key_def)
  ultimately show ?thesis by (rule that)
next
  case False
  then have "short_key tc tk key key_len = Inr (key, int (length key))"
    using assms(1) by (simp add: short_key_def)
  moreover have "\<And>x. key_pad x key (int (length key)) = map (\<lambda>b. b XOR x) (hmac_key key)"
    using False key_pad_xor [of key] by (simp add: hmac_key_def)
  ultimately show ?thesis by (rule that)
qed

section \<open>The context represents a message\<close>

definition hmac_absorbed :: "byte list \<Rightarrow> hmac_ctx option \<Rightarrow> byte list \<Rightarrow> bool" where
  "hmac_absorbed key context msg \<longleftrightarrow>
     (\<exists>h. context = Some h \<and> hm_Computed h = 0 \<and> hm_Corrupted h = 0 \<and> hm_blockSize h = 128 \<and>
        hm_hashSize h = 64 \<and> hm_k_opad h = map (\<lambda>b. b XOR 0x5c) (hmac_key key) \<and>
        sha_state (hm_sha h) (map (\<lambda>b. b XOR 0x36) (hmac_key key) @ msg))"

lemma hmacReset_absorbed:
  assumes "key_len = int (length key)" "length key < 2 ^ 31" "length (s_u tc) = 128" "length tk = 64"
    "length (s_u (hm_sha h)) = 128"
  shows "snd (hmacReset tc tk key key_len (Some h)) = 0"
    "hmac_absorbed key (fst (hmacReset tc tk key key_len (Some h))) []"
proof -
  obtain k where k: "short_key tc tk key key_len = Inr (k, int (length k))"
    "\<And>x. key_pad x k (int (length k)) = map (\<lambda>b. b XOR x) (hmac_key key)"
    by (rule short_key_pads [OF assms(1-4)]) blast
  obtain c where c: "or_else SHA512Reset (SHA512Input (map (\<lambda>b. b XOR 0x36) (hmac_key key)) 128) (hm_sha h) = (c, 0)"
    "sha_state c (map (\<lambda>b. b XOR 0x36) (hmac_key key))"
    by (rule reset_input [OF assms(5), of "map (\<lambda>b. b XOR 0x36) (hmac_key key)" 128]) simp_all
  show "snd (hmacReset tc tk key key_len (Some h)) = 0"
    "hmac_absorbed key (fst (hmacReset tc tk key key_len (Some h))) []"
    using c by (simp_all add: hmacReset_def Let_def k hmac_absorbed_def)
qed

lemma hmacInput_absorbed:
  assumes "hmac_absorbed key ctx msg" "text_len = int (length txt)" "length txt < 2 ^ 31"
  shows "snd (hmacInput txt text_len ctx) = 0" "hmac_absorbed key (fst (hmacInput txt text_len ctx)) (msg @ txt)"
proof -
  obtain h where h: "ctx = Some h" "hm_Computed h = 0" "hm_Corrupted h = 0" "hm_blockSize h = 128"
    "hm_hashSize h = 64" "hm_k_opad h = map (\<lambda>b. b XOR 0x5c) (hmac_key key)"
    "sha_state (hm_sha h) (map (\<lambda>b. b XOR 0x36) (hmac_key key) @ msg)"
    using assms(1) by (auto simp: hmac_absorbed_def)
  have n: "unsigned_of text_len = length txt" using assms(2,3) by simp
  note i = SHA512Input_state [OF h(7) assms(3) n]
  show "snd (hmacInput txt text_len ctx) = 0" "hmac_absorbed key (fst (hmacInput txt text_len ctx)) (msg @ txt)"
    using i h by (simp_all add: hmacInput_def case_prod_beta Let_def hmac_absorbed_def)
qed

lemma hmacResult_absorbed:
  assumes "hmac_absorbed key ctx msg" "length digest = 64"
  obtains h where "hmacResult (ctx, digest) = ((Some h, hmac_mac key msg), 0)"
    "hm_Computed h = 1" "hm_Corrupted h = 0"
proof -
  obtain h where h: "ctx = Some h" "hm_Computed h = 0" "hm_Corrupted h = 0" "hm_blockSize h = 128"
    "hm_hashSize h = 64" "hm_k_opad h = map (\<lambda>b. b XOR 0x5c) (hmac_key key)"
    "sha_state (hm_sha h) (map (\<lambda>b. b XOR 0x36) (hmac_key key) @ msg)"
    using assms(1) by (auto simp: hmac_absorbed_def)
  define inner where "inner = sha512_hash (map (\<lambda>b. b XOR 0x36) (hmac_key key) @ msg)"
  have li: "length inner = 64" by (simp add: inner_def)
  obtain c1 where c1: "SHA512Result (hm_sha h, digest) = ((c1, inner), 0)" "length (s_u c1) = 128"
    unfolding inner_def by (rule SHA512Result_state [OF h(7) assms(2)])
  note r = SHA512Reset_state [OF c1(2)]
  define c2 where "c2 = fst (SHA512Reset c1)"
  have "128 = length (hm_k_opad h)" "length (hm_k_opad h) < 2 ^ 31" by (simp_all add: h)
  note i = SHA512Input_state [OF r(2) this(2,1), folded c2_def]
  define c3 where "c3 = fst (SHA512Input (hm_k_opad h) 128 c2)"
  have "length inner < 2 ^ 31" by (simp add: li)
  note j = SHA512Input_state [OF i(2) this li [symmetric], folded c3_def]
  define c4 where "c4 = fst (SHA512Input inner 64 c3)"
  obtain c5 where c5: "SHA512Result (c4, inner) = ((c5, hmac_mac key msg), 0)"
    using SHA512Result_state [OF j(2) li, folded c4_def] by (auto simp: hmac_mac_def inner_def h)
  have n: "unsigned_of 128 = 128" "unsigned_of 64 = 64" by simp_all
  have "hmac_outer h (hm_sha h, digest) = ((c5, hmac_mac key msg), 0)"
    unfolding hmac_outer_def h(4,5)
    using c5 n by (simp add: or_else_def SHA512Reset_def SHA512Input_def c1 c2_def c3_def c4_def)
  then have "hmacResult (ctx, digest) =
      ((Some (h\<lparr>hm_sha := c5, hm_Computed := 1, hm_Corrupted := 0\<rparr>), hmac_mac key msg), 0)"
    by (simp add: hmacResult_def h)
  then show ?thesis by (rule that) simp_all
qed
definition hmac_stack_ok :: "hmac_stack \<Rightarrow> bool" where
  "hmac_stack_ok st \<longleftrightarrow> length (s_u (hm_sha (st_context st))) = 128 \<and>
     length (s_u (st_tcontext st)) = 128 \<and> length (st_tempkey st) = 64"

text \<open>The provider's side of the interface: a key of the machine is the memory of the call with the key.\<close>

interpretation hmac_machine: digest_machine
  "\<lambda>(st, key). hmac_stack_ok st \<and> length key < 2 ^ 31" "\<lambda>m. length m < 2 ^ 31" "\<lambda>m. m"
  "\<lambda>(st, key). fst (hmacReset (st_tcontext st) (st_tempkey st) key (int (length key)) (Some (st_context st)))"
  "\<lambda>c m. fst (hmacInput m (int (length m)) c)" "\<lambda>c. snd (fst (hmacResult (c, replicate 64 0)))"
  "\<lambda>(st, key). hmac_absorbed key" "\<lambda>(st, key). hmac_mac key"
proof (unfold_locales, goal_cases)
  case (3 k s xs)
  obtain st key where k: "k = (st, key)" by fastforce
  have "hmac_absorbed key s xs" using 3 by (simp add: k)
  then obtain h where "hmacResult (s, replicate 64 0) = ((Some h, hmac_mac key xs), 0)"
    using hmacResult_absorbed [of key s xs "replicate 64 0"] by auto
  then show ?case by (simp add: k)
qed (auto simp: hmac_stack_ok_def intro: hmacReset_absorbed hmacInput_absorbed)

section \<open>The properties\<close>

text \<open>C25: \<open>hmac\<close> succeeds and leaves in \<open>digest\<close> the RFC 2104 code of the message with SHA-512, for
  keys shorter and longer than the block, whatever the uninitialised contexts held.\<close>

theorem hmac_correct:
  assumes "hmac_stack_ok st" "length key < 2 ^ 31" "length msg < 2 ^ 31" "length digest = 64"
  shows "hmac st msg (int (length msg)) key (int (length key)) digest = (hmac_mac key msg, 0)"
proof -
  note r = hmacReset_absorbed [OF refl assms(2), of "st_tcontext st" "st_tempkey st" "st_context st"]
  define c1 where "c1 = hmacReset (st_tcontext st) (st_tempkey st) key (int (length key)) (Some (st_context st))"
  have c1: "snd c1 = 0" "hmac_absorbed key (fst c1) []"
    using r assms(1) by (simp_all add: c1_def hmac_stack_ok_def)
  define c2 where "c2 = hmacInput msg (int (length msg)) (fst c1)"
  have c2: "snd c2 = 0" "hmac_absorbed key (fst c2) msg"
    using hmacInput_absorbed [OF c1(2) refl assms(3)] by (simp_all add: c2_def)
  obtain h where "hmacResult (fst c2, digest) = ((Some h, hmac_mac key msg), 0)"
    by (rule hmacResult_absorbed [OF c2(2) assms(4)])
  then show ?thesis
    using c1(1) c2(1) by (simp add: hmac_def or_else_def on_context_def case_prod_beta c1_def c2_def)
qed

theorem hmac_correct_witness:
  "hmac (hmac_stack.make (hmac_ctx.make 7 7 (sha512_ctx.make [] 0 0 (replicate 128 7) 0 0) [] 1 4)
      (sha512_ctx.make [] 0 0 (replicate 128 7) 0 0) (replicate 64 3)) [1, 2] 2 (replicate 130 9) 130 (replicate 64 0)
    = (hmac_mac (replicate 130 9) [1, 2], 0)"
  using hmac_correct [of "hmac_stack.make (hmac_ctx.make 7 7 (sha512_ctx.make [] 0 0 (replicate 128 7) 0 0) [] 1 4)
      (sha512_ctx.make [] 0 0 (replicate 128 7) 0 0) (replicate 64 3)" "replicate 130 9" "[1, 2]" "replicate 64 0"]
  by (simp add: hmac_stack_ok_def hmac_stack.make_def hmac_ctx.make_def sha512_ctx.make_def)

text \<open>A message given to \<open>hmacInput\<close> in pieces of any sizes gets the code of the whole message.\<close>

theorem hmac_streaming:
  assumes "hmac_stack_ok st" "length key < 2 ^ 31" "\<forall>p \<in> set pieces. length p < 2 ^ 31"
  shows "snd (fst (hmacResult
      (fold (\<lambda>p c. fst (hmacInput p (int (length p)) c)) pieces
        (fst (hmacReset (st_tcontext st) (st_tempkey st) key (int (length key)) (Some (st_context st)))),
       replicate 64 0))) = hmac_mac key (concat pieces)"
  using hmac_machine.final_fold [of "(st, key)" pieces] assms by simp

theorem hmac_streaming_witness:
  "snd (fst (hmacResult
      (fold (\<lambda>p c. fst (hmacInput p (int (length p)) c)) [[1], [2, 3]]
        (fst (hmacReset (sha512_ctx.make [] 0 0 (replicate 128 7) 0 0) (replicate 64 3) [5] 1
          (Some (hmac_ctx.make 7 7 (sha512_ctx.make [] 0 0 (replicate 128 7) 0 0) [] 1 4)))),
       replicate 64 0))) = hmac_mac [5] [1, 2, 3]"
  using hmac_streaming [of "hmac_stack.make (hmac_ctx.make 7 7 (sha512_ctx.make [] 0 0 (replicate 128 7) 0 0) [] 1 4)
      (sha512_ctx.make [] 0 0 (replicate 128 7) 0 0) (replicate 64 3)" "[5]" "[[1], [2, 3]]"]
  by (simp add: hmac_stack_ok_def hmac_stack.make_def hmac_ctx.make_def sha512_ctx.make_def)

text \<open>A context that has given its result, or that an error corrupted, refuses every later call
  with a code that sticks: nothing is hashed, the digest buffer is untouched, and the code is the
  recorded one or \<open>shaStateError\<close>.\<close>

theorem hmac_refuses:
  assumes "hm_Corrupted h \<noteq> 0 \<or> hm_Computed h \<noteq> 0"
  defines "code \<equiv> (if hm_Corrupted h \<noteq> 0 then hm_Corrupted h else shaStateError)"
  shows "hmacInput m n (Some h) = (Some (h\<lparr>hm_Corrupted := code\<rparr>), code) \<and>
    hmacFinalBits mem bits k (Some h) = (Some (h\<lparr>hm_Corrupted := code\<rparr>), code) \<and>
    hmacResult (Some h, digest) = ((Some (h\<lparr>hm_Corrupted := code\<rparr>), digest), code) \<and> code \<noteq> 0"
  using assms(1)
  by (auto simp: code_def hmacInput_def hmacFinalBits_def hmacResult_def shaStateError_def)

theorem hmac_refuses_witness:
  "hmacInput [1] 1 (Some (hmac_ctx.make 64 128 undefined [] 1 0)) =
     (Some ((hmac_ctx.make 64 128 undefined [] 1 0)\<lparr>hm_Corrupted := 3\<rparr>), 3)"
  using hmac_refuses [of "hmac_ctx.make 64 128 undefined [] 1 0" "[1]" 1]
  by (simp add: hmac_ctx.make_def shaStateError_def)

end
