(* ===== verification/Srp.thy ===== *)
theory Srp
  imports Bignum Hmac
begin

text \<open>
  Personal-HomeKit-HAP/srp/srp.c and srp6_server.c: the server of the SRP-6 and SRP-6a password
  protocols behind its interface of contexts and method tables. The context is a record; a pointer
  that may be null is an option, a null dereference and a write outside a buffer are None. The two
  method tables of the repository are a datatype with one dispatch function for each member. What
  the code gets from outside (buffers of the allocator, random bytes, the system password lookup,
  the table of known parameters, the contents of fresh memory) is the record \<open>srp_world\<close>; the
  allocation of the structs themselves succeeds.
\<close>

section \<open>The state\<close>

definition SRP_SUCCESS :: int where "SRP_SUCCESS = 0"
definition SRP_ERROR :: int where "SRP_ERROR = - 1"

definition SRP_OK :: "int \<Rightarrow> bool" where
  "SRP_OK v \<longleftrightarrow> v = SRP_SUCCESS"

definition SRP_MAGIC_SERVER :: int where "SRP_MAGIC_SERVER = 28"
definition SRP_FLAG_MOD_ACCEL :: u32 where "SRP_FLAG_MOD_ACCEL = 1"
definition SRP_FLAG_LEFT_PAD :: u32 where "SRP_FLAG_LEFT_PAD = 2"
definition RFC2945_KEY_LEN :: nat where "RFC2945_KEY_LEN = 64"
definition RFC2945_RESP_LEN :: nat where "RFC2945_RESP_LEN = 64"

record server_meth_st =
  sm_hash :: sha512_ctx
  sm_ckhash :: sha512_ctx
  sm_oldhash :: sha512_ctx
  sm_oldckhash :: sha512_ctx
  sm_k :: "byte list"
  sm_r :: "byte list"

datatype srp_method = SRP6_server_method | SRP6a_server_method

datatype param_verify_cb = builtin_param_verify | compat_param_verify | default_param_verify

record srp =
  srp_magic :: int
  srp_flags :: u32
  srp_username :: cstr
  srp_modulus :: "bignum option"
  srp_generator :: "bignum option"
  srp_salt :: "cstr option"
  srp_verifier :: "bignum option"
  srp_password :: "bignum option"
  srp_pubkey :: "bignum option"
  srp_secret :: "bignum option"
  srp_u :: "bignum option"
  srp_key :: "bignum option"
  srp_ex_data :: cstr
  srp_meth :: srp_method
  srp_meth_data :: "server_meth_st option"
  srp_accel :: "bignum option"
  srp_param_cb :: "param_verify_cb option"
  srp_slu :: bool

text \<open>The entry of a user: modulus, generator, salt and verifier.\<close>

record t_passwd =
  pw_modulus :: "byte list"
  pw_generator :: "byte list"
  pw_salt :: "byte list"
  pw_password :: "byte list"

record srp_world =
  w_mem :: "int \<Rightarrow> byte list option"
  w_random :: "nat \<Rightarrow> byte list"
  w_gettpnam :: "byte list \<Rightarrow> t_passwd option"
  w_preparams :: "(byte list \<times> byte list) list"
  w_is_prime :: "bignum \<Rightarrow> nat \<Rightarrow> bool"
  w_engine :: "modexp_meth option"
  w_ctx :: sha512_ctx
  w_meth :: server_meth_st

text \<open>The static variables of the library.\<close>

record srp_lib =
  library_initialized :: int
  rand_initialized :: bool
  srp_modulus_min_bits :: int
  srp_sb_cb :: "int \<Rightarrow> int"

definition SRP_DEFAULT_MIN_BITS :: int where "SRP_DEFAULT_MIN_BITS = 512"

definition default_secret_bits_cb :: "int \<Rightarrow> int" where
  "default_secret_bits_cb modsize = 256"

definition srp_lib_start :: srp_lib where
  "srp_lib_start = \<lparr>library_initialized = 0, rand_initialized = False,
     srp_modulus_min_bits = SRP_DEFAULT_MIN_BITS, srp_sb_cb = default_secret_bits_cb\<rparr>"

definition SRP_initialize_library :: "srp_lib \<Rightarrow> srp_lib \<times> int" where
  "SRP_initialize_library g =
     (if library_initialized g = 0
      then (g\<lparr>rand_initialized := True, library_initialized := 1\<rparr>, SRP_SUCCESS)
      else (g, SRP_SUCCESS))"

definition SRP_finalize_library :: "srp_lib \<Rightarrow> srp_lib \<times> int" where
  "SRP_finalize_library g =
     (if library_initialized g > 0 then (g\<lparr>library_initialized := 0\<rparr>, SRP_SUCCESS) else (g, SRP_SUCCESS))"

definition SRP_set_modulus_min_bits :: "srp_lib \<Rightarrow> int \<Rightarrow> srp_lib \<times> int" where
  "SRP_set_modulus_min_bits g minbits = (g\<lparr>srp_modulus_min_bits := minbits\<rparr>, SRP_SUCCESS)"

definition SRP_get_modulus_min_bits :: "srp_lib \<Rightarrow> int" where
  "SRP_get_modulus_min_bits g = srp_modulus_min_bits g"

definition SRP_set_secret_bits_cb :: "srp_lib \<Rightarrow> (int \<Rightarrow> int) \<Rightarrow> srp_lib \<times> int" where
  "SRP_set_secret_bits_cb g cb = (g\<lparr>srp_sb_cb := cb\<rparr>, SRP_SUCCESS)"

definition SRP_get_secret_bits :: "srp_lib \<Rightarrow> int \<Rightarrow> int" where
  "SRP_get_secret_bits g modsize = srp_sb_cb g modsize"

section \<open>Hashing\<close>

definition SHAInit :: "sha512_ctx \<Rightarrow> sha512_ctx" where
  "SHAInit c = SHA512_Init c"

definition SHAUpdate :: "sha512_ctx \<Rightarrow> byte list \<Rightarrow> sha512_ctx" where
  "SHAUpdate c d = SHA512_Update False c d"

definition SHAFinal :: "byte list \<Rightarrow> sha512_ctx \<Rightarrow> byte list \<times> sha512_ctx" where
  "SHAFinal md c =
     (case SHA512_Final False c of (c, None) \<Rightarrow> (md, c) | (c, Some d) \<Rightarrow> (buffer_copy md 0 d, c))"

text \<open>A digest computed in a local context, of the pieces in turn, into a local buffer.\<close>

definition sha_digest :: "srp_world \<Rightarrow> byte list list \<Rightarrow> byte list" where
  "sha_digest w ps = fst (SHAFinal (replicate 64 0) (fold (\<lambda>d c. SHAUpdate c d) ps (SHAInit (w_ctx w))))"

section \<open>The SRP-6 and SRP-6a server\<close>

definition new_cstr :: cstr where
  "new_cstr = \<lparr>c_data = cstr_empty_string, c_length = 0, c_cap = 0, c_ref = 1\<rparr>"

definition server_init :: "u32 \<Rightarrow> srp_world \<Rightarrow> srp \<Rightarrow> srp" where
  "server_init flags w s =
     s\<lparr>srp_magic := SRP_MAGIC_SERVER, srp_flags := flags,
       srp_meth_data := Some ((w_meth w)\<lparr>sm_hash := SHAInit (sm_hash (w_meth w)),
         sm_ckhash := SHAInit (sm_ckhash (w_meth w)), sm_oldhash := SHAInit (sm_oldhash (w_meth w)),
         sm_oldckhash := SHAInit (sm_oldckhash (w_meth w))\<rparr>)\<rparr>"

definition srp6_server_init :: "srp_world \<Rightarrow> srp \<Rightarrow> srp \<times> int" where
  "srp6_server_init w s = (server_init SRP_FLAG_MOD_ACCEL w s, SRP_SUCCESS)"

definition srp6a_server_init :: "srp_world \<Rightarrow> srp \<Rightarrow> srp \<times> int" where
  "srp6a_server_init w s = (server_init (SRP_FLAG_MOD_ACCEL OR SRP_FLAG_LEFT_PAD) w s, SRP_SUCCESS)"

text \<open>The method data are zeroed before they are given back; the pointer to them stays.\<close>

definition zero_ctx :: sha512_ctx where
  "zero_ctx = \<lparr>s_h = replicate 8 0, s_Nl = 0, s_Nh = 0, s_u = replicate 128 0, s_num = 0, s_md_len = 0\<rparr>"

definition srp6_server_finish :: "srp \<Rightarrow> server_meth_st option" where
  "srp6_server_finish s = map_option (\<lambda>m.
     \<lparr>sm_hash = zero_ctx, sm_ckhash = zero_ctx, sm_oldhash = zero_ctx, sm_oldckhash = zero_ctx,
      sm_k = replicate 64 0, sm_r = replicate 64 0\<rparr>) (srp_meth_data s)"

definition xor_bytes :: "byte list \<Rightarrow> byte list \<Rightarrow> byte list" where
  "xor_bytes a b = map2 (XOR) a b"

definition srp6_server_params ::
  "srp_world \<Rightarrow> srp \<Rightarrow> byte list \<Rightarrow> byte list \<Rightarrow> byte list \<Rightarrow> (srp \<times> int) option" where
  "srp6_server_params w s modulus generator salt =
     do { m \<leftarrow> srp_meth_data s;
          let buf1 = sha_digest w [modulus];
          let buf2 = sha_digest w [generator];
          let buf1 = xor_bytes buf1 buf2;
          let m = m\<lparr>sm_ckhash := SHAUpdate (sm_ckhash m) buf1\<rparr>;
          let buf1 = sha_digest w [cstr_value (srp_username s)];
          let m = m\<lparr>sm_ckhash := SHAUpdate (sm_ckhash m) buf1\<rparr>;
          let m = m\<lparr>sm_ckhash := SHAUpdate (sm_ckhash m) salt\<rparr>;
          Some (s\<lparr>srp_meth_data := Some m\<rparr>, SRP_SUCCESS) }"

definition srp6_server_auth :: "srp \<Rightarrow> byte list \<Rightarrow> srp \<times> int" where
  "srp6_server_auth s a = (s\<lparr>srp_verifier := Some (BigIntegerFromBytes a)\<rparr>, SRP_SUCCESS)"

definition srp6_server_passwd :: "srp_world \<Rightarrow> srp \<Rightarrow> byte list \<Rightarrow> (srp \<times> int) option" where
  "srp6_server_passwd w s p =
     do { salt \<leftarrow> srp_salt s;
          let dig = sha_digest w [cstr_value (srp_username s), ascii '':'', p];
          let dig = sha_digest w [cstr_value salt, dig];
          let x = BigIntegerFromBytes dig;
          g \<leftarrow> srp_generator s;
          n \<leftarrow> srp_modulus s;
          let v = BigIntegerModExp (w_engine w) (BigIntegerFromInt 0) g x n (srp_accel s);
          Some (s\<lparr>srp_password := Some x, srp_verifier := Some v\<rparr>, SRP_SUCCESS) }"

text \<open>The string that a result pointer names: a new one where there is none.\<close>

definition result_cstr :: "cstr option option \<Rightarrow> cstr" where
  "result_cstr result = (case result of Some (Some c) \<Rightarrow> c | _ \<Rightarrow> new_cstr)"

definition srp6_server_genpub_ex ::
  "srp_world \<Rightarrow> srp_lib \<Rightarrow> srp \<Rightarrow> cstr option option \<Rightarrow> bignum \<Rightarrow> (srp \<times> cstr option option \<times> int) option" where
  "srp6_server_genpub_ex w lib s result k =
     do { n \<leftarrow> srp_modulus s;
          let slen = nat ((SRP_get_secret_bits lib (int (BigIntegerBitLen n)) + 7) div 8);
          let bstr = fst (cstr_set_length (w_mem w) (result_cstr result) (int (BigIntegerByteLen n)));
          bstr \<leftarrow> write_data bstr (w_random w slen);
          let secret = BigIntegerFromBytes (take slen (c_data bstr));
          v \<leftarrow> srp_verifier s;
          g \<leftarrow> srp_generator s;
          let pubkey = BigIntegerMul k v;
          let k = BigIntegerModExp (w_engine w) k g secret n (srp_accel s);
          let k = BigIntegerAdd k pubkey;
          let pubkey = BigIntegerMod pubkey k n;
          (bstr, r) \<leftarrow> BigIntegerToCstr (w_mem w) pubkey bstr;
          m \<leftarrow> srp_meth_data s;
          let m = m\<lparr>sm_oldckhash := SHAUpdate (sm_oldckhash m) (cstr_value bstr)\<rparr>;
          Some (s\<lparr>srp_secret := Some secret, srp_pubkey := Some pubkey, srp_meth_data := Some m\<rparr>,
            map_option (\<lambda>_. Some bstr) result, SRP_SUCCESS) }"

definition srp6_server_genpub ::
  "srp_world \<Rightarrow> srp_lib \<Rightarrow> srp \<Rightarrow> cstr option option \<Rightarrow> (srp \<times> cstr option option \<times> int) option" where
  "srp6_server_genpub w lib s result = srp6_server_genpub_ex w lib s result (BigIntegerFromInt 3)"

definition left_pad :: "srp \<Rightarrow> bool" where
  "left_pad s \<longleftrightarrow> srp_flags s AND SRP_FLAG_LEFT_PAD \<noteq> 0"

definition srp6a_server_genpub ::
  "srp_world \<Rightarrow> srp_lib \<Rightarrow> srp \<Rightarrow> cstr option option \<Rightarrow> (srp \<times> cstr option option \<times> int) option" where
  "srp6a_server_genpub w lib s result =
     do { n \<leftarrow> srp_modulus s;
          (t, r) \<leftarrow> BigIntegerToCstr (w_mem w) n new_cstr;
          let first = cstr_value t;
          g \<leftarrow> srp_generator s;
          (t, r) \<leftarrow> (if left_pad s then BigIntegerToCstrEx (w_mem w) g t (nat (c_length t))
                    else BigIntegerToCstr (w_mem w) g t);
          let dig = sha_digest w [first, cstr_value t];
          let k = BigIntegerFromBytes dig;
          if BigIntegerCmpInt k 0 = 0 then Some (s, result, SRP_ERROR)
          else srp6_server_genpub_ex w lib s result k }"

text \<open>What is hashed for \<open>u\<close>: the client's key and ours, padded to the length of the modulus in SRP-6a.\<close>

definition pad_pubkey :: "(int \<Rightarrow> byte list option) \<Rightarrow> cstr \<Rightarrow> byte list \<Rightarrow> nat \<Rightarrow> cstr option" where
  "pad_pubkey mem t pubkey modlen =
     (let t = fst (cstr_set_length mem t (int modlen))
      in if modlen \<le> length (c_data t)
         then Some (t\<lparr>c_data := buffer_copy (buffer_copy (c_data t) (modlen - length pubkey) pubkey)
                                 0 (replicate (modlen - length pubkey) 0)\<rparr>)
         else None)"

definition key_u_input ::
  "srp_world \<Rightarrow> srp \<Rightarrow> cstr \<Rightarrow> bignum \<Rightarrow> byte list \<Rightarrow> nat \<Rightarrow> (cstr \<times> byte list) option" where
  "key_u_input w s t b pubkey modlen =
     (if left_pad s then
        if length pubkey < modlen then do {
          t \<leftarrow> pad_pubkey (w_mem w) t pubkey modlen;
          let first = take modlen (c_data t);
          (t, r) \<leftarrow> BigIntegerToCstrEx (w_mem w) b t modlen;
          Some (t, first)
        }
        else if c_length t < int modlen then do {
          (t, r) \<leftarrow> BigIntegerToCstrEx (w_mem w) b t modlen;
          Some (t, pubkey)
        }
        else Some (t, pubkey)
      else Some (t, pubkey))"

text \<open>The end of the computation, once \<open>t3\<close> is accepted.\<close>

definition server_key_finish ::
  "srp_world \<Rightarrow> srp \<Rightarrow> cstr option option \<Rightarrow> cstr \<Rightarrow> bignum \<Rightarrow> bignum \<Rightarrow>
   (srp \<times> cstr option option \<times> int) option" where
  "server_key_finish w s result t t3 n =
     do { secret \<leftarrow> srp_secret s;
          let key = BigIntegerModExp (w_engine w) (BigIntegerFromInt 0) t3 secret n (srp_accel s);
          (t, r) \<leftarrow> BigIntegerToCstr (w_mem w) key t;
          m \<leftarrow> srp_meth_data s;
          let k = fst (SHAFinal (sm_k m) (SHAUpdate (SHAInit (w_ctx w)) (cstr_value t)));
          let m = m\<lparr>sm_k := k, sm_ckhash := SHAUpdate (sm_ckhash m) (take RFC2945_KEY_LEN k)\<rparr>;
          let m = (if c_length (srp_ex_data s) > 0
                   then m\<lparr>sm_ckhash := SHAUpdate (sm_ckhash m) (cstr_value (srp_ex_data s))\<rparr> else m);
          let m = m\<lparr>sm_oldhash := SHAUpdate (sm_oldhash m) (take RFC2945_KEY_LEN k),
                    sm_oldckhash := SHAUpdate (sm_oldckhash m) (take RFC2945_KEY_LEN k)\<rparr>;
          let result = (case result of None \<Rightarrow> None
            | Some _ \<Rightarrow> Some (Some (fst (cstr_setn (w_mem w) (result_cstr result) (Some k) (int RFC2945_KEY_LEN)))));
          Some (s\<lparr>srp_key := Some key, srp_meth_data := Some m\<rparr>, result, SRP_SUCCESS) }"

definition srp6_server_key ::
  "srp_world \<Rightarrow> srp \<Rightarrow> cstr option option \<Rightarrow> byte list \<Rightarrow> (srp \<times> cstr option option \<times> int) option" where
  "srp6_server_key w s result pubkey =
     do { n \<leftarrow> srp_modulus s;
          let modlen = BigIntegerByteLen n;
          if length pubkey > modlen then Some (s, result, SRP_ERROR)
          else do {
            m \<leftarrow> srp_meth_data s;
            let m = m\<lparr>sm_ckhash := SHAUpdate (sm_ckhash m) pubkey\<rparr>;
            b \<leftarrow> srp_pubkey s;
            (t, r) \<leftarrow> BigIntegerToCstr (w_mem w) b new_cstr;
            let m = m\<lparr>sm_ckhash := SHAUpdate (sm_ckhash m) (cstr_value t)\<rparr>;
            let m = m\<lparr>sm_hash := SHAUpdate (sm_hash m) pubkey, sm_oldhash := SHAUpdate (sm_oldhash m) pubkey\<rparr>;
            (t, first) \<leftarrow> key_u_input w s t b pubkey modlen;
            let u = BigIntegerFromBytes (sha_digest w [first, cstr_value t]);
            let s = s\<lparr>srp_meth_data := Some m, srp_u := Some u\<rparr>;
            v \<leftarrow> srp_verifier s;
            let t1 = BigIntegerModExp (w_engine w) (BigIntegerFromInt 0) v u n (srp_accel s);
            let t2 = BigIntegerFromBytes pubkey;
            let t3 = BigIntegerModMul (BigIntegerFromInt 0) t2 t1 n;
            if BigIntegerCmpInt t3 1 \<le> 0 then Some (s, result, SRP_ERROR)
            else if BigIntegerCmp (BigIntegerAddInt t3 1) n = 0 then Some (s, result, SRP_ERROR)
            else server_key_finish w s result t t3 n
          } }"

definition srp6_server_verify :: "srp_world \<Rightarrow> srp \<Rightarrow> byte list \<Rightarrow> (srp \<times> int) option" where
  "srp6_server_verify w s proof =
     do { m \<leftarrow> srp_meth_data s;
          let (expected, c) = SHAFinal (replicate 64 0) (sm_oldckhash m);
          let m = m\<lparr>sm_oldckhash := c\<rparr>;
          if length proof = RFC2945_RESP_LEN \<and> expected = proof then
            let (r, c) = SHAFinal (sm_r m) (sm_oldhash m)
            in Some (s\<lparr>srp_meth_data := Some (m\<lparr>sm_r := r, sm_oldhash := c\<rparr>)\<rparr>, SRP_SUCCESS)
          else
            let (expected, c) = SHAFinal expected (sm_ckhash m);
                m = m\<lparr>sm_ckhash := c\<rparr>
            in if length proof = RFC2945_RESP_LEN \<and> expected = proof then
                 let m = m\<lparr>sm_hash := SHAUpdate (sm_hash m) expected\<rparr>;
                     m = m\<lparr>sm_hash := SHAUpdate (sm_hash m) (take RFC2945_KEY_LEN (sm_k m))\<rparr>;
                     (r, c) = SHAFinal (sm_r m) (sm_hash m)
                 in Some (s\<lparr>srp_meth_data := Some (m\<lparr>sm_r := r, sm_hash := c\<rparr>)\<rparr>, SRP_SUCCESS)
               else Some (s\<lparr>srp_meth_data := Some m\<rparr>, SRP_ERROR) }"

definition srp6_server_respond :: "srp_world \<Rightarrow> srp \<Rightarrow> cstr option option \<Rightarrow> (cstr option option \<times> int) option" where
  "srp6_server_respond w s proof =
     (case proof of None \<Rightarrow> Some (proof, SRP_ERROR)
      | Some _ \<Rightarrow> do {
          m \<leftarrow> srp_meth_data s;
          let c = fst (cstr_set_length (w_mem w) (result_cstr proof) (int RFC2945_RESP_LEN));
          c \<leftarrow> write_data c (take RFC2945_RESP_LEN (sm_r m));
          Some (Some (Some c), SRP_SUCCESS) })"

section \<open>The interface\<close>

fun meth_init :: "srp_method \<Rightarrow> srp_world \<Rightarrow> srp \<Rightarrow> srp \<times> int" where
  "meth_init SRP6_server_method = srp6_server_init"
| "meth_init SRP6a_server_method = srp6a_server_init"

fun meth_genpub ::
  "srp_method \<Rightarrow> srp_world \<Rightarrow> srp_lib \<Rightarrow> srp \<Rightarrow> cstr option option \<Rightarrow> (srp \<times> cstr option option \<times> int) option" where
  "meth_genpub SRP6_server_method = srp6_server_genpub"
| "meth_genpub SRP6a_server_method = srp6a_server_genpub"

text \<open>None is the null result of an \<open>init\<close> that fails.\<close>

definition SRP_new :: "srp_world \<Rightarrow> srp_method \<Rightarrow> srp option" where
  "SRP_new w meth =
     (let s = \<lparr>srp_magic = 0, srp_flags = 0, srp_username = new_cstr, srp_modulus = None, srp_generator = None,
            srp_salt = None, srp_verifier = None, srp_password = None, srp_pubkey = None, srp_secret = None,
            srp_u = None, srp_key = None, srp_ex_data = new_cstr, srp_meth = meth, srp_meth_data = None,
            srp_accel = None, srp_param_cb = None, srp_slu = False\<rparr>;
          (s, r) = meth_init meth w s
      in if r = SRP_SUCCESS then Some s else None)"

text \<open>The blocks of the counted strings that are given back, and the method data.\<close>

definition SRP_free :: "srp \<Rightarrow> byte list list \<times> server_meth_st option" where
  "SRP_free s =
     (snd (cstr_clear_free (srp_username s)) @
      (case srp_salt s of None \<Rightarrow> [] | Some c \<Rightarrow> snd (cstr_clear_free c)) @
      snd (cstr_clear_free (srp_ex_data s)), srp6_server_finish s)"

definition SRP_set_server_lookup :: "srp \<Rightarrow> bool \<Rightarrow> srp \<times> int" where
  "SRP_set_server_lookup s lookup = (s\<lparr>srp_slu := lookup\<rparr>, SRP_SUCCESS)"

definition SRP_set_client_param_verify_cb :: "srp \<Rightarrow> param_verify_cb option \<Rightarrow> srp \<times> int" where
  "SRP_set_client_param_verify_cb s cb = (s\<lparr>srp_param_cb := cb\<rparr>, SRP_SUCCESS)"

definition SRP_CLIENT_builtin_param_verify_cb :: "srp_world \<Rightarrow> byte list \<Rightarrow> byte list \<Rightarrow> int" where
  "SRP_CLIENT_builtin_param_verify_cb w md gen =
     (if \<exists>(m, g) \<in> set (w_preparams w). m = md \<and> g = gen then SRP_SUCCESS else SRP_ERROR)"

text \<open>Trial division and the primality test of srp/t_conf.c.\<close>

definition small_primes :: "nat list" where
  "small_primes = [3, 5, 7, 11, 13, 17, 19, 23, 29, 31, 37, 41, 43, 47, 53, 59, 61, 67, 71, 73, 79, 83, 89, 97, 101, 103,
     107, 109, 113, 127, 131, 137, 139, 149, 151, 157, 163, 167, 173, 179, 181, 191, 193, 197, 199, 211, 223, 227, 229, 233,
     239, 241, 251]"

fun trialdiv_loop :: "bignum \<Rightarrow> nat list \<Rightarrow> nat" where
  "trialdiv_loop x [] = 1"
| "trialdiv_loop x (p # ps) = (if BigIntegerModInt x p = 0 then p else trialdiv_loop x ps)"

definition trialdiv :: "bignum \<Rightarrow> nat" where
  "trialdiv x = trialdiv_loop x small_primes"

definition t_isprime :: "srp_world \<Rightarrow> bignum \<Rightarrow> bool" where
  "t_isprime w x =
     (if trialdiv x > 1 then False
      else let t = BigIntegerModExp (w_engine w) 2 2 x x None in
        if BigIntegerCmpInt t 2 \<noteq> 0 then False else BigIntegerCheckPrime (w_is_prime w) x)"

definition SRP_CLIENT_compat_param_verify_cb ::
  "srp_world \<Rightarrow> srp \<Rightarrow> byte list \<Rightarrow> byte list \<Rightarrow> int option" where
  "SRP_CLIENT_compat_param_verify_cb w s md gen =
     (if SRP_OK (SRP_CLIENT_builtin_param_verify_cb w md gen)
      then Some (SRP_CLIENT_builtin_param_verify_cb w md gen)
      else do {
        n \<leftarrow> srp_modulus s;
        if \<not> t_isprime w n then Some SRP_ERROR
        else do {
          let q = BigIntegerSubInt n 1;
          let q = BigIntegerDivInt q 2;
          g \<leftarrow> srp_generator s;
          if t_isprime w q \<and> BigIntegerCmp n g > 0 then
            let r = BigIntegerModExp (w_engine w) (BigIntegerFromInt 0) g q n (srp_accel s);
                r = BigIntegerAddInt r 1
            in if BigIntegerCmp r n = 0 then
                 (let r = BigIntegerAddInt g 1
                  in if BigIntegerCmp r n \<noteq> 0 then Some SRP_SUCCESS else Some SRP_ERROR)
               else Some SRP_ERROR
          else Some SRP_ERROR
        }
      })"

definition SRP_CLIENT_default_param_verify_cb :: "srp_world \<Rightarrow> byte list \<Rightarrow> byte list \<Rightarrow> int" where
  "SRP_CLIENT_default_param_verify_cb w md gen = SRP_CLIENT_builtin_param_verify_cb w md gen"

fun call_param_cb :: "srp_world \<Rightarrow> param_verify_cb \<Rightarrow> srp \<Rightarrow> byte list \<Rightarrow> byte list \<Rightarrow> int option" where
  "call_param_cb w builtin_param_verify s md gen = Some (SRP_CLIENT_builtin_param_verify_cb w md gen)"
| "call_param_cb w compat_param_verify s md gen = SRP_CLIENT_compat_param_verify_cb w s md gen"
| "call_param_cb w default_param_verify s md gen = Some (SRP_CLIENT_default_param_verify_cb w md gen)"

definition SRP_set_params ::
  "srp_world \<Rightarrow> srp_lib \<Rightarrow> srp \<Rightarrow> byte list option \<Rightarrow> byte list option \<Rightarrow> byte list option \<Rightarrow> (srp \<times> int) option" where
  "SRP_set_params w lib s modulus generator salt =
     (case (modulus, generator, salt) of
        (Some modulus, Some generator, Some salt) \<Rightarrow>
          let n = BigIntegerFromBytes modulus;
              s = s\<lparr>srp_modulus := Some n\<rparr>;
              s = (if srp_flags s AND SRP_FLAG_MOD_ACCEL \<noteq> 0
                   then s\<lparr>srp_accel := BigIntegerModAccelNew (w_engine w) n\<rparr> else s);
              s = s\<lparr>srp_generator := Some (BigIntegerFromBytes generator)\<rparr>;
              t = (case srp_salt s of None \<Rightarrow> new_cstr | Some t \<Rightarrow> t);
              s = s\<lparr>srp_salt := Some (fst (cstr_setn (w_mem w) t (Some salt) (int (length salt))))\<rparr>
          in if int (BigIntegerBitLen n) < SRP_get_modulus_min_bits lib then Some (s, SRP_ERROR)
             else do {
               rc \<leftarrow> (case srp_param_cb s of None \<Rightarrow> Some SRP_SUCCESS
                     | Some cb \<Rightarrow> call_param_cb w cb s modulus generator);
               if \<not> SRP_OK rc then Some (s, rc) else srp6_server_params w s modulus generator salt
             }
      | _ \<Rightarrow> Some (s, SRP_ERROR))"

definition SRP_set_authenticator :: "srp \<Rightarrow> byte list \<Rightarrow> srp \<times> int" where
  "SRP_set_authenticator s a = srp6_server_auth s a"

text \<open>The lookup of the password files. A field of the entry is never a null pointer.\<close>

definition slu_sys_lookup :: "srp_world \<Rightarrow> srp_lib \<Rightarrow> srp \<Rightarrow> cstr \<Rightarrow> (srp \<times> int) option" where
  "slu_sys_lookup w lib s username =
     (case w_gettpnam w (take (strlen (c_data username)) (c_data username)) of
        None \<Rightarrow> Some (s, SRP_ERROR)
      | Some p \<Rightarrow> do {
          (s, rc) \<leftarrow> SRP_set_params w lib s (Some (pw_modulus p)) (Some (pw_generator p)) (Some (pw_salt p));
          if \<not> SRP_OK rc then Some (s, SRP_ERROR)
          else (let (s, rc) = SRP_set_authenticator s (pw_password p)
                in if \<not> SRP_OK rc then Some (s, SRP_ERROR) else Some (s, SRP_SUCCESS))
        })"

definition SRP_SERVER_do_lookup :: "srp_world \<Rightarrow> srp_lib \<Rightarrow> srp \<Rightarrow> cstr \<Rightarrow> (srp \<times> int) option" where
  "SRP_SERVER_do_lookup w lib s username = slu_sys_lookup w lib s username"

definition SRP_set_username :: "srp_world \<Rightarrow> srp_lib \<Rightarrow> srp \<Rightarrow> byte list \<Rightarrow> (srp \<times> int) option" where
  "SRP_set_username w lib s username =
     (let s = s\<lparr>srp_username := fst (cstr_set (w_mem w) (srp_username s) username)\<rparr>
      in if srp_slu s then SRP_SERVER_do_lookup w lib s (srp_username s) else Some (s, SRP_SUCCESS))"

definition SRP_set_user_raw :: "srp_world \<Rightarrow> srp_lib \<Rightarrow> srp \<Rightarrow> byte list \<Rightarrow> (srp \<times> int) option" where
  "SRP_set_user_raw w lib s user =
     (let s = s\<lparr>srp_username := fst (cstr_setn (w_mem w) (srp_username s) (Some user) (int (length user)))\<rparr>
      in if srp_slu s then SRP_SERVER_do_lookup w lib s (srp_username s) else Some (s, SRP_SUCCESS))"

definition SRP_server_init_user :: "srp_world \<Rightarrow> srp_lib \<Rightarrow> srp \<Rightarrow> byte list \<Rightarrow> (srp \<times> int) option" where
  "SRP_server_init_user w lib s username =
     (let (s, r) = SRP_set_server_lookup s True in SRP_set_username w lib s username)"

definition SRP_set_auth_password_raw :: "srp_world \<Rightarrow> srp \<Rightarrow> byte list \<Rightarrow> (srp \<times> int) option" where
  "SRP_set_auth_password_raw w s password = srp6_server_passwd w s password"

definition SRP_set_auth_password :: "srp_world \<Rightarrow> srp \<Rightarrow> byte list \<Rightarrow> (srp \<times> int) option" where
  "SRP_set_auth_password w s password = srp6_server_passwd w s (take (strlen password) password)"

definition SRP_gen_pub ::
  "srp_world \<Rightarrow> srp_lib \<Rightarrow> srp \<Rightarrow> cstr option option \<Rightarrow> (srp \<times> cstr option option \<times> int) option" where
  "SRP_gen_pub w lib s result = meth_genpub (srp_meth s) w lib s result"

definition SRP_add_ex_data :: "srp_world \<Rightarrow> srp \<Rightarrow> byte list \<Rightarrow> srp \<times> int" where
  "SRP_add_ex_data w s d =
     (s\<lparr>srp_ex_data := fst (cstr_appendn (w_mem w) (srp_ex_data s) d (int (length d)))\<rparr>, SRP_SUCCESS)"

definition SRP_compute_key ::
  "srp_world \<Rightarrow> srp \<Rightarrow> cstr option option \<Rightarrow> byte list \<Rightarrow> (srp \<times> cstr option option \<times> int) option" where
  "SRP_compute_key w s result pubkey = srp6_server_key w s result pubkey"

definition SRP_verify :: "srp_world \<Rightarrow> srp \<Rightarrow> byte list \<Rightarrow> (srp \<times> int) option" where
  "SRP_verify w s proof = srp6_server_verify w s proof"

definition SRP_respond :: "srp_world \<Rightarrow> srp \<Rightarrow> cstr option option \<Rightarrow> (cstr option option \<times> int) option" where
  "SRP_respond w s proof = srp6_server_respond w s proof"


section \<open>The hash contexts\<close>

abbreviation absorbs :: "sha512_ctx \<Rightarrow> byte list \<Rightarrow> bool" where
  "absorbs c msg \<equiv> sha512_absorbed sha512_iv 64 c msg"

definition world_ok :: "srp_world \<Rightarrow> bool" where
  "world_ok w \<longleftrightarrow> total_mem (w_mem w) \<and> w_engine w = None \<and> (\<forall>n. length (w_random w n) = n) \<and>
     length (s_u (w_ctx w)) = 128 \<and> length (s_u (sm_hash (w_meth w))) = 128 \<and>
     length (s_u (sm_ckhash (w_meth w))) = 128 \<and> length (s_u (sm_oldhash (w_meth w))) = 128 \<and>
     length (s_u (sm_oldckhash (w_meth w))) = 128 \<and> length (sm_k (w_meth w)) = 64 \<and> length (sm_r (w_meth w)) = 64"

lemma SHAInit_absorbs: "length (s_u c) = 128 \<Longrightarrow> absorbs (SHAInit c) []"
  unfolding SHAInit_def by (rule sha512.absorbed_init)

lemma SHAUpdate_absorbs: "absorbs c xs \<Longrightarrow> length d < 2 ^ 32 \<Longrightarrow> absorbs (SHAUpdate c d) (xs @ d)"
  using sha512.absorbed_update [of c xs "(False, d)"] by (simp add: SHAUpdate_def)

lemma SHAFinal_absorbs: "absorbs c xs \<Longrightarrow> length md = 64 \<Longrightarrow> fst (SHAFinal md c) = sha512_hash xs"
  using final_hash(1) [of c xs] by (auto simp: SHAFinal_def buffer_copy_at split: prod.split option.split)

lemma sha_digest_hash:
  assumes "world_ok w" "\<forall>p \<in> set ps. length p < 2 ^ 32"
  shows "sha_digest w ps = sha512_hash (concat ps)"
proof -
  have run: "absorbs c xs \<Longrightarrow> absorbs (fold (\<lambda>d c. SHAUpdate c d) ps c) (xs @ concat ps)" for c xs
    using assms(2)
  proof (induction ps arbitrary: c xs)
    case (Cons p ps)
    then show ?case using Cons.IH [OF SHAUpdate_absorbs [OF Cons.prems(1), of p]] by simp
  qed simp
  have "absorbs (fold (\<lambda>d c. SHAUpdate c d) ps (SHAInit (w_ctx w))) ([] @ concat ps)"
    using assms(1) by (intro run) (simp add: world_ok_def SHAInit_absorbs)
  then show ?thesis by (simp add: sha_digest_def SHAFinal_absorbs)
qed

definition meth_hashes :: "server_meth_st \<Rightarrow> byte list \<Rightarrow> byte list \<Rightarrow> byte list \<Rightarrow> byte list \<Rightarrow> bool" where
  "meth_hashes m ck h oh och \<longleftrightarrow> absorbs (sm_ckhash m) ck \<and> absorbs (sm_hash m) h \<and> absorbs (sm_oldhash m) oh \<and>
     absorbs (sm_oldckhash m) och \<and> length (sm_k m) = 64 \<and> length (sm_r m) = 64"

section \<open>Exponentiation\<close>

lemma BigIntegerModExp_value:
  assumes "0 \<le> b" "0 \<le> e" "odd n" "1 < n"
  shows "BigIntegerModExp None r b e n (Some a) = b ^ nat e mod n"
proof -
  have "int (bn_word0 b) = b" if t: "bn_top b = 1"
  proof -
    have "BigIntegerBitLen b \<le> 64" using t by (simp add: bn_top_def)
    then have "nat \<bar>b\<bar> < 2 ^ 64" by (simp only: BigIntegerBitLen_def bit_length_le_iff)
    then show ?thesis using assms(1) by (simp add: bn_word0_def)
  qed
  then show ?thesis using assms by (simp add: BigIntegerModExp_def BN_mod_exp_mont_def)
qed

text \<open>Both sides compute the same residue.\<close>

lemma srp_residue:
  fixes g k n :: int and x a b u :: nat
  defines "v \<equiv> g ^ x mod n"
  defines "B \<equiv> (k * v + g ^ b mod n) mod n"
  shows "(B - k * (g ^ x mod n)) ^ (a + u * x) mod n = ((g ^ a mod n) * (v ^ u mod n) mod n) ^ b mod n"
proof -
  have "(B - k * (g ^ x mod n)) mod n = g ^ b mod n" by (simp add: B_def v_def mod_simps)
  then have "(B - k * (g ^ x mod n)) ^ (a + u * x) mod n = (g ^ b) ^ (a + u * x) mod n" by (metis power_mod)
  moreover have "((g ^ a mod n) * (v ^ u mod n) mod n) ^ b mod n = (g ^ a * (g ^ x) ^ u) ^ b mod n"
    by (simp add: v_def mod_simps power_mod)
  moreover have "(g ^ b) ^ (a + u * x) = (g ^ a * (g ^ x) ^ u) ^ b"
    by (simp add: power_add power_mult_distrib power_mult [symmetric] mult.commute mult.left_commute)
  ultimately show ?thesis by simp
qed

section \<open>The steps\<close>

lemma SRP_new_state:
  assumes "world_ok w"
  obtains s m where "SRP_new w SRP6a_server_method = Some s" "srp_meth_data s = Some m" "meth_hashes m [] [] [] []"
    "srp_flags s = 3" "srp_meth s = SRP6a_server_method" "srp_username s = new_cstr" "srp_salt s = None"
    "srp_ex_data s = new_cstr" "srp_param_cb s = None" "\<not> srp_slu s"
proof -
  obtain s where s: "SRP_new w SRP6a_server_method = Some s" by (simp add: SRP_new_def srp6a_server_init_def)
  have "SRP_FLAG_MOD_ACCEL OR SRP_FLAG_LEFT_PAD = 3"
    by (simp add: SRP_FLAG_MOD_ACCEL_def SRP_FLAG_LEFT_PAD_def)
  moreover have f: "s = the (SRP_new w SRP6a_server_method)" using s by simp
  ultimately show thesis using s that [OF s, of "the (srp_meth_data s)"] assms
    unfolding f by (simp add: SRP_new_def srp6a_server_init_def server_init_def meth_hashes_def world_ok_def SHAInit_absorbs)
qed

lemma setn_value:
  assumes "total_mem mem" "cstr_wf c"
  shows "cstr_wf (fst (cstr_setn mem c (Some d) (int (length d))))"
    "cstr_value (fst (cstr_setn mem c (Some d) (int (length d)))) = d"
proof -
  obtain c' r where s: "cstr_setn mem c (Some d) (int (length d)) = (c', r)" by fastforce
  have g: "good_mem mem" unfolding good_mem_def using assms(1) by (metis option.inject total_mem_def)
  have "0 \<le> r"
    using s assms(1) by (auto simp: cstr_setn_def cstr_alloc_def total_mem_def Let_def split: if_splits option.splits)
      (metis option.distinct(1))+
  then show "cstr_wf (fst (cstr_setn mem c (Some d) (int (length d))))"
    "cstr_value (fst (cstr_setn mem c (Some d) (int (length d)))) = d"
    using cstr_setn_result [OF assms(2) g _ _ s] s by auto
qed

lemma new_cstr_wf [simp]: "cstr_wf new_cstr" "cstr_value new_cstr = []"
  by (simp_all add: new_cstr_def cstr_wf_def cstr_value_def)


definition param_hash :: "byte list \<Rightarrow> byte list \<Rightarrow> byte list \<Rightarrow> byte list \<Rightarrow> byte list" where
  "param_hash n g user salt = xor_bytes (sha512_hash n) (sha512_hash g) @ sha512_hash user @ salt"

lemma SRP_set_params_state:
  assumes w: "world_ok w" and m: "srp_meth_data s = Some m" "meth_hashes m ck h oh och"
    and s: "srp_flags s = 3" "srp_salt s = None" "srp_param_cb s = None"
    and l: "length nb < 2 ^ 32" "length gb < 2 ^ 32" "length salt < 2 ^ 32" "length (cstr_value (srp_username s)) < 2 ^ 32"
    and n: "srp_modulus_min_bits lib \<le> int (BigIntegerBitLen (BigIntegerFromBytes nb))"
  obtains t m' where "SRP_set_params w lib s (Some nb) (Some gb) (Some salt) =
      Some (s\<lparr>srp_modulus := Some (BigIntegerFromBytes nb), srp_accel := Some (BigIntegerFromBytes nb),
        srp_generator := Some (BigIntegerFromBytes gb), srp_salt := Some t, srp_meth_data := Some m'\<rparr>, SRP_SUCCESS)"
    "cstr_wf t" "cstr_value t = salt"
    "meth_hashes m' (ck @ param_hash nb gb (cstr_value (srp_username s)) salt) h oh och"
proof -
  define t where "t = fst (cstr_setn (w_mem w) new_cstr (Some salt) (int (length salt)))"
  have t: "cstr_wf t" "cstr_value t = salt" using w setn_value [of "w_mem w" new_cstr salt] by (simp_all add: t_def world_ok_def)
  define x where "x = xor_bytes (sha512_hash nb) (sha512_hash gb)"
  define y where "y = sha512_hash (cstr_value (srp_username s))"
  define m' where "m' = m\<lparr>sm_ckhash := SHAUpdate (SHAUpdate (SHAUpdate (sm_ckhash m) x) y) salt\<rparr>"
  have "length x = 64" "length y = 64" by (simp_all add: x_def xor_bytes_def y_def)
  then have "meth_hashes m' (((ck @ x) @ y) @ salt) h oh och"
    using m(2) l(3) by (auto simp: meth_hashes_def m'_def simp del: append_assoc intro!: SHAUpdate_absorbs)
  then have h: "meth_hashes m' (ck @ param_hash nb gb (cstr_value (srp_username s)) salt) h oh och"
    by (simp add: param_hash_def x_def y_def)
  have "sha_digest w [nb] = sha512_hash nb" "sha_digest w [gb] = sha512_hash gb"
    "sha_digest w [cstr_value (srp_username s)] = y" using l by (simp_all add: sha_digest_hash [OF w] y_def)
  then have "SRP_set_params w lib s (Some nb) (Some gb) (Some salt) =
      Some (s\<lparr>srp_modulus := Some (BigIntegerFromBytes nb), srp_accel := Some (BigIntegerFromBytes nb),
        srp_generator := Some (BigIntegerFromBytes gb), srp_salt := Some t, srp_meth_data := Some m'\<rparr>, SRP_SUCCESS)"
    using m(1) s n w
    by (simp add: SRP_set_params_def Let_def SRP_FLAG_MOD_ACCEL_def SRP_get_modulus_min_bits_def SRP_OK_def
        srp6_server_params_def t_def m'_def x_def BigIntegerModAccelNew_def world_ok_def)
  then show thesis using t h by (rule that)
qed

definition private_key :: "byte list \<Rightarrow> byte list \<Rightarrow> byte list \<Rightarrow> nat" where
  "private_key salt user password = be_val (sha512_hash (salt @ sha512_hash (user @ ascii '':'' @ password)))"

lemma SRP_set_auth_password_state:
  assumes w: "world_ok w"
    and s: "srp_salt s = Some t" "srp_generator s = Some g" "srp_modulus s = Some n" "srp_accel s = Some n"
    and l: "length p < 2 ^ 32" "length (cstr_value (srp_username s)) < 2 ^ 32" "length (cstr_value t) < 2 ^ 32"
    and n: "odd n" "1 < n" "0 \<le> g"
  shows "SRP_set_auth_password_raw w s p =
    (let x = private_key (cstr_value t) (cstr_value (srp_username s)) p
     in Some (s\<lparr>srp_password := Some (int x), srp_verifier := Some (g ^ x mod n)\<rparr>, SRP_SUCCESS))"
proof -
  have "sha_digest w [cstr_value (srp_username s), ascii '':'', p] =
      sha512_hash (cstr_value (srp_username s) @ ascii '':'' @ p)"
    using l by (simp add: sha_digest_hash [OF w] ascii_def)
  moreover have "sha_digest w [cstr_value t, sha512_hash z] = sha512_hash (cstr_value t @ sha512_hash z)" for z
    using l by (simp add: sha_digest_hash [OF w])
  ultimately show ?thesis
    using s w n by (simp add: SRP_set_auth_password_raw_def srp6_server_passwd_def Let_def private_key_def
        BigIntegerFromBytes_def BigIntegerFromInt_def BigIntegerModExp_value world_ok_def)
qed

lemma BigIntegerMod_nonneg: "0 \<le> d \<Longrightarrow> 0 < m \<Longrightarrow> BigIntegerMod r d m = d mod m"
  by (cases "d = 0") (simp_all add: BigIntegerMod_def)

lemma map_option_Some_None: "map_option f (Some x) = Some (f x)" by simp

lemma genpub_ex_state:
  assumes w: "world_ok w" and m: "srp_meth_data s = Some m" "meth_hashes m ck h oh och"
    and s: "srp_modulus s = Some n" "srp_accel s = Some n" "srp_verifier s = Some v" "srp_generator s = Some g"
    and n: "odd n" "1 < n" "0 \<le> g" "0 \<le> v" "0 \<le> k"
    and b: "slen = nat ((srp_sb_cb lib (int (BigIntegerBitLen n)) + 7) div 8)" "slen \<le> BigIntegerByteLen n"
    and r: "cstr_wf (result_cstr result)" and l: "BigIntegerByteLen n < 2 ^ 32"
    and B: "B = (k * v + g ^ be_val (w_random w slen) mod n) mod n"
  obtains c m' where "srp6_server_genpub_ex w lib s result k =
      Some (s\<lparr>srp_secret := Some (int (be_val (w_random w slen))), srp_pubkey := Some B, srp_meth_data := Some m'\<rparr>,
        map_option (\<lambda>_. Some c) result, SRP_SUCCESS)"
    "cstr_wf c" "cstr_value c = BigIntegerToBytes B" "meth_hashes m' ck h oh (och @ BigIntegerToBytes B)"
proof -
  define R where "R = w_random w slen"
  have R: "length R = slen" using w by (simp add: R_def world_ok_def)
  have mem: "total_mem (w_mem w)" using w by (simp add: world_ok_def)
  obtain c1 q where c1: "cstr_set_length (w_mem w) (result_cstr result) (int (BigIntegerByteLen n)) = (c1, q)"
    "cstr_wf c1" "c_length c1 = int (BigIntegerByteLen n)" by (rule set_length_mem [OF r mem])
  define c2 where "c2 = c1\<lparr>c_data := R @ drop (length R) (c_data c1)\<rparr>"
  have c2: "write_data c1 R = Some c2" "cstr_wf c2" "take slen (c_data c2) = R"
    using write_prefix [OF c1(2,3), of R] b(2) R by (simp_all add: c2_def)
  have Bn: "0 \<le> B" "B < n" using n by (simp_all add: B)
  obtain c3 where c3: "BigIntegerToCstr (w_mem w) B c2 = Some (c3, BIG_INTEGER_SUCCESS)" "cstr_wf c3"
    "cstr_value c3 = BigIntegerToBytes B" by (rule BigIntegerToCstr_result [OF c2(2) mem])
  have e: "BigIntegerModExp (w_engine w) k g (int (be_val R)) n (Some n) = g ^ be_val R mod n"
    using n w by (simp add: BigIntegerModExp_value world_ok_def)
  have "0 \<le> g ^ be_val R mod n + k * v" using n by simp
  then have Bm: "BigIntegerMod (k * v) (g ^ be_val R mod n + k * v) n = B"
    using n by (simp add: BigIntegerMod_nonneg B R_def add.commute)
  define m' where "m' = m\<lparr>sm_oldckhash := SHAUpdate (sm_oldckhash m) (BigIntegerToBytes B)\<rparr>"
  have "BigIntegerByteLen B \<le> BigIntegerByteLen n"
    using Bn BigIntegerByteLen_bound [of n] by (simp add: BigIntegerByteLen_le_iff)
  then have h: "meth_hashes m' ck h oh (och @ BigIntegerToBytes B)"
    using m(2) l by (auto simp: meth_hashes_def m'_def simp del: append_assoc intro!: SHAUpdate_absorbs)
  have "srp6_server_genpub_ex w lib s result k =
      Some (s\<lparr>srp_secret := Some (int (be_val R)), srp_pubkey := Some B, srp_meth_data := Some m'\<rparr>,
        map_option (\<lambda>_. Some c3) result, SRP_SUCCESS)"
    using s m(1) c1 c2 c3 b(1) [symmetric] e Bm
    by (simp add: srp6_server_genpub_ex_def Let_def SRP_get_secret_bits_def R_def [symmetric] BigIntegerFromBytes_def
        BigIntegerMul_def BigIntegerAdd_def m'_def)
  then show thesis using c3(2,3) h unfolding R_def by (rule that)
qed


definition k_value :: "bignum \<Rightarrow> bignum \<Rightarrow> nat" where
  "k_value n g = be_val (sha512_hash (BigIntegerToBytes n @ be_bytes (BigIntegerByteLen n) (nat g)))"

definition u_value :: "bignum \<Rightarrow> nat \<Rightarrow> nat \<Rightarrow> nat" where
  "u_value n a b = be_val (sha512_hash (be_bytes (BigIntegerByteLen n) a @ be_bytes (BigIntegerByteLen n) b))"

lemma left_pad_3: "srp_flags s = 3 \<Longrightarrow> left_pad s"
  by (simp add: left_pad_def SRP_FLAG_LEFT_PAD_def)

lemma genpub_6a:
  assumes w: "world_ok w" and s: "srp_modulus s = Some n" "srp_generator s = Some g" "left_pad s"
    and n: "0 < n" "0 \<le> g" "BigIntegerByteLen g \<le> BigIntegerByteLen n" "BigIntegerByteLen n < 2 ^ 32"
  shows "srp6a_server_genpub w lib s result =
    (if k_value n g = 0 then Some (s, result, SRP_ERROR)
     else srp6_server_genpub_ex w lib s result (int (k_value n g)))"
proof -
  have mem: "total_mem (w_mem w)" using w by (simp add: world_ok_def)
  obtain t1 where t1: "BigIntegerToCstr (w_mem w) n new_cstr = Some (t1, BIG_INTEGER_SUCCESS)" "cstr_wf t1"
    "cstr_value t1 = BigIntegerToBytes n" "c_length t1 = int (BigIntegerByteLen n)"
    by (rule BigIntegerToCstr_result [OF new_cstr_wf(1) mem])
  obtain t2 where t2: "BigIntegerToCstrEx (w_mem w) g t1 (BigIntegerByteLen n) = Some (t2, BIG_INTEGER_SUCCESS)"
    "cstr_value t2 = be_bytes (BigIntegerByteLen n) (nat \<bar>g\<bar>)"
    by (rule BigIntegerToCstrEx_result [OF t1(2) mem n(3)])
  have "sha_digest w [BigIntegerToBytes n, be_bytes (BigIntegerByteLen n) (nat g)] =
      sha512_hash (BigIntegerToBytes n @ be_bytes (BigIntegerByteLen n) (nat g))"
    using n(4) by (simp add: sha_digest_hash [OF w])
  moreover have "BigIntegerCmpInt (int k) 0 = 0 \<longleftrightarrow> k = 0" for k
    using BigIntegerCmpInt_value [of 0 "int k"] by (simp add: sgn_if)
  ultimately show ?thesis
    using s t1 t2 n(2) by (simp add: srp6a_server_genpub_def Let_def k_value_def BigIntegerFromBytes_def)
qed

lemma replicate_be_bytes: "length a \<le> L \<Longrightarrow> replicate (L - length a) 0 @ a = be_bytes L (be_val a)"
proof (rule be_val_inj)
  assume l: "length a \<le> L"
  have z: "be_val (replicate k 0 @ a) = be_val a" for k by (induction k) (simp_all add: be_val_Cons)
  have "(256 :: nat) ^ length a \<le> 256 ^ L" using l by (simp add: power_increasing)
  then have "be_val a < 256 ^ L" using be_val_less [of a] by linarith
  then show "be_val (replicate (L - length a) 0 @ a) = be_val (be_bytes L (be_val a))" by (simp add: z be_val_be_bytes)
qed simp

lemma key_u_input_state:
  assumes w: "world_ok w" and s: "left_pad s" and t: "cstr_wf t" "cstr_value t = BigIntegerToBytes b"
    and b: "0 \<le> b" "BigIntegerByteLen b \<le> L" and a: "length a \<le> L"
  obtains t' where "key_u_input w s t b a L = Some (t', be_bytes L (be_val a))" "cstr_wf t'"
    "cstr_value t' = be_bytes L (nat b)"
proof -
  have mem: "total_mem (w_mem w)" using w by (simp add: world_ok_def)
  have lt: "c_length t = int (BigIntegerByteLen b)"
    using length_cstr_value [OF t(1)] t(2) cstr_wf_length [OF t(1)] by simp
  show thesis
  proof (cases "length a < L")
    case True
    obtain t1 q where t1: "cstr_set_length (w_mem w) t (int L) = (t1, q)" "cstr_wf t1" "c_length t1 = int L"
      "L < length (c_data t1)" by (rule set_length_mem [OF t(1) mem])
    define D where "D = replicate (L - length a) 0 @ a @ drop L (c_data t1)"
    have "buffer_copy (c_data t1) (L - length a) a = take (L - length a) (c_data t1) @ a @ drop L (c_data t1)"
      using t1(4) a by (subst buffer_copy_at) simp_all
    then have D: "buffer_copy (buffer_copy (c_data t1) (L - length a) a) 0 (replicate (L - length a) 0) = D"
      using t1(4) a buffer_copy_at [of 0 "replicate (L - length a) (0 :: byte)"
          "take (L - length a) (c_data t1) @ a @ drop L (c_data t1)"] by (simp add: D_def)
    define t2 where "t2 = t1\<lparr>c_data := D\<rparr>"
    have Dt: "D = be_bytes L (be_val a) @ drop L (c_data t1)" using replicate_be_bytes [OF a] by (simp add: D_def)
    then have "D ! L = c_data t1 ! L" "length D = length (c_data t1)" using t1(4)
      by (simp_all add: nth_append)
    moreover have "c_cap t1 \<noteq> 0" using t1(2,3) True by (auto simp: cstr_wf_def)
    ultimately have t2: "cstr_wf t2" using t1(2,3) by (auto simp: cstr_wf_def t2_def)
    obtain t3 where t3: "BigIntegerToCstrEx (w_mem w) b t2 L = Some (t3, BIG_INTEGER_SUCCESS)" "cstr_wf t3"
      "cstr_value t3 = be_bytes L (nat \<bar>b\<bar>)" by (rule BigIntegerToCstrEx_result [OF t2 mem b(2)])
    have "pad_pubkey (w_mem w) t a L = Some t2" using t1 D by (simp add: pad_pubkey_def t2_def)
    then show thesis using s True t3 b(1) Dt
      by (intro that [of t3]) (simp_all add: key_u_input_def t2_def)
  next
    case False
    then have aL: "be_bytes L (be_val a) = a" using a replicate_be_bytes [OF a] by simp
    show thesis
    proof (cases "c_length t < int L")
      case True
      obtain t3 where t3: "BigIntegerToCstrEx (w_mem w) b t L = Some (t3, BIG_INTEGER_SUCCESS)" "cstr_wf t3"
        "cstr_value t3 = be_bytes L (nat \<bar>b\<bar>)" by (rule BigIntegerToCstrEx_result [OF t(1) mem b(2)])
      then show thesis using s False True b(1) aL by (intro that [of t3]) (simp_all add: key_u_input_def)
    next
      case f: False
      then have "BigIntegerByteLen b = L" using lt b(2) by simp
      then have "BigIntegerToBytes b = be_bytes L (nat b)" using b(1) by (simp add: BigIntegerToBytes_def)
      then show thesis using s False f t aL by (intro that [of t]) (simp_all add: key_u_input_def)
    qed
  qed
qed

definition key_base :: "bignum \<Rightarrow> nat \<Rightarrow> bignum \<Rightarrow> nat \<Rightarrow> bignum" where
  "key_base n a v u = int a * (v ^ u mod n) mod n"

lemma server_key_cases:
  assumes w: "world_ok w" and m: "srp_meth_data s = Some m" "meth_hashes m ck h oh och"
    and s: "srp_modulus s = Some n" "srp_accel s = Some n" "srp_verifier s = Some v" "srp_pubkey s = Some b" "left_pad s"
    and n: "odd n" "1 < n" "0 \<le> v" "0 \<le> b" "b < n" and l: "BigIntegerByteLen n < 2 ^ 32" "length a \<le> BigIntegerByteLen n"
    and u: "u = u_value n (be_val a) (nat b)"
    and t3: "t3 = key_base n (be_val a) v u"
  obtains m' t where "srp6_server_key w s result a =
      (let s' = s\<lparr>srp_meth_data := Some m', srp_u := Some (int u)\<rparr>
       in if t3 \<le> 1 \<or> t3 = n - 1 then Some (s', result, SRP_ERROR) else server_key_finish w s' result t t3 n)"
    "cstr_wf t" "meth_hashes m' (ck @ a @ BigIntegerToBytes b) (h @ a) (oh @ a) och"
proof -
  have mem: "total_mem (w_mem w)" using w by (simp add: world_ok_def)
  define L where "L = BigIntegerByteLen n"
  have bl: "BigIntegerByteLen b \<le> L"
    using n BigIntegerByteLen_bound [of n] by (simp add: BigIntegerByteLen_le_iff L_def)
  obtain t where t: "BigIntegerToCstr (w_mem w) b new_cstr = Some (t, BIG_INTEGER_SUCCESS)" "cstr_wf t"
    "cstr_value t = BigIntegerToBytes b" by (rule BigIntegerToCstr_result [OF new_cstr_wf(1) mem])
  define m' where "m' = m\<lparr>sm_ckhash := SHAUpdate (SHAUpdate (sm_ckhash m) a) (BigIntegerToBytes b),
    sm_hash := SHAUpdate (sm_hash m) a, sm_oldhash := SHAUpdate (sm_oldhash m) a\<rparr>"
  have "meth_hashes m' ((ck @ a) @ BigIntegerToBytes b) (h @ a) (oh @ a) och"
    using m(2) l bl unfolding L_def [symmetric]
    by (auto simp: meth_hashes_def m'_def simp del: append_assoc intro!: SHAUpdate_absorbs)
  then have hs: "meth_hashes m' (ck @ a @ BigIntegerToBytes b) (h @ a) (oh @ a) och" by simp
  define s1 where "s1 = s\<lparr>srp_meth_data := Some m', srp_u := Some (int u)\<rparr>"
  obtain t' where t': "key_u_input w s t b a L = Some (t', be_bytes L (be_val a))" "cstr_wf t'"
    "cstr_value t' = be_bytes L (nat b)"
    by (rule key_u_input_state [OF w s(5) t(2,3) n(4) bl]) (use l in \<open>simp_all add: L_def\<close>)
  have d: "BigIntegerFromBytes (sha_digest w [be_bytes L (be_val a), be_bytes L (nat b)]) = int u"
    using l by (simp add: sha_digest_hash [OF w] u u_value_def BigIntegerFromBytes_def L_def)
  have e: "BigIntegerModExp (w_engine w) (BigIntegerFromInt 0) v (int u) n (Some n) = v ^ u mod n"
    using n w by (simp add: BigIntegerModExp_value world_ok_def)
  have mm: "BigIntegerModMul (BigIntegerFromInt 0) (BigIntegerFromBytes a) (v ^ u mod n) n = t3"
    using n by (simp add: BigIntegerModMul_def t3 key_base_def BigIntegerFromBytes_def)
  have tn: "0 \<le> t3" using n by (simp add: t3 key_base_def)
  have c1: "BigIntegerCmpInt t3 1 \<le> 0 \<longleftrightarrow> t3 \<le> 1"
    using BigIntegerCmpInt_value [of 1 t3] tn by (auto simp: sgn_if)
  have c2: "BigIntegerCmp (BigIntegerAddInt t3 1) n = 0 \<longleftrightarrow> t3 = n - 1"
    by (auto simp: BigIntegerCmp_def BigIntegerAddInt_def sgn_if)
  have "srp6_server_key w s result a =
      (if BigIntegerCmpInt t3 1 \<le> 0 then Some (s1, result, SRP_ERROR)
       else if BigIntegerCmp (BigIntegerAddInt t3 1) n = 0 then Some (s1, result, SRP_ERROR)
       else server_key_finish w s1 result t' t3 n)"
    using s m(1) l t t'(1,3) d e mm
    by (simp add: srp6_server_key_def Let_def L_def [symmetric] m'_def s1_def)
  then have "srp6_server_key w s result a =
      (let s' = s\<lparr>srp_meth_data := Some m', srp_u := Some (int u)\<rparr>
       in if t3 \<le> 1 \<or> t3 = n - 1 then Some (s', result, SRP_ERROR) else server_key_finish w s' result t' t3 n)"
    unfolding c1 c2 s1_def Let_def by argo
  then show thesis using t'(2) hs by (rule that)
qed


lemma server_key_finish_state:
  assumes w: "world_ok w" and m: "srp_meth_data s = Some m" "meth_hashes m ck h oh och"
    and s: "srp_accel s = Some n" "srp_secret s = Some sec" "cstr_wf (srp_ex_data s)" "length (cstr_value (srp_ex_data s)) < 2 ^ 32"
    and n: "odd n" "1 < n" "0 \<le> t3" "0 \<le> sec" and t: "cstr_wf t" and r: "cstr_wf (result_cstr result)"
    and l: "BigIntegerByteLen n < 2 ^ 32"
    and S: "S = t3 ^ nat sec mod n" and K: "K = sha512_hash (BigIntegerToBytes S)"
  obtains m' c where "server_key_finish w s result t t3 n =
      Some (s\<lparr>srp_key := Some S, srp_meth_data := Some m'\<rparr>, map_option (\<lambda>_. Some c) result, SRP_SUCCESS)"
    "meth_hashes m' (ck @ K @ cstr_value (srp_ex_data s)) h (oh @ K) (och @ K)" "sm_k m' = K"
    "cstr_wf c" "cstr_value c = K"
proof -
  have mem: "total_mem (w_mem w)" using w by (simp add: world_ok_def)
  have Sn: "0 \<le> S" "S < n" using n by (simp_all add: S)
  have "BigIntegerByteLen S \<le> BigIntegerByteLen n"
    using Sn BigIntegerByteLen_bound [of n] by (simp add: BigIntegerByteLen_le_iff)
  then have Sl: "BigIntegerByteLen S < 2 ^ 32" using l by simp
  obtain t1 where t1: "BigIntegerToCstr (w_mem w) S t = Some (t1, BIG_INTEGER_SUCCESS)"
    "cstr_value t1 = BigIntegerToBytes S" by (rule BigIntegerToCstr_result [OF t mem])
  have e: "BigIntegerModExp (w_engine w) (BigIntegerFromInt 0) t3 sec n (Some n) = S"
    using n w by (simp add: BigIntegerModExp_value world_ok_def S)
  have "absorbs (SHAUpdate (SHAInit (w_ctx w)) (BigIntegerToBytes S)) ([] @ BigIntegerToBytes S)"
    using w Sl by (intro SHAUpdate_absorbs SHAInit_absorbs) (simp_all add: world_ok_def)
  then have k: "fst (SHAFinal (sm_k m) (SHAUpdate (SHAInit (w_ctx w)) (BigIntegerToBytes S))) = K"
    using m(2) by (simp add: SHAFinal_absorbs K meth_hashes_def)
  have Kl: "length K = 64" "take RFC2945_KEY_LEN K = K" by (simp_all add: K RFC2945_KEY_LEN_def)
  define ex where "ex = cstr_value (srp_ex_data s)"
  define ckc where "ckc = (if c_length (srp_ex_data s) > 0 then SHAUpdate (SHAUpdate (sm_ckhash m) K) ex
    else SHAUpdate (sm_ckhash m) K)"
  have ck: "absorbs ckc (ck @ K @ ex)"
  proof (cases "c_length (srp_ex_data s) > 0")
    case True
    have "absorbs (SHAUpdate (SHAUpdate (sm_ckhash m) K) ex) ((ck @ K) @ ex)"
      using m(2) s(4) Kl by (intro SHAUpdate_absorbs) (simp_all add: meth_hashes_def ex_def)
    then show ?thesis using True by (simp add: ckc_def)
  next
    case False
    then have "ex = []" by (simp add: ex_def cstr_value_def)
    then show ?thesis using False m(2) Kl by (auto simp: ckc_def meth_hashes_def intro!: SHAUpdate_absorbs)
  qed
  define m' where "m' = m\<lparr>sm_k := K, sm_ckhash := ckc, sm_oldhash := SHAUpdate (sm_oldhash m) K,
    sm_oldckhash := SHAUpdate (sm_oldckhash m) K\<rparr>"
  have hs: "meth_hashes m' (ck @ K @ ex) h (oh @ K) (och @ K)" "sm_k m' = K"
    using m(2) ck Kl by (auto simp: meth_hashes_def m'_def intro!: SHAUpdate_absorbs)
  define c where "c = fst (cstr_setn (w_mem w) (result_cstr result) (Some K) (int RFC2945_KEY_LEN))"
  have c: "cstr_wf c" "cstr_value c = K" using setn_value [OF mem r, of K] Kl(1)
    by (simp_all add: c_def RFC2945_KEY_LEN_def)
  have "server_key_finish w s result t t3 n =
      Some (s\<lparr>srp_key := Some S, srp_meth_data := Some m'\<rparr>, map_option (\<lambda>_. Some c) result, SRP_SUCCESS)"
    using s m(1) t1 e k Kl
    by (cases result) (simp_all add: server_key_finish_def Let_def m'_def ckc_def ex_def c_def)
  then show thesis using hs(1) [unfolded ex_def] hs(2) c by (rule that)
qed

lemma SRP_verify_state:
  assumes "srp_meth_data s = Some m" "meth_hashes m ck h oh och" "length (sm_k m) = 64"
  obtains m' where "SRP_verify w s proof = Some (s\<lparr>srp_meth_data := Some m'\<rparr>,
      if proof = sha512_hash och \<or> proof = sha512_hash ck then SRP_SUCCESS else SRP_ERROR)"
    "sm_r m' = (if proof = sha512_hash och then sha512_hash oh
      else if proof = sha512_hash ck then sha512_hash (h @ proof @ sm_k m) else sm_r m)"
    "length (sm_r m') = 64"
proof -
  obtain c1 where f1: "SHAFinal (replicate 64 0) (sm_oldckhash m) = (sha512_hash och, c1)"
    using SHAFinal_absorbs [of "sm_oldckhash m" och "replicate 64 0"] assms(2)
    by (metis length_replicate meth_hashes_def prod.collapse)
  obtain c2 where f2: "SHAFinal (sm_r m) (sm_oldhash m) = (sha512_hash oh, c2)"
    using SHAFinal_absorbs [of "sm_oldhash m" oh "sm_r m"] assms(2) by (metis meth_hashes_def prod.collapse)
  obtain c3 where f3: "SHAFinal (sha512_hash och) (sm_ckhash m) = (sha512_hash ck, c3)"
    using SHAFinal_absorbs [of "sm_ckhash m" ck "sha512_hash och"] assms(2)
    by (metis length_sha512_hash meth_hashes_def prod.collapse)
  have "absorbs (SHAUpdate (SHAUpdate (sm_hash m) (sha512_hash ck)) (sm_k m)) ((h @ sha512_hash ck) @ sm_k m)"
    using assms by (intro SHAUpdate_absorbs) (simp_all add: meth_hashes_def)
  then obtain c4 where f4: "SHAFinal (sm_r m) (SHAUpdate (SHAUpdate (sm_hash m) (sha512_hash ck)) (sm_k m)) =
      (sha512_hash (h @ sha512_hash ck @ sm_k m), c4)"
    using SHAFinal_absorbs [of _ _ "sm_r m"] assms(2) by (metis append_assoc meth_hashes_def prod.collapse)
  have R: "RFC2945_RESP_LEN = 64" "take RFC2945_KEY_LEN (sm_k m) = sm_k m"
    using assms(3) by (simp_all add: RFC2945_RESP_LEN_def RFC2945_KEY_LEN_def)
  define m' where "m' = (if proof = sha512_hash och then m\<lparr>sm_oldckhash := c1, sm_r := sha512_hash oh, sm_oldhash := c2\<rparr>
    else if proof = sha512_hash ck then m\<lparr>sm_oldckhash := c1, sm_ckhash := c3,
      sm_r := sha512_hash (h @ sha512_hash ck @ sm_k m), sm_hash := c4\<rparr>
    else m\<lparr>sm_oldckhash := c1, sm_ckhash := c3\<rparr>)"
  have "SRP_verify w s proof = Some (s\<lparr>srp_meth_data := Some m'\<rparr>,
      if proof = sha512_hash och \<or> proof = sha512_hash ck then SRP_SUCCESS else SRP_ERROR)"
    using assms(1) f1 f2 f3 f4 R
    by (auto simp: SRP_verify_def srp6_server_verify_def Let_def m'_def)
  moreover have "sm_r m' = (if proof = sha512_hash och then sha512_hash oh
      else if proof = sha512_hash ck then sha512_hash (h @ proof @ sm_k m) else sm_r m)"
    by (simp add: m'_def)
  moreover from this have "length (sm_r m') = 64" using assms(2) by (simp add: meth_hashes_def)
  ultimately show thesis by (rule that)
qed

lemma SRP_respond_state:
  assumes "world_ok w" "srp_meth_data s = Some m" "length (sm_r m) = 64"
  obtains c where "SRP_respond w s (Some None) = Some (Some (Some c), SRP_SUCCESS)" "cstr_wf c" "cstr_value c = sm_r m"
proof -
  have mem: "total_mem (w_mem w)" using assms(1) by (simp add: world_ok_def)
  obtain c1 q where c1: "cstr_set_length (w_mem w) new_cstr (int 64) = (c1, q)" "cstr_wf c1" "c_length c1 = int 64"
    by (rule set_length_mem [OF new_cstr_wf(1) mem])
  define c where "c = c1\<lparr>c_data := sm_r m @ drop (length (sm_r m)) (c_data c1)\<rparr>"
  have c: "write_data c1 (sm_r m) = Some c" "cstr_wf c" "cstr_value c = sm_r m @ drop 64 (cstr_value c1)"
    using write_prefix [OF c1(2,3), of "sm_r m"] assms(3) by (simp_all add: c_def)
  have "length (cstr_value c1) = 64" using length_cstr_value [OF c1(2)] c1(3) by simp
  then have "cstr_value c = sm_r m" using c(3) by simp
  moreover have "SRP_respond w s (Some None) = Some (Some (Some c), SRP_SUCCESS)"
    using assms(2,3) c1(1) c(1)
    by (simp add: SRP_respond_def srp6_server_respond_def result_cstr_def Let_def RFC2945_RESP_LEN_def)
  ultimately show thesis using c(2) that by blast
qed

end
