(* ===== verification/Srp_Session.thy ===== *)
theory Srp_Session
  imports Srp
begin

text \<open>
  The calls of a whole SRP-6a exchange on the server side, in the order that srp.h prescribes and
  PHKNetworkIP.cpp makes them, and the properties of the protocol: agreement with a client of
  RFC 5054, what the check of the proof accepts, and what happens after a rejected public value.
\<close>

section \<open>A session\<close>

text \<open>
  The calls of a server in the order that srp.h asks for: new context, user, parameters, password
  and public value; then the key from the client's public value, the check of its proof, and the
  answer. \<open>srp_start\<close> gives the context and the public value, \<open>srp_finish\<close> the session key, the code of
  the check and the answer.
\<close>

definition srp_start ::
  "srp_world \<Rightarrow> srp_lib \<Rightarrow> byte list \<Rightarrow> byte list \<Rightarrow> byte list \<Rightarrow> byte list \<Rightarrow> byte list \<Rightarrow>
   (srp \<times> cstr option option \<times> int) option" where
  "srp_start w lib user nb gb salt password =
     do { s \<leftarrow> SRP_new w SRP6a_server_method;
          (s, r) \<leftarrow> SRP_set_user_raw w lib s user;
          (s, r) \<leftarrow> SRP_set_params w lib s (Some nb) (Some gb) (Some salt);
          (s, r) \<leftarrow> SRP_set_auth_password_raw w s password;
          SRP_gen_pub w lib s (Some None) }"

definition srp_finish ::
  "srp_world \<Rightarrow> srp \<Rightarrow> byte list \<Rightarrow> byte list \<Rightarrow> (cstr option option \<times> int \<times> int \<times> cstr option option) option" where
  "srp_finish w s a proof =
     do { (s, key, rk) \<leftarrow> SRP_compute_key w s (Some None) a;
          (s, rv) \<leftarrow> SRP_verify w s proof;
          (resp, r) \<leftarrow> SRP_respond w s (Some None);
          Some (key, rk, rv, resp) }"

text \<open>What a context holds once the public value is made.\<close>

definition session_ready ::
  "srp_world \<Rightarrow> srp \<Rightarrow> byte list \<Rightarrow> byte list \<Rightarrow> byte list \<Rightarrow> byte list \<Rightarrow> byte list \<Rightarrow> nat \<Rightarrow> bool" where
  "session_ready w s user nb gb salt password b \<longleftrightarrow>
     (let n = BigIntegerFromBytes nb; g = BigIntegerFromBytes gb;
          v = g ^ private_key salt user password mod n;
          B = (int (k_value n g) * v + g ^ b mod n) mod n
      in srp_modulus s = Some n \<and> srp_accel s = Some n \<and> srp_generator s = Some g \<and> srp_verifier s = Some v \<and>
         srp_secret s = Some (int b) \<and> srp_pubkey s = Some B \<and> left_pad s \<and> srp_ex_data s = new_cstr \<and>
         (\<exists>m. srp_meth_data s = Some m \<and>
           meth_hashes m (param_hash nb gb user salt) [] [] (BigIntegerToBytes B)))"

lemma SRP_set_user_raw_state:
  assumes "world_ok w" "srp_username s = new_cstr" "\<not> srp_slu s"
  obtains c where "SRP_set_user_raw w lib s user = Some (s\<lparr>srp_username := c\<rparr>, SRP_SUCCESS)" "cstr_value c = user"
proof -
  define c where "c = fst (cstr_setn (w_mem w) (srp_username s) (Some user) (int (length user)))"
  have "cstr_value c = user" using setn_value [of "w_mem w" new_cstr user] assms by (simp add: c_def world_ok_def)
  moreover have "SRP_set_user_raw w lib s user = Some (s\<lparr>srp_username := c\<rparr>, SRP_SUCCESS)"
    using assms(3) by (simp add: SRP_set_user_raw_def c_def Let_def)
  ultimately show thesis using that by blast
qed

definition params_ok ::
  "srp_world \<Rightarrow> srp_lib \<Rightarrow> byte list \<Rightarrow> byte list \<Rightarrow> byte list \<Rightarrow> byte list \<Rightarrow> byte list \<Rightarrow> bool" where
  "params_ok w lib user nb gb salt password \<longleftrightarrow> world_ok w \<and>
     (\<forall>x \<in> {user, nb, gb, salt, password}. length x < 2 ^ 31) \<and>
     odd (be_val nb) \<and> 1 < be_val nb \<and>
     BigIntegerByteLen (BigIntegerFromBytes gb) \<le> BigIntegerByteLen (BigIntegerFromBytes nb) \<and>
     srp_modulus_min_bits lib \<le> int (BigIntegerBitLen (BigIntegerFromBytes nb)) \<and>
     srp_sb_cb lib = default_secret_bits_cb \<and> 32 \<le> BigIntegerByteLen (BigIntegerFromBytes nb)"

lemma byte_len_from_bytes: "BigIntegerByteLen (BigIntegerFromBytes nb) \<le> length nb"
  using be_val_less [of nb] by (simp add: BigIntegerByteLen_le_iff BigIntegerFromBytes_def)

lemma srp_start_ready:
  assumes ok: "params_ok w lib user nb gb salt password"
  defines "n \<equiv> BigIntegerFromBytes nb" and "g \<equiv> BigIntegerFromBytes gb"
  obtains s where "k_value n g = 0" "srp_start w lib user nb gb salt password = Some (s, Some None, SRP_ERROR)"
  | s c where "srp_start w lib user nb gb salt password = Some (s, Some (Some c), SRP_SUCCESS)" "k_value n g \<noteq> 0"
    "session_ready w s user nb gb salt password (be_val (w_random w 32))"
    "cstr_value c = BigIntegerToBytes (the (srp_pubkey s))"
proof -
  have w: "world_ok w" and len: "length user < 2 ^ 31" "length nb < 2 ^ 31" "length gb < 2 ^ 31" "length salt < 2 ^ 31"
    "length password < 2 ^ 31" and n: "odd n" "1 < n" "BigIntegerByteLen g \<le> BigIntegerByteLen n"
    "srp_modulus_min_bits lib \<le> int (BigIntegerBitLen n)" "srp_sb_cb lib = default_secret_bits_cb" "32 \<le> BigIntegerByteLen n"
    using ok by (auto simp: params_ok_def n_def g_def BigIntegerFromBytes_def)
  have g: "0 \<le> g" by (simp add: g_def BigIntegerFromBytes_def)
  have bl: "BigIntegerByteLen n < 2 ^ 32" using byte_len_from_bytes [of nb] len(2) by (simp add: n_def)
  obtain s0 m0 where s0: "SRP_new w SRP6a_server_method = Some s0" "srp_meth_data s0 = Some m0" "meth_hashes m0 [] [] [] []"
    "srp_flags s0 = 3" "srp_meth s0 = SRP6a_server_method" "srp_username s0 = new_cstr" "srp_salt s0 = None"
    "srp_ex_data s0 = new_cstr" "srp_param_cb s0 = None" "\<not> srp_slu s0" by (rule SRP_new_state [OF w])
  obtain u where u: "SRP_set_user_raw w lib s0 user = Some (s0\<lparr>srp_username := u\<rparr>, SRP_SUCCESS)" "cstr_value u = user"
    by (rule SRP_set_user_raw_state [OF w s0(6,10)])
  define s1 where "s1 = s0\<lparr>srp_username := u\<rparr>"
  have s1: "srp_meth_data s1 = Some m0" "srp_flags s1 = 3" "srp_salt s1 = None" "srp_param_cb s1 = None"
    "cstr_value (srp_username s1) = user" "srp_meth s1 = SRP6a_server_method" "srp_ex_data s1 = new_cstr"
    using s0 u(2) by (simp_all add: s1_def)
  obtain t m1 where p: "SRP_set_params w lib s1 (Some nb) (Some gb) (Some salt) =
      Some (s1\<lparr>srp_modulus := Some (BigIntegerFromBytes nb), srp_accel := Some (BigIntegerFromBytes nb),
        srp_generator := Some (BigIntegerFromBytes gb), srp_salt := Some t, srp_meth_data := Some m1\<rparr>, SRP_SUCCESS)"
    "cstr_wf t" "cstr_value t = salt"
    "meth_hashes m1 ([] @ param_hash nb gb (cstr_value (srp_username s1)) salt) [] [] []"
    by (rule SRP_set_params_state [OF w s1(1) s0(3) s1(2,3,4), of nb gb salt lib]) (use len s1(5) n(4) in \<open>auto simp: n_def\<close>)
  define s2 where "s2 = s1\<lparr>srp_modulus := Some n, srp_accel := Some n, srp_generator := Some g, srp_salt := Some t,
    srp_meth_data := Some m1\<rparr>"
  define x where "x = private_key salt user password"
  define v where "v = g ^ x mod n"
  define s3 where "s3 = s2\<lparr>srp_password := Some (int x), srp_verifier := Some v\<rparr>"
  have pw: "SRP_set_auth_password_raw w s2 password = Some (s3, SRP_SUCCESS)"
    using SRP_set_auth_password_state [OF w, of s2 t g n password] len n g s1(5) p(3)
    by (simp add: s2_def s3_def Let_def x_def v_def)
  have start: "srp_start w lib user nb gb salt password = SRP_gen_pub w lib s3 (Some None)"
    using s0(1) u(1) p(1) pw by (simp add: srp_start_def s1_def [symmetric] s2_def n_def g_def)
  have s3: "srp_modulus s3 = Some n" "srp_accel s3 = Some n" "srp_verifier s3 = Some v" "srp_generator s3 = Some g"
    "srp_meth_data s3 = Some m1" "left_pad s3" "srp_meth s3 = SRP6a_server_method" "srp_ex_data s3 = new_cstr"
    using s1 by (simp_all add: s3_def s2_def left_pad_3)
  have m1: "meth_hashes m1 (param_hash nb gb user salt) [] [] []" using p(4) s1(5) by simp
  have gp: "SRP_gen_pub w lib s3 (Some None) = (if k_value n g = 0 then Some (s3, Some None, SRP_ERROR)
      else srp6_server_genpub_ex w lib s3 (Some None) (int (k_value n g)))"
    using genpub_6a [OF w s3(1,4,6), of lib "Some None"] n g bl s3(7) by (simp add: SRP_gen_pub_def)
  show thesis
  proof (cases "k_value n g = 0")
    case True
    then show thesis using that(1) start gp by simp
  next
    case False
    define B where "B = (int (k_value n g) * v + g ^ be_val (w_random w 32) mod n) mod n"
    have v0: "0 \<le> v" and k0: "0 \<le> int (k_value n g)" using n(2) by (simp_all add: v_def)
    have slen: "32 = nat ((srp_sb_cb lib (int (BigIntegerBitLen n)) + 7) div 8)" by (simp add: n(5) default_secret_bits_cb_def)
    have res: "cstr_wf (result_cstr (Some None))" by (simp add: result_cstr_def)
    obtain c m2 where c: "srp6_server_genpub_ex w lib s3 (Some None) (int (k_value n g)) =
        Some (s3\<lparr>srp_secret := Some (int (be_val (w_random w 32))), srp_pubkey := Some B, srp_meth_data := Some m2\<rparr>,
          map_option (\<lambda>_. Some c) (Some None :: cstr option option), SRP_SUCCESS)"
      "cstr_wf c" "cstr_value c = BigIntegerToBytes B"
      "meth_hashes m2 (param_hash nb gb user salt) [] [] ([] @ BigIntegerToBytes B)"
      by (rule genpub_ex_state [OF w s3(5) m1 s3(1,2,3,4) n(1,2) g v0 k0 slen n(6) res bl B_def])
    define s4 where "s4 = s3\<lparr>srp_secret := Some (int (be_val (w_random w 32))), srp_pubkey := Some B, srp_meth_data := Some m2\<rparr>"
    have "session_ready w s4 user nb gb salt password (be_val (w_random w 32))"
      using s3 c(4) by (simp add: session_ready_def Let_def s4_def n_def [symmetric] g_def [symmetric] x_def [symmetric]
          v_def [symmetric] B_def left_pad_def)
    moreover have "srp_start w lib user nb gb salt password = Some (s4, Some (Some c), SRP_SUCCESS)"
      using start gp c(1) False by (simp add: s4_def)
    moreover have "cstr_value c = BigIntegerToBytes (the (srp_pubkey s4))" using c(3) by (simp add: s4_def)
    ultimately show thesis using that(2) False by blast
  qed
qed

text \<open>The client of RFC 5054 with SHA-512: its secret, what it computes from the server's public value, and the
  two proofs.\<close>

definition client_key :: "bignum \<Rightarrow> bignum \<Rightarrow> nat \<Rightarrow> nat \<Rightarrow> bignum \<Rightarrow> bignum" where
  "client_key n g x a B =
     (let u = u_value n (nat (g ^ a mod n)) (nat B) in (B - int (k_value n g) * (g ^ x mod n)) ^ (a + u * x) mod n)"

definition client_proof ::
  "byte list \<Rightarrow> byte list \<Rightarrow> byte list \<Rightarrow> byte list \<Rightarrow> byte list \<Rightarrow> byte list \<Rightarrow> byte list \<Rightarrow> byte list" where
  "client_proof nb gb user salt A B K = sha512_hash (param_hash nb gb user salt @ A @ B @ K)"

definition server_proof :: "byte list \<Rightarrow> byte list \<Rightarrow> byte list \<Rightarrow> byte list" where
  "server_proof A M K = sha512_hash (A @ M @ K)"

definition session_B :: "srp_world \<Rightarrow> byte list \<Rightarrow> byte list \<Rightarrow> byte list \<Rightarrow> byte list \<Rightarrow> byte list \<Rightarrow> bignum" where
  "session_B w user nb gb salt password =
     (let n = BigIntegerFromBytes nb; g = BigIntegerFromBytes gb
      in (int (k_value n g) * (g ^ private_key salt user password mod n) + g ^ be_val (w_random w 32) mod n) mod n)"

text \<open>The value the server raises to its secret, and the values it rejects.\<close>

definition session_base ::
  "srp_world \<Rightarrow> byte list \<Rightarrow> byte list \<Rightarrow> byte list \<Rightarrow> byte list \<Rightarrow> byte list \<Rightarrow> byte list \<Rightarrow> bignum" where
  "session_base w user nb gb salt password A =
     (let n = BigIntegerFromBytes nb; v = BigIntegerFromBytes gb ^ private_key salt user password mod n
      in key_base n (be_val A) v (u_value n (be_val A) (nat (session_B w user nb gb salt password))))"

definition rejected :: "byte list \<Rightarrow> bignum \<Rightarrow> bool" where
  "rejected nb t \<longleftrightarrow> t \<le> 1 \<or> t = BigIntegerFromBytes nb - 1"

definition session_key ::
  "srp_world \<Rightarrow> byte list \<Rightarrow> byte list \<Rightarrow> byte list \<Rightarrow> byte list \<Rightarrow> byte list \<Rightarrow> byte list \<Rightarrow> byte list" where
  "session_key w user nb gb salt password A = sha512_hash (BigIntegerToBytes
     (session_base w user nb gb salt password A ^ be_val (w_random w 32) mod BigIntegerFromBytes nb))"

lemma session_B_bounds: "1 < be_val nb \<Longrightarrow> 0 \<le> session_B w user nb gb salt password \<and>
   session_B w user nb gb salt password < BigIntegerFromBytes nb"
  by (simp add: session_B_def Let_def BigIntegerFromBytes_def)

lemma compute_key_state:
  assumes ok: "params_ok w lib user nb gb salt password"
    and ready: "session_ready w s user nb gb salt password (be_val (w_random w 32))"
    and A: "length A \<le> BigIntegerByteLen (BigIntegerFromBytes nb)" and r: "cstr_wf (result_cstr result)"
  defines "B \<equiv> BigIntegerToBytes (session_B w user nb gb salt password)"
    and "t3 \<equiv> session_base w user nb gb salt password A"
    and "K \<equiv> session_key w user nb gb salt password A"
  obtains s' m' where "rejected nb t3" "SRP_compute_key w s result A = Some (s', result, SRP_ERROR)"
    "srp_meth_data s' = Some m'" "meth_hashes m' (param_hash nb gb user salt @ A @ B) A A B"
  | s' m' c where "\<not> rejected nb t3" "SRP_compute_key w s result A = Some (s', map_option (\<lambda>_. Some c) result, SRP_SUCCESS)"
    "srp_meth_data s' = Some m'" "meth_hashes m' (param_hash nb gb user salt @ A @ B @ K) A (A @ K) (B @ K)"
    "sm_k m' = K" "cstr_wf c" "cstr_value c = K"
proof -
  define n where "n = BigIntegerFromBytes nb"
  define g where "g = BigIntegerFromBytes gb"
  define v where "v = g ^ private_key salt user password mod n"
  define b where "b = session_B w user nb gb salt password"
  define u where "u = u_value n (be_val A) (nat b)"
  have w: "world_ok w" and n: "odd n" "1 < n" and len: "length nb < 2 ^ 31"
    using ok by (auto simp: params_ok_def n_def BigIntegerFromBytes_def)
  have bl: "BigIntegerByteLen n < 2 ^ 32" using byte_len_from_bytes [of nb] len by (simp add: n_def)
  have v: "0 \<le> v" using n(2) by (simp add: v_def)
  have b: "0 \<le> b" "b < n" using session_B_bounds [of nb] n(2) by (simp_all add: b_def n_def BigIntegerFromBytes_def)
  obtain m where s: "srp_modulus s = Some n" "srp_accel s = Some n" "srp_verifier s = Some v" "srp_pubkey s = Some b"
    "left_pad s" "srp_secret s = Some (int (be_val (w_random w 32)))" "srp_ex_data s = new_cstr"
    "srp_meth_data s = Some m" "meth_hashes m (param_hash nb gb user salt) [] [] B"
    using ready by (auto simp: session_ready_def Let_def n_def g_def v_def b_def B_def session_B_def)
  have t3: "t3 = key_base n (be_val A) v u"
    by (simp add: t3_def session_base_def Let_def n_def g_def v_def u_def b_def)
  have t3n: "0 \<le> t3" using n(2) by (simp add: t3 key_base_def)
  obtain m' t where key: "srp6_server_key w s result A =
      (let s' = s\<lparr>srp_meth_data := Some m', srp_u := Some (int u)\<rparr>
       in if t3 \<le> 1 \<or> t3 = n - 1 then Some (s', result, SRP_ERROR) else server_key_finish w s' result t t3 n)"
    "cstr_wf t" "meth_hashes m' (param_hash nb gb user salt @ A @ BigIntegerToBytes b) ([] @ A) ([] @ A) B"
    by (rule server_key_cases [OF w s(8,9) s(1,2,3,4,5) n v b bl A [folded n_def] u_def t3])
  define s1 where "s1 = s\<lparr>srp_meth_data := Some m', srp_u := Some (int u)\<rparr>"
  have m': "meth_hashes m' (param_hash nb gb user salt @ A @ B) A A B" using key(3) by (simp add: B_def b_def)
  show thesis
  proof (cases "rejected nb t3")
    case True
    then have "SRP_compute_key w s result A = Some (s1, result, SRP_ERROR)"
      using key(1) by (simp add: SRP_compute_key_def rejected_def n_def s1_def Let_def)
    then show thesis using that(1) True m' by (simp add: s1_def)
  next
    case False
    have s1: "srp_meth_data s1 = Some m'" "srp_accel s1 = Some n" "srp_secret s1 = Some (int (be_val (w_random w 32)))"
      "cstr_wf (srp_ex_data s1)" "length (cstr_value (srp_ex_data s1)) < 2 ^ 32" "cstr_value (srp_ex_data s1) = []"
      using s by (simp_all add: s1_def)
    have sec: "0 \<le> int (be_val (w_random w 32))" by simp
    have K: "K = sha512_hash (BigIntegerToBytes (t3 ^ nat (int (be_val (w_random w 32))) mod n))"
      by (simp add: K_def session_key_def t3_def n_def)
    obtain m2 c where f: "server_key_finish w s1 result t t3 n =
        Some (s1\<lparr>srp_key := Some (t3 ^ nat (int (be_val (w_random w 32))) mod n), srp_meth_data := Some m2\<rparr>,
          map_option (\<lambda>_. Some c) result, SRP_SUCCESS)"
      "meth_hashes m2 ((param_hash nb gb user salt @ A @ B) @ K @ cstr_value (srp_ex_data s1)) A (A @ K) (B @ K)"
      "sm_k m2 = K" "cstr_wf c" "cstr_value c = K"
      by (rule server_key_finish_state [OF w s1(1) m' s1(2,3,4,5) n t3n sec key(2) r bl refl K])
    have "SRP_compute_key w s result A = server_key_finish w s1 result t t3 n"
      using key(1) False by (simp add: SRP_compute_key_def rejected_def n_def s1_def Let_def)
    then show thesis using that(2) False f s1(6) by simp
  qed
qed

lemma key_base_client:
  assumes A: "int (be_val A) = BigIntegerFromBytes gb ^ a mod BigIntegerFromBytes nb" and n: "1 < be_val nb"
  defines "n \<equiv> BigIntegerFromBytes nb" and "g \<equiv> BigIntegerFromBytes gb"
  shows "session_key w user nb gb salt password A =
    sha512_hash (BigIntegerToBytes (client_key n g (private_key salt user password) a (session_B w user nb gb salt password)))"
proof -
  define x where "x = private_key salt user password"
  define b where "b = be_val (w_random w 32)"
  define B where "B = session_B w user nb gb salt password"
  define u where "u = u_value n (be_val A) (nat B)"
  have e: "nat (g ^ a mod n) = be_val A" using A by (simp add: n_def g_def flip: A)
  have B: "B = (int (k_value n g) * (g ^ x mod n) + g ^ b mod n) mod n"
    by (simp add: B_def session_B_def n_def g_def x_def b_def Let_def)
  have "client_key n g x a B = (B - int (k_value n g) * (g ^ x mod n)) ^ (a + u * x) mod n"
    by (simp add: client_key_def e u_def Let_def)
  also have "\<dots> = (g ^ a mod n * ((g ^ x mod n) ^ u mod n) mod n) ^ b mod n" unfolding B by (rule srp_residue)
  also have "g ^ a mod n * ((g ^ x mod n) ^ u mod n) mod n = session_base w user nb gb salt password A"
    using A by (simp add: session_base_def Let_def key_base_def n_def g_def x_def u_def B_def)
  finally show ?thesis by (simp add: session_key_def x_def B_def b_def n_def)
qed

lemma srp_finish_value:
  assumes ok: "params_ok w lib user nb gb salt password"
    and ready: "session_ready w s user nb gb salt password (be_val (w_random w 32))"
    and A: "length A \<le> BigIntegerByteLen (BigIntegerFromBytes nb)"
  defines "B \<equiv> BigIntegerToBytes (session_B w user nb gb salt password)"
    and "K \<equiv> session_key w user nb gb salt password A"
    and "P \<equiv> param_hash nb gb user salt"
  shows "if rejected nb (session_base w user nb gb salt password A)
    then \<exists>resp. srp_finish w s A M = Some (Some None, SRP_ERROR,
       if M = sha512_hash B \<or> M = sha512_hash (P @ A @ B) then SRP_SUCCESS else SRP_ERROR, resp)
    else \<exists>kc rc. cstr_value kc = K \<and>
      srp_finish w s A M = Some (Some (Some kc), SRP_SUCCESS,
        if M = sha512_hash (B @ K) \<or> M = sha512_hash (P @ A @ B @ K) then SRP_SUCCESS else SRP_ERROR, Some (Some rc)) \<and>
      cstr_value rc = (if M = sha512_hash (B @ K) then sha512_hash (A @ K)
        else if M = sha512_hash (P @ A @ B @ K) then sha512_hash (A @ M @ K) else cstr_value rc)"
proof -
  have w: "world_ok w" using ok by (simp add: params_ok_def)
  have res: "cstr_wf (result_cstr (Some None))" by (simp add: result_cstr_def)
  have m2: "srp_meth_data (t\<lparr>srp_meth_data := Some m2\<rparr>) = Some m2" for t :: srp and m2 by simp
  show ?thesis
  proof (rule compute_key_state [OF ok ready A res], fold B_def K_def P_def)
    fix s' m' assume 1: "rejected nb (session_base w user nb gb salt password A)"
      "SRP_compute_key w s (Some None) A = Some (s', Some None, SRP_ERROR)"
      "srp_meth_data s' = Some m'" "meth_hashes m' (P @ A @ B) A A B"
    have kl: "length (sm_k m') = 64" using 1(4) by (simp add: meth_hashes_def)
    obtain m2 where v: "SRP_verify w s' M = Some (s'\<lparr>srp_meth_data := Some m2\<rparr>,
        if M = sha512_hash B \<or> M = sha512_hash (P @ A @ B) then SRP_SUCCESS else SRP_ERROR)"
      "length (sm_r m2) = 64" by (rule SRP_verify_state [OF 1(3,4) kl])
    obtain rc where rc: "SRP_respond w (s'\<lparr>srp_meth_data := Some m2\<rparr>) (Some None) = Some (Some (Some rc), SRP_SUCCESS)"
      by (rule SRP_respond_state [OF w m2 v(2)])
    have "srp_finish w s A M = Some (Some None, SRP_ERROR,
       if M = sha512_hash B \<or> M = sha512_hash (P @ A @ B) then SRP_SUCCESS else SRP_ERROR, Some (Some rc))"
      using 1(2) v(1) rc by (simp add: srp_finish_def)
    then show ?thesis using 1(1) by auto
  next
    fix s' m' c assume 2: "\<not> rejected nb (session_base w user nb gb salt password A)"
      "SRP_compute_key w s (Some None) A = Some (s', map_option (\<lambda>_. Some c) (Some None :: cstr option option), SRP_SUCCESS)"
      "srp_meth_data s' = Some m'" "meth_hashes m' (P @ A @ B @ K) A (A @ K) (B @ K)"
      "sm_k m' = K" "cstr_wf c" "cstr_value c = K"
    have kl: "length (sm_k m') = 64" using 2(4) by (simp add: meth_hashes_def)
    obtain m2 where v: "SRP_verify w s' M = Some (s'\<lparr>srp_meth_data := Some m2\<rparr>,
        if M = sha512_hash (B @ K) \<or> M = sha512_hash (P @ A @ B @ K) then SRP_SUCCESS else SRP_ERROR)"
      "sm_r m2 = (if M = sha512_hash (B @ K) then sha512_hash (A @ K)
        else if M = sha512_hash (P @ A @ B @ K) then sha512_hash (A @ M @ sm_k m') else sm_r m')"
      "length (sm_r m2) = 64" by (rule SRP_verify_state [OF 2(3,4) kl])
    obtain rc where rc: "SRP_respond w (s'\<lparr>srp_meth_data := Some m2\<rparr>) (Some None) = Some (Some (Some rc), SRP_SUCCESS)"
      "cstr_value rc = sm_r m2" by (rule SRP_respond_state [OF w m2 v(3)])
    have "srp_finish w s A M = Some (Some (Some c), SRP_SUCCESS,
        if M = sha512_hash (B @ K) \<or> M = sha512_hash (P @ A @ B @ K) then SRP_SUCCESS else SRP_ERROR, Some (Some rc))"
      using 2(2) v(1) rc(1) by (simp add: srp_finish_def)
    then show ?thesis using 2(1,5,7) v(2) rc(2) by auto
  qed
qed

section \<open>Properties\<close>


text \<open>C27: For every public value of a client that is not rejected, the check accepts exactly the proof of the
  protocol for the server's key and, for old clients, the hash of the server's value and the key;
  neither can be formed from the exchanged messages without the key's bytes.\<close>

theorem srp_verify_exact:
  assumes "params_ok w lib user nb gb salt password"
    and "length A \<le> BigIntegerByteLen (BigIntegerFromBytes nb)"
    and "\<not> rejected nb (session_base w user nb gb salt password A)"
  shows "let Bb = BigIntegerToBytes (session_B w user nb gb salt password); K = session_key w user nb gb salt password A
    in \<exists>s c r. srp_start w lib user nb gb salt password = Some (s, c, r) \<and>
      (if k_value (BigIntegerFromBytes nb) (BigIntegerFromBytes gb) = 0 then r = SRP_ERROR
       else \<exists>kc rv resp. srp_finish w s A M = Some (Some (Some kc), SRP_SUCCESS, rv, resp) \<and> cstr_value kc = K \<and>
         (rv = SRP_SUCCESS \<longleftrightarrow> M = client_proof nb gb user salt A Bb K \<or> M = sha512_hash (Bb @ K)))"
proof (rule srp_start_ready [OF assms(1)])
  fix s c assume st: "srp_start w lib user nb gb salt password = Some (s, Some (Some c), SRP_SUCCESS)"
    "k_value (BigIntegerFromBytes nb) (BigIntegerFromBytes gb) \<noteq> 0"
    "session_ready w s user nb gb salt password (be_val (w_random w 32))"
  show ?thesis
    using srp_finish_value [OF assms(1) st(3) assms(2), of M] assms(3) st(1,2)
    by (auto simp: Let_def client_proof_def SRP_SUCCESS_def SRP_ERROR_def)
qed (auto simp: Let_def)

text \<open>A public value that is a multiple of the modulus is rejected by \<open>SRP_compute_key\<close>, but the context
  stays usable: \<open>SRP_verify\<close> then accepts the hash of the server's own public value, which anyone
  can form. The code of \<open>SRP_compute_key\<close> must not be ignored.\<close>

theorem srp_zero_key_accepted:
  assumes "params_ok w lib user nb gb salt password"
    and "length A \<le> BigIntegerByteLen (BigIntegerFromBytes nb)"
    and "be_val A mod be_val nb = 0"
  shows "\<exists>s c r. srp_start w lib user nb gb salt password = Some (s, c, r) \<and>
    (if k_value (BigIntegerFromBytes nb) (BigIntegerFromBytes gb) = 0 then r = SRP_ERROR
     else \<exists>resp. srp_finish w s A (sha512_hash (BigIntegerToBytes (session_B w user nb gb salt password))) =
       Some (Some None, SRP_ERROR, SRP_SUCCESS, resp))"
proof (rule srp_start_ready [OF assms(1)])
  fix s c assume st: "srp_start w lib user nb gb salt password = Some (s, Some (Some c), SRP_SUCCESS)"
    "k_value (BigIntegerFromBytes nb) (BigIntegerFromBytes gb) \<noteq> 0"
    "session_ready w s user nb gb salt password (be_val (w_random w 32))"
  have "int (be_val A) mod BigIntegerFromBytes nb = 0"
    using assms(3) by (simp add: BigIntegerFromBytes_def flip: zmod_int)
  then have "session_base w user nb gb salt password A = 0"
    by (simp add: session_base_def Let_def key_base_def mod_eq_0_iff_dvd)
  then have "rejected nb (session_base w user nb gb salt password A)" by (simp add: rejected_def)
  then obtain resp where resp:
    "srp_finish w s A (sha512_hash (BigIntegerToBytes (session_B w user nb gb salt password))) =
       Some (Some None, SRP_ERROR, SRP_SUCCESS, resp)"
    using srp_finish_value [OF assms(1) st(3) assms(2),
        of "sha512_hash (BigIntegerToBytes (session_B w user nb gb salt password))"]
    by (simp only: if_True simp_thms) blast
  show ?thesis
    by (intro exI [of _ s] exI [of _ "Some (Some c)"] exI [of _ SRP_SUCCESS] conjI st(1))
      (simp only: st(2) if_False, rule exI, rule resp)
qed auto

definition sample_ctx :: sha512_ctx where
  "sample_ctx = \<lparr>s_h = [], s_Nl = 5, s_Nh = 6, s_u = replicate 128 9, s_num = 7, s_md_len = 8\<rparr>"

definition sample_world :: srp_world where
  "sample_world = \<lparr>w_mem = (\<lambda>n. Some (replicate (nat n) 0xAA)), w_random = (\<lambda>n. replicate n 7),
     w_gettpnam = (\<lambda>_. None), w_preparams = [], w_is_prime = (\<lambda>_ _. True), w_engine = None, w_ctx = sample_ctx,
     w_meth = \<lparr>sm_hash = sample_ctx, sm_ckhash = sample_ctx, sm_oldhash = sample_ctx, sm_oldckhash = sample_ctx,
       sm_k = replicate 64 1, sm_r = replicate 64 2\<rparr>\<rparr>"

definition sample_modulus :: "byte list" where
  "sample_modulus = 1 # replicate 31 0 @ [1]"

lemma be_val_zeros: "be_val (replicate k 0 @ a) = be_val a"
  by (induction k) (simp_all add: be_val_Cons)

lemma sample_modulus_value: "be_val sample_modulus = 2 ^ 256 + 1"
  unfolding sample_modulus_def by (subst be_val_Cons) (simp only: be_val_zeros, simp add: be_val_Cons)

lemma sample_byte_len: "32 \<le> BigIntegerByteLen (BigIntegerFromBytes sample_modulus)"
proof -
  have "\<not> BigIntegerByteLen (BigIntegerFromBytes sample_modulus) \<le> 31"
    by (simp add: BigIntegerByteLen_le_iff BigIntegerFromBytes_def sample_modulus_value)
  then show ?thesis by simp
qed

lemma sample_params:
  "params_ok sample_world (srp_lib_start\<lparr>srp_modulus_min_bits := 0\<rparr>) [65] sample_modulus [1] [1, 2] [112]"
proof -
  have "BigIntegerByteLen (BigIntegerFromBytes [1]) \<le> 1"
    by (simp add: BigIntegerByteLen_le_iff BigIntegerFromBytes_def be_val_Cons)
  then have "BigIntegerByteLen (BigIntegerFromBytes [1]) \<le> BigIntegerByteLen (BigIntegerFromBytes sample_modulus)"
    using sample_byte_len by linarith
  then show ?thesis
    using sample_byte_len
    by (simp add: params_ok_def world_ok_def sample_world_def sample_ctx_def total_mem_def srp_lib_start_def
        sample_modulus_value) (simp add: sample_modulus_def)
qed

lemma sample_session_base:
  "session_base sample_world [65] sample_modulus [1] [1, 2] [112] A = int (be_val A) mod (2 ^ 256 + 1)"
  by (simp add: session_base_def Let_def key_base_def BigIntegerFromBytes_def sample_modulus_value be_val_Cons)



theorem srp_verify_exact_witness:
  "let Bb = BigIntegerToBytes (session_B sample_world [65] sample_modulus [1] [1, 2] [112]);
       K = session_key sample_world [65] sample_modulus [1] [1, 2] [112] [2]
    in \<exists>s c r. srp_start sample_world (srp_lib_start\<lparr>srp_modulus_min_bits := 0\<rparr>) [65] sample_modulus [1] [1, 2] [112] = Some (s, c, r) \<and>
      (if k_value (BigIntegerFromBytes sample_modulus) (BigIntegerFromBytes [1]) = 0 then r = SRP_ERROR
       else \<exists>kc rv resp. srp_finish sample_world s [2] [9] = Some (Some (Some kc), SRP_SUCCESS, rv, resp) \<and> cstr_value kc = K \<and>
         (rv = SRP_SUCCESS \<longleftrightarrow> [9] = client_proof sample_modulus [1] [65] [1, 2] [2] Bb K \<or> [9] = sha512_hash (Bb @ K)))"
  by (rule srp_verify_exact [OF sample_params])
    (use sample_byte_len in \<open>simp_all add: rejected_def sample_session_base BigIntegerFromBytes_def be_val_Cons sample_modulus_value\<close>)

theorem srp_zero_key_accepted_witness:
  "\<exists>s c r. srp_start sample_world (srp_lib_start\<lparr>srp_modulus_min_bits := 0\<rparr>) [65] sample_modulus [1] [1, 2] [112] = Some (s, c, r) \<and>
    (if k_value (BigIntegerFromBytes sample_modulus) (BigIntegerFromBytes [1]) = 0 then r = SRP_ERROR
     else \<exists>resp. srp_finish sample_world s [0] (sha512_hash (BigIntegerToBytes (session_B sample_world [65] sample_modulus [1] [1, 2] [112]))) =
       Some (Some None, SRP_ERROR, SRP_SUCCESS, resp))"
  by (rule srp_zero_key_accepted [OF sample_params])
    (use sample_byte_len in \<open>simp_all add: be_val_Cons\<close>)

end
