(* ===== verification/Hkdf.thy ===== *)
theory Hkdf
  imports Hmac
begin

text \<open>
  Personal-HomeKit-HAP/rfc6234-master/hkdf.c: extract-and-expand key derivation (RFC 5869) over
  the HMAC of theory \<open>Hmac\<close>, as one call and as the context interface. Null pointers are None; the
  code's output buffers are byte lists that the functions return updated, beside the int code.
\<close>

section \<open>The code\<close>

definition hkdfExtract ::
  "hmac_stack \<Rightarrow> byte list option \<Rightarrow> int \<Rightarrow> byte list \<Rightarrow> int \<Rightarrow> byte list \<Rightarrow> byte list \<times> int" where
  "hkdfExtract st salt salt_len ikm ikm_len prk =
     (case salt of None \<Rightarrow> hmac st ikm ikm_len (replicate 64 0) 64 prk
      | Some s \<Rightarrow> if salt_len < 0 then (prk, shaBadParam) else hmac st ikm ikm_len s salt_len prk)"

text \<open>The body of the expansion loop: the new \<open>T\<close> and the code.\<close>

definition expand_T ::
  "hmac_stack \<Rightarrow> byte list \<Rightarrow> int \<Rightarrow> byte list \<Rightarrow> int \<Rightarrow> byte list \<Rightarrow> int \<Rightarrow> nat \<Rightarrow> byte list \<times> int" where
  "expand_T st prk prk_len info info_len T Tlen i =
     (let c = of_nat i :: byte;
          ((context, T'), ret) =
            or_else (or_else (or_else (or_else
              (on_context (hmacReset (st_tcontext st) (st_tempkey st) prk prk_len))
              (on_context (hmacInput T Tlen)))
              (on_context (hmacInput info info_len)))
              (on_context (hmacInput [c] 1)))
              hmacResult (Some (st_context st), T)
      in (T', ret))"

text \<open>\<open>for (i = 1; i <= N; i++)\<close>, with \<open>n\<close> the rounds left.\<close>

fun expand_loop ::
  "hmac_stack \<Rightarrow> byte list \<Rightarrow> int \<Rightarrow> byte list \<Rightarrow> int \<Rightarrow> nat \<Rightarrow> nat \<Rightarrow> byte list \<Rightarrow> int \<Rightarrow> nat \<Rightarrow>
   byte list \<Rightarrow> nat \<Rightarrow> byte list \<times> int" where
  "expand_loop st prk prk_len info info_len N i T Tlen whr okm 0 = (okm, shaSuccess)"
| "expand_loop st prk prk_len info info_len N i T Tlen whr okm (Suc n) =
     (let (T, ret) = expand_T st prk prk_len info info_len T Tlen i
      in if ret \<noteq> shaSuccess then (okm, ret)
         else let okm = buffer_copy okm whr (take (if i \<noteq> N then 64 else length okm - whr) T)
              in expand_loop st prk prk_len info info_len N (i + 1) T 64 (whr + 64) okm n)"

text \<open>
  \<open>okm\<close> is None for a null pointer, else the caller's buffer of \<open>okm_len\<close> bytes; \<open>T0\<close> is the
  uninitialised local \<open>T\<close>.
\<close>

definition hkdfExpand ::
  "hmac_stack \<Rightarrow> byte list \<Rightarrow> byte list \<Rightarrow> int \<Rightarrow> byte list option \<Rightarrow> int \<Rightarrow> byte list option \<Rightarrow> int \<Rightarrow>
   byte list option \<times> int" where
  "hkdfExpand st T0 prk prk_len info info_len okm okm_len =
     (let (info', info_len') = (case info of None \<Rightarrow> ([], 0) | Some x \<Rightarrow> (x, info_len))
      in if info \<noteq> None \<and> info_len < 0 then (okm, shaBadParam)
         else if okm_len \<le> 0 then (okm, shaBadParam)
         else case okm of None \<Rightarrow> (okm, shaBadParam)
         | Some out \<Rightarrow>
           if prk_len < 64 then (okm, shaBadParam)
           else
             let N = okm_len div 64;
                 N = (if okm_len mod 64 \<noteq> 0 then N + 1 else N)
             in if N > 255 then (okm, shaBadParam)
                else let (out, ret) = expand_loop st prk prk_len info' info_len' (nat N) 1 T0 0 0 out (nat N)
                     in (Some out, ret))"

text \<open>\<open>hkdfExtract(...) || hkdfExpand(...)\<close>; \<open>prk0\<close> is the uninitialised local \<open>prk\<close>.\<close>

definition hkdf ::
  "hmac_stack \<Rightarrow> byte list \<Rightarrow> byte list \<Rightarrow> byte list option \<Rightarrow> int \<Rightarrow> byte list \<Rightarrow> int \<Rightarrow>
   byte list option \<Rightarrow> int \<Rightarrow> byte list option \<Rightarrow> int \<Rightarrow> byte list option \<times> int" where
  "hkdf st T0 prk0 salt salt_len ikm ikm_len info info_len okm okm_len =
     (let ((prk, okm), r) =
        or_else (\<lambda>(prk, okm). let (prk, r) = hkdfExtract st salt salt_len ikm ikm_len prk in ((prk, okm), r))
          (\<lambda>(prk, okm). let (okm, r) = hkdfExpand st T0 prk 64 info info_len okm okm_len in ((prk, okm), r))
          (prk0, okm)
      in (okm, r))"

record hkdf_ctx =
  hk_hmac :: hmac_ctx
  hk_hashSize :: int
  hk_prk :: "byte list"
  hk_Computed :: int
  hk_Corrupted :: int

definition on_hmac :: "(hmac_ctx option \<Rightarrow> hmac_ctx option \<times> int) \<Rightarrow> hkdf_ctx \<Rightarrow> hkdf_ctx option \<times> int" where
  "on_hmac f k = (let (h, r) = f (Some (hk_hmac k)) in (Some (k\<lparr>hk_hmac := the h\<rparr>), r))"

definition hkdfReset ::
  "sha512_ctx \<Rightarrow> byte list \<Rightarrow> byte list option \<Rightarrow> int \<Rightarrow> hkdf_ctx option \<Rightarrow> hkdf_ctx option \<times> int" where
  "hkdfReset tcontext tempkey salt salt_len context =
     (case context of None \<Rightarrow> (None, shaNull)
      | Some k \<Rightarrow>
        let k = k\<lparr>hk_hashSize := 64\<rparr>;
            (s, n) = (case salt of None \<Rightarrow> (replicate 64 0, hk_hashSize k) | Some s \<Rightarrow> (s, salt_len))
        in on_hmac (hmacReset tcontext tempkey s n) k)"

definition hkdfInput :: "byte list \<Rightarrow> int \<Rightarrow> hkdf_ctx option \<Rightarrow> hkdf_ctx option \<times> int" where
  "hkdfInput ikm ikm_len context =
     (case context of None \<Rightarrow> (None, shaNull)
      | Some k \<Rightarrow>
        if hk_Corrupted k \<noteq> 0 then (Some k, hk_Corrupted k)
        else if hk_Computed k \<noteq> 0 then (Some (k\<lparr>hk_Corrupted := shaStateError\<rparr>), shaStateError)
        else on_hmac (hmacInput ikm ikm_len) k)"

definition hkdfFinalBits ::
  "(nat \<Rightarrow> byte list) \<Rightarrow> byte \<Rightarrow> nat \<Rightarrow> hkdf_ctx option \<Rightarrow> hkdf_ctx option \<times> int" where
  "hkdfFinalBits mem ikm_bits ikm_bit_count context =
     (case context of None \<Rightarrow> (None, shaNull)
      | Some k \<Rightarrow>
        if hk_Corrupted k \<noteq> 0 then (Some k, hk_Corrupted k)
        else if hk_Computed k \<noteq> 0 then (Some (k\<lparr>hk_Corrupted := shaStateError\<rparr>), shaStateError)
        else on_hmac (hmacFinalBits mem ikm_bits ikm_bit_count) k)"

text \<open>\<open>prk\<close> is None for a null pointer: the local \<open>prkbuf\<close> takes its place and is not returned.\<close>

definition hkdfResult ::
  "hmac_stack \<Rightarrow> byte list \<Rightarrow> byte list \<Rightarrow> byte list option \<Rightarrow> byte list option \<Rightarrow> int \<Rightarrow>
   byte list option \<Rightarrow> int \<Rightarrow> hkdf_ctx option \<Rightarrow> (hkdf_ctx option \<times> byte list option \<times> byte list option) \<times> int" where
  "hkdfResult st T0 prkbuf prk info info_len okm okm_len context =
     (case context of None \<Rightarrow> ((None, prk, okm), shaNull)
      | Some k \<Rightarrow>
        if hk_Corrupted k \<noteq> 0 then ((Some k, prk, okm), hk_Corrupted k)
        else if hk_Computed k \<noteq> 0 then ((Some (k\<lparr>hk_Corrupted := shaStateError\<rparr>), prk, okm), shaStateError)
        else if okm = None then ((Some (k\<lparr>hk_Corrupted := shaBadParam\<rparr>), prk, okm), shaBadParam)
        else
          let p = (case prk of None \<Rightarrow> prkbuf | Some p \<Rightarrow> p);
              ((h, p, out), ret) =
                or_else
                  (\<lambda>(h, p, out). let ((h, p), r) = hmacResult (h, p) in ((h, p, out), r))
                  (\<lambda>(h, p, out).
                    let (out, r) = hkdfExpand st T0 p (hk_hashSize k) info info_len out okm_len
                    in ((h, p, out), r))
                  (Some (hk_hmac k), p, okm);
              k = k\<lparr>hk_hmac := the h, hk_Computed := 1, hk_Corrupted := ret\<rparr>
          in ((Some k, map_option (\<lambda>_. p) prk, out), ret))"

section \<open>RFC 5869\<close>

fun hkdf_T :: "byte list \<Rightarrow> byte list \<Rightarrow> nat \<Rightarrow> byte list" where
  "hkdf_T prk info 0 = []"
| "hkdf_T prk info (Suc i) = hmac_mac prk (hkdf_T prk info i @ info @ [of_nat (Suc i)])"

definition hkdf_expand :: "byte list \<Rightarrow> byte list \<Rightarrow> nat \<Rightarrow> byte list" where
  "hkdf_expand prk info L =
     take L (concat (map (hkdf_T prk info) [1..<Suc ((L + 63) div 64)]))"

lemma length_hkdf_T [simp]: "length (hkdf_T prk info i) = (if i = 0 then 0 else 64)"
  by (cases i) simp_all

lemma hmac_chain:
  assumes st: "hmac_stack_ok st" and prk: "length prk < 2 ^ 31" and T: "length T = 64"
    and t: "take (nat Tlen) T = t" "0 \<le> Tlen" "Tlen \<le> 64" and info: "length info < 2 ^ 31"
  shows "expand_T st prk (int (length prk)) info (int (length info)) T Tlen i =
    (hmac_mac prk (t @ info @ [of_nat i]), 0)"
proof -
  define c1 where "c1 = hmacReset (st_tcontext st) (st_tempkey st) prk (int (length prk)) (Some (st_context st))"
  have c1: "snd c1 = 0" "hmac_absorbed prk (fst c1) []"
    using hmacReset_absorbed [OF refl prk, of "st_tcontext st" "st_tempkey st" "st_context st"] st
    by (simp_all add: c1_def hmac_stack_ok_def)
  define c2 where "c2 = hmacInput T Tlen (fst c1)"
  have "hmacInput T Tlen = hmacInput t (int (length t))"
  proof
    fix c
    show "hmacInput T Tlen c = hmacInput t (int (length t)) c"
      using t T by (cases c) (simp_all add: hmacInput_def SHA512Input_def flip: t(1))
  qed
  then have c2: "snd c2 = 0" "hmac_absorbed prk (fst c2) t"
    using hmacInput_absorbed [OF c1(2) refl, of t] t T by (auto simp: c2_def)
  define c3 where "c3 = hmacInput info (int (length info)) (fst c2)"
  have c3: "snd c3 = 0" "hmac_absorbed prk (fst c3) (t @ info)"
    using hmacInput_absorbed [OF c2(2) refl info] by (simp_all add: c3_def)
  define c4 where "c4 = hmacInput [of_nat i] 1 (fst c3)"
  have c4: "snd c4 = 0" "hmac_absorbed prk (fst c4) ((t @ info) @ [of_nat i])"
    using hmacInput_absorbed [OF c3(2), of 1 "[of_nat i]"] by (simp_all add: c4_def)
  obtain h where "hmacResult (fst c4, T) = ((Some h, hmac_mac prk ((t @ info) @ [of_nat i])), 0)"
    by (rule hmacResult_absorbed [OF c4(2) T])
  then show ?thesis
    using c1(1) c2(1) c3(1) c4(1)
    by (simp add: expand_T_def or_else_def on_context_def case_prod_beta c1_def c2_def c3_def c4_def)
qed

lemma expand_loop_value:
  assumes st: "hmac_stack_ok st" and prk: "length prk < 2 ^ 31" and info: "length info < 2 ^ 31"
    and N: "i + n = Suc N" "64 * N < length okm + 64" "length okm \<le> 64 * N" "0 < i"
    and T: "length T = 64" "take (nat Tlen) T = hkdf_T prk info (i - 1)" "0 \<le> Tlen" "Tlen \<le> 64"
    and w: "whr = 64 * (i - 1)"
  shows "expand_loop st prk (int (length prk)) info (int (length info)) N i T Tlen whr okm n =
    (take whr okm @ take (length okm - whr) (concat (map (hkdf_T prk info) [i..<Suc N])), shaSuccess)"
  using N T w
proof (induction n arbitrary: i T Tlen whr okm)
  case 0
  then show ?case by (simp add: sha_codes)
next
  case (Suc n)
  define T' where "T' = hkdf_T prk info i"
  have T': "expand_T st prk (int (length prk)) info (int (length info)) T Tlen i = (T', 0)" "length T' = 64"
    using hmac_chain [OF st prk Suc.prems(5,6,7,8) info, of i] Suc.prems(4)
    by (cases i; simp add: T'_def)+
  define okm' where "okm' = buffer_copy okm whr (take (if i \<noteq> N then 64 else length okm - whr) T')"
  have iN: "i \<le> N" using Suc.prems(1) by simp
  have fit: "whr + length (take (if i \<noteq> N then 64 else length okm - whr) T') \<le> length okm"
    using Suc.prems(2,3,4) iN T'(2) by (auto simp: Suc.prems(9))
  have o: "okm' = take whr okm @ take (if i \<noteq> N then 64 else length okm - whr) T' @
      drop (whr + length (take (if i \<noteq> N then 64 else length okm - whr) T')) okm"
    unfolding okm'_def by (rule buffer_copy_at [OF fit])
  have IH: "expand_loop st prk (int (length prk)) info (int (length info)) N (Suc i) T' 64 (whr + 64) okm' n =
      (take (whr + 64) okm' @ take (length okm' - (whr + 64)) (concat (map (hkdf_T prk info) [Suc i..<Suc N])), shaSuccess)"
    by (rule Suc.IH) (use Suc.prems T'(2) in \<open>auto simp: okm'_def T'_def\<close>)
  have up: "[i..<Suc N] = i # [Suc i..<Suc N]" using iN by (simp add: upt_conv_Cons del: upt_Suc)
  have "take (whr + 64) okm' @ take (length okm' - (whr + 64)) (concat (map (hkdf_T prk info) [Suc i..<Suc N])) =
      take whr okm @ take (length okm - whr) (concat (map (hkdf_T prk info) [i..<Suc N]))"
  proof (cases "i = N")
    case True
    then have "length okm - whr \<le> 64" "whr \<le> length okm" using Suc.prems(2,3,4) by (auto simp: Suc.prems(9))
    then show ?thesis using True T'(2) o fit up by (simp add: T'_def okm'_def del: upt_Suc)
  next
    case False
    then have "whr + 64 \<le> length okm" using fit T'(2) by simp
    then show ?thesis using False T'(2) o up
      by (simp add: T'_def okm'_def del: upt_Suc) 
  qed
  then show ?case using IH T'(1) by (simp add: okm'_def sha_codes)
qed

lemma blocks_ceiling: "(if x mod 64 \<noteq> 0 then x div 64 + 1 else x div 64) = (x + 63) div (64 :: int)"
proof -
  have "64 * (x div 64) + x mod 64 = x" "64 * ((x + 63) div 64) + (x + 63) mod 64 = x + 63"
    by (rule mult_div_mod_eq)+
  moreover have "0 \<le> x mod 64" "x mod 64 < 64" "0 \<le> (x + 63) mod 64" "(x + 63) mod 64 < 64" by simp_all
  ultimately have "x mod 64 = 0 \<Longrightarrow> x div 64 = (x + 63) div 64" "x mod 64 \<noteq> 0 \<Longrightarrow> x div 64 + 1 = (x + 63) div 64"
    by linarith+
  then show ?thesis by presburger
qed

lemma hkdfExpand_value:
  assumes "hmac_stack_ok st" "length prk = 64" "length info < 2 ^ 31" "length T0 = 64"
    and "0 < length out" "length out \<le> 255 * 64"
  shows "hkdfExpand st T0 prk 64 (Some info) (int (length info)) (Some out) (int (length out)) =
    (Some (hkdf_expand prk info (length out)), shaSuccess)"
    and "hkdfExpand st T0 prk 64 None n (Some out) (int (length out)) =
    (Some (hkdf_expand prk [] (length out)), shaSuccess)"
proof -
  define L where "L = length out"
  define N where "N = (L + 63) div 64"
  have Nb: "64 * N < L + 64" "L \<le> 64 * N" "N \<le> 255" "0 < N"
  proof -
    have "64 * N + (L + 63) mod 64 = L + 63" "(L + 63) mod 64 < 64" by (simp_all add: N_def)
    then show "64 * N < L + 64" "L \<le> 64 * N" "N \<le> 255" "0 < N"
      using assms(5,6) unfolding L_def [symmetric] by linarith+
  qed
  have Nc: "(if int L mod 64 \<noteq> 0 then int L div 64 + 1 else int L div 64) = int N"
    unfolding blocks_ceiling by (simp add: N_def zdiv_int)
  have loop: "expand_loop st prk 64 x (int (length x)) N 1 T0 0 0 out N = (hkdf_expand prk x L, shaSuccess)"
    if "length x < 2 ^ 31" for x
    using expand_loop_value [OF assms(1) _ that, of prk 1 N N out T0 0 0] Nb assms(2,4)
    by (simp add: hkdf_expand_def L_def N_def del: upt_Suc)
  show "hkdfExpand st T0 prk 64 (Some info) (int (length info)) (Some out) (int (length out)) =
    (Some (hkdf_expand prk info (length out)), shaSuccess)"
    "hkdfExpand st T0 prk 64 None n (Some out) (int (length out)) =
    (Some (hkdf_expand prk [] (length out)), shaSuccess)"
    unfolding L_def [symmetric] hkdfExpand_def Let_def Nc
    using Nb loop [OF assms(3)] loop [of "[]"] assms(5) by (simp_all add: L_def)
qed

section \<open>The properties\<close>

definition hkdf_extract :: "byte list option \<Rightarrow> byte list \<Rightarrow> byte list" where
  "hkdf_extract salt ikm = hmac_mac (case salt of None \<Rightarrow> replicate 64 0 | Some s \<Rightarrow> s) ikm"

definition bytes_or_empty :: "byte list option \<Rightarrow> byte list" where
  "bytes_or_empty x = (case x of None \<Rightarrow> [] | Some b \<Rightarrow> b)"

lemma hkdfExtract_value:
  assumes "hmac_stack_ok st" "length ikm < 2 ^ 31" "length prk = 64"
    and "\<And>s. salt = Some s \<Longrightarrow> salt_len = int (length s) \<and> length s < 2 ^ 31"
  shows "hkdfExtract st salt salt_len ikm (int (length ikm)) prk = (hkdf_extract salt ikm, 0)"
proof (cases salt)
  case None
  then show ?thesis
    using hmac_correct [OF assms(1) _ assms(2,3), of "replicate 64 0"]
    by (simp add: hkdfExtract_def hkdf_extract_def)
next
  case (Some s)
  then show ?thesis
    using hmac_correct [OF assms(1) _ assms(2,3), of s] assms(4) [OF Some]
    by (simp add: hkdfExtract_def hkdf_extract_def)
qed

lemma hkdf_value:
  assumes "hmac_stack_ok st" "length ikm < 2 ^ 31" "length prk0 = 64" "length T0 = 64"
    and "length (bytes_or_empty salt) < 2 ^ 31" "length (bytes_or_empty info) < 2 ^ 31"
    and "0 < length out" "length out \<le> 255 * 64"
  shows "hkdf st T0 prk0 salt (int (length (bytes_or_empty salt))) ikm (int (length ikm))
      info (int (length (bytes_or_empty info))) (Some out) (int (length out)) =
    (Some (hkdf_expand (hkdf_extract salt ikm) (bytes_or_empty info) (length out)), 0)"
proof -
  have e: "hkdfExtract st salt (int (length (bytes_or_empty salt))) ikm (int (length ikm)) prk0 =
      (hkdf_extract salt ikm, 0)"
    using assms(5) by (intro hkdfExtract_value [OF assms(1-3)]) (simp add: bytes_or_empty_def)
  have "length (hkdf_extract salt ikm) = 64" by (simp add: hkdf_extract_def)
  note x = hkdfExpand_value [OF assms(1) this _ assms(4,7,8)]
  have "hkdfExpand st T0 (hkdf_extract salt ikm) 64 info (int (length (bytes_or_empty info))) (Some out)
      (int (length out)) = (Some (hkdf_expand (hkdf_extract salt ikm) (bytes_or_empty info) (length out)), 0)"
    using x(1) [of "bytes_or_empty info"] x(2) [of "[]"] assms(6)
    by (cases info) (simp_all add: bytes_or_empty_def sha_codes)
  then show ?thesis using e by (simp add: hkdf_def or_else_def)
qed

text \<open>C31: \<open>hkdf\<close> fills the whole output buffer with the RFC 5869 key material (SHA-512, the salt of
  64 zero bytes for a null salt, the empty info for a null info) and returns 0, for every output
  length from 1 to 255 blocks of the hash.\<close>

theorem hkdf_correct:
  assumes "hmac_stack_ok st" "length ikm < 2 ^ 31" "length prk0 = 64" "length T0 = 64"
    and "length (bytes_or_empty salt) < 2 ^ 31" "length (bytes_or_empty info) < 2 ^ 31"
    and "0 < length out" "length out \<le> 255 * 64"
  shows "hkdf st T0 prk0 salt (int (length (bytes_or_empty salt))) ikm (int (length ikm))
      info (int (length (bytes_or_empty info))) (Some out) (int (length out)) =
    (Some (hkdf_expand (hkdf_extract salt ikm) (bytes_or_empty info) (length out)), 0)"
  by (rule hkdf_value [OF assms])

theorem hkdf_correct_witness:
  "hkdf (hmac_stack.make (hmac_ctx.make 7 7 (sha512_ctx.make [] 0 0 (replicate 128 7) 0 0) [] 1 4)
      (sha512_ctx.make [] 0 0 (replicate 128 7) 0 0) (replicate 64 3)) (replicate 64 1) (replicate 64 2)
      (Some [115]) 1 [1, 2, 3] 3 None 0 (Some (replicate 100 0)) 100 =
    (Some (hkdf_expand (hkdf_extract (Some [115]) [1, 2, 3]) [] 100), 0)"
  using hkdf_correct [of "hmac_stack.make (hmac_ctx.make 7 7 (sha512_ctx.make [] 0 0 (replicate 128 7) 0 0) [] 1 4)
      (sha512_ctx.make [] 0 0 (replicate 128 7) 0 0) (replicate 64 3)" "[1, 2, 3]" "replicate 64 2"
      "replicate 64 1" "Some [115]" None "replicate 100 0"]
  by (simp add: hmac_stack_ok_def hmac_stack.make_def hmac_ctx.make_def sha512_ctx.make_def bytes_or_empty_def)

text \<open>Every bad argument of \<open>hkdf\<close> (a negative salt or info length with a buffer given, a
  non-positive or too large output length, a null output) leaves the output untouched and
  returns 1, the value of \<open>shaNull\<close>: the \<open>||\<close> of the code loses the \<open>shaBadParam\<close> of its callees.\<close>

theorem hkdf_bad_param:
  assumes "(salt \<noteq> None \<and> salt_len < 0) \<or> (info \<noteq> None \<and> info_len < 0) \<or> okm_len \<le> 0 \<or>
    okm_len > 255 * 64 \<or> okm = None"
  shows "hkdf st T0 prk0 salt salt_len ikm ikm_len info info_len okm okm_len = (okm, shaNull)"
proof -
  have bad: "hkdfExpand st T0 p 64 info info_len okm okm_len = (okm, shaBadParam)"
    if ns: "\<not> (salt \<noteq> None \<and> salt_len < 0)" for p
  proof -
    have "64 * ((okm_len + 63) div 64) + (okm_len + 63) mod 64 = okm_len + 63" "(okm_len + 63) mod 64 < 64"
      by (rule mult_div_mod_eq) simp
    then have N: "(if okm_len mod 64 \<noteq> 0 then okm_len div 64 + 1 else okm_len div 64) > 255"
      if "okm_len > 255 * 64"
      unfolding blocks_ceiling using that by linarith
    consider "info \<noteq> None \<and> info_len < 0" | "okm_len \<le> 0" | "okm = None" | "okm_len > 255 * 64"
      using assms ns by blast
    then show ?thesis
    proof cases
      case 4
      show ?thesis
        unfolding hkdfExpand_def Let_def using N [OF 4] by (auto split: option.split)
    qed (auto simp: hkdfExpand_def split: option.split)
  qed
  show ?thesis
  proof (cases "salt \<noteq> None \<and> salt_len < 0")
    case True
    then show ?thesis by (auto simp: hkdf_def or_else_def hkdfExtract_def sha_codes)
  next
    case False
    then show ?thesis
      by (simp add: hkdf_def or_else_def bad case_prod_beta) (simp add: sha_codes)
  qed
qed

theorem hkdf_bad_param_witness:
  "hkdf (hmac_stack.make (hmac_ctx.make 7 7 (sha512_ctx.make [] 0 0 (replicate 128 7) 0 0) [] 1 4)
      (sha512_ctx.make [] 0 0 (replicate 128 7) 0 0) (replicate 64 3)) (replicate 64 1) (replicate 64 2)
      None 0 [1] 1 (Some [2]) (- 5) (Some [0, 0]) 2 = (Some [0, 0], shaNull)"
  by (rule hkdf_bad_param) simp

text \<open>The context between \<open>hkdfReset\<close> and \<open>hkdfResult\<close>.\<close>

definition hkdf_absorbed :: "byte list \<Rightarrow> hkdf_ctx option \<Rightarrow> byte list \<Rightarrow> bool" where
  "hkdf_absorbed salt context ikm \<longleftrightarrow>
     (\<exists>k. context = Some k \<and> hk_Computed k = 0 \<and> hk_Corrupted k = 0 \<and> hk_hashSize k = 64 \<and>
        hmac_absorbed salt (Some (hk_hmac k)) ikm)"

definition salt_of :: "byte list option \<Rightarrow> byte list" where
  "salt_of salt = (case salt of None \<Rightarrow> replicate 64 0 | Some s \<Rightarrow> s)"

lemma on_hmac_value:
  assumes "snd (f (Some (hk_hmac k))) = 0" "hmac_absorbed salt (fst (f (Some (hk_hmac k)))) ikm"
    "hk_Computed k = 0" "hk_Corrupted k = 0" "hk_hashSize k = 64"
  shows "snd (on_hmac f k) = 0" "hkdf_absorbed salt (fst (on_hmac f k)) ikm"
  using assms by (auto simp: on_hmac_def case_prod_beta Let_def hkdf_absorbed_def hmac_absorbed_def)

lemma hkdfReset_absorbed:
  assumes "length (salt_of salt) < 2 ^ 31" "length (s_u tc) = 128" "length tk = 64"
    "length (s_u (hm_sha (hk_hmac k))) = 128" "hk_Computed k = 0" "hk_Corrupted k = 0"
  shows "snd (hkdfReset tc tk salt (int (length (salt_of salt))) (Some k)) = 0"
    "hkdf_absorbed (salt_of salt) (fst (hkdfReset tc tk salt (int (length (salt_of salt))) (Some k))) []"
proof -
  let ?k = "k\<lparr>hk_hashSize := 64\<rparr>"
  have e: "hkdfReset tc tk salt (int (length (salt_of salt))) (Some k) =
      on_hmac (hmacReset tc tk (salt_of salt) (int (length (salt_of salt)))) ?k"
    by (cases salt) (simp_all add: hkdfReset_def salt_of_def Let_def)
  have l: "length (s_u (hm_sha (hk_hmac ?k))) = 128" using assms(4) by simp
  note r = hmacReset_absorbed [OF refl assms(1-3) l]
  show "snd (hkdfReset tc tk salt (int (length (salt_of salt))) (Some k)) = 0"
    "hkdf_absorbed (salt_of salt) (fst (hkdfReset tc tk salt (int (length (salt_of salt))) (Some k))) []"
    unfolding e
    by (rule on_hmac_value [where f = "hmacReset tc tk (salt_of salt) (int (length (salt_of salt)))" and k = ?k,
          OF r]; simp add: assms)+
qed

lemma hkdfInput_absorbed:
  assumes "hkdf_absorbed salt ctx ikm" "length p < 2 ^ 31"
  shows "snd (hkdfInput p (int (length p)) ctx) = 0"
    "hkdf_absorbed salt (fst (hkdfInput p (int (length p)) ctx)) (ikm @ p)"
proof -
  obtain k where k: "ctx = Some k" "hk_Computed k = 0" "hk_Corrupted k = 0" "hk_hashSize k = 64"
    "hmac_absorbed salt (Some (hk_hmac k)) ikm"
    using assms(1) by (auto simp: hkdf_absorbed_def)
  note i = hmacInput_absorbed [OF k(5) refl assms(2)]
  show "snd (hkdfInput p (int (length p)) ctx) = 0"
    "hkdf_absorbed salt (fst (hkdfInput p (int (length p)) ctx)) (ikm @ p)"
    using on_hmac_value [where f = "hmacInput p (int (length p))" and k = k, OF i k(2-4)] by (simp_all add: hkdfInput_def k)
qed

lemma hkdfInputs_absorbed:
  "hkdf_absorbed salt ctx ikm \<Longrightarrow> \<forall>p \<in> set pieces. length p < 2 ^ 31 \<Longrightarrow>
   hkdf_absorbed salt (fold (\<lambda>p c. fst (hkdfInput p (int (length p)) c)) pieces ctx) (ikm @ concat pieces)"
proof (induction pieces arbitrary: ctx ikm)
  case (Cons p ps)
  then show ?case using hkdfInput_absorbed(2) [of salt ctx ikm p] Cons.IH [of _ "ikm @ p"] by simp
qed simp

text \<open>The context interface derives the same key material as RFC 5869 asks for, however the
  keying material was cut into calls of \<open>hkdfInput\<close>, and returns the extracted key where the
  caller gave a buffer for it.\<close>

theorem hkdf_context_correct:
  assumes "hmac_stack_ok st" "length (salt_of salt) < 2 ^ 31" "\<forall>p \<in> set pieces. length p < 2 ^ 31"
    and "length (s_u (hm_sha (hk_hmac k))) = 128" "hk_Computed k = 0" "hk_Corrupted k = 0"
    and "length prk = 64" "length prkbuf = 64" "length T0 = 64" "length info < 2 ^ 31"
    and "0 < length out" "length out \<le> 255 * 64"
  defines "ctx \<equiv> fold (\<lambda>p c. fst (hkdfInput p (int (length p)) c)) pieces
    (fst (hkdfReset (st_tcontext st) (st_tempkey st) salt (int (length (salt_of salt))) (Some k)))"
  shows "\<exists>k'. hkdfResult st T0 prkbuf (Some prk) (Some info) (int (length info)) (Some out) (int (length out)) ctx =
    ((Some k', Some (hkdf_extract salt (concat pieces)),
      Some (hkdf_expand (hkdf_extract salt (concat pieces)) info (length out))), 0) \<and> hk_Computed k' = 1"
proof -
  have s: "hmac_mac (salt_of salt) m = hkdf_extract salt m" for m
    by (simp add: salt_of_def hkdf_extract_def)
  have "hkdf_absorbed (salt_of salt) ctx (concat pieces)"
    using hkdfInputs_absorbed [OF hkdfReset_absorbed(2) [OF assms(2) _ _ assms(4-6)] assms(3)] assms(1)
    by (simp add: ctx_def hmac_stack_ok_def)
  then obtain k1 where k1: "ctx = Some k1" "hk_Computed k1 = 0" "hk_Corrupted k1 = 0" "hk_hashSize k1 = 64"
    "hmac_absorbed (salt_of salt) (Some (hk_hmac k1)) (concat pieces)"
    by (auto simp: hkdf_absorbed_def)
  obtain h where h: "hmacResult (Some (hk_hmac k1), prk) = ((Some h, hkdf_extract salt (concat pieces)), 0)"
    by (rule hmacResult_absorbed [OF k1(5) assms(7)]) (simp add: s)
  have "length (hkdf_extract salt (concat pieces)) = 64" by (simp add: hkdf_extract_def)
  note x = hkdfExpand_value(1) [OF assms(1) this assms(10,9,11,12)]
  show ?thesis
    using h x by (simp add: hkdfResult_def k1 or_else_def Let_def sha_codes)
qed

definition sample_hash_ctx :: sha512_ctx where
  "sample_hash_ctx = sha512_ctx.make [] 5 6 (replicate 128 7) 8 9"

definition sample_stack :: hmac_stack where
  "sample_stack = hmac_stack.make (hmac_ctx.make 7 7 sample_hash_ctx [] 1 4) sample_hash_ctx (replicate 64 3)"

definition sample_hkdf_ctx :: hkdf_ctx where
  "sample_hkdf_ctx = hkdf_ctx.make (hmac_ctx.make 7 7 sample_hash_ctx [] 1 4) 0 [] 0 0"

lemmas samples = sample_hash_ctx_def sample_stack_def sample_hkdf_ctx_def hmac_stack.make_def
  hmac_ctx.make_def sha512_ctx.make_def hkdf_ctx.make_def

theorem hkdf_context_correct_witness:
  "\<exists>k'. hkdfResult sample_stack (replicate 64 1) (replicate 64 2) (Some (replicate 64 0))
      (Some [9]) (int (length [9 :: byte])) (Some [0, 0]) (int (length [0 :: byte, 0]))
      (fold (\<lambda>p c. fst (hkdfInput p (int (length p)) c)) [[1], [2, 3]]
        (fst (hkdfReset (st_tcontext sample_stack) (st_tempkey sample_stack) (Some [5])
          (int (length (salt_of (Some [5])))) (Some sample_hkdf_ctx)))) =
    ((Some k', Some (hkdf_extract (Some [5]) (concat [[1], [2, 3]])),
      Some (hkdf_expand (hkdf_extract (Some [5]) (concat [[1], [2, 3]])) [9] (length [0 :: byte, 0]))), 0) \<and>
    hk_Computed k' = 1"
  by (rule hkdf_context_correct) (simp_all add: samples hmac_stack_ok_def salt_of_def)

text \<open>\<open>hkdfReset\<close> does not clear the state fields of its context: one that has given a result or
  was corrupted cannot be used again, the first input after the reset is refused.\<close>

theorem hkdf_reset_keeps_state:
  assumes "hk_Corrupted k \<noteq> 0 \<or> hk_Computed k \<noteq> 0"
  shows "snd (hkdfInput ikm ikm_len (fst (hkdfReset tc tk salt salt_len (Some k)))) =
    (if hk_Corrupted k \<noteq> 0 then hk_Corrupted k else shaStateError)"
  using assms
  by (auto simp: hkdfReset_def on_hmac_def case_prod_beta Let_def hkdfInput_def split: option.split)

theorem hkdf_reset_keeps_state_witness:
  "snd (hkdfInput [1] 1 (fst (hkdfReset sample_hash_ctx (replicate 64 3) None 0
      (Some (sample_hkdf_ctx\<lparr>hk_Computed := 1\<rparr>))))) = 3"
  using hkdf_reset_keeps_state [of "sample_hkdf_ctx\<lparr>hk_Computed := 1\<rparr>" "[1]" 1]
  by (simp add: samples shaStateError_def)

end
