(* ===== verification/Hap_Setup.thy ===== *)
theory Hap_Setup
  imports Hap_Aead Hap_Store Srp_Session Hkdf
begin

text \<open>
  Personal-HomeKit-HAP/PHKNetworkIP.cpp, \<open>handlePairSeup\<close>: the pairing of a controller that knows the
  pin. The SRP server, HKDF, the cipher, the lists and the store are the modelled ones. The record
  \<open>hap_world\<close> holds what comes from outside: the bytes of \<open>rand\<close>, uninitialised memory, the names of the
  device and the signatures of the ed25519 code. A null pointer that is
  dereferenced, an uninitialised pointer that is used, and a read or write outside a block are None.
\<close>

section \<open>The code\<close>

definition modulusStr :: "byte list" where
  "modulusStr = [
     255, 255, 255, 255, 255, 255, 255, 255, 201, 15, 218, 162, 33, 104, 194, 52, 196, 198, 98, 139, 128, 220, 28, 209,
     41, 2, 78, 8, 138, 103, 204, 116, 2, 11, 190, 166, 59, 19, 155, 34, 81, 74, 8, 121, 142, 52, 4, 221,
     239, 149, 25, 179, 205, 58, 67, 27, 48, 43, 10, 109, 242, 95, 20, 55, 79, 225, 53, 109, 109, 81, 194, 69,
     228, 133, 181, 118, 98, 94, 126, 198, 244, 76, 66, 233, 166, 55, 237, 107, 11, 255, 92, 182, 244, 6, 183, 237,
     238, 56, 107, 251, 90, 137, 159, 165, 174, 159, 36, 17, 124, 75, 31, 230, 73, 40, 102, 81, 236, 228, 91, 61,
     194, 0, 124, 184, 161, 99, 191, 5, 152, 218, 72, 54, 28, 85, 211, 154, 105, 22, 63, 168, 253, 36, 207, 95,
     131, 101, 93, 35, 220, 163, 173, 150, 28, 98, 243, 86, 32, 133, 82, 187, 158, 213, 41, 7, 112, 150, 150, 109,
     103, 12, 53, 78, 74, 188, 152, 4, 241, 116, 108, 8, 202, 24, 33, 124, 50, 144, 94, 70, 46, 54, 206, 59,
     227, 158, 119, 44, 24, 14, 134, 3, 155, 39, 131, 162, 236, 7, 162, 143, 181, 197, 93, 240, 111, 76, 82, 201,
     222, 43, 203, 246, 149, 88, 23, 24, 57, 149, 73, 124, 234, 149, 106, 229, 21, 210, 38, 24, 152, 250, 5, 16,
     21, 114, 142, 90, 138, 170, 196, 45, 173, 51, 23, 13, 4, 80, 122, 51, 168, 85, 33, 171, 223, 28, 186, 100,
     236, 251, 133, 4, 88, 219, 239, 10, 138, 234, 113, 87, 93, 6, 12, 125, 179, 151, 15, 133, 166, 225, 228, 199,
     171, 245, 174, 140, 219, 9, 51, 215, 30, 140, 148, 224, 74, 37, 97, 157, 206, 227, 210, 38, 26, 210, 238, 107,
     241, 47, 250, 6, 217, 138, 8, 100, 216, 118, 2, 115, 62, 200, 106, 100, 82, 31, 43, 24, 23, 123, 32, 12,
     187, 225, 23, 87, 122, 97, 93, 108, 119, 9, 136, 192, 186, 217, 70, 226, 8, 226, 79, 160, 116, 229, 171, 49,
     67, 219, 91, 252, 224, 253, 16, 142, 75, 130, 209, 32, 169, 58, 210, 202, 255, 255, 255, 255, 255, 255, 255, 255]"

definition generator :: "byte list" where "generator = [5]"

definition accessorySecretKey :: "byte list" where
  "accessorySecretKey = [255, 255, 255, 255, 255, 255, 255, 255, 201, 15, 218, 162, 33, 104, 194, 52,
     196, 198, 98, 139, 128, 220, 28, 209, 41, 2, 78, 8, 138, 103, 204, 116]"

record hap_world =
  hw_srp :: srp_world
  hw_lib :: srp_lib
  hw_stack :: hmac_stack
  hw_T :: "byte list"
  hw_prk :: "byte list"
  hw_rand :: "nat \<Rightarrow> byte list"
  hw_garbage :: "nat \<Rightarrow> byte list"
  hw_message :: message
  hw_cipher :: chacha20_ctx
  hw_PinCode :: "byte list"
  hw_DeviceIdentity :: "byte list"
  hw_sign_open :: "byte list \<Rightarrow> byte list \<Rightarrow> byte list \<Rightarrow> bool"
  hw_publickey :: "byte list \<Rightarrow> byte list"
  hw_sign :: "byte list \<Rightarrow> byte list \<Rightarrow> byte list \<Rightarrow> byte list"

text \<open>The strings are given to \<open>hkdf\<close> with their lengths; \<open>out\<close> is the part of the buffer it fills.\<close>

definition call_hkdf :: "hap_world \<Rightarrow> byte list \<Rightarrow> byte list \<Rightarrow> byte list \<Rightarrow> byte list \<Rightarrow> byte list \<times> int" where
  "call_hkdf w salt ikm info out =
     (let (okm, i) = hkdf (hw_stack w) (hw_T w) (hw_prk w) (Some salt) (int (length salt)) ikm (int (length ikm))
        (Some info) (int (length info)) (Some out) (int (length out))
      in (case okm of Some x \<Rightarrow> x | None \<Rightarrow> out, i))"

record pair_setup =
  ps_srp :: srp
  ps_secretKey :: "cstr option"
  ps_publicKey :: "cstr option"
  ps_response :: "cstr option"
  ps_sessionKey :: "byte list"
  ps_store :: controller_store

text \<open>What a message leads to: a response and the next message, the end without or with a response.\<close>

datatype setup_outcome = Respond message_data | Leave | Finish message_data

abbreviation field_record :: "byte \<Rightarrow> byte list \<Rightarrow> data_record" where
  "field_record i d \<equiv> \<lparr>r_index = i, r_data = d, r_activate = True\<rparr>"

definition setup_M1 :: "hap_world \<Rightarrow> pair_setup \<Rightarrow> data_record \<Rightarrow> (pair_setup \<times> setup_outcome) option" where
  "setup_M1 w p stateRecord =
     do { let saltChar = hw_rand w 16;
          (s, result) \<leftarrow> SRP_set_username (hw_srp w) (hw_lib w) (ps_srp p) (ascii ''Pair-Setup'' @ [0]);
          (s, result) \<leftarrow> SRP_set_params (hw_srp w) (hw_lib w) s (Some modulusStr) (Some generator) (Some saltChar);
          (s, result) \<leftarrow> SRP_set_auth_password (hw_srp w) s (hw_PinCode w @ [0]);
          (s, pub, result) \<leftarrow> SRP_gen_pub (hw_srp w) (hw_lib w) s (Some (ps_publicKey p));
          publicKey \<leftarrow> Option.bind pub id;
          d \<leftarrow> addRecord new_data stateRecord;
          d \<leftarrow> addRecord d (field_record 3 (cstr_value publicKey));
          d \<leftarrow> addRecord d (field_record 2 saltChar);
          Some (p\<lparr>ps_srp := s, ps_publicKey := Some publicKey\<rparr>, Respond d) }"

definition setup_M3 :: "hap_world \<Rightarrow> pair_setup \<Rightarrow> message_data \<Rightarrow> (pair_setup \<times> setup_outcome) option" where
  "setup_M3 w p msg =
     do { let keyStr = (case dataPtrForIndex msg 3 of None \<Rightarrow> [] | Some k \<Rightarrow> k);
          proofStr \<leftarrow> dataPtrForIndex msg 4;
          (s, key, result) \<leftarrow> SRP_compute_key (hw_srp w) (ps_srp p) (Some (ps_secretKey p)) keyStr;
          (s, result) \<leftarrow> SRP_verify (hw_srp w) s proofStr;
          (response, d) \<leftarrow> (if \<not> SRP_OK result then do {
               d \<leftarrow> addRecord new_data (field_record 7 [2]);
               Some (ps_response p, d) }
             else do {
               (resp, r) \<leftarrow> SRP_respond (hw_srp w) s (Some (ps_response p));
               response \<leftarrow> Option.bind resp id;
               d \<leftarrow> addRecord new_data (field_record 4 (cstr_value response));
               Some (Some response, d) });
          secretKey \<leftarrow> Option.bind key id;
          let (okm, i) = call_hkdf w (ascii ''Pair-Setup-Encrypt-Salt'') (cstr_value secretKey)
            (ascii ''Pair-Setup-Encrypt-Info'') (take 32 (ps_sessionKey p));
          let p = p\<lparr>ps_srp := s, ps_secretKey := Some secretKey, ps_response := response,
            ps_sessionKey := buffer_copy (ps_sessionKey p) 0 okm\<rparr>;
          Some (p, if i \<noteq> 0 then Leave else Respond d) }"

text \<open>The list of the accessory: identifier, signature and key, and its encryption.\<close>

definition setup_M6_list :: "hap_world \<Rightarrow> byte list \<Rightarrow> message_data option" where
  "setup_M6_list w secretKey =
     do { let identity = hw_DeviceIdentity w;
          d \<leftarrow> addRecord new_data (field_record 1 identity);
          let output = hw_garbage w 150;
          let output = buffer_copy output 0 (fst (call_hkdf w (ascii ''Pair-Setup-Accessory-Sign-Salt'') secretKey
            (ascii ''Pair-Setup-Accessory-Sign-Info'') (take 32 output)));
          if 64 + length identity > 150 then None
          else do {
            let output = buffer_copy output 32 identity;
            let edPubKey = hw_publickey w accessorySecretKey;
            let output = buffer_copy output (32 + length identity) edPubKey;
            let signature = hw_sign w (take (64 + length identity) output) accessorySecretKey edPubKey;
            d \<leftarrow> addRecord d (field_record 10 signature);
            addRecord d (field_record 3 edPubKey) } }"

definition setup_M6 :: "hap_world \<Rightarrow> pair_setup \<Rightarrow> byte list \<Rightarrow> message_data option" where
  "setup_M6 w p secretKey =
     do { returnTLV8 \<leftarrow> setup_M6_list w secretKey;
          let tlv8Data = rawData returnTLV8;
          let tlv8Len = length tlv8Data;
          (ctx, key) \<leftarrow> message_cipher zero_chacha (take 32 (ps_sessionKey p)) (ascii ''PS-Msg06'');
          let data = snd (chacha20_encrypt ctx tlv8Data);
          verify \<leftarrow> Poly1305_GenKey key (Some (data @ replicate 16 0)) tlv8Len Type_Data_Without_Length (replicate 16 0);
          addRecord new_data (field_record 5 (data @ verify)) }"

text \<open>The checks of the decrypted list. The controller is stored before its signature is looked at.\<close>

definition setup_M5_list :: "hap_world \<Rightarrow> pair_setup \<Rightarrow> byte list \<Rightarrow> (pair_setup \<times> setup_outcome) option" where
  "setup_M5_list w p decryptedData =
     do { subTLV8 \<leftarrow> parse_data decryptedData (length decryptedData);
          controllerIdentifier \<leftarrow> dataPtrForIndex subTLV8 1;
          controllerIdentifier \<leftarrow> slice controllerIdentifier 0 36;
          controllerPublicKey \<leftarrow> dataPtrForIndex subTLV8 3;
          controllerPublicKey \<leftarrow> slice controllerPublicKey 0 32;
          let newRecord = \<lparr>kr_controllerID = controllerIdentifier, kr_publicKey = controllerPublicKey\<rparr>;
          let p = p\<lparr>ps_store := addControllerKey (ps_store p) newRecord\<rparr>;
          secretKey \<leftarrow> ps_secretKey p;
          let (okm, i) = call_hkdf w (ascii ''Pair-Setup-Controller-Sign-Salt'') (cstr_value secretKey)
            (ascii ''Pair-Setup-Controller-Sign-Info'') (take 32 (hw_garbage w 100));
          if i \<noteq> 0 then Some (p, Leave)
          else do {
            let controllerHash = okm @ controllerIdentifier @ controllerPublicKey;
            controllerSignature \<leftarrow> dataPtrForIndex subTLV8 10;
            controllerSignature \<leftarrow> slice controllerSignature 0 64;
            if hw_sign_open w controllerHash controllerPublicKey controllerSignature then Some (p, Leave)
            else do { d \<leftarrow> setup_M6 w p (cstr_value secretKey); Some (p, Finish d) } } }"

definition setup_M5 :: "hap_world \<Rightarrow> pair_setup \<Rightarrow> message_data \<Rightarrow> (pair_setup \<times> setup_outcome) option" where
  "setup_M5 w p msg =
     do { encryptedPackage \<leftarrow> dataPtrForIndex msg 5;
          let packageLen = lengthForIndex msg 5;
          if packageLen < 16 then None
          else do {
            let encryptedData = take (packageLen - 16) encryptedPackage @ hw_garbage w 16;
            let mac = take 16 (drop (packageLen - 16) encryptedPackage);
            (chacha20, temp2) \<leftarrow> message_cipher zero_chacha (take 32 (ps_sessionKey p)) (ascii ''PS-Msg05'');
            verify \<leftarrow> Poly1305_GenKey temp2 (Some encryptedData) ((packageLen - 16) mod 2 ^ 16) Type_Data_Without_Length (replicate 16 0);
            let decryptedData = snd (chacha20_decrypt chacha20 (take (packageLen - 16) encryptedData));
            if verify \<noteq> mac then do { d \<leftarrow> addRecord new_data (field_record 7 [1]); Some (p, Finish d) }
            else setup_M5_list w p decryptedData } }"

text \<open>One message; the bytes that are sent, and whether the loop goes on. The response of the first two steps is
  logged as text before it is sent: the log reads up to a zero byte.\<close>

definition setup_send :: "message_data \<Rightarrow> data_record \<Rightarrow> byte list option" where
  "setup_send d stateRecord =
     do { d \<leftarrow> addRecord d stateRecord;
          response_getBinaryPtr ((PHKNetworkResponse 200)\<lparr>rsp_data := d\<rparr>) }"

definition setup_message :: "hap_world \<Rightarrow> pair_setup \<Rightarrow> byte list \<Rightarrow> (pair_setup \<times> byte list list \<times> bool) option" where
  "setup_message w p buffer =
     do { msg \<leftarrow> PHKNetworkMessage (hw_message w) buffer;
          d \<leftarrow> dataPtrForIndex (msg_data msg) 6;
          state \<leftarrow> peek d 0;
          let stateRecord = field_record 6 [state + 1];
          (p, out) \<leftarrow> (if state = 1 then setup_M1 w p stateRecord
                      else if state = 3 then setup_M3 w p (msg_data msg)
                      else if state = 5 then setup_M5 w p (msg_data msg)
                      else Some (p, Respond new_data));
          case out of
            Respond d \<Rightarrow> do {
              reply \<leftarrow> setup_send d stateRecord;
              if 0 \<notin> set reply then None else Some (p, [reply], True) }
          | Leave \<Rightarrow> Some (p, [], False)
          | Finish d \<Rightarrow> do { reply \<leftarrow> setup_send d stateRecord; Some (p, [reply], False) } }"

text \<open>\<open>recv\<close> overwrites the start of the buffer. The packets that are left are those the next \<open>recv\<close> sees. What comes
  from outside is given for each message, so that no two draws need be equal.\<close>

definition recv_into :: "byte list \<Rightarrow> byte list \<Rightarrow> byte list" where
  "recv_into buffer packet = packet @ drop (length packet) buffer"

fun setup_loop ::
  "(nat \<Rightarrow> hap_world) \<Rightarrow> pair_setup \<Rightarrow> byte list \<Rightarrow> byte list list \<Rightarrow>
   (pair_setup \<times> byte list \<times> byte list list \<times> byte list list) option" where
  "setup_loop ws p buffer packets =
     do { (p, sent, again) \<leftarrow> setup_message (ws 0) p buffer;
          if \<not> again then Some (p, buffer, sent, packets)
          else case packets of
              [] \<Rightarrow> Some (p, buffer, sent, [])
            | packet # packets \<Rightarrow>
                if packet = [] then Some (p, buffer, sent, packets)
                else do {
                  (p, buffer, rest, packets) \<leftarrow> setup_loop (ws \<circ> Suc) p (recv_into buffer packet) packets;
                  Some (p, buffer, sent @ rest, packets) } }"

declare setup_loop.simps [simp del]

definition setup_start :: "hap_world \<Rightarrow> controller_store \<Rightarrow> pair_setup option" where
  "setup_start w store =
     do { s \<leftarrow> SRP_new (hw_srp w) SRP6a_server_method;
          Some \<lparr>ps_srp = s, ps_secretKey = None, ps_publicKey = None, ps_response = None, ps_sessionKey = hw_garbage w 64,
            ps_store = store\<rparr> }"

definition handlePairSeup ::
  "(nat \<Rightarrow> hap_world) \<Rightarrow> controller_store \<Rightarrow> byte list \<Rightarrow> byte list list \<Rightarrow>
   (controller_store \<times> byte list \<times> byte list list \<times> byte list list) option" where
  "handlePairSeup ws store buffer packets =
     do { p \<leftarrow> setup_start (ws 0) store;
          (p, buffer, sent, packets) \<leftarrow> setup_loop ws p buffer packets;
          Some (ps_store p, buffer, sent, packets) }"

section \<open>The steps\<close>

definition hap_ok :: "hap_world \<Rightarrow> bool" where
  "hap_ok w \<longleftrightarrow> hmac_stack_ok (hw_stack w) \<and> length (hw_T w) = 64 \<and> length (hw_prk w) = 64 \<and>
     (\<forall>n. length (hw_rand w n) = n) \<and> (\<forall>n. length (hw_garbage w n) = n) \<and>
     (\<forall>s. length (hw_publickey w s) = 32) \<and> (\<forall>m s p. length (hw_sign w m s p) = 64)"

abbreviation pair_user :: "byte list" where
  "pair_user \<equiv> ascii ''Pair-Setup''"

text \<open>The parameters of the SRP server with the salt the device draws.\<close>

definition pairing_ok :: "hap_world \<Rightarrow> bool" where
  "pairing_ok w \<longleftrightarrow> hap_ok w \<and> params_ok (hw_srp w) (hw_lib w) pair_user modulusStr generator (hw_rand w 16) (hw_PinCode w) \<and>
     0 \<notin> set (hw_PinCode w)"

definition pairing_ready :: "hap_world \<Rightarrow> srp \<Rightarrow> byte list \<Rightarrow> bool" where
  "pairing_ready w s salt \<longleftrightarrow> params_ok (hw_srp w) (hw_lib w) pair_user modulusStr generator salt (hw_PinCode w) \<and>
     session_ready (hw_srp w) s pair_user modulusStr generator salt (hw_PinCode w) (be_val (w_random (hw_srp w) 32))"

abbreviation hkdf_key :: "byte list \<Rightarrow> byte list \<Rightarrow> byte list \<Rightarrow> byte list" where
  "hkdf_key salt ikm info \<equiv> hkdf_expand (hkdf_extract (Some salt) ikm) info 32"

lemma call_hkdf_value:
  assumes "hap_ok w" "length ikm < 2 ^ 31" "length salt < 2 ^ 31" "length info < 2 ^ 31" "length out = 32"
  shows "call_hkdf w salt ikm info out = (hkdf_key salt ikm info, 0)"
  using hkdf_value [of "hw_stack w" ikm "hw_prk w" "hw_T w" "Some salt" "Some info" out] assms
  by (simp add: call_hkdf_def hap_ok_def bytes_or_empty_def)

lemma length_hkdf_key [simp]: "length (hkdf_key salt ikm info) = 32"
  by (simp add: hkdf_expand_def)

lemma set_username_raw:
  assumes "0 \<notin> set u"
  shows "SRP_set_username w lib s (u @ [0]) = SRP_set_user_raw w lib s u"
proof -
  have "cstr_set mem c (u @ [0]) = cstr_setn mem c (Some u) (int (length u))" for mem c
    using strlen_terminated [OF assms, of "[]"] by (simp add: cstr_set_def cstr_setn_def Let_def case_prod_beta)
  then show ?thesis by (simp add: SRP_set_username_def SRP_set_user_raw_def)
qed

lemma set_password_raw:
  assumes "0 \<notin> set p"
  shows "SRP_set_auth_password w s (p @ [0]) = SRP_set_auth_password_raw w s p"
  using strlen_terminated [OF assms, of "[]"] by (simp add: SRP_set_auth_password_def SRP_set_auth_password_raw_def)

lemma setup_start_state:
  assumes "world_ok (hw_srp w)"
  obtains s where "setup_start w store = Some \<lparr>ps_srp = s, ps_secretKey = None, ps_publicKey = None, ps_response = None,
      ps_sessionKey = hw_garbage w 64, ps_store = store\<rparr>" "SRP_new (hw_srp w) SRP6a_server_method = Some s"
proof -
  obtain s where "SRP_new (hw_srp w) SRP6a_server_method = Some s" by (rule SRP_new_state [OF assms])
  then show thesis using that by (simp add: setup_start_def)
qed

text \<open>The three fields of the first response.\<close>

lemma three_records:
  "do { d \<leftarrow> addRecord new_data (record_of a); d \<leftarrow> addRecord d (record_of b); addRecord d (record_of c) } = Some (data_of [a, b, c])"
  using addRecord_data_of [of "[]" a] addRecord_data_of [of "[a]" b] addRecord_data_of [of "[a, b]" c]
  by (simp add: data_of_Nil merged_def tags_def)

lemma one_record: "addRecord new_data (record_of a) = Some (data_of [a])"
  using addRecord_data_of [of "[]" a] by (simp add: data_of_Nil merged_def tags_def)

lemma field_record_of: "field_record i d = record_of (i, d)"
  by (simp add: record_of_def)

lemma setup_M1_run:
  assumes "pairing_ok w" "setup_start w store = Some p"
  shows "setup_M1 w p (field_record 6 [2]) = do {
      (s, pub, result) \<leftarrow> srp_start (hw_srp w) (hw_lib w) pair_user modulusStr generator (hw_rand w 16) (hw_PinCode w);
      publicKey \<leftarrow> Option.bind pub id;
      Some (p\<lparr>ps_srp := s, ps_publicKey := Some publicKey\<rparr>,
        Respond (data_of [(6, [2]), (3, cstr_value publicKey), (2, hw_rand w 16)])) }"
proof -
  have pin: "0 \<notin> set (hw_PinCode w)" using assms(1) by (simp add: pairing_ok_def)
  have nul: "0 \<notin> set pair_user" by (simp add: ascii_def)
  obtain s0 where s0: "SRP_new (hw_srp w) SRP6a_server_method = Some s0" "ps_srp p = s0" "ps_publicKey p = None"
    using assms(2) by (auto simp: setup_start_def bind_eq_Some_conv)
  have "setup_M1 w p (field_record 6 [2]) = do {
      (s, pub, result) \<leftarrow> do { (s, result) \<leftarrow> SRP_set_username (hw_srp w) (hw_lib w) s0 (pair_user @ [0]);
        (s, result) \<leftarrow> SRP_set_params (hw_srp w) (hw_lib w) s (Some modulusStr) (Some generator) (Some (hw_rand w 16));
        (s, result) \<leftarrow> SRP_set_auth_password (hw_srp w) s (hw_PinCode w @ [0]);
        SRP_gen_pub (hw_srp w) (hw_lib w) s (Some None) };
      publicKey \<leftarrow> Option.bind pub id;
      d \<leftarrow> do { d \<leftarrow> addRecord new_data (record_of (6, [2])); d \<leftarrow> addRecord d (record_of (3, cstr_value publicKey));
        addRecord d (record_of (2, hw_rand w 16)) };
      Some (p\<lparr>ps_srp := s, ps_publicKey := Some publicKey\<rparr>, Respond d) }"
    unfolding setup_M1_def Let_def s0 field_record_of by (simp add: case_prod_unfold)
  then show ?thesis
    unfolding three_records set_username_raw [OF nul] set_password_raw [OF pin]
    by (simp add: srp_start_def s0(1))
qed

abbreviation pairing_multiplier :: nat where
  "pairing_multiplier \<equiv> k_value (BigIntegerFromBytes modulusStr) (BigIntegerFromBytes generator)"

lemma setup_M1_state:
  assumes w: "pairing_ok w" and start: "setup_start w store = Some p"
  obtains "pairing_multiplier = 0" "setup_M1 w p (field_record 6 [2]) = None"
  | s pub where "pairing_multiplier \<noteq> 0" "setup_M1 w p (field_record 6 [2]) = Some (p\<lparr>ps_srp := s, ps_publicKey := Some pub\<rparr>,
      Respond (data_of [(6, [2]), (3, cstr_value pub), (2, hw_rand w 16)]))"
    "pairing_ready w s (hw_rand w 16)"
    "cstr_value pub = BigIntegerToBytes (session_B (hw_srp w) pair_user modulusStr generator (hw_rand w 16) (hw_PinCode w))"
proof -
  have pok: "params_ok (hw_srp w) (hw_lib w) pair_user modulusStr generator (hw_rand w 16) (hw_PinCode w)"
    using w by (simp add: pairing_ok_def)
  show thesis
  proof (rule srp_start_ready [OF pok])
    fix s assume "pairing_multiplier = 0"
      "srp_start (hw_srp w) (hw_lib w) pair_user modulusStr generator (hw_rand w 16) (hw_PinCode w) = Some (s, Some None, SRP_ERROR)"
    then show thesis using that(1) setup_M1_run [OF assms] by simp
  next
    fix s c assume st: "srp_start (hw_srp w) (hw_lib w) pair_user modulusStr generator (hw_rand w 16) (hw_PinCode w) = Some (s, Some (Some c), SRP_SUCCESS)"
      "pairing_multiplier \<noteq> 0"
      "session_ready (hw_srp w) s pair_user modulusStr generator (hw_rand w 16) (hw_PinCode w) (be_val (w_random (hw_srp w) 32))"
      "cstr_value c = BigIntegerToBytes (the (srp_pubkey s))"
    have "cstr_value c = BigIntegerToBytes (session_B (hw_srp w) pair_user modulusStr generator (hw_rand w 16) (hw_PinCode w))"
      using st(3,4) by (simp add: session_ready_def Let_def session_B_def)
    then show thesis using that(2) setup_M1_run [OF assms] st pok by (simp add: pairing_ready_def)
  qed
qed

definition pairing_key :: "hap_world \<Rightarrow> byte list \<Rightarrow> byte list \<Rightarrow> byte list" where
  "pairing_key w salt A = session_key (hw_srp w) pair_user modulusStr generator salt (hw_PinCode w) A"

definition pairing_public :: "hap_world \<Rightarrow> byte list \<Rightarrow> byte list" where
  "pairing_public w salt = BigIntegerToBytes (session_B (hw_srp w) pair_user modulusStr generator salt (hw_PinCode w))"

definition pairing_rejected :: "hap_world \<Rightarrow> byte list \<Rightarrow> byte list \<Rightarrow> bool" where
  "pairing_rejected w salt A \<longleftrightarrow>
     rejected modulusStr (session_base (hw_srp w) pair_user modulusStr generator salt (hw_PinCode w) A)"

definition proof_accepted :: "hap_world \<Rightarrow> byte list \<Rightarrow> byte list \<Rightarrow> byte list \<Rightarrow> bool" where
  "proof_accepted w salt A M \<longleftrightarrow> (let K = pairing_key w salt A; B = pairing_public w salt
     in M = client_proof modulusStr generator pair_user salt A B K \<or> M = sha512_hash (B @ K))"

definition proof_answer :: "hap_world \<Rightarrow> byte list \<Rightarrow> byte list \<Rightarrow> byte list \<Rightarrow> byte list" where
  "proof_answer w salt A M = (let K = pairing_key w salt A; B = pairing_public w salt
     in if M = sha512_hash (B @ K) then sha512_hash (A @ K) else server_proof A M K)"

definition setup_key :: "byte list \<Rightarrow> byte list" where
  "setup_key K = hkdf_key (ascii ''Pair-Setup-Encrypt-Salt'') K (ascii ''Pair-Setup-Encrypt-Info'')"

text \<open>What a client that drew \<open>a\<close> and knows the pin computes.\<close>

definition client_pairing_key :: "hap_world \<Rightarrow> byte list \<Rightarrow> nat \<Rightarrow> byte list" where
  "client_pairing_key w salt a = sha512_hash (BigIntegerToBytes
     (client_key (BigIntegerFromBytes modulusStr) (BigIntegerFromBytes generator) (private_key salt pair_user (hw_PinCode w)) a
       (session_B (hw_srp w) pair_user modulusStr generator salt (hw_PinCode w))))"

definition client_pairing_proof :: "hap_world \<Rightarrow> byte list \<Rightarrow> byte list \<Rightarrow> nat \<Rightarrow> byte list" where
  "client_pairing_proof w salt A a =
     client_proof modulusStr generator pair_user salt A (pairing_public w salt) (client_pairing_key w salt a)"

lemma modulus_length: "BigIntegerByteLen (BigIntegerFromBytes modulusStr) = 384"
proof -
  have m: "length modulusStr = 384" by (simp add: modulusStr_def)
  then obtain ds where ds: "modulusStr = 255 # ds" "length ds = 383" by (simp add: modulusStr_def)
  have "256 ^ 383 \<le> be_val modulusStr" using ds(2) by (simp add: ds(1) be_val_Cons)
  then have "\<not> BigIntegerByteLen (BigIntegerFromBytes modulusStr) \<le> 383"
    by (simp add: BigIntegerByteLen_le_iff BigIntegerFromBytes_def)
  moreover have "BigIntegerByteLen (BigIntegerFromBytes modulusStr) \<le> 384" using byte_len_from_bytes [of modulusStr] m by simp
  ultimately show ?thesis by simp
qed

lemma setup_M3_rejected:
  assumes ready: "pairing_ready w (ps_srp p) salt" and secret: "ps_secretKey p = None"
    and A: "dataPtrForIndex msg 3 = Some A" "length A \<le> 384" and rej: "pairing_rejected w salt A"
  shows "setup_M3 w p msg = None"
proof (cases "dataPtrForIndex msg 4")
  case (Some M)
  have pok: "params_ok (hw_srp w) (hw_lib w) pair_user modulusStr generator salt (hw_PinCode w)"
    and sr: "session_ready (hw_srp w) (ps_srp p) pair_user modulusStr generator salt (hw_PinCode w) (be_val (w_random (hw_srp w) 32))"
    using ready by (simp_all add: pairing_ready_def)
  have wok: "world_ok (hw_srp w)" using pok by (simp add: params_ok_def)
  have l: "length A \<le> BigIntegerByteLen (BigIntegerFromBytes modulusStr)" using A(2) by (simp add: modulus_length)
  have r: "cstr_wf (result_cstr (Some None))" by (simp add: result_cstr_def)
  show ?thesis
  proof (rule compute_key_state [OF pok sr l r])
    fix s' m' assume 1: "SRP_compute_key (hw_srp w) (ps_srp p) (Some None) A = Some (s', Some None, SRP_ERROR)"
    show ?thesis using 1 A(1) Some secret by (simp add: setup_M3_def case_prod_unfold bind_eq_None_conv split: option.split)
  next
    fix s' m' and c :: cstr
    assume "\<not> rejected modulusStr (session_base (hw_srp w) pair_user modulusStr generator salt (hw_PinCode w) A)"
    then show ?thesis using rej by (simp add: pairing_rejected_def)
  qed
qed (simp add: setup_M3_def)

lemma setup_M3_accepted:
  assumes hap: "hap_ok w" and ready: "pairing_ready w (ps_srp p) salt" and secret: "ps_secretKey p = None" "ps_response p = None"
    and sk: "length (ps_sessionKey p) = 64"
    and msg: "dataPtrForIndex msg 3 = Some A" "dataPtrForIndex msg 4 = Some M" "length A \<le> 384" and rej: "\<not> pairing_rejected w salt A"
  obtains p' K where "setup_M3 w p msg = Some (p', Respond (data_of [if proof_accepted w salt A M then (4, proof_answer w salt A M) else (7, [2])]))"
    "ps_secretKey p' = Some K" "cstr_value K = pairing_key w salt A"
    "take 32 (ps_sessionKey p') = setup_key (pairing_key w salt A)" "length (ps_sessionKey p') = 64" "ps_store p' = ps_store p"
proof -
  have pok: "params_ok (hw_srp w) (hw_lib w) pair_user modulusStr generator salt (hw_PinCode w)"
    and sr: "session_ready (hw_srp w) (ps_srp p) pair_user modulusStr generator salt (hw_PinCode w) (be_val (w_random (hw_srp w) 32))"
    using ready by (simp_all add: pairing_ready_def)
  have wok: "world_ok (hw_srp w)" using pok by (simp add: params_ok_def)
  have l: "length A \<le> BigIntegerByteLen (BigIntegerFromBytes modulusStr)" using msg(3) by (simp add: modulus_length)
  have r: "cstr_wf (result_cstr (Some None))" by (simp add: result_cstr_def)
  show thesis
  proof (rule compute_key_state [OF pok sr l r], goal_cases)
    case (1 s' m')
    then show ?case using rej by (simp add: pairing_rejected_def)
  next
    case (2 s' m' c)
    let ?K = "pairing_key w salt A" and ?B = "pairing_public w salt"
    have key: "SRP_compute_key (hw_srp w) (ps_srp p) (Some (ps_secretKey p)) A = Some (s', Some (Some c), SRP_SUCCESS)"
      using 2(2) secret(1) by simp
    have md: "srp_meth_data s' = Some m'" "length (sm_k m') = 64" using 2(3,4) by (simp_all add: meth_hashes_def)
    have mh: "meth_hashes m' (param_hash modulusStr generator pair_user salt @ A @ ?B @ ?K) A (A @ ?K) (?B @ ?K)" "sm_k m' = ?K"
      using 2(4,5) by (simp_all add: pairing_key_def pairing_public_def)
    obtain m2 where v0: "SRP_verify (hw_srp w) s' M = Some (s'\<lparr>srp_meth_data := Some m2\<rparr>,
        if M = sha512_hash (?B @ ?K) \<or> M = sha512_hash (param_hash modulusStr generator pair_user salt @ A @ ?B @ ?K)
        then SRP_SUCCESS else SRP_ERROR)"
      "sm_r m2 = (if M = sha512_hash (?B @ ?K) then sha512_hash (A @ ?K)
        else if M = sha512_hash (param_hash modulusStr generator pair_user salt @ A @ ?B @ ?K) then sha512_hash (A @ M @ sm_k m') else sm_r m')"
      "length (sm_r m2) = 64"
      by (rule SRP_verify_state [OF 2(3) mh(1) md(2)])
    have pa: "proof_accepted w salt A M \<longleftrightarrow>
        M = sha512_hash (?B @ ?K) \<or> M = sha512_hash (param_hash modulusStr generator pair_user salt @ A @ ?B @ ?K)"
      unfolding proof_accepted_def Let_def client_proof_def by blast
    note v = v0(1) [folded pa] v0(2,3)
    have sm: "srp_meth_data (s'\<lparr>srp_meth_data := Some m2\<rparr>) = Some m2" by simp
    obtain rc where rc: "SRP_respond (hw_srp w) (s'\<lparr>srp_meth_data := Some m2\<rparr>) (Some None) = Some (Some (Some rc), SRP_SUCCESS)"
      "cstr_value rc = sm_r m2"
      by (rule SRP_respond_state [OF wok sm v(3)])
    have ans: "proof_accepted w salt A M \<Longrightarrow> cstr_value rc = proof_answer w salt A M"
      unfolding rc(2) v(2) proof_answer_def Let_def server_proof_def mh(2) pa by (simp only: if_cancel split: if_split) blast
    have c: "cstr_value c = ?K" using 2(7) by (simp add: pairing_key_def)
    have kl: "length (cstr_value c) = 64" by (simp add: c pairing_key_def session_key_def)
    have h: "call_hkdf w (ascii ''Pair-Setup-Encrypt-Salt'') (cstr_value c) (ascii ''Pair-Setup-Encrypt-Info'') (take 32 (ps_sessionKey p)) =
        (setup_key ?K, 0)"
      unfolding setup_key_def c [symmetric] by (rule call_hkdf_value [OF hap]) (simp_all add: kl sk ascii_def)
    define p' where "p' = p\<lparr>ps_srp := s'\<lparr>srp_meth_data := Some m2\<rparr>, ps_secretKey := Some c,
      ps_response := (if proof_accepted w salt A M then Some rc else None), ps_sessionKey := buffer_copy (ps_sessionKey p) 0 (setup_key ?K)\<rparr>"
    have l32: "length (setup_key ?K) = 32" by (simp add: setup_key_def)
    have "setup_M3 w p msg = Some (p', Respond (data_of [if proof_accepted w salt A M then (4, proof_answer w salt A M) else (7, [2])]))"
    proof (cases "proof_accepted w salt A M")
      case True
      then show ?thesis
        using msg key v(1) rc(1) ans h secret
        by (simp add: setup_M3_def SRP_OK_def field_record_of one_record p'_def)
    next
      case False
      then show ?thesis
        using msg key v(1) h secret
        by (simp add: setup_M3_def SRP_OK_def SRP_ERROR_def SRP_SUCCESS_def field_record_of one_record p'_def)
    qed
    moreover have "take 32 (ps_sessionKey p') = setup_key ?K" "length (ps_sessionKey p') = 64"
      using buffer_copy_at [of 0 "setup_key ?K" "ps_sessionKey p"] sk l32 by (simp_all add: p'_def)
    ultimately show ?case by (intro that [of p' c]) (simp_all add: p'_def c)
  qed
qed

lemma length_lookup: "lengthForIndex d t = (case dataPtrForIndex d t of None \<Rightarrow> 0 | Some v \<Rightarrow> length v)"
  by (simp add: lengthForIndex_def dataPtrForIndex_def split: option.split)

definition setup_tag :: "byte list \<Rightarrow> byte list \<Rightarrow> byte list \<Rightarrow> byte list" where
  "setup_tag key nonce ct = (if length ct < 2 then replicate 16 0 else aead_tag key nonce [] ct)"

lemma GenKey_setup:
  assumes "length key = 32" "length nonce = 8" "length ct < 65536" "ct @ post \<noteq> []"
  shows "Poly1305_GenKey (one_time_key key nonce) (Some (ct @ post)) (length ct) Type_Data_Without_Length (replicate 16 0) =
    Some (setup_tag key nonce ct)"
proof (cases "length ct < 2")
  case True
  then show ?thesis using assms(4) by (cases "ct @ post") (simp_all add: Poly1305_GenKey_def peek_def setup_tag_def)
next
  case False
  have k: "32 \<le> length (one_time_key key nonce)" using length_one_time_key [OF assms(1,2)] by simp
  show ?thesis
    using GenKey_value [OF k, of ct "[]" Type_Data_Without_Length post "replicate 16 0"] assms(3) False
    by (simp add: setup_tag_def aead_tag_def)
qed

text \<open>Sealing and opening a message: what the calls return.\<close>

lemma seal_steps:
  assumes "length key = 32" "length nonce = 8" "2 \<le> length m" "length m < 65536"
  obtains ch otk where "message_cipher ctx key nonce = Some (ch, otk)" "snd (chacha20_encrypt ch m) = aead_crypt key nonce m"
    "Poly1305_GenKey otk (Some (aead_crypt key nonce m @ replicate 16 0)) (length m) Type_Data_Without_Length (replicate 16 0) =
      Some (aead_tag key nonce [] (aead_crypt key nonce m))"
proof -
  obtain ch where ch: "message_cipher ctx key nonce = Some (ch, one_time_key key nonce)" "ready ch key nonce"
    by (rule message_cipher_ready [OF assms(1,2)])
  have l: "length (aead_crypt key nonce m) = length m" by (rule length_aead_crypt [OF assms(1,2)])
  have "Poly1305_GenKey (one_time_key key nonce) (Some (aead_crypt key nonce m @ replicate 16 0)) (length m) Type_Data_Without_Length (replicate 16 0) =
      Some (setup_tag key nonce (aead_crypt key nonce m))"
    using GenKey_setup [OF assms(1,2), of "aead_crypt key nonce m" "replicate 16 0"] assms(4) l by simp
  then show thesis using that [OF ch(1)] ch(2) assms(3) l by (simp add: ready_def setup_tag_def)
qed

lemma open_steps:
  assumes "length key = 32" "length nonce = 8" "length ct < 65536" "ct @ post \<noteq> []"
  obtains ch otk where "message_cipher ctx key nonce = Some (ch, otk)" "snd (chacha20_decrypt ch ct) = aead_crypt key nonce ct"
    "Poly1305_GenKey otk (Some (ct @ post)) (length ct) Type_Data_Without_Length (replicate 16 0) = Some (setup_tag key nonce ct)"
proof -
  obtain ch where ch: "message_cipher ctx key nonce = Some (ch, one_time_key key nonce)" "ready ch key nonce"
    by (rule message_cipher_ready [OF assms(1,2)])
  then show thesis
    using that [OF ch(1)] GenKey_setup [OF assms] by (simp add: ready_def chacha20_decrypt_def)
qed

lemma setup_M5_value:
  assumes hap: "hap_ok w" and sk: "length (ps_sessionKey p) = 64"
    and msg: "dataPtrForIndex msg 5 = Some (ct @ tag)" "length tag = 16" "length ct < 65536"
  shows "setup_M5 w p msg =
    (if tag = setup_tag (take 32 (ps_sessionKey p)) (ascii ''PS-Msg05'') ct
     then setup_M5_list w p (aead_crypt (take 32 (ps_sessionKey p)) (ascii ''PS-Msg05'') ct)
     else Some (p, Finish (data_of [(7, [1])])))"
proof -
  let ?k = "take 32 (ps_sessionKey p)" and ?n = "ascii ''PS-Msg05''"
  have k: "length ?k = 32" and n: "length ?n = 8" using sk by (simp_all add: ascii_def)
  have g: "ct @ hw_garbage w 16 \<noteq> []" using hap by (auto simp: hap_ok_def dest: arg_cong [of _ "[]" length])
  have l: "lengthForIndex msg 5 = length ct + 16" using msg(1,2) by (simp add: length_lookup)
  show ?thesis
    by (rule open_steps [OF k n msg(3) g, of zero_chacha])
      (use msg in \<open>simp add: setup_M5_def l field_record_of one_record eq_commute [of tag]\<close>)
qed

lemma setup_M5_list_value:
  assumes hap: "hap_ok w" and d: "parse_data list (length list) = Some d"
    "dataPtrForIndex d 1 = Some cid" "36 \<le> length cid" "dataPtrForIndex d 3 = Some pk" "32 \<le> length pk"
    "dataPtrForIndex d 10 = Some sig" "64 \<le> length sig"
    and secret: "ps_secretKey p = Some c" "length (cstr_value c) < 2 ^ 31"
  defines "p' \<equiv> p\<lparr>ps_store := addControllerKey (ps_store p) \<lparr>kr_controllerID = take 36 cid, kr_publicKey = take 32 pk\<rparr>\<rparr>"
  shows "setup_M5_list w p list =
    (if hw_sign_open w (hkdf_key (ascii ''Pair-Setup-Controller-Sign-Salt'') (cstr_value c) (ascii ''Pair-Setup-Controller-Sign-Info'') @
        take 36 cid @ take 32 pk) (take 32 pk) (take 64 sig)
     then Some (p', Leave) else map_option (\<lambda>d. (p', Finish d)) (setup_M6 w p' (cstr_value c)))"
proof -
  have h: "call_hkdf w (ascii ''Pair-Setup-Controller-Sign-Salt'') (cstr_value c) (ascii ''Pair-Setup-Controller-Sign-Info'') (take 32 (hw_garbage w 100)) =
      (hkdf_key (ascii ''Pair-Setup-Controller-Sign-Salt'') (cstr_value c) (ascii ''Pair-Setup-Controller-Sign-Info''), 0)"
    using hap secret(2) by (intro call_hkdf_value) (simp_all add: hap_ok_def ascii_def)
  have sl: "slice cid 0 36 = Some (take 36 cid)" "slice pk 0 32 = Some (take 32 pk)" "slice sig 0 64 = Some (take 64 sig)"
    using d(3,5,7) by (simp_all add: slice_def)
  show ?thesis
    unfolding setup_M5_list_def d sl Let_def bind.bind_lunit p'_def [symmetric]
    using secret(1) h sl d(6) by (simp add: p'_def map_conv_bind_option comp_def)
qed

definition accessory_signature :: "hap_world \<Rightarrow> byte list \<Rightarrow> byte list" where
  "accessory_signature w K = hw_sign w (hkdf_key (ascii ''Pair-Setup-Accessory-Sign-Salt'') K (ascii ''Pair-Setup-Accessory-Sign-Info'') @
     hw_DeviceIdentity w @ hw_publickey w accessorySecretKey) accessorySecretKey (hw_publickey w accessorySecretKey)"

definition accessory_fields :: "hap_world \<Rightarrow> byte list \<Rightarrow> field list" where
  "accessory_fields w K = [(1, hw_DeviceIdentity w), (10, accessory_signature w K), (3, hw_publickey w accessorySecretKey)]"

lemma raw_short:
  assumes "\<forall>f \<in> set fs. snd f \<noteq> [] \<and> length (snd f) \<le> 255" "length (concat (map encode_fragment fs)) < 65536"
  shows "rawData (data_of fs) = concat (map encode_fragment fs)"
proof -
  have p: "pieces t bs = [(t, bs)]" if "bs \<noteq> []" "length bs \<le> 255" for t bs
    using that by (subst pieces.simps) simp
  have "all_pieces fs = fs" using assms(1) by (induction fs) (simp_all add: p)
  then show ?thesis using rawData_pieces [of fs] assms(2) by simp
qed

lemma fill_output:
  assumes "length h = 32" "length pk = 32" "64 + length bs \<le> length buf"
  shows "take (64 + length bs) (buffer_copy (buffer_copy (buffer_copy buf 0 h) 32 bs) (32 + length bs) pk) = h @ bs @ pk"
proof -
  have 1: "buffer_copy buf 0 h = h @ drop 32 buf" using buffer_copy_at [of 0 h buf] assms by simp
  have 2: "buffer_copy (h @ drop 32 buf) 32 bs = h @ bs @ drop (32 + length bs) buf"
    using buffer_copy_at [of 32 bs "h @ drop 32 buf"] assms by (simp add: add.commute)
  have 3: "buffer_copy (h @ bs @ drop (32 + length bs) buf) (32 + length bs) pk = h @ bs @ pk @ drop (64 + length bs) buf"
    using buffer_copy_at [of "32 + length bs" pk "h @ bs @ drop (32 + length bs) buf"] assms by simp
  show ?thesis unfolding 1 2 3 using assms by simp
qed

lemma accessory_fields_raw:
  assumes "hap_ok w" "length (hw_DeviceIdentity w) \<le> 86" "hw_DeviceIdentity w \<noteq> []"
  shows "rawData (data_of (accessory_fields w K)) = concat (map encode_fragment (accessory_fields w K))"
    "length (concat (map encode_fragment (accessory_fields w K))) = 102 + length (hw_DeviceIdentity w)"
proof -
  have l: "length (accessory_signature w K) = 64" "length (hw_publickey w accessorySecretKey) = 32"
    using assms(1) by (simp_all add: hap_ok_def accessory_signature_def)
  show len: "length (concat (map encode_fragment (accessory_fields w K))) = 102 + length (hw_DeviceIdentity w)"
    by (simp add: accessory_fields_def l)
  have "accessory_signature w K \<noteq> []" "hw_publickey w accessorySecretKey \<noteq> []" using l by auto
  then show "rawData (data_of (accessory_fields w K)) = concat (map encode_fragment (accessory_fields w K))"
    using assms(2,3) l len by (intro raw_short) (simp_all add: accessory_fields_def)
qed

lemma setup_M6_list_value:
  assumes hap: "hap_ok w" and K: "length K < 2 ^ 31" and id: "length (hw_DeviceIdentity w) \<le> 86"
  shows "setup_M6_list w K = Some (data_of (accessory_fields w K))"
proof -
  let ?h = "hkdf_key (ascii ''Pair-Setup-Accessory-Sign-Salt'') K (ascii ''Pair-Setup-Accessory-Sign-Info'')"
  have h: "call_hkdf w (ascii ''Pair-Setup-Accessory-Sign-Salt'') K (ascii ''Pair-Setup-Accessory-Sign-Info'') (take 32 (hw_garbage w 150)) = (?h, 0)"
    using hap K by (intro call_hkdf_value) (simp_all add: hap_ok_def ascii_def)
  have o: "take (64 + length (hw_DeviceIdentity w)) (buffer_copy (buffer_copy (buffer_copy (hw_garbage w 150) 0 ?h) 32 (hw_DeviceIdentity w))
      (32 + length (hw_DeviceIdentity w)) (hw_publickey w accessorySecretKey)) = ?h @ hw_DeviceIdentity w @ hw_publickey w accessorySecretKey"
    using hap id by (intro fill_output) (simp_all add: hap_ok_def)
  have two: "addRecord (data_of [a]) (record_of b) = Some (data_of [a, b])" for a b using addRecord_data_of [of "[a]" b] by simp
  have three: "addRecord (data_of [a, b]) (record_of c) = Some (data_of [a, b, c])" for a b c using addRecord_data_of [of "[a, b]" c] by simp
  show ?thesis
    unfolding setup_M6_list_def field_record_of one_record Let_def bind.bind_lunit h fst_conv o two three
    using id by (simp add: accessory_fields_def accessory_signature_def)
qed

lemma setup_M6_value:
  assumes hap: "hap_ok w" and sk: "length (ps_sessionKey p) = 64" and K: "length K < 2 ^ 31"
    and id: "length (hw_DeviceIdentity w) \<le> 86" "hw_DeviceIdentity w \<noteq> []"
  shows "setup_M6 w p K = Some (data_of [(5, aead_seal (take 32 (ps_sessionKey p)) (ascii ''PS-Msg06'') [] (rawData (data_of (accessory_fields w K))))])"
proof -
  let ?d = "rawData (data_of (accessory_fields w K))"
  have k: "length (take 32 (ps_sessionKey p)) = 32" and n: "length (ascii ''PS-Msg06'') = 8" using sk by (simp_all add: ascii_def)
  have d: "2 \<le> length ?d" "length ?d < 65536" using accessory_fields_raw [OF hap id, of K] id by simp_all
  show ?thesis
    by (rule seal_steps [OF k n d, of zero_chacha])
      (simp add: setup_M6_def setup_M6_list_value [OF hap K id(1)] field_record_of one_record aead_seal_def Let_def)
qed

section \<open>Properties\<close>

lemma refusal_text: "\<exists>r. setup_send (data_of [(7, [2])]) (field_record 6 [4]) = Some r \<and> 0 \<notin> set r"
proof -
  have "addRecord (data_of [(7, [2])]) (field_record 6 [4]) = Some (data_of [(7, [2]), (6, [4])])"
    unfolding field_record_of using addRecord_data_of [of "[(7, [2])]" "(6, [4])"] by simp
  moreover have "rawData (data_of [(7, [2]), (6, [4])]) = [7, 1, 2, 6, 1, 4]"
    by (subst raw_short) (simp_all add: encode_fragment_def)
  ultimately show ?thesis
    by (simp add: setup_send_def response_getBinaryPtr_def PHKNetworkResponse_def responseType_def str5_def int2str.simps ascii_def)
qed

text \<open>A world in which the theorems can be applied.\<close>

definition sample_hap :: hap_world where
  "sample_hap = \<lparr>hw_srp = sample_world, hw_lib = srp_lib_start, hw_stack = sample_stack, hw_T = replicate 64 0, hw_prk = replicate 64 0,
     hw_rand = (\<lambda>n. replicate n 3), hw_garbage = (\<lambda>n. replicate n 9),
     hw_message = \<lparr>msg_method = [], msg_type = [], msg_directory = [], msg_data = new_data\<rparr>,
     hw_cipher = zero_chacha, hw_PinCode = ascii ''031-45-154'', hw_DeviceIdentity = ascii ''12:34'', hw_sign_open = (\<lambda>_ _ _. True),
     hw_publickey = (\<lambda>_. replicate 32 1), hw_sign = (\<lambda>_ _ _. replicate 64 2)\<rparr>"

lemma sample_hap_parts:
  "hw_DeviceIdentity sample_hap = ascii ''12:34''" "hw_rand sample_hap 16 = replicate 16 3" "hw_publickey sample_hap s = replicate 32 1"
  "accessory_signature sample_hap K = replicate 64 2" "hw_sign_open sample_hap m k s"
  by (simp_all add: sample_hap_def accessory_signature_def)

lemma sample_hap_ok: "hap_ok sample_hap"
  by (simp add: hap_ok_def sample_hap_def samples hmac_stack_ok_def)

lemma modulus_bits: "srp_modulus_min_bits srp_lib_start \<le> int (BigIntegerBitLen (BigIntegerFromBytes modulusStr))"
  using modulus_length by (simp add: srp_lib_start_def SRP_DEFAULT_MIN_BITS_def BigIntegerByteLen_def)

lemma modulus_odd: "odd (be_val modulusStr)"
proof -
  have "modulusStr = butlast modulusStr @ [255]" by (simp add: modulusStr_def)
  moreover have "odd (be_val (ds @ [255]))" for ds by (simp add: be_val_append be_val_Cons)
  ultimately show ?thesis by metis
qed

lemma sample_pairing_ok: "pairing_ok sample_hap"
proof -
  have "world_ok sample_world" using sample_params by (simp add: params_ok_def)
  moreover have "BigIntegerByteLen (BigIntegerFromBytes generator) \<le> 384"
    using byte_len_from_bytes [of generator] by (simp add: generator_def)
  moreover have "1 < be_val modulusStr"
    using modulus_length BigIntegerByteLen_le_iff [of "BigIntegerFromBytes modulusStr" 1] by (simp add: BigIntegerFromBytes_def not_le)
  moreover have "length modulusStr = 384" by (simp add: modulusStr_def)
  ultimately show ?thesis
    using sample_hap_ok modulus_bits modulus_odd modulus_length
    by (simp add: pairing_ok_def params_ok_def sample_hap_def srp_lib_start_def generator_def ascii_def)
qed

definition empty_store :: controller_store where
  "empty_store = \<lparr>cs_file = [], cs_records = []\<rparr>"

lemma sample_start: "setup_start sample_hap empty_store = Some (the (setup_start sample_hap empty_store))"
proof -
  have "world_ok (hw_srp sample_hap)" using sample_pairing_ok by (simp add: pairing_ok_def params_ok_def)
  then show ?thesis by (rule setup_start_state [of sample_hap empty_store]) simp
qed

definition sample_fields :: "field list" where
  "sample_fields = [(6, [3]), (3, [5]), (4, [9])]"

definition sample_refused :: "byte list" where
  "sample_refused = request_text (ascii ''POST'') (ascii ''pair-setup'') [] 9 (ascii ''tlv8'') @ fragments sample_fields @ replicate 20 0"

lemma sample_refused_parsed:
  obtains m where "PHKNetworkMessage (hw_message sample_hap) sample_refused = Some m"
    "dataPtrForIndex (msg_data m) 6 = Some [3]" "dataPtrForIndex (msg_data m) 3 = Some [5]" "dataPtrForIndex (msg_data m) 4 = Some [9]"
proof -
  have dist: "distinct (map fst sample_fields)" by (simp add: sample_fields_def)
  have l: "length (fragments sample_fields) = 9" by (simp add: sample_fields_def encode_fragment_def)
  have "parse_data (fragments sample_fields @ replicate 20 0) 9 = Some (data_of sample_fields)"
    using parse_data_fragments [of sample_fields "replicate 20 0", unfolded l merged_distinct [OF dist]]
    by (simp add: sample_fields_def tags_def)
  moreover have "host_ok []" by (simp add: host_ok_def)
  moreover have "assign_data new_data (data_of sample_fields) = data_of sample_fields"
    by (rule assign_nonempty) (simp_all add: sample_fields_def)
  ultimately have "PHKNetworkMessage (hw_message sample_hap) sample_refused =
      Some \<lparr>msg_method = ascii ''POST'', msg_type = ascii ''lv8'', msg_directory = ascii ''pair-setup'', msg_data = data_of sample_fields\<rparr>"
    unfolding sample_refused_def
    by (subst request_read) (simp_all add: word_ok_def ascii_def l request_text_def int2str.simps)
  then show thesis by (rule that) (simp_all add: data_of_lookup(1) [OF dist], simp_all add: sample_fields_def)
qed

text \<open>C10: A controller that knows the pin pairs: the first response carries the public value and the salt; when the
  controller answers with \<open>g^a\<close> and the proof of RFC 5054 for the key it computes from the pin, the accessory answers
  with its own proof and its session key is expanded from the very key of the controller. The exceptions are a zero
  multiplier and a value the server rejects, and both end in a null pointer.\<close>

theorem setup_agreement:
  assumes "pairing_ok w" "setup_start w store = Some p"
    and "int (be_val A) = BigIntegerFromBytes generator ^ a mod BigIntegerFromBytes modulusStr" "length A \<le> 384"
    and "dataPtrForIndex msg 3 = Some A" "dataPtrForIndex msg 4 = Some (client_pairing_proof w (hw_rand w 16) A a)"
  shows "case setup_M1 w p (field_record 6 [2]) of
      None \<Rightarrow> pairing_multiplier = 0
    | Some (p1, out) \<Rightarrow> out = Respond (data_of [(6, [2]), (3, pairing_public w (hw_rand w 16)), (2, hw_rand w 16)]) \<and>
        (case setup_M3 w p1 msg of
          None \<Rightarrow> pairing_rejected w (hw_rand w 16) A
        | Some (p3, out) \<Rightarrow>
            out = Respond (data_of [(4, proof_answer w (hw_rand w 16) A (client_pairing_proof w (hw_rand w 16) A a))]) \<and>
            take 32 (ps_sessionKey p3) = setup_key (client_pairing_key w (hw_rand w 16) a) \<and> ps_store p3 = store)"
proof -
  define salt where "salt = hw_rand w 16"
  have hap: "hap_ok w" and pok: "params_ok (hw_srp w) (hw_lib w) pair_user modulusStr generator salt (hw_PinCode w)"
    using assms(1) by (simp_all add: pairing_ok_def salt_def)
  have K: "client_pairing_key w salt a = pairing_key w salt A"
    unfolding client_pairing_key_def pairing_key_def using pok
    by (intro key_base_client [OF assms(3), symmetric]) (simp add: params_ok_def)
  have acc: "proof_accepted w salt A (client_pairing_proof w salt A a)"
    by (simp add: proof_accepted_def Let_def client_pairing_proof_def K)
  show ?thesis
  proof (rule setup_M1_state [OF assms(1,2)])
    fix s pub assume m1: "setup_M1 w p (field_record 6 [2]) = Some (p\<lparr>ps_srp := s, ps_publicKey := Some pub\<rparr>,
        Respond (data_of [(6, [2]), (3, cstr_value pub), (2, hw_rand w 16)]))" "pairing_ready w s (hw_rand w 16)"
      "cstr_value pub = BigIntegerToBytes (session_B (hw_srp w) pair_user modulusStr generator (hw_rand w 16) (hw_PinCode w))"
    define p1 where "p1 = p\<lparr>ps_srp := s, ps_publicKey := Some pub\<rparr>"
    have p: "ps_secretKey p1 = None" "ps_response p1 = None" "length (ps_sessionKey p1) = 64" "ps_store p1 = store"
      using assms(2) hap by (auto simp: p1_def setup_start_def bind_eq_Some_conv hap_ok_def)
    have ready: "pairing_ready w (ps_srp p1) salt" using m1(2) by (simp add: p1_def salt_def)
    have B: "cstr_value pub = pairing_public w salt" using m1(3) by (simp add: pairing_public_def salt_def)
    have "case setup_M3 w p1 msg of None \<Rightarrow> pairing_rejected w salt A
        | Some (p3, out) \<Rightarrow> out = Respond (data_of [(4, proof_answer w salt A (client_pairing_proof w salt A a))]) \<and>
            take 32 (ps_sessionKey p3) = setup_key (client_pairing_key w salt a) \<and> ps_store p3 = store"
    proof (cases "pairing_rejected w salt A")
      case True
      then show ?thesis using setup_M3_rejected [OF ready p(1) assms(5,4) True] by simp
    next
      case False
      show ?thesis
        by (rule setup_M3_accepted [OF hap ready p(1-3) assms(5,6) [folded salt_def] assms(4) False])
          (simp add: acc K p(4))
    qed
    then show ?thesis unfolding salt_def using m1(1) B by (simp add: p1_def [symmetric] salt_def)
  qed simp
qed

theorem setup_agreement_witness:
  "case setup_M1 sample_hap (the (setup_start sample_hap empty_store)) (field_record 6 [2]) of
      None \<Rightarrow> pairing_multiplier = 0
    | Some (p1, out) \<Rightarrow> out = Respond (data_of [(6, [2]), (3, pairing_public sample_hap (replicate 16 3)), (2, replicate 16 3)]) \<and>
        (case setup_M3 sample_hap p1 (data_of [(6, [3]), (3, [5]), (4, client_pairing_proof sample_hap (replicate 16 3) [5] 1)]) of
          None \<Rightarrow> pairing_rejected sample_hap (replicate 16 3) [5]
        | Some (p3, out) \<Rightarrow>
            out = Respond (data_of [(4, proof_answer sample_hap (replicate 16 3) [5] (client_pairing_proof sample_hap (replicate 16 3) [5] 1))]) \<and>
            take 32 (ps_sessionKey p3) = setup_key (client_pairing_key sample_hap (replicate 16 3) 1) \<and> ps_store p3 = empty_store)"
proof -
  have r: "hw_rand sample_hap 16 = replicate 16 3" by (simp add: sample_hap_def)
  have "5 < be_val modulusStr"
    using modulus_length BigIntegerByteLen_le_iff [of "BigIntegerFromBytes modulusStr" 1] by (simp add: BigIntegerFromBytes_def not_le)
  then have "int (be_val [5]) = BigIntegerFromBytes generator ^ 1 mod BigIntegerFromBytes modulusStr"
    by (simp add: generator_def BigIntegerFromBytes_def be_val_Cons)
  from setup_agreement [OF sample_pairing_ok sample_start this, unfolded r] show ?thesis
    by (simp add: data_of_lookup(1))
qed

text \<open>C13: A controller that sends a multiple of the modulus as its public value (and any proof) makes the accessory
  dereference the null pointer of the secret that was never computed: the code of \<open>SRP_compute_key\<close> is overwritten.\<close>

theorem setup_zero_key_crash:
  assumes "pairing_ok w" "setup_start w store = Some p"
    and "dataPtrForIndex msg 3 = Some A" "length A \<le> 384" "be_val A mod be_val modulusStr = 0"
  shows "case setup_M1 w p (field_record 6 [2]) of None \<Rightarrow> pairing_multiplier = 0 | Some (p1, out) \<Rightarrow> setup_M3 w p1 msg = None"
proof (rule setup_M1_state [OF assms(1,2)])
  fix s pub assume m1: "setup_M1 w p (field_record 6 [2]) = Some (p\<lparr>ps_srp := s, ps_publicKey := Some pub\<rparr>,
      Respond (data_of [(6, [2]), (3, cstr_value pub), (2, hw_rand w 16)]))" "pairing_ready w s (hw_rand w 16)"
  have secret: "ps_secretKey (p\<lparr>ps_srp := s, ps_publicKey := Some pub\<rparr>) = None"
    using assms(2) by (auto simp: setup_start_def bind_eq_Some_conv)
  have ready: "pairing_ready w (ps_srp (p\<lparr>ps_srp := s, ps_publicKey := Some pub\<rparr>)) (hw_rand w 16)" using m1(2) by simp
  have "int (be_val A) mod BigIntegerFromBytes modulusStr = 0"
    using assms(5) by (simp add: BigIntegerFromBytes_def flip: zmod_int)
  then have "session_base (hw_srp w) pair_user modulusStr generator (hw_rand w 16) (hw_PinCode w) A = 0"
    by (simp add: session_base_def Let_def key_base_def mod_eq_0_iff_dvd)
  then have "pairing_rejected w (hw_rand w 16) A" by (simp add: pairing_rejected_def rejected_def)
  from setup_M3_rejected [OF ready secret assms(3,4) this] m1(1) show ?thesis by simp
qed simp

theorem setup_zero_key_crash_witness:
  "case setup_M1 sample_hap (the (setup_start sample_hap empty_store)) (field_record 6 [2]) of
    None \<Rightarrow> pairing_multiplier = 0
  | Some (p1, out) \<Rightarrow> setup_M3 sample_hap p1 (data_of [(6, [3]), (3, [0]), (4, [])]) = None"
  by (rule setup_zero_key_crash [OF sample_pairing_ok sample_start, where A = "[0]"]) (simp_all add: data_of_lookup(1) be_val_Cons)

text \<open>C12: The third exchange is decrypted and looked at exactly when its last sixteen bytes are the tag of the AEAD
  construction under the session key; otherwise the answer is an error and nothing is stored. (For texts of fewer
  than two bytes the tag is sixteen zeros.)\<close>

theorem setup_M5_checked:
  assumes "hap_ok w" "length (ps_sessionKey p) = 64"
    and "dataPtrForIndex msg 5 = Some (ct @ tag)" "length tag = 16" "length ct < 65536"
  defines "key \<equiv> take 32 (ps_sessionKey p)" and "nonce \<equiv> ascii ''PS-Msg05''"
  shows "setup_M5 w p msg =
    (if tag = (if length ct < 2 then replicate 16 0 else aead_tag key nonce [] ct) then setup_M5_list w p (aead_crypt key nonce ct)
     else Some (p, Finish (data_of [(7, [1])])))"
  unfolding key_def nonce_def setup_M5_value [OF assms(1-5)] setup_tag_def ..

definition sample_setup :: pair_setup where
  "sample_setup = \<lparr>ps_srp = the (SRP_new sample_world SRP6a_server_method), ps_secretKey = Some \<lparr>c_data = replicate 65 0, c_length = 64, c_cap = 65, c_ref = 1\<rparr>,
     ps_publicKey = None, ps_response = None, ps_sessionKey = replicate 64 8, ps_store = empty_store\<rparr>"

lemma sample_setup_key: "ps_sessionKey sample_setup = replicate 64 8"
  by (simp add: sample_setup_def)

theorem setup_M5_checked_witness:
  "setup_M5 sample_hap sample_setup (data_of [(5, [1, 2, 3] @ aead_tag (replicate 32 8) (ascii ''PS-Msg05'') [] [1, 2, 3])]) =
    setup_M5_list sample_hap sample_setup (aead_crypt (replicate 32 8) (ascii ''PS-Msg05'') [1, 2, 3])"
  using setup_M5_checked [OF sample_hap_ok, of sample_setup "data_of [(5, [1, 2, 3] @ aead_tag (replicate 32 8) (ascii ''PS-Msg05'') [] [1, 2, 3])]" "[1, 2, 3]"
      "aead_tag (replicate 32 8) (ascii ''PS-Msg05'') [] [1, 2, 3]"]
  by (simp add: sample_setup_key data_of_lookup(1))


definition sample_package :: "field list" where
  "sample_package = [(1, replicate 36 1), (3, replicate 32 2), (10, replicate 64 3)]"


text \<open>C11: When the signature is accepted, the response carries, sealed under the session key, the list with the
  accessory's identifier, its signature over the expanded secret, the identifier and its key, and the key; the
  controller that opens it reads these back.\<close>

theorem setup_M6_readable:
  assumes "hap_ok w" "length (ps_sessionKey p) = 64" "length K < 2 ^ 31"
    and "length (hw_DeviceIdentity w) \<le> 86" "hw_DeviceIdentity w \<noteq> []"
  defines "key \<equiv> take 32 (ps_sessionKey p)" and "nonce \<equiv> ascii ''PS-Msg06''"
  shows "\<exists>ct. setup_M6 w p K = Some (data_of [(5, ct @ aead_tag key nonce [] ct)]) \<and>
    (case parse_data (aead_crypt key nonce ct) (length ct) of None \<Rightarrow> False
     | Some d \<Rightarrow> dataPtrForIndex d 1 = Some (hw_DeviceIdentity w) \<and> dataPtrForIndex d 10 = Some (accessory_signature w K) \<and>
         dataPtrForIndex d 3 = Some (hw_publickey w accessorySecretKey))"
proof -
  let ?d = "rawData (data_of (accessory_fields w K))"
  have k: "length key = 32" "length nonce = 8" using assms(2) by (simp_all add: key_def nonce_def ascii_def)
  have f: "\<forall>f \<in> set (accessory_fields w K). length (snd f) \<le> 255"
    using assms(1,4) by (simp add: accessory_fields_def hap_ok_def accessory_signature_def)
  have dist: "distinct (map fst (accessory_fields w K))" by (simp add: accessory_fields_def)
  have l: "length (fragments (accessory_fields w K)) < 2 ^ 16" using accessory_fields_raw [OF assms(1,4,5), of K] assms(4) by simp
  have "parse_data ?d (length ?d) = Some (data_of (accessory_fields w K))"
    using parse_data_fragments [OF f l, of "[]"] accessory_fields_raw(1) [OF assms(1,4,5), of K] merged_distinct [OF dist]
    by (simp add: accessory_fields_def flip: length_merged)
  then show ?thesis
    using setup_M6_value [OF assms(1-5)] k data_of_lookup(1) [OF dist]
    by (intro exI [of _ "aead_crypt key nonce ?d"])
      (simp add: aead_seal_def Let_def aead_crypt_involution key_def [symmetric] nonce_def [symmetric], simp add: accessory_fields_def)
qed

theorem setup_M6_readable_witness:
  "\<exists>ct. setup_M6 sample_hap sample_setup (replicate 64 5) = Some (data_of [(5, ct @ aead_tag (replicate 32 8) (ascii ''PS-Msg06'') [] ct)]) \<and>
    (case parse_data (aead_crypt (replicate 32 8) (ascii ''PS-Msg06'') ct) (length ct) of None \<Rightarrow> False
     | Some d \<Rightarrow> dataPtrForIndex d 1 = Some (ascii ''12:34'') \<and> dataPtrForIndex d 10 = Some (replicate 64 2) \<and>
         dataPtrForIndex d 3 = Some (replicate 32 1))"
  using setup_M6_readable [OF sample_hap_ok, of sample_setup "replicate 64 5", unfolded sample_hap_parts sample_setup_key]
  by (simp add: ascii_def)

text \<open>The response that refuses a proof has no zero byte, and the log line that prints it as text reads past its end:
  with any proof but the right ones the second message does not get an answer by the rules of the language.\<close>

theorem setup_refusal_overrun:
  assumes "pairing_ok w" "setup_start w store = Some p" "PHKNetworkMessage (hw_message w) buffer = Some m"
    and "dataPtrForIndex (msg_data m) 6 = Some [3]" "dataPtrForIndex (msg_data m) 3 = Some A" "length A \<le> 384"
    and "dataPtrForIndex (msg_data m) 4 = Some M" "\<not> proof_accepted w (hw_rand w 16) A M"
  shows "case setup_M1 w p (field_record 6 [2]) of None \<Rightarrow> pairing_multiplier = 0 | Some (p1, out) \<Rightarrow> setup_message w p1 buffer = None"
proof (rule setup_M1_state [OF assms(1,2)])
  fix s pub assume m1: "setup_M1 w p (field_record 6 [2]) = Some (p\<lparr>ps_srp := s, ps_publicKey := Some pub\<rparr>,
      Respond (data_of [(6, [2]), (3, cstr_value pub), (2, hw_rand w 16)]))" "pairing_ready w s (hw_rand w 16)"
  define p1 where "p1 = p\<lparr>ps_srp := s, ps_publicKey := Some pub\<rparr>"
  have hap: "hap_ok w" using assms(1) by (simp add: pairing_ok_def)
  have p: "ps_secretKey p1 = None" "ps_response p1 = None" "length (ps_sessionKey p1) = 64"
    using assms(2) hap by (auto simp: p1_def setup_start_def bind_eq_Some_conv hap_ok_def)
  have ready: "pairing_ready w (ps_srp p1) (hw_rand w 16)" using m1(2) by (simp add: p1_def)
  have "setup_message w p1 buffer = None"
  proof (cases "pairing_rejected w (hw_rand w 16) A")
    case True
    then show ?thesis
      using setup_M3_rejected [OF ready p(1) assms(5,6)] assms(3,4) by (simp add: setup_message_def peek_def)
  next
    case False
    show ?thesis
      by (rule setup_M3_accepted [OF hap ready p assms(5,7,6) False])
        (use assms(3,4,8) refusal_text in \<open>auto simp: setup_message_def peek_def\<close>)
  qed
  then show ?thesis using m1(1) by (simp add: p1_def [symmetric])
qed simp

theorem setup_refusal_overrun_witness:
  "case setup_M1 sample_hap (the (setup_start sample_hap empty_store)) (field_record 6 [2]) of
    None \<Rightarrow> pairing_multiplier = 0 | Some (p1, out) \<Rightarrow> setup_message sample_hap p1 sample_refused = None"
proof -
  obtain m where m: "PHKNetworkMessage (hw_message sample_hap) sample_refused = Some m"
    "dataPtrForIndex (msg_data m) 6 = Some [3]" "dataPtrForIndex (msg_data m) 3 = Some [5]" "dataPtrForIndex (msg_data m) 4 = Some [9]"
    by (rule sample_refused_parsed)
  have "[9] \<noteq> sha512_hash x" for x using length_sha512_hash [of x] by (auto simp del: length_sha512_hash dest: sym)
  then have "\<not> proof_accepted sample_hap (hw_rand sample_hap 16) [5] [9]"
    by (simp add: proof_accepted_def Let_def client_proof_def)
  from setup_refusal_overrun [OF sample_pairing_ok sample_start m(1-3) _ m(4) this] show ?thesis by simp
qed

end
