(* ===== verification/Hap_Session.thy ===== *)
theory Hap_Session
  imports Hap_Aead
begin

text \<open>
  Personal-HomeKit-HAP/PHKNetworkIP.cpp and PHKNetworkIP.h: a connection after pairing is verified
  (\<open>handleAccessoryRequest\<close>), the notifications (\<open>broadcastMessage\<close>) and the list of the values a
  connection is notified of. The host is little-endian and \<open>bswap_64\<close> of this file is the identity, so
  a nonce is the bytes of the counter, least first. What \<open>recv\<close> returns is a list of packets of at most
  4096 bytes (an empty one ends the loop); the accessory logic behind \<open>handleAccessory\<close> is an
  argument that gets the buffer of 2048 bytes, the length and the notification list. A read or write
  outside a buffer is None. \<open>HomeKitLog\<close> is 1: the log lines read the decrypted text up to its terminator.
\<close>

section \<open>The code\<close>

record connection =
  c_connected :: bool
  c_controllerToAccessoryKey :: "byte list"
  c_accessoryToControllerKey :: "byte list"
  c_numberOfMsgRec :: u64
  c_numberOfMsgSend :: u64
  c_subSocket :: int
  c_buffer :: "byte list"
  c_notificationList :: "nat list"

definition numberOfNotifiableValue :: nat where "numberOfNotifiableValue = 1"

definition connection_init :: connection where
  "connection_init = \<lparr>c_connected = False, c_controllerToAccessoryKey = replicate 32 0,
     c_accessoryToControllerKey = replicate 32 0, c_numberOfMsgRec = 0, c_numberOfMsgSend = 0, c_subSocket = - 1,
     c_buffer = replicate 4097 0, c_notificationList = replicate numberOfNotifiableValue 0\<rparr>"

text \<open>The pointers of the list are numbers; 0 is the null pointer.\<close>

fun add_notify :: "nat list \<Rightarrow> nat \<Rightarrow> nat list" where
  "add_notify [] target = []"
| "add_notify (t # ts) target = (if t = 0 then target # ts else t # add_notify ts target)"

definition addNotify :: "connection \<Rightarrow> nat \<Rightarrow> connection" where
  "addNotify c target = c\<lparr>c_notificationList := add_notify (c_notificationList c) target\<rparr>"

definition notify :: "connection \<Rightarrow> nat \<Rightarrow> bool" where
  "notify c target \<longleftrightarrow> (\<exists>t \<in> set (c_notificationList c). t = target)"

definition removeNotify :: "connection \<Rightarrow> nat \<Rightarrow> connection" where
  "removeNotify c target =
     c\<lparr>c_notificationList := map (\<lambda>t. if t = target then 0 else t) (c_notificationList c)\<rparr>"

definition clearNotify :: "connection \<Rightarrow> connection" where
  "clearNotify c = c\<lparr>c_notificationList := map (\<lambda>t. 0) (c_notificationList c)\<rparr>"

text \<open>The two bytes of a length that \<open>reply[0]\<close> and \<open>reply[1]\<close> hold.\<close>

definition length_bytes :: "nat \<Rightarrow> byte list" where
  "length_bytes n = (let r0 = of_nat (n mod 256) in [r0, of_nat ((n - unat (r0 :: byte)) div 256)])"

text \<open>One notified connection: the tag is computed in place, and the counter is not advanced.\<close>

definition broadcast_one :: "connection \<Rightarrow> byte list \<Rightarrow> byte list option" where
  "broadcast_one c resultData =
     do { let resultLen = length resultData;
          let hd2 = length_bytes resultLen;
          (chacha20, temp2) \<leftarrow> message_cipher zero_chacha (c_accessoryToControllerKey c) (le_bytes 8 (unat (c_numberOfMsgSend c)));
          let body = snd (chacha20_encrypt chacha20 resultData);
          let waste = replicate 16 0;
          let st = updates (poly1305_init zero_poly temp2)
            [hd2, take 14 waste, body, take (16 - resultLen mod 16) waste, le_bytes 8 2, le_bytes 8 resultLen];
          Some (hd2 @ body @ snd (poly1305_finish st)) }"

primrec broadcastMessage :: "connection list \<Rightarrow> nat \<Rightarrow> byte list \<Rightarrow> (int \<times> byte list) list option" where
  "broadcastMessage [] sender resultData = Some []"
| "broadcastMessage (c # cs) sender resultData =
     (if c_subSocket c \<ge> 0 \<and> notify c sender then do {
        reply \<leftarrow> broadcast_one c resultData;
        sent \<leftarrow> broadcastMessage cs sender resultData;
        Some ((c_subSocket c, reply) # sent) }
      else broadcastMessage cs sender resultData)"

text \<open>The answer; \<open>verify\<close> still holds the tag of the request. \<open>len\<close> of the authenticator has 16 bits.\<close>

definition send_reply :: "connection \<Rightarrow> chacha20_ctx \<Rightarrow> byte list \<Rightarrow> byte list \<Rightarrow> (connection \<times> byte list) option" where
  "send_reply c chacha20 verify resultData =
     do { let resultLen = length resultData;
          let hd2 = length_bytes resultLen;
          (chacha20, temp2) \<leftarrow> message_cipher chacha20 (c_accessoryToControllerKey c) (le_bytes 8 (unat (c_numberOfMsgSend c)));
          let c = c\<lparr>c_numberOfMsgSend := c_numberOfMsgSend c + 1\<rparr>;
          let body = snd (chacha20_encrypt chacha20 resultData);
          verify \<leftarrow> Poly1305_GenKey temp2 (Some (hd2 @ body @ replicate 16 0)) (resultLen mod 2 ^ 16) Type_Data_With_Length verify;
          Some (c, hd2 @ body @ verify) }"

type_synonym 'a accessory = "byte list \<Rightarrow> nat \<Rightarrow> 'a \<Rightarrow> nat list \<Rightarrow> byte list \<times> 'a \<times> nat list"

definition recv_buffer :: "byte list \<Rightarrow> byte list \<Rightarrow> byte list" where
  "recv_buffer buffer packet = packet @ drop (length packet) (replicate 4096 0 @ drop 4096 buffer)"

definition handle_frame ::
  "'a accessory \<Rightarrow> connection \<Rightarrow> 'a \<Rightarrow> byte list \<Rightarrow> (connection \<times> 'a \<times> byte list list) option" where
  "handle_frame handleAccessory c a packet =
     do { let buffer = recv_buffer (c_buffer c) packet;
          let len = length packet;
          b1 \<leftarrow> peek buffer 1;
          b0 \<leftarrow> peek buffer 0;
          let msgLen = unat b1 * 256 + unat b0;
          (chacha20, temp2) \<leftarrow> message_cipher zero_chacha (c_controllerToAccessoryKey c) (le_bytes 8 (unat (c_numberOfMsgRec c)));
          let c = c\<lparr>c_buffer := buffer, c_numberOfMsgRec := c_numberOfMsgRec c + 1\<rparr>;
          verify \<leftarrow> Poly1305_GenKey temp2 (Some buffer) msgLen Type_Data_With_Length (replicate 16 0);
          data \<leftarrow> slice buffer 2 msgLen;
          if msgLen > 2048 then None
          else do {
            let (chacha20, plain) = chacha20_encrypt chacha20 data;
            let decryptData = buffer_copy (replicate 2048 0) 0 plain;
            if 0 \<notin> set decryptData then None
            else if len \<ge> 2 + msgLen + 16 \<and> verify = take 16 (drop (2 + msgLen) buffer) then do {
              let (resultData, a, notes) = handleAccessory decryptData msgLen a (c_notificationList c);
              (c, reply) \<leftarrow> send_reply (c\<lparr>c_notificationList := notes\<rparr>) chacha20 verify resultData;
              Some (c, a, [reply]) }
            else Some (c, a, []) } }"

primrec accessory_loop ::
  "'a accessory \<Rightarrow> connection \<Rightarrow> 'a \<Rightarrow> byte list list \<Rightarrow> (connection \<times> 'a \<times> byte list list) option" where
  "accessory_loop handleAccessory c a [] = Some (c\<lparr>c_buffer := recv_buffer (c_buffer c) []\<rparr>, a, [])"
| "accessory_loop handleAccessory c a (p # ps) =
     (if length p > 0 then do {
        (c, a, sent) \<leftarrow> handle_frame handleAccessory c a p;
        (c, a, rest) \<leftarrow> accessory_loop handleAccessory c a ps;
        Some (c, a, sent @ rest) }
      else Some (c\<lparr>c_buffer := recv_buffer (c_buffer c) []\<rparr>, a, []))"

definition handleAccessoryRequest ::
  "'a accessory \<Rightarrow> connection \<Rightarrow> 'a \<Rightarrow> byte list list \<Rightarrow> (connection \<times> 'a \<times> byte list list) option" where
  "handleAccessoryRequest handleAccessory c a packets =
     do { let c = c\<lparr>c_connected := True, c_numberOfMsgRec := 0, c_numberOfMsgSend := 0\<rparr>;
          let c = clearNotify c;
          (c, a, sent) \<leftarrow> accessory_loop handleAccessory c a packets;
          Some (c\<lparr>c_connected := False\<rparr>, a, sent) }"

section \<open>Frames\<close>

text \<open>What a peer of the protocol sends: the length, the sealed text with the length as associated data.\<close>

definition frame :: "byte list \<Rightarrow> u64 \<Rightarrow> byte list \<Rightarrow> byte list" where
  "frame key n m = length_bytes (length m) @ aead_seal key (le_bytes 8 (unat n)) (length_bytes (length m)) m"

lemma length_length_bytes [simp]: "length (length_bytes n) = 2"
  by (simp add: length_bytes_def Let_def)

lemma length_bytes_value: "n < 65536 \<Longrightarrow> length_bytes n = [of_nat n, of_nat (n div 256)]"
proof -
  assume "n < 65536"
  have r: "unat (of_nat (n mod 256) :: byte) = n mod 256" by (simp add: unat_of_nat)
  have "(n - n mod 256) div 256 = n div 256" by (simp add: minus_mod_eq_mult_div)
  then show ?thesis unfolding length_bytes_def Let_def r by (simp add: word_unat_eq_iff unat_of_nat)
qed

definition keys_ok :: "connection \<Rightarrow> bool" where
  "keys_ok c \<longleftrightarrow> length (c_controllerToAccessoryKey c) = 32 \<and> length (c_accessoryToControllerKey c) = 32 \<and>
     length (c_buffer c) = 4097"

abbreviation in_nonce :: "connection \<Rightarrow> byte list" where
  "in_nonce c \<equiv> le_bytes 8 (unat (c_numberOfMsgRec c))"

abbreviation out_nonce :: "connection \<Rightarrow> byte list" where
  "out_nonce c \<equiv> le_bytes 8 (unat (c_numberOfMsgSend c))"

lemma ready_encrypt: "ready c key nonce \<Longrightarrow> snd (chacha20_encrypt c m) = aead_crypt key nonce m"
  by (simp add: ready_def)

lemma send_reply_value:
  assumes "length (c_accessoryToControllerKey c) = 32" "length r < 65536"
  shows "send_reply c chacha20 verify r =
    Some (c\<lparr>c_numberOfMsgSend := c_numberOfMsgSend c + 1\<rparr>,
      if length r < 2 then length_bytes (length r) @ aead_crypt (c_accessoryToControllerKey c) (out_nonce c) r @ verify
      else frame (c_accessoryToControllerKey c) (c_numberOfMsgSend c) r)"
proof -
  let ?k = "c_accessoryToControllerKey c" and ?n = "out_nonce c"
  have n: "length ?n = 8" by simp
  obtain ch where ch: "message_cipher chacha20 ?k ?n = Some (ch, one_time_key ?k ?n)" "ready ch ?k ?n"
    by (rule message_cipher_ready [OF assms(1) n])
  have l: "length (aead_crypt ?k ?n r) = length r" by (rule length_aead_crypt [OF assms(1) n])
  have k: "32 \<le> length (one_time_key ?k ?n)" using length_one_time_key [OF assms(1) n] by simp
  have g: "Poly1305_GenKey (one_time_key ?k ?n) (Some (length_bytes (length r) @ aead_crypt ?k ?n r @ replicate 16 0))
      (length r) Type_Data_With_Length verify =
      (if length r < 2 then Some verify else Some (aead_tag ?k ?n (length_bytes (length r)) (aead_crypt ?k ?n r)))"
  proof (cases "length r < 2")
    case True
    obtain x y where "length_bytes (length r) = [x, y]" by (auto simp: length_bytes_def Let_def)
    then show ?thesis using True by (simp add: Poly1305_GenKey_def peek_def)
  next
    case False
    then show ?thesis
      using GenKey_value [OF k, of "aead_crypt ?k ?n r" "length_bytes (length r)" Type_Data_With_Length "replicate 16 0"] l assms(2)
      by (simp add: aead_tag_def)
  qed
  then show ?thesis
    using assms(2) by (simp add: send_reply_def Let_def ch(1) ready_encrypt [OF ch(2)] frame_def aead_seal_def)
qed

text \<open>What the code compares with the 16 bytes behind the text.\<close>

definition expected_tag :: "byte list \<Rightarrow> byte list \<Rightarrow> byte list \<Rightarrow> byte list \<Rightarrow> byte list" where
  "expected_tag key nonce aad ct = (if length ct < 2 then replicate 16 0 else aead_tag key nonce aad ct)"

definition frame_length :: "byte list \<Rightarrow> nat" where
  "frame_length b = unat (b ! 1) * 256 + unat (b ! 0)"

definition deliver ::
  "'a accessory \<Rightarrow> connection \<Rightarrow> 'a \<Rightarrow> byte list \<Rightarrow> byte list \<Rightarrow> (connection \<times> 'a \<times> byte list list) option" where
  "deliver h c a m verify =
     (let (r, a, notes) = h (m @ replicate (2048 - length m) 0) (length m) a (c_notificationList c);
          out = (if length r < 2 then length_bytes (length r) @ aead_crypt (c_accessoryToControllerKey c) (out_nonce c) r @ verify
                 else frame (c_accessoryToControllerKey c) (c_numberOfMsgSend c) r)
      in Some (c\<lparr>c_notificationList := notes, c_numberOfMsgSend := c_numberOfMsgSend c + 1\<rparr>, a, [out]))"

lemma handle_frame_value:
  fixes c :: connection and packet :: "byte list"
  defines "b \<equiv> recv_buffer (c_buffer c) packet"
  defines "m \<equiv> frame_length b"
  defines "ct \<equiv> take m (drop 2 b)" and "k \<equiv> c_controllerToAccessoryKey c"
  defines "tag \<equiv> expected_tag k (in_nonce c) (take 2 b) ct"
  defines "c1 \<equiv> c\<lparr>c_buffer := b, c_numberOfMsgRec := c_numberOfMsgRec c + 1\<rparr>"
  assumes ok: "keys_ok c" "length packet \<le> 4096" "m < 2048"
    and small: "\<And>d n a l. length (fst (h d n a l)) < 65536"
  shows "handle_frame h c a packet =
    (if 2 + m + 16 \<le> length packet \<and> tag = take 16 (drop (2 + m) b) then deliver h c1 a (aead_crypt k (in_nonce c) ct) tag
     else Some (c1, a, []))"
proof -
  let ?n = "in_nonce c"
  have b: "length b = 4097" using ok(1,2) by (simp add: b_def recv_buffer_def keys_ok_def)
  then obtain x y zs where xy: "b = x # y # zs" by (cases b; cases "tl b") auto
  have k: "length k = 32" using ok(1) by (simp add: k_def keys_ok_def)
  have n: "length ?n = 8" by simp
  obtain ch where ch: "message_cipher zero_chacha k ?n = Some (ch, one_time_key k ?n)" "ready ch k ?n"
    by (rule message_cipher_ready [OF k n])
  have ct: "length ct = m" using b ok(3) by (simp add: ct_def)
  have split: "b = take 2 b @ ct @ drop (2 + m) b" 
    by (metis (no_types) append_assoc append_take_drop_id take_add ct_def)
  have otk: "32 \<le> length (one_time_key k ?n)" using length_one_time_key [OF k n] by simp
  have g: "Poly1305_GenKey (one_time_key k ?n) (Some b) m Type_Data_With_Length (replicate 16 0) = Some tag"
  proof (cases "m < 2")
    case True
    then show ?thesis using ct by (simp add: Poly1305_GenKey_def peek_def xy tag_def expected_tag_def)
  next
    case False
    have "Poly1305_GenKey (one_time_key k ?n) (Some (take 2 b @ ct @ drop (2 + m) b)) (length ct) Type_Data_With_Length (replicate 16 0) =
        Some (poly1305_mac (one_time_key k ?n) (aead_mac_data (take 2 b) ct))"
      using False ct ok(3) b by (intro GenKey_value [OF otk]) simp_all
    then show ?thesis
      unfolding split [symmetric] using False ct by (simp add: tag_def expected_tag_def aead_tag_def)
  qed
  define pt where "pt = aead_crypt k ?n ct"
  have pt: "length pt = m" using length_aead_crypt [OF k n, of ct] ct by (simp add: pt_def)
  have copy: "buffer_copy (replicate 2048 0) 0 pt = pt @ replicate (2048 - m) 0"
    using buffer_copy_at [of 0 pt "replicate 2048 0"] pt ok(3) by simp
  have nul: "0 \<in> set (pt @ replicate (2048 - m) (0 :: byte))" using ok(3) by simp
  obtain ch2 where enc: "chacha20_encrypt ch ct = (ch2, pt)"
    using ready_encrypt [OF ch(2), of ct] by (cases "chacha20_encrypt ch ct") (simp add: pt_def)
  have peeks: "peek b 1 = Some (b ! 1)" "peek b 0 = Some (b ! 0)" "slice b 2 m = Some ct"
    using b ok(3) by (simp_all add: peek_def slice_def ct_def)
  have len: "unat (b ! 1) * 256 + unat (b ! 0) = m" by (simp add: m_def frame_length_def)
  have big: "\<not> 2048 < m" using ok(3) by simp
  have keys: "length (c_accessoryToControllerKey c1) = 32" using ok(1) by (simp add: c1_def keys_ok_def)
  have sent: "(case h d n a l of (r, a, notes) \<Rightarrow> do { (c, reply) \<leftarrow> send_reply (c1\<lparr>c_notificationList := notes\<rparr>) x tag r; Some (c, a, [reply]) }) =
      (case h d n a l of (r, a, notes) \<Rightarrow> Some (c1\<lparr>c_notificationList := notes, c_numberOfMsgSend := c_numberOfMsgSend c1 + 1\<rparr>, a,
        [if length r < 2 then length_bytes (length r) @ aead_crypt (c_accessoryToControllerKey c1) (out_nonce c1) r @ tag
         else frame (c_accessoryToControllerKey c1) (c_numberOfMsgSend c1) r]))" for d n a l x
    using small [of d n a l] send_reply_value [of "c1\<lparr>c_notificationList := ns\<rparr>" for ns] keys
    by (simp add: case_prod_beta)
  have frame: "handle_frame h c a packet =
      (if 2 + m + 16 \<le> length packet \<and> tag = take 16 (drop (2 + m) b)
       then (case h (pt @ replicate (2048 - m) 0) m a (c_notificationList c1) of (r, a, notes) \<Rightarrow>
         do { (c, reply) \<leftarrow> send_reply (c1\<lparr>c_notificationList := notes\<rparr>) ch2 tag r; Some (c, a, [reply]) })
       else Some (c1, a, []))"
    unfolding handle_frame_def Let_def b_def [symmetric] peeks bind.bind_lunit len k_def [symmetric] ch(1)
      c1_def [symmetric] prod.case g
    using big nul by (simp only: enc prod.case copy if_False) simp
  show ?thesis unfolding frame sent by (simp add: deliver_def pt_def [symmetric] pt Let_def case_prod_beta)
qed

section \<open>Sessions\<close>

primrec frames :: "byte list \<Rightarrow> u64 \<Rightarrow> byte list list \<Rightarrow> byte list list" where
  "frames key n [] = []"
| "frames key n (m # ms) = frame key n m # frames key (n + 1) ms"

text \<open>What the session promises: the requests reach the accessory in order, with the answers as results.\<close>

primrec serve :: "'a accessory \<Rightarrow> 'a \<Rightarrow> nat list \<Rightarrow> byte list list \<Rightarrow> byte list list \<times> 'a \<times> nat list" where
  "serve h a notes [] = ([], a, notes)"
| "serve h a notes (m # ms) =
     (let (r, a, notes) = h (m @ replicate (2048 - length m) 0) (length m) a notes;
          (rs, a, notes) = serve h a notes ms
      in (r # rs, a, notes))"

lemma length_frame: "length key = 32 \<Longrightarrow> length (frame key n m) = length m + 18"
  by (simp add: frame_def aead_seal_def Let_def)

lemma frame_received:
  fixes n :: u64 and key m buffer :: "byte list"
  assumes key: "length key = 32" and m: "length m < 2048" and buf: "length buffer = 4097"
  defines "b \<equiv> recv_buffer buffer (frame key n m)" and "ct \<equiv> aead_crypt key (le_bytes 8 (unat n)) m"
  shows "frame_length b = length m" "take 2 b = length_bytes (length m)" "take (length m) (drop 2 b) = ct"
    "take 16 (drop (2 + length m) b) = aead_tag key (le_bytes 8 (unat n)) (length_bytes (length m)) ct"
proof -
  have ct: "length ct = length m" using key by (simp add: ct_def)
  obtain post where b: "b = length_bytes (length m) @ ct @ aead_tag key (le_bytes 8 (unat n)) (length_bytes (length m)) ct @ post"
    by (auto simp: b_def recv_buffer_def frame_def aead_seal_def Let_def ct_def)
  have "length_bytes (length m) = [of_nat (length m), of_nat (length m div 256)]" using m by (intro length_bytes_value) simp
  moreover have "length m div 256 < 256" using m by simp
  ultimately show "frame_length b = length m"
    by (simp add: frame_length_def b unat_of_nat)
  show "take 2 b = length_bytes (length m)" "take (length m) (drop 2 b) = ct" by (simp_all add: b ct)
  have "take 16 (drop (length ct) (ct @ aead_tag key (le_bytes 8 (unat n)) (length_bytes (length m)) ct @ post)) =
      aead_tag key (le_bytes 8 (unat n)) (length_bytes (length m)) ct" by simp
  then show "take 16 (drop (2 + length m) b) = aead_tag key (le_bytes 8 (unat n)) (length_bytes (length m)) ct"
    by (simp add: b ct)
qed

lemma handle_sealed_frame:
  fixes c :: connection and m :: "byte list"
  assumes ok: "keys_ok c" and m: "2 \<le> length m" "length m < 2048"
    and small: "\<And>d n a l. 2 \<le> length (fst (h d n a l)) \<and> length (fst (h d n a l)) < 65536"
    and run: "h (m @ replicate (2048 - length m) 0) (length m) a (c_notificationList c) = (r, a', ns)"
  defines "p \<equiv> frame (c_controllerToAccessoryKey c) (c_numberOfMsgRec c) m"
  shows "handle_frame h c a p =
    Some (c\<lparr>c_buffer := recv_buffer (c_buffer c) p, c_numberOfMsgRec := c_numberOfMsgRec c + 1, c_notificationList := ns,
        c_numberOfMsgSend := c_numberOfMsgSend c + 1\<rparr>, a', [frame (c_accessoryToControllerKey c) (c_numberOfMsgSend c) r])"
proof -
  have k: "length (c_controllerToAccessoryKey c) = 32" and b: "length (c_buffer c) = 4097" using ok by (simp_all add: keys_ok_def)
  note f = frame_received [OF k m(2) b, of "c_numberOfMsgRec c", folded p_def]
  have n: "length (in_nonce c) = 8" by simp
  have p: "length p = length m + 18" using k by (simp add: p_def length_frame)
  have small': "length (fst (h d n a l)) < 65536" for d n a l using small by blast
  have f1: "frame_length (recv_buffer (c_buffer c) p) < 2048" using f(1) m(2) by simp
  have "2 \<le> length r" using small [of "m @ replicate (2048 - length m) 0" "length m" a "c_notificationList c"] run by simp
  moreover have "expected_tag (c_controllerToAccessoryKey c) (in_nonce c) (length_bytes (length m))
      (aead_crypt (c_controllerToAccessoryKey c) (in_nonce c) m) =
    aead_tag (c_controllerToAccessoryKey c) (in_nonce c) (length_bytes (length m)) (aead_crypt (c_controllerToAccessoryKey c) (in_nonce c) m)"
    using m(1) k by (simp add: expected_tag_def)
  ultimately show ?thesis
    using handle_frame_value [of c p h a] ok f1 small' p m
    unfolding f by (simp add: deliver_def run aead_crypt_involution [OF k n])
qed

lemma recv_buffer_length: "length b = 4097 \<Longrightarrow> length p \<le> 4096 \<Longrightarrow> length (recv_buffer b p) = 4097"
  by (simp add: recv_buffer_def)

lemma accessory_loop_serves:
  assumes small: "\<And>d n a l. 2 \<le> length (fst (h d n a l)) \<and> length (fst (h d n a l)) < 65536"
    and "keys_ok c" "\<forall>m \<in> set ms. 2 \<le> length m \<and> length m < 2048"
    and "serve h a (c_notificationList c) ms = (rs, a', notes)"
  shows "\<exists>c'. accessory_loop h c a (frames (c_controllerToAccessoryKey c) (c_numberOfMsgRec c) ms) =
      Some (c', a', frames (c_accessoryToControllerKey c) (c_numberOfMsgSend c) rs) \<and> c_notificationList c' = notes \<and>
      c_numberOfMsgRec c' = c_numberOfMsgRec c + of_nat (length ms) \<and> c_numberOfMsgSend c' = c_numberOfMsgSend c + of_nat (length ms)"
  using assms(2-4)
proof (induction ms arbitrary: c a rs)
  case (Cons m ms)
  obtain r a1 n1 where r: "h (m @ replicate (2048 - length m) 0) (length m) a (c_notificationList c) = (r, a1, n1)"
    by (metis prod_cases3)
  obtain rs1 where rs: "serve h a1 n1 ms = (rs1, a', notes)" "rs = r # rs1"
    using Cons.prems(3) r by (auto simp: Let_def split: prod.splits)
  define p where "p = frame (c_controllerToAccessoryKey c) (c_numberOfMsgRec c) m"
  define c1 where "c1 = c\<lparr>c_buffer := recv_buffer (c_buffer c) p, c_numberOfMsgRec := c_numberOfMsgRec c + 1,
    c_notificationList := n1, c_numberOfMsgSend := c_numberOfMsgSend c + 1\<rparr>"
  have m: "2 \<le> length m" "length m < 2048" using Cons.prems(2) by simp_all
  have k: "length (c_controllerToAccessoryKey c) = 32" using Cons.prems(1) by (simp add: keys_ok_def)
  have step: "handle_frame h c a p = Some (c1, a1, [frame (c_accessoryToControllerKey c) (c_numberOfMsgSend c) r])"
    unfolding c1_def p_def
    by (rule handle_sealed_frame [where h = h and a = a and ns = n1]) (use Cons.prems(1) m small r in auto)
  have p: "length p = length m + 18" using k by (simp add: p_def length_frame)
  have "keys_ok c1" using Cons.prems(1) m p by (simp add: keys_ok_def c1_def recv_buffer_length)
  from Cons.IH [OF this, of a1 rs1] rs(1) Cons.prems(2) obtain c' where
    c': "accessory_loop h c1 a1 (frames (c_controllerToAccessoryKey c1) (c_numberOfMsgRec c1) ms) =
      Some (c', a', frames (c_accessoryToControllerKey c1) (c_numberOfMsgSend c1) rs1)" "c_notificationList c' = notes"
    "c_numberOfMsgRec c' = c_numberOfMsgRec c1 + of_nat (length ms)" "c_numberOfMsgSend c' = c_numberOfMsgSend c1 + of_nat (length ms)"
    by (auto simp: c1_def)
  show ?case
    by (rule exI [of _ c']) (use c' p step in \<open>simp add: rs(2) c1_def flip: p_def\<close>)
qed simp

text \<open>What every frame keeps, whatever the peer sends.\<close>

lemma send_reply_effect:
  "send_reply c ch v r = Some (c', out) \<Longrightarrow> c' = c\<lparr>c_numberOfMsgSend := c_numberOfMsgSend c + 1\<rparr>"
  by (auto simp: send_reply_def Let_def bind_eq_Some_conv split: prod.splits)

lemma handle_frame_effect:
  assumes "handle_frame h c a p = Some (c', a', sent)"
  shows "c_controllerToAccessoryKey c' = c_controllerToAccessoryKey c \<and> c_accessoryToControllerKey c' = c_accessoryToControllerKey c \<and>
    c_numberOfMsgRec c' = c_numberOfMsgRec c + 1 \<and> c_numberOfMsgSend c' = c_numberOfMsgSend c + of_nat (length sent) \<and>
    c_buffer c' = recv_buffer (c_buffer c) p \<and> c_subSocket c' = c_subSocket c \<and> frame_length (recv_buffer (c_buffer c) p) \<le> 2048"
  using assms
  by (auto simp: handle_frame_def Let_def bind_eq_Some_conv peek_def frame_length_def dest!: send_reply_effect
      split: prod.splits if_splits)

lemma accessory_loop_effect:
  assumes "accessory_loop h c a ps = Some (c', a', sent)"
  shows "c_controllerToAccessoryKey c' = c_controllerToAccessoryKey c \<and> c_accessoryToControllerKey c' = c_accessoryToControllerKey c \<and>
    c_numberOfMsgRec c' = c_numberOfMsgRec c + of_nat (length (takeWhile (\<lambda>p. p \<noteq> []) ps)) \<and>
    c_numberOfMsgSend c' = c_numberOfMsgSend c + of_nat (length sent) \<and>
    ((\<forall>p \<in> set ps. length p \<le> 4096) \<longrightarrow> length (c_buffer c) = 4097 \<longrightarrow> length (c_buffer c') = 4097)"
  using assms
proof (induction ps arbitrary: c a sent)
  case (Cons p ps)
  show ?case
  proof (cases "p = []")
    case False
    then obtain c1 a1 s1 s2 where step: "handle_frame h c a p = Some (c1, a1, s1)"
      "accessory_loop h c1 a1 ps = Some (c', a', s2)" "sent = s1 @ s2"
      using Cons.prems by (auto simp: bind_eq_Some_conv split: prod.splits)
    note e = handle_frame_effect [OF step(1)]
    show ?thesis using Cons.IH [OF step(2)] e step(3) False by (simp add: recv_buffer_length)
  qed (use Cons.prems in \<open>auto simp: recv_buffer_length\<close>)
qed (auto simp: recv_buffer_length)

lemma broadcast_one_value:
  assumes "length (c_accessoryToControllerKey c) = 32"
  defines "ct d \<equiv> aead_crypt (c_accessoryToControllerKey c) (out_nonce c) d"
  shows "broadcast_one c d = Some (length_bytes (length d) @ ct d @ poly1305_mac (one_time_key (c_accessoryToControllerKey c) (out_nonce c))
      (pad16 (length_bytes (length d)) @ ct d @ replicate (16 - length d mod 16) 0 @ le_bytes 8 2 @ le_bytes 8 (length d)))"
proof -
  let ?k = "c_accessoryToControllerKey c" and ?n = "out_nonce c"
  have n: "length ?n = 8" by simp
  obtain ch where ch: "message_cipher zero_chacha ?k ?n = Some (ch, one_time_key ?k ?n)" "ready ch ?k ?n"
    by (rule message_cipher_ready [OF assms(1) n])
  have k: "32 \<le> length (one_time_key ?k ?n)" using length_one_time_key [OF assms(1) n] by simp
  have p: "pad16 (length_bytes (length d)) = length_bytes (length d) @ replicate 14 0" by (simp add: pad16_def)
  show ?thesis
    unfolding broadcast_one_def Let_def ch(1) bind.bind_lunit prod.case updates_mac [OF k] ready_encrypt [OF ch(2)]
    by (simp add: ct_def p min_def)
qed

lemma broadcast_frame:
  assumes "length (c_accessoryToControllerKey c) = 32" "length d mod 16 \<noteq> 0"
  shows "broadcast_one c d = Some (frame (c_accessoryToControllerKey c) (c_numberOfMsgSend c) d)"
proof -
  have "(16 - length d mod 16) mod 16 = 16 - length d mod 16" using assms(2) by simp
  then show ?thesis
    using broadcast_one_value [OF assms(1), of d] assms(1)
    by (simp add: frame_def aead_seal_def aead_tag_def aead_mac_data_def pad16_def Let_def)
qed

text \<open>Two texts under one nonce have one keystream.\<close>

lemma chacha_bytes_xor: "snd (chacha_bytes c m) = map2 (XOR) m (snd (chacha_bytes c (replicate (length m) 0)))"
proof (induction m arbitrary: c)
  case (Cons x m)
  show ?case
    using Cons.IH [of "fst (chacha_byte c x)"] chacha_byte_ctx [of c x 0]
    by (simp add: case_prod_beta Let_def) (simp add: chacha_byte_def Let_def split: prod.splits)
qed simp

lemma aead_crypt_xor:
  assumes "length key = 32" "length nonce = 8"
  shows "aead_crypt key nonce m = map2 (XOR) m (aead_crypt key nonce (replicate (length m) 0))"
proof -
  obtain c where c: "ready c key nonce" by (rule message_cipher_ready [OF assms])
  then have "aead_crypt key nonce m = snd (chacha_bytes c m)" for m by (metis ready_def encrypt_bytes)
  then show ?thesis using chacha_bytes_xor by metis
qed

lemma map2_xor_cancel:
  fixes a b s :: "byte list"
  shows "length a = length s \<Longrightarrow> length b = length s \<Longrightarrow> map2 (XOR) (map2 (XOR) a s) (map2 (XOR) b s) = map2 (XOR) a b"
proof (induction s arbitrary: a b)
  case (Cons x s)
  then obtain u a' v b' where "a = u # a'" "b = v # b'" by (cases a; cases b) auto
  moreover have "(u XOR x) XOR (v XOR x) = u XOR v" by (simp add: bit_eq_iff bit_simps) blast
  ultimately show ?case using Cons by simp
qed simp

section \<open>Properties\<close>

definition sample_connection :: connection where
  "sample_connection = connection_init\<lparr>c_subSocket := 5, c_notificationList := [7]\<rparr>"

definition sample_accessory :: "byte list accessory" where
  "sample_accessory d n a l = ([of_nat n, 1], a @ [of_nat n], l)"



lemma sample_connection_ok: "keys_ok sample_connection"
  by (simp add: keys_ok_def sample_connection_def connection_init_def)


text \<open>C7: The keys never change and a reply is sent under the number of the replies before it, whatever the
  peer sends: after any packets the receive counter is the number of packets, the send counter the number of
  replies, and the buffer keeps its size.\<close>

theorem session_invariant:
  assumes "accessory_loop h c a ps = Some (c', a', sent)" "keys_ok c" "\<forall>p \<in> set ps. length p \<le> 4096 \<and> p \<noteq> []"
  shows "keys_ok c' \<and> c_controllerToAccessoryKey c' = c_controllerToAccessoryKey c \<and>
    c_accessoryToControllerKey c' = c_accessoryToControllerKey c \<and>
    c_numberOfMsgRec c' = c_numberOfMsgRec c + of_nat (length ps) \<and>
    c_numberOfMsgSend c' = c_numberOfMsgSend c + of_nat (length sent)"
proof -
  have all: "takeWhile (\<lambda>p. p \<noteq> []) ps = ps" using assms(3) by (simp add: takeWhile_eq_all_conv)
  show ?thesis using accessory_loop_effect [OF assms(1)] assms(2,3) unfolding all by (simp add: keys_ok_def)
qed

lemma sample_length: "frame_length (recv_buffer (c_buffer sample_connection) [5, 0, 1, 2]) = 5"
  by (simp add: frame_length_def recv_buffer_def)

lemma sample_rejected: "\<exists>c'. accessory_loop sample_accessory sample_connection [] [[5, 0, 1, 2]] = Some (c', [], [])"
  using handle_frame_value [OF sample_connection_ok, of "[5, 0, 1, 2]" sample_accessory "[]"]
  by (simp add: sample_length) (simp add: sample_accessory_def)

theorem session_invariant_witness:
  "\<exists>c'. accessory_loop sample_accessory sample_connection [] [[5, 0, 1, 2]] = Some (c', [], []) \<and>
    keys_ok c' \<and> c_numberOfMsgRec c' = 1 \<and> c_numberOfMsgSend c' = 0"
proof -
  obtain c' where c': "accessory_loop sample_accessory sample_connection [] [[5, 0, 1, 2]] = Some (c', [], [])"
    using sample_rejected by blast
  from session_invariant [OF c' sample_connection_ok] show ?thesis
    by (intro exI [of _ c']) (simp add: c' del: accessory_loop.simps, simp add: sample_connection_def connection_init_def)
qed



text \<open>A frame of length 0 or 1 needs no key: the tag the code compares with was never computed, so sixteen zero
  bytes are accepted and the accessory is called.\<close>

theorem short_frame_forged:
  assumes "keys_ok c" "length x < 2" "\<And>d n a l. length (fst (h d n a l)) < 65536"
  shows "\<exists>c' a' reply r ns. handle_frame h c a (of_nat (length x) # 0 # x @ replicate 16 0) = Some (c', a', [reply]) \<and>
    h (aead_crypt (c_controllerToAccessoryKey c) (in_nonce c) x @ replicate (2048 - length x) 0) (length x) a (c_notificationList c) = (r, a', ns)"
proof -
  define p where "p = of_nat (length x) # 0 # x @ replicate 16 (0 :: byte)"
  define b where "b = recv_buffer (c_buffer c) p"
  obtain post where b: "b = of_nat (length x) # 0 # x @ replicate 16 0 @ post" by (auto simp: b_def p_def recv_buffer_def)
  have m: "frame_length b = length x" using assms(2) by (simp add: frame_length_def b unat_of_nat)
  have x: "take (length x) (drop 2 b) = x" "take 16 (drop (2 + length x) b) = replicate 16 0" by (simp_all add: b)
  have p: "length p = length x + 18" by (simp add: p_def)
  have "handle_frame h c a p = deliver h (c\<lparr>c_buffer := b, c_numberOfMsgRec := c_numberOfMsgRec c + 1\<rparr>) a
      (aead_crypt (c_controllerToAccessoryKey c) (in_nonce c) x) (replicate 16 0)"
    using handle_frame_value [of c p h a] assms p x by (simp add: b_def [symmetric] m expected_tag_def)
  moreover have "length (aead_crypt (c_controllerToAccessoryKey c) (in_nonce c) x) = length x"
    using assms(1) by (intro length_aead_crypt) (simp_all add: keys_ok_def)
  moreover obtain r a' ns where "h (aead_crypt (c_controllerToAccessoryKey c) (in_nonce c) x @ replicate (2048 - length x) 0)
      (length x) a (c_notificationList c) = (r, a', ns)" by (metis prod_cases3)
  ultimately show ?thesis
    unfolding p_def [symmetric] by (simp add: deliver_def Let_def)
qed

theorem short_frame_forged_witness:
  "\<exists>c' reply. handle_frame sample_accessory sample_connection [] ([0, 0] @ replicate 16 0) = Some (c', [0], [reply])"
  using short_frame_forged [OF sample_connection_ok, of "[]" sample_accessory "[]"]
  by (simp add: sample_accessory_def)

text \<open>A frame that announces more than 2048 bytes is written behind the array for the decrypted text, or read
  behind the receive buffer, before its tag is looked at.\<close>

theorem long_frame_overflow:
  assumes "2048 < frame_length (recv_buffer (c_buffer c) packet)"
  shows "handle_frame h c a packet = None"
  using handle_frame_effect [of h c a packet] assms by (cases "handle_frame h c a packet") fastforce+

theorem long_frame_overflow_witness:
  "handle_frame sample_accessory sample_connection [] [0, 9, 1] = None"
  by (rule long_frame_overflow) (simp add: frame_length_def recv_buffer_def)

text \<open>A notification goes to exactly the open connections that asked for it, in order; for texts whose length
  is not a multiple of 16 each gets the frame the protocol asks for.\<close>

theorem broadcast_correct:
  assumes "\<forall>c \<in> set cs. length (c_accessoryToControllerKey c) = 32" "length d mod 16 \<noteq> 0"
  shows "broadcastMessage cs sender d =
    Some (map (\<lambda>c. (c_subSocket c, frame (c_accessoryToControllerKey c) (c_numberOfMsgSend c) d))
      (filter (\<lambda>c. 0 \<le> c_subSocket c \<and> sender \<in> set (c_notificationList c)) cs))"
  using assms(1) by (induction cs) (auto simp: notify_def broadcast_frame [OF _ assms(2)])

theorem broadcast_correct_witness:
  "broadcastMessage [connection_init, sample_connection] 7 [1, 2, 3] = Some [(5, frame (replicate 32 0) 0 [1, 2, 3])]"
  using broadcast_correct [of "[connection_init, sample_connection]" "[1, 2, 3]" 7]
  by (simp add: sample_connection_def connection_init_def)

text \<open>C19: A notification does not advance the send counter, so it shares its nonce with the next reply: the two
  ciphertexts, of the same length, differ exactly where the texts differ.\<close>

theorem broadcast_nonce_reuse:
  assumes "length (c_accessoryToControllerKey c) = 32" "length r = length d" "length d < 65536"
    and "broadcast_one c d = Some s1" "send_reply c ch verify r = Some (c', s2)"
  shows "map2 (XOR) (take (length d) (drop 2 s1)) (take (length d) (drop 2 s2)) = map2 (XOR) d r"
proof -
  let ?k = "c_accessoryToControllerKey c" and ?n = "out_nonce c"
  have n: "length ?n = 8" by simp
  have l: "length (aead_crypt ?k ?n m) = length m" for m by (rule length_aead_crypt [OF assms(1) n])
  have "take (length d) (drop 2 s1) = aead_crypt ?k ?n d"
    using assms(4) l [of d] by (auto simp: broadcast_one_value [OF assms(1)])
  moreover have "take (length d) (drop 2 s2) = aead_crypt ?k ?n r"
    using assms(2,3,5) l [of r] send_reply_value [OF assms(1), of r ch verify]
    by (auto simp: frame_def aead_seal_def Let_def split: if_splits)
  ultimately show ?thesis
    using map2_xor_cancel [of d "aead_crypt ?k ?n (replicate (length d) 0)" r] l assms(2)
      aead_crypt_xor [OF assms(1) n, of d] aead_crypt_xor [OF assms(1) n, of r] by simp
qed

theorem broadcast_nonce_reuse_witness:
  "map2 (XOR) (take 3 (drop 2 (the (broadcast_one sample_connection [1, 2, 3]))))
     (take 3 (drop 2 (snd (the (send_reply sample_connection zero_chacha [] [7, 7, 7]))))) = [6, 5, 4]"
proof -
  have k: "length (c_accessoryToControllerKey sample_connection) = 32" by (simp add: sample_connection_def connection_init_def)
  obtain s1 where s1: "broadcast_one sample_connection [1, 2, 3] = Some s1" using broadcast_one_value [OF k] by blast
  obtain c' s2 where s2: "send_reply sample_connection zero_chacha [] [7, 7, 7] = Some (c', s2)"
    using send_reply_value [OF k, of "[7, 7, 7]" zero_chacha "[]"] by simp
  show ?thesis using broadcast_nonce_reuse [OF k _ _ s1 s2] by (simp add: s1 s2 numeral_3_eq_3)
qed

text \<open>After \<open>addNotify\<close> a connection is notified of what it was before and, if a slot was free, of the new value;
  \<open>removeNotify\<close> takes a value out; neither changes the number of slots.\<close>

theorem notify_list:
  assumes "t \<noteq> 0" "u \<noteq> 0"
  shows "(notify (addNotify c t) u \<longleftrightarrow> notify c u \<or> u = t \<and> 0 \<in> set (c_notificationList c)) \<and>
    (notify (removeNotify c t) u \<longleftrightarrow> notify c u \<and> u \<noteq> t) \<and> \<not> notify (clearNotify c) u \<and>
    length (c_notificationList (addNotify c t)) = length (c_notificationList c)"
proof -
  have "u \<in> set (add_notify ts t) \<longleftrightarrow> u \<in> set ts \<or> u = t \<and> 0 \<in> set ts" for ts
    using assms by (induction ts) auto
  moreover have "length (add_notify ts t) = length ts" for ts by (induction ts) simp_all
  ultimately show ?thesis
    using assms by (auto simp: notify_def addNotify_def removeNotify_def clearNotify_def)
qed

theorem notify_list_witness:
  "notify (addNotify connection_init 7) 7 \<and> \<not> notify (removeNotify sample_connection 7) 7"
  using notify_list [of 7 7 connection_init] notify_list [of 7 7 sample_connection]
  by (simp add: connection_init_def numberOfNotifiableValue_def)

end
