(* ===== verification/Curve_Field.thy ===== *)
theory Curve_Field
  imports Prelude
begin

text \<open>
  Personal-HomeKit-HAP/curve25519/curve25519-donna.c: the arithmetic modulo 2^255 - 19 on ten limbs of alternately 26 and
  25 bits, in arrays of signed 64-bit words. Arrays of 19 limbs hold products; only the first ten limbs of the arrays
  the callers pass around are read. \<open>s32\<close> is the cast to 32 bits and back, right shifts keep the sign.

  A limb stands for its signed value, ten limbs for the sum \<open>fe_val\<close> of the limbs times 2^0, 2^26, 2^51, 2^77, ...
  No step of the arithmetic overflows as long as the limbs keep the bounds of \<open>loose_limbs\<close> between the operations:
  a sum or difference is within \<open>double_limbs\<close>, a product of two of those within 2^62 after \<open>freduce_degree\<close>, and
  \<open>freduce_coefficients\<close> brings it back. \<open>represents B c ws\<close> says both: the bounds and the value modulo 2^255 - 19.
\<close>

section \<open>The code\<close>

type_synonym limb = "64 word"

definition s32 :: "limb \<Rightarrow> limb" where
  "s32 v = scast (ucast v :: 32 word)"

text \<open>The ten limbs from the start of an array change, the rest stays.\<close>

definition on_ten :: "(nat \<Rightarrow> limb) \<Rightarrow> limb list \<Rightarrow> limb list" where
  "on_ten f out = map f [0..<10] @ drop 10 out"

definition fsum :: "limb list \<Rightarrow> limb list \<Rightarrow> limb list" where
  "fsum out inp = on_ten (\<lambda>i. out ! i + inp ! i) out"

definition fdifference :: "limb list \<Rightarrow> limb list \<Rightarrow> limb list" where
  "fdifference out inp = on_ten (\<lambda>i. inp ! i - out ! i) out"

definition fscalar_product :: "limb list \<Rightarrow> limb list \<Rightarrow> limb \<Rightarrow> limb list" where
  "fscalar_product out inp scalar = on_ten (\<lambda>i. inp ! i * scalar) out"

text \<open>The formulas of the products; they are evaluated on words here and on integers in the proofs.\<close>

definition products :: "'a::comm_ring_1 list \<Rightarrow> 'a list \<Rightarrow> 'a list" where
  "products a b = [
     a ! 0 * b ! 0,
     a ! 0 * b ! 1 + a ! 1 * b ! 0,
     2 * a ! 1 * b ! 1 + a ! 0 * b ! 2 + a ! 2 * b ! 0,
     a ! 1 * b ! 2 + a ! 2 * b ! 1 + a ! 0 * b ! 3 + a ! 3 * b ! 0,
     a ! 2 * b ! 2 + 2 * (a ! 1 * b ! 3 + a ! 3 * b ! 1) + a ! 0 * b ! 4 + a ! 4 * b ! 0,
     a ! 2 * b ! 3 + a ! 3 * b ! 2 + a ! 1 * b ! 4 + a ! 4 * b ! 1 + a ! 0 * b ! 5 + a ! 5 * b ! 0,
     2 * (a ! 3 * b ! 3 + a ! 1 * b ! 5 + a ! 5 * b ! 1) + a ! 2 * b ! 4 + a ! 4 * b ! 2 + a ! 0 * b ! 6 + a ! 6 * b ! 0,
     a ! 3 * b ! 4 + a ! 4 * b ! 3 + a ! 2 * b ! 5 + a ! 5 * b ! 2 + a ! 1 * b ! 6 + a ! 6 * b ! 1 + a ! 0 * b ! 7 +
      a ! 7 * b ! 0,
     a ! 4 * b ! 4 + 2 * (a ! 3 * b ! 5 + a ! 5 * b ! 3 + a ! 1 * b ! 7 + a ! 7 * b ! 1) + a ! 2 * b ! 6 + a ! 6 * b ! 2 +
      a ! 0 * b ! 8 + a ! 8 * b ! 0,
     a ! 4 * b ! 5 + a ! 5 * b ! 4 + a ! 3 * b ! 6 + a ! 6 * b ! 3 + a ! 2 * b ! 7 + a ! 7 * b ! 2 + a ! 1 * b ! 8 +
      a ! 8 * b ! 1 + a ! 0 * b ! 9 + a ! 9 * b ! 0,
     2 * (a ! 5 * b ! 5 + a ! 3 * b ! 7 + a ! 7 * b ! 3 + a ! 1 * b ! 9 + a ! 9 * b ! 1) + a ! 4 * b ! 6 + a ! 6 * b ! 4 +
      a ! 2 * b ! 8 + a ! 8 * b ! 2,
     a ! 5 * b ! 6 + a ! 6 * b ! 5 + a ! 4 * b ! 7 + a ! 7 * b ! 4 + a ! 3 * b ! 8 + a ! 8 * b ! 3 + a ! 2 * b ! 9 +
      a ! 9 * b ! 2,
     a ! 6 * b ! 6 + 2 * (a ! 5 * b ! 7 + a ! 7 * b ! 5 + a ! 3 * b ! 9 + a ! 9 * b ! 3) + a ! 4 * b ! 8 + a ! 8 * b ! 4,
     a ! 6 * b ! 7 + a ! 7 * b ! 6 + a ! 5 * b ! 8 + a ! 8 * b ! 5 + a ! 4 * b ! 9 + a ! 9 * b ! 4,
     2 * (a ! 7 * b ! 7 + a ! 5 * b ! 9 + a ! 9 * b ! 5) + a ! 6 * b ! 8 + a ! 8 * b ! 6,
     a ! 7 * b ! 8 + a ! 8 * b ! 7 + a ! 6 * b ! 9 + a ! 9 * b ! 6,
     a ! 8 * b ! 8 + 2 * (a ! 7 * b ! 9 + a ! 9 * b ! 7),
     a ! 8 * b ! 9 + a ! 9 * b ! 8,
     2 * a ! 9 * b ! 9]"

definition fproduct :: "limb list \<Rightarrow> limb list \<Rightarrow> limb list" where
  "fproduct in2 inp = products (map s32 (take 10 in2)) (map s32 (take 10 inp))"

definition freduce_degree :: "limb list \<Rightarrow> limb list" where
  "freduce_degree out = fold (\<lambda>k out.
     let out = out[k := out ! k + push_bit 4 (out ! (k + 10))];
         out = out[k := out ! k + push_bit 1 (out ! (k + 10))]
     in out[k := out ! k + out ! (k + 10)]) [8, 7, 6, 5, 4, 3, 2, 1, 0] out"

definition div_by_2_26 :: "limb \<Rightarrow> limb" where
  "div_by_2_26 v =
     (let highword = ucast (drop_bit 32 v) :: 32 word;
          sign = signed_drop_bit 31 highword;
          roundoff = drop_bit 6 sign
      in signed_drop_bit 26 (v + scast roundoff))"

definition div_by_2_25 :: "limb \<Rightarrow> limb" where
  "div_by_2_25 v =
     (let highword = ucast (drop_bit 32 v) :: 32 word;
          sign = signed_drop_bit 31 highword;
          roundoff = drop_bit 7 sign
      in signed_drop_bit 25 (v + scast roundoff))"

definition div_s32_by_2_25 :: "32 word \<Rightarrow> 32 word" where
  "div_s32_by_2_25 v = (let roundoff = drop_bit 7 (signed_drop_bit 31 v) in signed_drop_bit 25 (v + roundoff))"

text \<open>One step of the carry: limb \<open>i\<close> keeps its low bits, the rest goes to the next one.\<close>

definition carry_26 :: "nat \<Rightarrow> limb list \<Rightarrow> limb list" where
  "carry_26 i out =
     (let over = div_by_2_26 (out ! i);
          out = out[i := out ! i - push_bit 26 over]
      in out[Suc i := out ! Suc i + over])"

definition carry_25 :: "nat \<Rightarrow> limb list \<Rightarrow> limb list" where
  "carry_25 i out =
     (let over = div_by_2_25 (out ! i);
          out = out[i := out ! i - push_bit 25 over]
      in out[Suc i := out ! Suc i + over])"

text \<open>The loop over the pairs of limbs, and the folding of limb 10 into limb 0: 2^255 is 19.\<close>

definition carries :: "limb list \<Rightarrow> limb list" where
  "carries out = fold (\<lambda>i out. carry_25 (Suc i) (carry_26 i out)) [0, 2, 4, 6, 8] out"

definition wrap_top :: "limb list \<Rightarrow> limb list" where
  "wrap_top out =
     (let out = out[0 := out ! 0 + push_bit 4 (out ! 10)];
          out = out[0 := out ! 0 + push_bit 1 (out ! 10)];
          out = out[0 := out ! 0 + out ! 10]
      in out[10 := 0])"

definition freduce_coefficients :: "limb list \<Rightarrow> limb list" where
  "freduce_coefficients out =
     (let out = wrap_top (carries (out[10 := 0]));
          out = carry_26 0 out;
          over32 = div_s32_by_2_25 (ucast (out ! 1));
          out = out[1 := out ! 1 - scast (push_bit 25 over32)]
      in out[2 := out ! 2 + scast over32])"

definition fmul :: "limb list \<Rightarrow> limb list \<Rightarrow> limb list" where
  "fmul inp in2 = take 10 (freduce_coefficients (freduce_degree (fproduct inp in2)))"

definition squares :: "'a::comm_ring_1 list \<Rightarrow> 'a list" where
  "squares a = [
     a ! 0 * a ! 0,
     2 * a ! 0 * a ! 1,
     2 * (a ! 1 * a ! 1 + a ! 0 * a ! 2),
     2 * (a ! 1 * a ! 2 + a ! 0 * a ! 3),
     a ! 2 * a ! 2 + 4 * a ! 1 * a ! 3 + 2 * a ! 0 * a ! 4,
     2 * (a ! 2 * a ! 3 + a ! 1 * a ! 4 + a ! 0 * a ! 5),
     2 * (a ! 3 * a ! 3 + a ! 2 * a ! 4 + a ! 0 * a ! 6 + 2 * a ! 1 * a ! 5),
     2 * (a ! 3 * a ! 4 + a ! 2 * a ! 5 + a ! 1 * a ! 6 + a ! 0 * a ! 7),
     a ! 4 * a ! 4 + 2 * (a ! 2 * a ! 6 + a ! 0 * a ! 8 + 2 * (a ! 1 * a ! 7 + a ! 3 * a ! 5)),
     2 * (a ! 4 * a ! 5 + a ! 3 * a ! 6 + a ! 2 * a ! 7 + a ! 1 * a ! 8 + a ! 0 * a ! 9),
     2 * (a ! 5 * a ! 5 + a ! 4 * a ! 6 + a ! 2 * a ! 8 + 2 * (a ! 3 * a ! 7 + a ! 1 * a ! 9)),
     2 * (a ! 5 * a ! 6 + a ! 4 * a ! 7 + a ! 3 * a ! 8 + a ! 2 * a ! 9),
     a ! 6 * a ! 6 + 2 * (a ! 4 * a ! 8 + 2 * (a ! 5 * a ! 7 + a ! 3 * a ! 9)),
     2 * (a ! 6 * a ! 7 + a ! 5 * a ! 8 + a ! 4 * a ! 9),
     2 * (a ! 7 * a ! 7 + a ! 6 * a ! 8 + 2 * a ! 5 * a ! 9),
     2 * (a ! 7 * a ! 8 + a ! 6 * a ! 9),
     a ! 8 * a ! 8 + 4 * a ! 7 * a ! 9,
     2 * a ! 8 * a ! 9,
     2 * a ! 9 * a ! 9]"

definition fsquare_inner :: "limb list \<Rightarrow> limb list" where
  "fsquare_inner inp = squares (map s32 (take 10 inp))"

definition fsquare :: "limb list \<Rightarrow> limb list" where
  "fsquare inp = take 10 (freduce_coefficients (freduce_degree (fsquare_inner inp)))"

section \<open>Values and bounds\<close>

definition bounded :: "int list \<Rightarrow> int list \<Rightarrow> bool" where
  "bounded B zs \<longleftrightarrow> length B \<le> length zs \<and> (\<forall>i < length B. \<bar>zs ! i\<bar> \<le> B ! i)"

definition limb_weight :: "nat \<Rightarrow> nat" where "limb_weight i = (51 * i + 1) div 2"

definition fval :: "nat \<Rightarrow> int list \<Rightarrow> int" where
  "fval n zs = (\<Sum>i<n. zs ! i * 2 ^ limb_weight i)"

definition p25519 :: int where "p25519 = 2 ^ 255 - 19"

lemma sint_of_int64: "\<bar>z\<bar> < 2 ^ 63 \<Longrightarrow> sint (of_int z :: limb) = z"
  by (simp add: signed_of_int signed_take_bit_int_eq_self)

lemma s32_of_int: "\<bar>z\<bar> < 2 ^ 31 \<Longrightarrow> s32 (of_int z) = of_int z"
  by (simp add: s32_def unsigned_of_int signed_of_int signed_take_bit_int_eq_self signed_take_bit_take_bit)

lemma fval_Suc: "fval (Suc n) zs = fval n zs + zs ! n * 2 ^ limb_weight n"
  by (simp add: fval_def)

lemma fval_0 [simp]: "fval 0 zs = 0"
  by (simp add: fval_def)

lemma upt_lists: "[0..<9] = [0, 1, 2, 3, 4, 5, 6, 7, 8 :: nat]" "[0..<10] = [0, 1, 2, 3, 4, 5, 6, 7, 8, 9 :: nat]"
    "[0..<19] = [0, 1, 2, 3, 4, 5, 6, 7, 8, 9, 10, 11, 12, 13, 14, 15, 16, 17, 18 :: nat]"
  by (simp_all add: upt_conv_Cons)

lemma all_less_10: "i < 10 \<Longrightarrow> i \<in> set [0, 1, 2, 3, 4, 5, 6, 7, 8, 9 :: nat]"
  unfolding upt_lists(2) [symmetric] by simp

lemma fval_list: "fval n zs = (\<Sum>i\<leftarrow>[0..<n]. zs ! i * 2 ^ limb_weight i)"
  by (simp add: fval_def interv_sum_list_conv_sum_set_nat atLeast0LessThan)

lemma fval_10: "fval 10 a = a ! 0 + 2 ^ 26 * a ! 1 + 2 ^ 51 * a ! 2 + 2 ^ 77 * a ! 3 + 2 ^ 102 * a ! 4 + 2 ^ 128 * a ! 5
   + 2 ^ 153 * a ! 6 + 2 ^ 179 * a ! 7 + 2 ^ 204 * a ! 8 + 2 ^ 230 * a ! 9"
  by (simp add: fval_list upt_lists limb_weight_def)

lemma fval_19: "fval 19 a = a ! 0 + 2 ^ 26 * a ! 1 + 2 ^ 51 * a ! 2 + 2 ^ 77 * a ! 3 + 2 ^ 102 * a ! 4 + 2 ^ 128 * a ! 5
   + 2 ^ 153 * a ! 6 + 2 ^ 179 * a ! 7 + 2 ^ 204 * a ! 8 + 2 ^ 230 * a ! 9
   + 2 ^ 255 * a ! 10 + 2 ^ 281 * a ! 11 + 2 ^ 306 * a ! 12 + 2 ^ 332 * a ! 13 + 2 ^ 357 * a ! 14 + 2 ^ 383 * a ! 15
   + 2 ^ 408 * a ! 16 + 2 ^ 434 * a ! 17 + 2 ^ 459 * a ! 18"
  by (simp add: fval_list upt_lists limb_weight_def)

lemma products_fval:
  shows "fval 19 (products a b) = fval 10 a * fval 10 b"
proof -
  show ?thesis unfolding fval_19 fval_10
    by (simp add: products_def) algebra
qed


lemma abs_add_le: "\<bar>x\<bar> \<le> X \<Longrightarrow> \<bar>y\<bar> \<le> Y \<Longrightarrow> \<bar>x + y\<bar> \<le> X + (Y :: int)"
  by linarith

lemma abs_mult_le: "\<bar>x\<bar> \<le> X \<Longrightarrow> \<bar>y\<bar> \<le> Y \<Longrightarrow> \<bar>x * y\<bar> \<le> X * (Y :: int)"
  by (simp add: abs_mult mult_mono')

lemma abs_numeral_le: "\<bar>numeral n\<bar> \<le> (numeral n :: int)"
  by simp

lemma length_products [simp]: "length (products a b) = 19"
  by (simp add: products_def)

lemma all_less_19: "(\<forall>i < 19. P i) \<longleftrightarrow> (\<forall>i \<in> set [0, 1, 2, 3, 4, 5, 6, 7, 8, 9, 10, 11, 12, 13, 14, 15, 16, 17, 18 :: nat]. P i)"
  unfolding upt_lists(3) [symmetric] by auto

lemma bnd_products:
  assumes "bounded A a" "bounded B b" "length A = 10" "length B = 10"
  shows "bounded (products A B) (products a b)"
proof -
  have a: "\<bar>a ! i\<bar> \<le> A ! i" "\<bar>b ! i\<bar> \<le> B ! i" if "i < 10" for i using assms that by (simp_all add: bounded_def)
  show ?thesis unfolding bounded_def length_products all_less_19
    by (simp add: products_def) (intro conjI abs_add_le abs_mult_le abs_numeral_le a; simp)
qed

lemma freduce_degree_eq:
  assumes "length ws = 19"
  shows "freduce_degree ws = map (\<lambda>i. ws ! i + 19 * ws ! (i + 10)) [0..<9] @ drop 9 ws"
proof -
  obtain a b c d e f g h i j k l m n p q r s t where ws: "ws = [a, b, c, d, e, f, g, h, i, j, k, l, m, n, p, q, r, s, t]"
    using assms by (auto simp: length_Suc_conv eval_nat_numeral)
  show ?thesis by (simp add: ws freduce_degree_def upt_lists Let_def push_bit_eq_mult)
qed


lemma products_of_int:
  assumes "length a = 10" "length b = 10"
  shows "products (map of_int a) (map of_int b) = map of_int (products a b :: int list)"
  using assms by (simp add: products_def)

lemma squares_products: "squares a = products a a"
  by (simp add: squares_def products_def algebra_simps)

section \<open>The carries\<close>

lemma sint_plus: "\<bar>sint a + sint b\<bar> < 2 ^ 63 \<Longrightarrow> sint (a + b :: limb) = sint a + sint b"
  by (simp add: sint_word_ariths signed_take_bit_int_eq_self)

lemma sint_minus: "\<bar>sint a - sint b\<bar> < 2 ^ 63 \<Longrightarrow> sint (a - b :: limb) = sint a - sint b"
  by (simp add: sint_word_ariths signed_take_bit_int_eq_self)

lemma sign_word: "signed_drop_bit 31 (ucast (drop_bit 32 (v :: limb)) :: 32 word) = (if sint v < 0 then -1 else 0)"
proof -
  have "bit v 63 \<longleftrightarrow> sint v < 0" using bit_last_iff [of v] by simp
  then show ?thesis
    by (intro bit_word_eqI) (auto simp: bit_signed_drop_bit_iff bit_simps numeral_eq_Suc not_less_eq less_Suc_eq)
qed

definition tquot :: "nat \<Rightarrow> int \<Rightarrow> int" where
  "tquot k v = (v + (if v < 0 then 2 ^ k - 1 else 0)) div 2 ^ k"

lemma tquot_rest: "\<bar>v - 2 ^ k * tquot k v\<bar> \<le> 2 ^ k - 1"
  using pos_mod_bound [of "2 ^ k" v] pos_mod_bound [of "2 ^ k" "v + (2 ^ k - 1)"] pos_mod_sign [of "2 ^ k" v] pos_mod_sign [of "2 ^ k" "v + (2 ^ k - 1)"]
  by (auto simp: tquot_def minus_mult_div_eq_mod minus_div_mult_eq_mod [symmetric] algebra_simps simp flip: minus_mult_div_eq_mod)

lemma tquot_abs: "\<bar>tquot k v\<bar> \<le> \<bar>v\<bar> div 2 ^ k"
proof (cases "v < 0")
  case True
  have "(v + (2 ^ k - 1)) div 2 ^ k = - ((- v) div 2 ^ k)"
  proof -
    have "v + (2 ^ k - 1) = (2 ^ k - 1 - (- v) mod 2 ^ k) + 2 ^ k * - ((- v) div 2 ^ k)"
      using mult_div_mod_eq [of "2 ^ k" "- v"] by (simp only: mult_minus_right)
    then have "(v + (2 ^ k - 1)) div 2 ^ k = - ((- v) div 2 ^ k) + (2 ^ k - 1 - (- v) mod 2 ^ k) div 2 ^ k"
      by (simp only:) (rule div_mult_self2, simp)
    moreover have "(2 ^ k - 1 - (- v) mod 2 ^ k) div 2 ^ k = 0"
    proof -
      have "0 \<le> (- v) mod 2 ^ k" "(- v) mod 2 ^ k < 2 ^ k" by simp_all
      then show ?thesis by (intro div_pos_pos_trivial) linarith+
    qed
    ultimately show ?thesis by simp
  qed
  then show ?thesis using True by (simp add: tquot_def pos_imp_zdiv_nonneg_iff)
next
  case False
  then show ?thesis by (simp add: tquot_def pos_imp_zdiv_nonneg_iff)
qed

lemma sint_div_26:
  assumes "\<bar>sint v\<bar> < 2 ^ 63 - 2 ^ 26"
  shows "sint (div_by_2_26 v) = tquot 26 (sint v)"
proof -
  have m: "scast (mask 26 :: 32 word) = (0x3ffffff :: limb)" by (simp add: mask_eq_exp_minus_1)
  show ?thesis using assms
    by (simp add: div_by_2_26_def Let_def sign_word sint_signed_drop_bit_eq sint_plus m drop_bit_eq_div [where 'a = int] tquot_def)
qed

lemma sint_div_25:
  assumes "\<bar>sint v\<bar> < 2 ^ 63 - 2 ^ 26"
  shows "sint (div_by_2_25 v) = tquot 25 (sint v)"
proof -
  have m: "scast (mask 25 :: 32 word) = (0x1ffffff :: limb)" by (simp add: mask_eq_exp_minus_1)
  show ?thesis using assms
    by (simp add: div_by_2_25_def Let_def sign_word sint_signed_drop_bit_eq sint_plus m drop_bit_eq_div [where 'a = int] tquot_def)
qed


abbreviation ints :: "limb list \<Rightarrow> int list" where "ints ws \<equiv> map sint ws"

definition carried :: "int list \<Rightarrow> limb list \<Rightarrow> int \<Rightarrow> bool" where
  "carried B ws V \<longleftrightarrow> length B = 11 \<and> bounded B (ints ws) \<and> fval 11 (ints ws) = V"

definition carry_bound :: "nat \<Rightarrow> nat \<Rightarrow> int list \<Rightarrow> int list" where
  "carry_bound k i B = B[i := 2 ^ k - 1, Suc i := B ! Suc i + B ! i div 2 ^ k]"

lemma fval_update:
  assumes "i < n" "n \<le> length zs"
  shows "fval n (zs[i := z]) = fval n zs + (z - zs ! i) * 2 ^ limb_weight i"
proof -
  have "fval n (zs[i := z]) - fval n zs = (\<Sum>j<n. if j = i then (z - zs ! i) * 2 ^ limb_weight i else 0)"
    unfolding fval_def sum_subtractf [symmetric] using assms by (intro sum.cong) (auto simp: nth_list_update algebra_simps)
  then show ?thesis using assms by simp
qed

lemma bnd_update:
  assumes "bounded B zs" "i < length B" "\<bar>z\<bar> \<le> b"
  shows "bounded (B[i := b]) (zs[i := z])"
  using assms by (auto simp: bounded_def nth_list_update)

lemma carry_words:
  assumes "bounded B (ints ws)" "length B = 11" "i < 10" "limb_weight (Suc i) = limb_weight i + k" "B ! Suc i + B ! i div 2 ^ k < 2 ^ 63"
    and q: "sint q = tquot k (sint (ws ! i))" and k: "k < 63"
  shows "carried (carry_bound k i B) (ws[i := ws ! i - push_bit k q, Suc i := ws ! Suc i + q]) (fval 11 (ints ws))"
proof -
  define v where "v = sint (ws ! i)"
  have l: "11 \<le> length ws" "\<bar>v\<bar> \<le> B ! i" "\<bar>sint (ws ! Suc i)\<bar> \<le> B ! Suc i" using assms by (auto simp: bounded_def v_def)
  have t: "\<bar>tquot k v\<bar> \<le> B ! i div 2 ^ k"
    using tquot_abs [of k v] zdiv_mono1 [OF l(2), of "2 ^ k"] by simp
  have r: "\<bar>v - 2 ^ k * tquot k v\<bar> \<le> 2 ^ k - 1" by (rule tquot_rest)
  have K: "(2::int) ^ k < 2 ^ 63" using k by (rule power_strict_increasing) simp
  have "ws ! i - push_bit k q = of_int (v - 2 ^ k * tquot k v)"
    by (simp add: push_bit_eq_mult v_def flip: q)
  then have a: "sint (ws ! i - push_bit k q) = v - 2 ^ k * tquot k v"
    using sint_of_int64 [of "v - 2 ^ k * tquot k v"] r K by simp
  have b: "sint (ws ! Suc i + q) = sint (ws ! Suc i) + tquot k v"
    using q t l(3) assms(5) by (subst sint_plus) (auto simp: v_def)
  have "bounded (carry_bound k i B) (ints (ws[i := ws ! i - push_bit k q, Suc i := ws ! Suc i + q]))"
    unfolding carry_bound_def map_update using assms(1-3) l r t a b
    by (intro bnd_update) auto
  moreover have "fval 11 (ints (ws[i := ws ! i - push_bit k q, Suc i := ws ! Suc i + q])) = fval 11 (ints ws)"
    using l(1) assms(3,4) unfolding map_update a b by (simp add: fval_update v_def [symmetric] power_add algebra_simps)
  ultimately show ?thesis using assms(2) by (simp add: carried_def carry_bound_def)
qed


lemma carry_26_car:
  assumes "carried B ws V" "i < 10" "limb_weight (Suc i) = limb_weight i + 26" "B ! i < 2 ^ 63 - 2 ^ 26" "B ! Suc i + B ! i div 2 ^ 26 < 2 ^ 63"
  shows "carried (carry_bound 26 i B) (carry_26 i ws) V"
proof -
  have "\<bar>sint (ws ! i)\<bar> \<le> B ! i" using assms(1,2) by (auto simp: carried_def bounded_def)
  then have "sint (div_by_2_26 (ws ! i)) = tquot 26 (sint (ws ! i))" using assms(4) by (intro sint_div_26) simp
  from carry_words [OF _ _ assms(2,3,5) this] show ?thesis using assms(1) by (auto simp: carried_def carry_26_def Let_def)
qed

lemma carry_25_car:
  assumes "carried B ws V" "i < 10" "limb_weight (Suc i) = limb_weight i + 25" "B ! i < 2 ^ 63 - 2 ^ 26" "B ! Suc i + B ! i div 2 ^ 25 < 2 ^ 63"
  shows "carried (carry_bound 25 i B) (carry_25 i ws) V"
proof -
  have "\<bar>sint (ws ! i)\<bar> \<le> B ! i" using assms(1,2) by (auto simp: carried_def bounded_def)
  then have "sint (div_by_2_25 (ws ! i)) = tquot 25 (sint (ws ! i))" using assms(4) by (intro sint_div_25) simp
  from carry_words [OF _ _ assms(2,3,5) this] show ?thesis using assms(1) by (auto simp: carried_def carry_25_def Let_def)
qed


lemma carry_pair_car:
  assumes "carried B ws V" "i \<in> {0, 2, 4, 6, 8}" "B ! i < 2 ^ 63 - 2 ^ 26" "B ! Suc i + B ! i div 2 ^ 26 < 2 ^ 63 - 2 ^ 26"
    "B ! Suc (Suc i) + (B ! Suc i + B ! i div 2 ^ 26) div 2 ^ 25 < 2 ^ 63"
  shows "carried (carry_bound 25 (Suc i) (carry_bound 26 i B)) (carry_25 (Suc i) (carry_26 i ws)) V"
proof -
  have l: "length B = 11" "i < 9" using assms(1,2) by (auto simp: carried_def)
  from assms have "carried (carry_bound 26 i B) (carry_26 i ws) V"
    by (intro carry_26_car) (auto simp: limb_weight_def)
  then show ?thesis using assms l by (intro carry_25_car) (auto simp: limb_weight_def carry_bound_def)
qed

lemma carries_car:
  assumes "carried [2 ^ 62, 2 ^ 62, 2 ^ 62, 2 ^ 62, 2 ^ 62, 2 ^ 62, 2 ^ 62, 2 ^ 62, 2 ^ 62, 2 ^ 62, 0] ws V"
  shows "carried [67108863,33554431,67108863,33554431,67108863,33554431,67108863,33554431,67108863,33554431,137438955520] (carries ws) V"
proof -
  have s: "carried C (carry_25 (Suc i) (carry_26 i ws)) V"
    if "carried B ws V" "i \<in> {0, 2, 4, 6, 8}" "B ! i < 2 ^ 63 - 2 ^ 26" "B ! Suc i + B ! i div 2 ^ 26 < 2 ^ 63 - 2 ^ 26"
     "B ! Suc (Suc i) + (B ! Suc i + B ! i div 2 ^ 26) div 2 ^ 25 < 2 ^ 63" "C = carry_bound 25 (Suc i) (carry_bound 26 i B)" for B C ws i
    using carry_pair_car [OF that(1-5)] that(6) by simp
  note c0 = s [OF assms, where i = 0, simplified carry_bound_def, simplified]
  note c2 = s [OF c0 [OF refl], where i = 2, simplified carry_bound_def, simplified]
  note c4 = s [OF c2 [OF refl], where i = 4, simplified carry_bound_def, simplified]
  note c6 = s [OF c4 [OF refl], where i = 6, simplified carry_bound_def, simplified]
  note c8 = s [OF c6 [OF refl], where i = 8, simplified carry_bound_def, simplified]
  show ?thesis using c8 [OF refl] by (simp add: carries_def)
qed


lemma length_carry [simp]: "length (carry_26 i ws) = length ws" "length (carry_25 i ws) = length ws"
  by (simp_all add: carry_26_def carry_25_def Let_def)

lemma length_carries [simp]: "length (carries ws) = length ws"
  by (simp add: carries_def)

lemma wrap_top_eq: "11 \<le> length ws \<Longrightarrow> wrap_top ws = ws[0 := ws ! 0 + 19 * ws ! 10, 10 := 0]"
  by (cases ws) (auto simp: wrap_top_def Let_def push_bit_eq_mult add.commute)

lemma length_wrap_top [simp]: "length (wrap_top ws) = length ws"
  by (simp add: wrap_top_def Let_def)

lemma wrap_car:
  assumes "carried B ws V" "B ! 0 + 19 * B ! 10 < 2 ^ 63"
  shows "carried (B[0 := B ! 0 + 19 * B ! 10, 10 := 0]) (wrap_top ws) (V - p25519 * sint (ws ! 10))"
proof -
  have l: "length B = 11" "11 \<le> length ws" "\<bar>sint (ws ! 0)\<bar> \<le> B ! 0" "\<bar>sint (ws ! 10)\<bar> \<le> B ! 10"
    using assms(1) by (auto simp: carried_def bounded_def)
  have n: "ints ws ! 0 = sint (ws ! 0)" "ints ws ! 10 = sint (ws ! 10)" using l(2) by (auto intro: nth_map)
  have m: "\<bar>sint (ws ! 0) + 19 * sint (ws ! 10)\<bar> \<le> B ! 0 + 19 * B ! 10" using l(3,4) by linarith
  have "ws ! 0 + 19 * ws ! 10 = of_int (sint (ws ! 0) + 19 * sint (ws ! 10))" by simp
  then have a: "sint (ws ! 0 + 19 * ws ! 10) = sint (ws ! 0) + 19 * sint (ws ! 10)"
    using sint_of_int64 [of "sint (ws ! 0) + 19 * sint (ws ! 10)"] m assms(2) by simp
  have "bounded (B[0 := B ! 0 + 19 * B ! 10, 10 := 0]) (ints (ws[0 := ws ! 0 + 19 * ws ! 10, 10 := 0]))"
    unfolding map_update a using l m assms(1) by (intro bnd_update) (auto simp: carried_def)
  moreover have "fval 11 (ints (ws[0 := ws ! 0 + 19 * ws ! 10, 10 := 0])) = V - p25519 * sint (ws ! 10)"
    unfolding map_update a using l n assms(1) by (simp add: fval_update carried_def limb_weight_def p25519_def algebra_simps)
  ultimately show ?thesis using l by (simp add: carried_def wrap_top_eq)
qed

lemma sint_of_int32: "\<bar>z\<bar> < 2 ^ 31 \<Longrightarrow> sint (of_int z :: 32 word) = z"
  by (simp add: signed_of_int signed_take_bit_int_eq_self)

lemma ucast_scast: "(ucast (v :: limb) :: 32 word) = scast v"
  by (subst down_cast_same) (simp_all add: is_down)

lemma sint_ucast32: "\<bar>sint (v :: limb)\<bar> < 2 ^ 31 \<Longrightarrow> sint (ucast v :: 32 word) = sint v"
proof -
  assume a: "\<bar>sint v\<bar> < 2 ^ 31"
  have "(ucast v :: 32 word) = of_int (sint v)" by (subst down_cast_same) (simp_all add: is_down)
  then show ?thesis using sint_of_int32 [OF a] by simp
qed

lemma sign_32: "signed_drop_bit 31 (v :: 32 word) = (if sint v < 0 then -1 else 0)"
proof -
  have "bit v 31 \<longleftrightarrow> sint v < 0" using bit_last_iff [of v] by simp
  then show ?thesis
    by (intro bit_word_eqI) (auto simp: bit_signed_drop_bit_iff bit_simps numeral_eq_Suc not_less_eq less_Suc_eq)
qed

lemma sint_div_s32:
  assumes "\<bar>sint (w :: limb)\<bar> < 2 ^ 31 - 2 ^ 25"
  shows "sint (div_s32_by_2_25 (ucast w)) = tquot 25 (sint w)"
proof -
  have c: "sint (ucast w :: 32 word) = sint w" by (rule sint_ucast32) (use assms in simp)
  have m: "mask 25 = (0x1ffffff :: 32 word)" by (simp add: mask_eq_exp_minus_1)
  have add: "sint (u + v) = sint u + sint v" if "\<bar>sint u + sint v\<bar> < 2 ^ 31" for u v :: "32 word"
    using that by (simp add: sint_word_ariths signed_take_bit_int_eq_self)
  show ?thesis using assms
    by (simp add: div_s32_by_2_25_def Let_def sign_32 c add m sint_signed_drop_bit_eq drop_bit_eq_div [where 'a = int] tquot_def)
qed

lemma scast_push:
  assumes "\<bar>sint q\<bar> < 64"
  shows "scast (push_bit 25 q :: 32 word) = push_bit 25 (scast q :: limb)"
proof -
  have "push_bit 25 q = of_int (2 ^ 25 * sint q)" by (simp add: push_bit_eq_mult)
  then have "sint (push_bit 25 q) = 2 ^ 25 * sint q" using assms sint_of_int32 [of "2 ^ 25 * sint q"] by (simp only:) simp
  moreover have "scast (push_bit 25 q) = (of_int (sint (push_bit 25 q)) :: limb)" by simp
  moreover have "push_bit 25 (scast q :: limb) = of_int (2 ^ 25 * sint q)" by (simp add: push_bit_eq_mult)
  ultimately show ?thesis by simp
qed


lemma carry_s32_car:
  assumes "carried B ws V" "B ! 1 < 2 ^ 31 - 2 ^ 25" "B ! 2 + B ! 1 div 2 ^ 25 < 2 ^ 63"
    and q: "q = div_s32_by_2_25 (ucast (ws ! 1))"
  shows "carried (carry_bound 25 1 B) (ws[1 := ws ! 1 - scast (push_bit 25 q), 2 := ws ! 2 + scast q]) V"
proof -
  have b: "\<bar>sint (ws ! 1)\<bar> \<le> B ! 1" using assms(1) by (auto simp: carried_def bounded_def)
  then have s: "sint q = tquot 25 (sint (ws ! 1))" using assms(2) unfolding q by (intro sint_div_s32) simp
  then have "sint (scast q :: limb) = tquot 25 (sint (ws ! 1))" using sint_up_scast [where 'a = 32 and 'b = 64] by (simp add: is_up)
  note c = carry_words [of B ws 1 25, OF _ _ _ _ _ this]
  have "\<bar>sint q\<bar> < 64" using s tquot_abs [of 25 "sint (ws ! 1)"] b assms(2) by simp
  then have "scast (push_bit 25 q) = push_bit 25 (scast q :: limb)" by (rule scast_push)
  moreover have "limb_weight (Suc 1) = limb_weight 1 + 25" by (simp add: limb_weight_def)
  ultimately show ?thesis using c assms(1,3) by (simp only: carried_def) (simp add: numeral_2_eq_2)
qed

definition fe_val :: "limb list \<Rightarrow> int" where
  "fe_val ws = fval 10 (ints ws)"

lemma finish_car:
  assumes "carried B (carries (ws[10 := 0])) V" "B ! 0 + 19 * B ! 10 < 2 ^ 62"
    "B ! 1 + (B ! 0 + 19 * B ! 10) div 2 ^ 26 < 2 ^ 31 - 2 ^ 25" "B ! 2 < 2 ^ 62"
  shows "\<exists>k. carried (carry_bound 25 1 (carry_bound 26 0 (B[0 := B ! 0 + 19 * B ! 10, 10 := 0]))) (freduce_coefficients ws) (V + p25519 * k)"
proof -
  let ?v = "carries (ws[10 := 0])"
  have l: "length B = 11" using assms(1) by (simp add: carried_def)
  have "B \<noteq> []" using l by auto
  then have B: "(B[0 := B ! 0 + 19 * B ! 10, 10 := 0]) ! 0 = B ! 0 + 19 * B ! 10" "(B[0 := B ! 0 + 19 * B ! 10, 10 := 0]) ! 1 = B ! 1"
    "(B[0 := B ! 0 + 19 * B ! 10, 10 := 0]) ! 2 = B ! 2" using l by simp_all
  have w: "carried (B[0 := B ! 0 + 19 * B ! 10, 10 := 0]) (wrap_top ?v) (V - p25519 * sint (?v ! 10))"
    using assms by (intro wrap_car) auto
  have c: "carried (carry_bound 26 0 (B[0 := B ! 0 + 19 * B ! 10, 10 := 0])) (carry_26 0 (wrap_top ?v)) (V - p25519 * sint (?v ! 10))"
    using assms B by (intro carry_26_car [OF w]) (simp_all add: limb_weight_def)
  have "carried (carry_bound 25 1 (carry_bound 26 0 (B[0 := B ! 0 + 19 * B ! 10, 10 := 0]))) (freduce_coefficients ws) (V - p25519 * sint (?v ! 10))"
    using carry_s32_car [OF c _ _ refl] assms B l by (simp add: carry_bound_def freduce_coefficients_def Let_def)
  moreover have "V - p25519 * z = V + p25519 * (- z)" for z by simp
  ultimately show ?thesis by metis
qed

lemma top_input:
  assumes "11 \<le> length ws" "length B = 10" "\<And>i. i < 10 \<Longrightarrow> \<bar>sint (ws ! i)\<bar> \<le> B ! i"
  shows "carried (B @ [0]) (ws[10 := 0]) (fe_val ws)"
proof -
  have "fval 11 (ints (ws[10 := 0])) = fval (Suc 10) ((ints ws)[10 := 0])" by (simp add: map_update)
  also have "\<dots> = fval 10 ((ints ws)[10 := 0])" using assms(1) by (simp only: fval_Suc) simp
  also have "\<dots> = fe_val ws" using assms(1) by (simp add: fe_val_def fval_list upt_lists)
  finally show ?thesis
    using assms by (auto simp: carried_def bounded_def nth_list_update nth_append less_Suc_eq)
qed

definition reduced_limbs :: "int list" where
  "reduced_limbs = [67108863, 33554431, 67108864, 33554431, 67108863, 33554431, 67108863, 33554431, 67108863, 33554431]"

lemma freduce_coefficients_car:
  assumes "11 \<le> length ws" "\<forall>i < 10. \<bar>sint (ws ! i)\<bar> \<le> 2 ^ 62"
  shows "\<exists>k. carried (reduced_limbs @ [0]) (freduce_coefficients ws) (fe_val ws + p25519 * k)"
proof -
  have "carried (replicate 10 (2 ^ 62) @ [0]) (ws[10 := 0]) (fe_val ws)" using assms by (intro top_input) simp_all
  then have "carried [2 ^ 62, 2 ^ 62, 2 ^ 62, 2 ^ 62, 2 ^ 62, 2 ^ 62, 2 ^ 62, 2 ^ 62, 2 ^ 62, 2 ^ 62, 0] (ws[10 := 0]) (fe_val ws)"
    by (simp add: numeral_eq_Suc)
  from finish_car [OF carries_car [OF this]] show ?thesis by (simp add: carry_bound_def reduced_limbs_def)
qed

lemma length_freduce_coefficients [simp]: "length (freduce_coefficients ws) = length ws"
  by (simp add: freduce_coefficients_def Let_def)

definition limb_width :: "nat \<Rightarrow> nat" where
  "limb_width i = (if i mod 2 = 1 then 25 else 26)"

definition full_limbs :: "int list" where
  "full_limbs = [67108863, 33554431, 67108863, 33554431, 67108863, 33554431, 67108863, 33554431, 67108863, 33554431]"

lemma full_width: "i < 10 \<Longrightarrow> full_limbs ! i = 2 ^ limb_width i - 1" "length full_limbs = 10"
  by (auto simp: full_limbs_def limb_width_def dest!: all_less_10)

section \<open>The product\<close>

definition limbs_within :: "int list \<Rightarrow> limb list \<Rightarrow> bool" where
  "limbs_within B ws \<longleftrightarrow> length B = 10 \<and> bounded B (ints ws)"

definition fits :: "int list \<Rightarrow> int list \<Rightarrow> bool" where
  "fits A B \<longleftrightarrow> list_all (\<lambda>b. b < 2 ^ 31) A \<and> list_all (\<lambda>b. b < 2 ^ 31) B \<and>
     (let M = products A B in list_all (\<lambda>i. M ! i + 19 * M ! (i + 10) \<le> 2 ^ 62) [0..<9] \<and> M ! 9 \<le> 2 ^ 62)"

lemma within_nth: "limbs_within B ws \<Longrightarrow> i < 10 \<Longrightarrow> \<bar>sint (ws ! i)\<bar> \<le> B ! i"
  by (auto simp: limbs_within_def bounded_def)

lemma within_length: "limbs_within B ws \<Longrightarrow> 10 \<le> length ws"
  by (auto simp: limbs_within_def bounded_def)

lemma bnd_appendD: "bounded (A @ B) zs \<Longrightarrow> bounded A zs"
  unfolding bounded_def by (metis length_append nth_append trans_less_add1 add_leD1)

lemma car_within:
  assumes "carried (B @ [0]) ws V"
  shows "limbs_within B ws \<and> fe_val ws = V"
proof -
  have "11 \<le> length ws" "\<bar>ints ws ! 10\<bar> \<le> (B @ [0]) ! 10" "length B = 10" using assms by (auto simp: carried_def bounded_def)
  then have "ints ws ! 10 = 0" by (simp add: nth_append)
  then have "fval (Suc 10) (ints ws) = fval 10 (ints ws)" by (simp only: fval_Suc)
  then show ?thesis using assms by (auto simp: carried_def limbs_within_def fe_val_def dest: bnd_appendD)
qed

lemma map_s32:
  assumes "limbs_within A a" "list_all (\<lambda>b. b < 2 ^ 31) A"
  shows "map s32 (take 10 a) = map of_int (ints (take 10 a))"
proof -
  have "s32 (a ! i) = of_int (sint (a ! i))" if "i < 10" for i
    using within_nth [OF assms(1) that] assms that s32_of_int [of "sint (a ! i)"] by (auto simp: limbs_within_def list_all_length)
  then show ?thesis using within_length [OF assms(1)] by (intro nth_equalityI) (simp_all del: of_int_sint)
qed

lemma within_take: "limbs_within A a \<Longrightarrow> bounded A (ints (take 10 a))"
  by (auto simp: limbs_within_def bounded_def)

lemma fe_take: "10 \<le> length a \<Longrightarrow> fval 10 (ints (take 10 a)) = fe_val a"
  unfolding fe_val_def fval_def by (intro sum.cong) simp_all

lemma degree_fold:
  assumes "length M = 19"
  shows "fval 10 (map (\<lambda>i. M ! i + 19 * M ! (i + 10)) [0..<9] @ drop 9 M) mod p25519 = fval 19 M mod p25519"
proof -
  have "fval 19 M = fval 10 (map (\<lambda>i. M ! i + 19 * M ! (i + 10)) [0..<9] @ drop 9 M) + p25519 *
     (M ! 10 + 2 ^ 26 * M ! 11 + 2 ^ 51 * M ! 12 + 2 ^ 77 * M ! 13 + 2 ^ 102 * M ! 14 + 2 ^ 128 * M ! 15
   + 2 ^ 153 * M ! 16 + 2 ^ 179 * M ! 17 + 2 ^ 204 * M ! 18)"
    using assms by (simp add: fval_10 fval_19 upt_lists nth_append p25519_def)
  then show ?thesis by simp
qed

lemma product_ok:
  assumes "limbs_within A a" "limbs_within B b" "fits A B"
  shows "limbs_within reduced_limbs (freduce_coefficients (freduce_degree (fproduct a b)))"
    and "fe_val (freduce_coefficients (freduce_degree (fproduct a b))) mod p25519 = fe_val a * fe_val b mod p25519"
    and "length (freduce_coefficients (freduce_degree (fproduct a b))) = 19"
proof -
  define M where "M = products (ints (take 10 a)) (ints (take 10 b))"
  define Z where "Z = map (\<lambda>i. M ! i + 19 * M ! (i + 10)) [0..<9] @ drop 9 M"
  have l: "length A = 10" "length B = 10" "10 \<le> length a" "10 \<le> length b" using assms by (auto simp: limbs_within_def bounded_def)
  have "list_all (\<lambda>b. b < 2 ^ 31) A" "list_all (\<lambda>b. b < 2 ^ 31) B" using assms(3) by (simp_all add: fits_def)
  note m = map_s32 [OF assms(1) this(1)] map_s32 [OF assms(2) this(2)]
  have s: "fproduct a b = map of_int M"
    unfolding fproduct_def M_def m by (rule products_of_int) (simp_all add: l)
  have d: "freduce_degree (fproduct a b) = map of_int Z"
    by (subst freduce_degree_eq) (simp_all add: s M_def Z_def drop_map)
  have b: "bounded (products A B) M" unfolding M_def using assms l by (intro bnd_products within_take)
  have Z: "\<bar>Z ! i\<bar> \<le> 2 ^ 62" if "i < 10" for i
  proof (cases "i < 9")
    case True
    have "\<bar>M ! i\<bar> \<le> products A B ! i" "\<bar>M ! (i + 10)\<bar> \<le> products A B ! (i + 10)" using b True by (auto simp: bounded_def)
    moreover have "products A B ! i + 19 * products A B ! (i + 10) \<le> 2 ^ 62"
      using assms(3) True by (auto simp: fits_def list_all_length Let_def)
    ultimately show ?thesis using True by (simp add: Z_def nth_append)
  next
    case False
    then have "i = 9" using that by simp
    moreover have "\<bar>M ! 9\<bar> \<le> products A B ! 9" using b by (auto simp: bounded_def)
    ultimately show ?thesis using assms(3) by (simp add: Z_def nth_append M_def fits_def Let_def)
  qed
  have lz: "length Z = 19" by (simp add: Z_def M_def)
  have i: "sint ((map of_int Z :: limb list) ! i) = Z ! i" if "i < 10" for i
    using Z [OF that] that lz by (simp add: sint_of_int64)
  have f: "fval 10 (ints (map of_int Z)) = fval 10 Z"
    unfolding fval_def using i lz by (intro sum.cong) simp_all
  obtain k where k: "carried (reduced_limbs @ [0]) (freduce_coefficients (map of_int Z)) (fval 10 Z + p25519 * k)"
    using freduce_coefficients_car [of "map of_int Z"] i Z lz f by (auto simp: fe_val_def)
  from car_within [OF k] have r: "limbs_within reduced_limbs (freduce_coefficients (map of_int Z))"
    "fe_val (freduce_coefficients (map of_int Z)) = fval 10 Z + p25519 * k" by blast+
  show "limbs_within reduced_limbs (freduce_coefficients (freduce_degree (fproduct a b)))" using r(1) unfolding d .
  from r(2) show "fe_val (freduce_coefficients (freduce_degree (fproduct a b))) mod p25519 = fe_val a * fe_val b mod p25519"
    unfolding d using degree_fold [of M] l by (simp add: Z_def M_def products_fval fe_take)
  show "length (freduce_coefficients (freduce_degree (fproduct a b))) = 19"
    unfolding d using lz by simp
qed

section \<open>Carrying once more\<close>

text \<open>A second \<open>freduce_coefficients\<close> brings limb 2, the only one that may be 2^26, below it: the carries that start there
  leave it zero.\<close>

lemma small_quot: "\<bar>x\<bar> < 2 ^ k \<Longrightarrow> tquot k x = 0"
proof -
  assume "\<bar>x\<bar> < 2 ^ k"
  then have "\<bar>tquot k x\<bar> \<le> 0" using tquot_abs [of k x] by simp
  then show ?thesis by simp
qed

lemma carry_id: "\<bar>sint (ws ! i)\<bar> < 2 ^ 26 \<Longrightarrow> carry_26 i ws = ws" "\<bar>sint (ws ! i)\<bar> < 2 ^ 25 \<Longrightarrow> carry_25 i ws = ws"
proof -
  assume a: "\<bar>sint (ws ! i)\<bar> < 2 ^ 26"
  then have "sint (div_by_2_26 (ws ! i)) = 0" using sint_div_26 [of "ws ! i"] small_quot [OF a] by simp
  then show "carry_26 i ws = ws" by (simp only: signed_eq_0_iff) (simp add: carry_26_def)
next
  assume a: "\<bar>sint (ws ! i)\<bar> < 2 ^ 25"
  then have "sint (div_by_2_25 (ws ! i)) = 0" using sint_div_25 [of "ws ! i"] small_quot [OF a] by simp
  then show "carry_25 i ws = ws" by (simp only: signed_eq_0_iff) (simp add: carry_25_def)
qed

lemma car_clear:
  assumes "carried B ws V" "i < 11" "sint (ws ! i) = 0"
  shows "carried (B[i := 0]) ws V"
  using assms by (auto simp: carried_def bounded_def nth_list_update)

lemma car_weaken: "carried B ws V \<Longrightarrow> list_all2 (\<le>) B C \<Longrightarrow> carried C ws V"
  unfolding carried_def bounded_def list_all2_conv_all_nth by (metis order_trans)

lemma freduce_again:
  assumes "limbs_within reduced_limbs ws" "11 \<le> length ws"
  shows "\<exists>k. carried (full_limbs @ [0]) (freduce_coefficients ws) (fe_val ws + p25519 * k)"
proof (cases "\<bar>sint (ws ! 2)\<bar> < 2 ^ 26")
  case True
  have f: "\<bar>sint (ws ! i)\<bar> \<le> full_limbs ! i" if "i < 10" for i
    using within_nth [OF assms(1) that] all_less_10 [OF that] True by (auto simp: full_limbs_def reduced_limbs_def)
  then have c: "carried (full_limbs @ [0]) (ws[10 := 0]) (fe_val ws)" using assms(2) by (intro top_input full_width(2))
  have "carries (ws[10 := 0]) = ws[10 := 0]" 
    using f [of 0] f [of 1] f [of 2] f [of 3] f [of 4] f [of 5] f [of 6] f [of 7] f [of 8] f [of 9]
    by (simp add: carries_def carry_id full_limbs_def)
  then show ?thesis using finish_car [of "full_limbs @ [0]" ws "fe_val ws"] c by (simp add: full_limbs_def carry_bound_def)
next
  case False
  have w: "\<bar>sint (ws ! i)\<bar> \<le> reduced_limbs ! i" if "i < 10" for i by (rule within_nth [OF assms(1) that])
  have 2: "\<bar>sint (ws ! 2)\<bar> = 2 ^ 26" using w [of 2] False by (simp add: reduced_limbs_def)
  define u where "u = ws[10 := 0]"
  have u: "sint (u ! 0) = sint (ws ! 0)" "sint (u ! 1) = sint (ws ! 1)" "sint (u ! 2) = sint (ws ! 2)" by (simp_all add: u_def)
  have i: "carry_25 (Suc 0) (carry_26 0 u) = u" using w [of 0] w [of 1] u(1,2) by (simp add: carry_id reduced_limbs_def)
  have c: "carried (reduced_limbs @ [0]) u (fe_val ws)" unfolding u_def using w assms(2) by (intro top_input) (simp_all add: reduced_limbs_def)
  define v where "v = carry_26 2 u"
  have "sint (div_by_2_26 (u ! 2)) = tquot 26 (sint (u ! 2))" using 2 u(3) by (intro sint_div_26) simp
  moreover have "2 ^ 26 * tquot 26 (sint (u ! 2)) = sint (u ! 2)" 
  proof -
    have "sint (u ! 2) = 67108864 \<or> sint (u ! 2) = - 67108864" using 2 u(3) by (simp add: abs_if split: if_splits)
    then show ?thesis by (auto simp: tquot_def)
  qed
  moreover have "u ! 2 - push_bit 26 q = of_int (sint (u ! 2) - 2 ^ 26 * sint q)" for q :: limb by (simp add: push_bit_eq_mult)
  ultimately have "u ! 2 - push_bit 26 (div_by_2_26 (u ! 2)) = 0" by (simp only:) simp
  then have v2: "sint (v ! 2) = 0" using assms(2) by (simp add: v_def carry_26_def Let_def u_def nth_list_update)
  have cv: "carried (carry_bound 26 2 (reduced_limbs @ [0])) v (fe_val ws)" unfolding v_def by (rule carry_26_car [OF c]) (simp_all add: limb_weight_def reduced_limbs_def)
  from car_clear [OF cv _ v2]
  have "carried [67108863, 33554431, 0, 33554432, 67108863, 33554431, 67108863, 33554431, 67108863, 33554431, 0] v (fe_val ws)"
    by (simp add: carry_bound_def reduced_limbs_def)
  from carry_25_car [OF this, of 3]
  have c3: "carried [67108863, 33554431, 0, 33554431, 67108864, 33554431, 67108863, 33554431, 67108863, 33554431, 0] (carry_25 3 v) (fe_val ws)"
    by (simp add: carry_bound_def limb_weight_def)
  note p = carry_pair_car [simplified carry_bound_def]
  from p [OF c3, of 4]
  have c5: "carried [67108863, 33554431, 0, 33554431, 67108863, 33554431, 67108864, 33554431, 67108863, 33554431, 0] (carry_25 5 (carry_26 4 (carry_25 3 v))) (fe_val ws)"
    by simp
  from p [OF c5, of 6]
  have c7: "carried [67108863, 33554431, 0, 33554431, 67108863, 33554431, 67108863, 33554431, 67108864, 33554431, 0]
     (carry_25 7 (carry_26 6 (carry_25 5 (carry_26 4 (carry_25 3 v))))) (fe_val ws)"
    by simp
  from p [OF c7, of 8]
  have "carried [67108863, 33554431, 0, 33554431, 67108863, 33554431, 67108863, 33554431, 67108863, 33554431, 1]
     (carry_25 9 (carry_26 8 (carry_25 7 (carry_26 6 (carry_25 5 (carry_26 4 (carry_25 3 v))))))) (fe_val ws)"
    by simp
  moreover have "carries u = carry_25 9 (carry_26 8 (carry_25 7 (carry_26 6 (carry_25 5 (carry_26 4 (carry_25 3 v))))))"
    using i by (simp add: carries_def v_def)
  ultimately have "carried [67108863, 33554431, 0, 33554431, 67108863, 33554431, 67108863, 33554431, 67108863, 33554431, 1] (carries (ws[10 := 0])) (fe_val ws)"
    unfolding u_def by simp
  from finish_car [OF this] obtain k where
    "carried [67108863, 33554431, 1, 33554431, 67108863, 33554431, 67108863, 33554431, 67108863, 33554431, 0] (freduce_coefficients ws) (fe_val ws + p25519 * k)"
    by (auto simp: carry_bound_def)
  then have "carried (full_limbs @ [0]) (freduce_coefficients ws) (fe_val ws + p25519 * k)"
    by (rule car_weaken) (simp add: full_limbs_def)
  then show ?thesis by blast
qed



section \<open>The operations on represented values\<close>

definition loose_limbs :: "int list" where
  "loose_limbs = [67108864, 33554432, 67108864, 33554432, 67108864, 33554432, 67108864, 33554432, 67108864, 67108864]"

definition double_limbs :: "int list" where
  "double_limbs = map (\<lambda>b. 2 * b) loose_limbs"

lemma fits_double: "fits double_limbs double_limbs"
  by (simp add: fits_def double_limbs_def loose_limbs_def products_def upt_lists)

lemma within_weaken:
  assumes "limbs_within A ws" "list_all2 (\<le>) A B"
  shows "limbs_within B ws"
  using assms unfolding limbs_within_def bounded_def list_all2_conv_all_nth by (metis order_trans)

definition represents :: "int list \<Rightarrow> int \<Rightarrow> limb list \<Rightarrow> bool" where
  "represents B c ws \<longleftrightarrow> limbs_within B ws \<and> fe_val ws mod p25519 = c mod p25519"

lemma rep_reduced: "represents reduced_limbs c ws \<Longrightarrow> represents loose_limbs c ws"
  by (auto simp: represents_def loose_limbs_def reduced_limbs_def intro: within_weaken)

lemma rep_loose: "represents loose_limbs c ws \<Longrightarrow> represents double_limbs c ws"
  by (auto simp: represents_def loose_limbs_def double_limbs_def intro: within_weaken)

lemma rep_cong: "represents B c ws \<Longrightarrow> c mod p25519 = d mod p25519 \<Longrightarrow> represents B d ws"
  by (simp add: represents_def)

lemma rep_take: "represents B c (take 10 ws) \<longleftrightarrow> represents B c ws"
proof (cases "10 \<le> length ws")
  case True
  then show ?thesis using fe_take [OF True] by (auto simp: represents_def limbs_within_def bounded_def fe_val_def)
next
  case False
  then show ?thesis by (auto simp: represents_def limbs_within_def bounded_def)
qed

lemma nth_on_ten: "10 \<le> length out \<Longrightarrow> i < 10 \<Longrightarrow> on_ten f out ! i = f i"
  by (simp add: on_ten_def nth_append)

lemma length_on_ten: "10 \<le> length out \<Longrightarrow> length (on_ten f out) = length out"
  by (simp add: on_ten_def)

lemma on_ten_rep:
  assumes "10 \<le> length out" "length B = 10" "\<And>i. i < 10 \<Longrightarrow> sint (f i) = z i \<and> \<bar>z i\<bar> \<le> B ! i" "(\<Sum>i<10. z i * 2 ^ limb_weight i) mod p25519 = c mod p25519"
  shows "represents B c (on_ten f out)"
proof -
  have "fe_val (on_ten f out) = (\<Sum>i<10. z i * 2 ^ limb_weight i)"
    unfolding fe_val_def fval_def using assms(1,3) by (intro sum.cong) (simp_all add: nth_on_ten length_on_ten)
  then show ?thesis using assms by (simp add: represents_def limbs_within_def bounded_def nth_on_ten length_on_ten)
qed

lemma loose_double: "i < 10 \<Longrightarrow> double_limbs ! i = 2 * loose_limbs ! i" "i < 10 \<Longrightarrow> loose_limbs ! i \<le> 67108864" "length double_limbs = 10" "length loose_limbs = 10"
  by (auto simp: double_limbs_def loose_limbs_def dest!: all_less_10)

lemma rep_D: 
  assumes "represents loose_limbs c a"
  shows "10 \<le> length a" "i < 10 \<Longrightarrow> \<bar>sint (a ! i)\<bar> \<le> loose_limbs ! i" "(\<Sum>i<10. sint (a ! i) * 2 ^ limb_weight i) mod p25519 = c mod p25519"
proof -
  show l: "10 \<le> length a" using assms by (auto simp: represents_def dest: within_length)
  show "i < 10 \<Longrightarrow> \<bar>sint (a ! i)\<bar> \<le> loose_limbs ! i" using assms by (auto simp: represents_def dest: within_nth)
  have "fe_val a = (\<Sum>i<10. sint (a ! i) * 2 ^ limb_weight i)" unfolding fe_val_def fval_def using l by (intro sum.cong) simp_all
  then show "(\<Sum>i<10. sint (a ! i) * 2 ^ limb_weight i) mod p25519 = c mod p25519" using assms by (simp add: represents_def)
qed

lemma fsum_rep:
  assumes "represents loose_limbs c a" "represents loose_limbs d b"
  shows "represents double_limbs (c + d) (fsum a b)"
  unfolding fsum_def
proof (rule on_ten_rep)
  fix i :: nat assume "i < 10"
  with rep_D(2) [OF assms(1) this] rep_D(2) [OF assms(2) this] loose_double(1,2) [OF this]
  show "sint (a ! i + b ! i) = sint (a ! i) + sint (b ! i) \<and> \<bar>sint (a ! i) + sint (b ! i)\<bar> \<le> double_limbs ! i"
    by (auto intro!: sint_plus)
next
  show "(\<Sum>i<10. (sint (a ! i) + sint (b ! i)) * 2 ^ limb_weight i) mod p25519 = (c + d) mod p25519"
    unfolding ring_distribs sum.distrib by (intro mod_add_cong rep_D(3) assms)
qed (use rep_D(1) [OF assms(1)] in \<open>simp_all add: loose_double\<close>)

lemma fdifference_rep:
  assumes "represents loose_limbs c out" "represents loose_limbs d inp"
  shows "represents double_limbs (d - c) (fdifference out inp)"
  unfolding fdifference_def
proof (rule on_ten_rep)
  fix i :: nat assume "i < 10"
  with rep_D(2) [OF assms(1) this] rep_D(2) [OF assms(2) this] loose_double(1,2) [OF this]
  show "sint (inp ! i - out ! i) = sint (inp ! i) - sint (out ! i) \<and> \<bar>sint (inp ! i) - sint (out ! i)\<bar> \<le> double_limbs ! i"
    by (auto intro!: sint_minus)
next
  show "(\<Sum>i<10. (sint (inp ! i) - sint (out ! i)) * 2 ^ limb_weight i) mod p25519 = (d - c) mod p25519"
    unfolding ring_distribs sum_subtractf by (intro mod_diff_cong rep_D(3) assms)
qed (use rep_D(1) [OF assms(1)] in \<open>simp_all add: loose_double\<close>)

abbreviation reduce_product :: "limb list \<Rightarrow> limb list" where
  "reduce_product t \<equiv> freduce_coefficients (freduce_degree t)"

lemma product_rep:
  assumes "represents double_limbs c a" "represents double_limbs d b"
  shows "represents loose_limbs (c * d) (reduce_product (fproduct a b))"
  using product_ok [OF _ _ fits_double] assms
  by (intro rep_reduced) (auto simp: represents_def intro: mod_mult_cong)

lemma fsquare_inner_fproduct: "fsquare_inner a = fproduct a a"
  by (simp add: fsquare_inner_def fproduct_def squares_products)

lemma fmul_rep: "represents double_limbs c a \<Longrightarrow> represents double_limbs d b \<Longrightarrow> represents loose_limbs (c * d) (fmul a b)"
  unfolding fmul_def rep_take by (rule product_rep)

lemma fmul_reduced: "represents double_limbs c a \<Longrightarrow> represents double_limbs d b \<Longrightarrow> represents reduced_limbs (c * d) (fmul a b)"
  unfolding fmul_def rep_take using product_ok [OF _ _ fits_double] by (auto simp: represents_def intro: mod_mult_cong)

lemma fsquare_rep: "represents double_limbs c a \<Longrightarrow> represents loose_limbs (c * c) (fsquare a)"
  unfolding fsquare_def rep_take fsquare_inner_fproduct by (rule product_rep)

lemma scaled_rep:
  assumes "represents double_limbs c a" "11 \<le> length t"
  shows "represents loose_limbs (121665 * c) (freduce_coefficients (fscalar_product t a 121665))"
proof -
  define t' where "t' = fscalar_product t a 121665"
  have a: "sint (a ! i * 121665) = 121665 * sint (a ! i)" "\<bar>121665 * sint (a ! i)\<bar> \<le> 2 ^ 62" if "i < 10" for i
  proof -
    have "\<bar>sint (a ! i)\<bar> \<le> 134217728" using within_nth [of double_limbs a i] that assms(1) loose_double(1,2) [OF that] by (auto simp: represents_def)
    moreover have "a ! i * 121665 = of_int (121665 * sint (a ! i))" by (simp add: mult.commute)
    ultimately show "sint (a ! i * 121665) = 121665 * sint (a ! i)" "\<bar>121665 * sint (a ! i)\<bar> \<le> 2 ^ 62"
      using sint_of_int64 [of "121665 * sint (a ! i)"] by (auto simp: mult.commute)
  qed
  have l: "length t' = length t" "10 \<le> length a" using assms by (auto simp: t'_def fscalar_product_def length_on_ten represents_def dest: within_length)
  have n: "sint (t' ! i) = 121665 * sint (a ! i)" if "i < 10" for i
    using a [OF that] that assms(2) by (simp add: t'_def fscalar_product_def nth_on_ten)
  have "fval 10 (ints t') = 121665 * fe_val a"
    unfolding fe_val_def fval_def sum_distrib_left using l n assms(2) by (intro sum.cong) simp_all
  moreover obtain k where "carried (reduced_limbs @ [0]) (freduce_coefficients t') (fval 10 (ints t') + p25519 * k)"
    using freduce_coefficients_car [of t'] l n a assms(2) by (auto simp: fe_val_def)
  ultimately have "limbs_within reduced_limbs (freduce_coefficients t')" "fe_val (freduce_coefficients t') = 121665 * fe_val a + p25519 * k"
    using car_within [of reduced_limbs "freduce_coefficients t'" "fval 10 (ints t') + p25519 * k"] by simp_all
  then show ?thesis using assms(1) unfolding t'_def [symmetric] by (intro rep_reduced) (auto simp: represents_def intro: mod_mult_cong)
qed

section \<open>Properties\<close>

text \<open>From coefficients of at most 2^62 in magnitude no carry of \<open>freduce_coefficients\<close> overflows: the limbs come out below
  2^26 and 2^25, limb 2 at most 2^26, and the value is the same modulo 2^255 - 19.\<close>

theorem freduce_coefficients_correct:
  assumes "11 \<le> length ws" "limbs_within (replicate 10 (2 ^ 62)) ws"
  shows "limbs_within reduced_limbs (freduce_coefficients ws) \<and> fe_val (freduce_coefficients ws) mod p25519 = fe_val ws mod p25519"
proof -
  have "\<forall>i < 10. \<bar>sint (ws ! i)\<bar> \<le> 2 ^ 62" using within_nth [OF assms(2)] by fastforce
  then obtain k where "carried (reduced_limbs @ [0]) (freduce_coefficients ws) (fe_val ws + p25519 * k)"
    using freduce_coefficients_car [OF assms(1)] by blast
  from car_within [OF this] show ?thesis by simp
qed

theorem freduce_coefficients_correct_witness:
  "limbs_within reduced_limbs (freduce_coefficients (replicate 11 (2 ^ 61))) \<and>
   fe_val (freduce_coefficients (replicate 11 (2 ^ 61))) mod p25519 = fe_val (replicate 11 (2 ^ 61)) mod p25519"
  by (rule freduce_coefficients_correct) (auto simp: limbs_within_def bounded_def)

text \<open>C22: \<open>fmul\<close> multiplies modulo 2^255 - 19 whenever its arguments are sums or differences of two reduced elements: nothing
  overflows on the way and the result is reduced. \<open>fsquare\<close>, which has formulas of its own, gives the same limbs as
  \<open>fmul\<close> of the argument with itself.\<close>

theorem fmul_correct:
  assumes "limbs_within double_limbs a" "limbs_within double_limbs b"
  shows "limbs_within reduced_limbs (fmul a b) \<and> fe_val (fmul a b) mod p25519 = fe_val a * fe_val b mod p25519 \<and> fsquare a = fmul a a"
  using fmul_reduced [of "fe_val a" a "fe_val b" b] assms
  by (simp add: represents_def fsquare_def fmul_def fsquare_inner_fproduct)

theorem fmul_correct_witness:
  "limbs_within reduced_limbs (fmul (replicate 10 (- 33554432)) (replicate 10 5)) \<and>
   fe_val (fmul (replicate 10 (- 33554432)) (replicate 10 5)) mod p25519 = fe_val (replicate 10 (- 33554432)) * fe_val (replicate 10 5) mod p25519 \<and>
   fsquare (replicate 10 (- 33554432)) = fmul (replicate 10 (- 33554432)) (replicate 10 (- 33554432))"
  by (rule fmul_correct) (simp_all add: limbs_within_def bounded_def double_limbs_def loose_limbs_def nth_Cons' numeral_eq_Suc)

end
