(* ===== verification/Curve_Bytes.thy ===== *)
theory Curve_Bytes
  imports Curve_Field
begin

text \<open>
  Personal-HomeKit-HAP/curve25519/curve25519-donna.c: reading 32 little-endian bytes into limbs (\<open>fexpand\<close>, all 256 bits,
  bit 255 included) and writing limbs as 32 bytes (\<open>fcontract\<close>), with the borrows that make every limb positive. A borrow
  pass is a pass of division by the width of each limb (\<open>norm_step\<close>); after the first only limb 0 can be negative, after
  the second none.
\<close>

section \<open>The code\<close>

definition F_expand :: "byte list \<Rightarrow> nat \<Rightarrow> nat \<Rightarrow> limb \<Rightarrow> limb" where
  "F_expand inp start shift msk =
     drop_bit shift (ucast (inp ! start) OR push_bit 8 (ucast (inp ! (start + 1))) OR push_bit 16 (ucast (inp ! (start + 2)))
       OR push_bit 24 (ucast (inp ! (start + 3)))) AND msk"

definition fexpand :: "byte list \<Rightarrow> limb list" where
  "fexpand inp = [F_expand inp 0 0 0x3ffffff, F_expand inp 3 2 0x1ffffff, F_expand inp 6 3 0x3ffffff, F_expand inp 9 5 0x1ffffff,
     F_expand inp 12 6 0x3ffffff, F_expand inp 16 0 0x1ffffff, F_expand inp 19 1 0x3ffffff, F_expand inp 22 3 0x1ffffff,
     F_expand inp 25 4 0x3ffffff, F_expand inp 28 6 0x3ffffff]"

text \<open>A negative limb is made positive by borrowing from the next one, in 32-bit arithmetic.\<close>

definition borrow :: "nat \<Rightarrow> 32 word \<Rightarrow> 32 word" where
  "borrow k v = (let msk = signed_drop_bit 31 v in - signed_drop_bit k (v AND msk))"

definition borrow_step :: "nat \<Rightarrow> nat \<Rightarrow> limb list \<Rightarrow> limb list" where
  "borrow_step k i inp =
     (let carry = borrow k (ucast (inp ! i));
          inp = inp[i := scast (ucast (inp ! i) + push_bit k carry :: 32 word)]
      in inp[Suc i := scast (ucast (inp ! Suc i) - carry :: 32 word)])"

definition borrow_last :: "limb list \<Rightarrow> limb list" where
  "borrow_last inp =
     (let carry = borrow 25 (ucast (inp ! 9));
          inp = inp[9 := scast (ucast (inp ! 9) + push_bit 25 carry :: 32 word)]
      in inp[0 := scast (ucast (inp ! 0) - carry * 19 :: 32 word)])"

definition borrow_pass :: "limb list \<Rightarrow> limb list" where
  "borrow_pass inp = borrow_last (fold (\<lambda>i inp. borrow_step (if i mod 2 = 1 then 25 else 26) i inp) [0..<9] inp)"

definition F_contract :: "limb list \<Rightarrow> nat \<Rightarrow> nat \<Rightarrow> byte list \<Rightarrow> byte list" where
  "F_contract inp i s out =
     (let out = out[s := out ! s OR ucast (inp ! i AND 0xff)];
          out = out[s + 1 := ucast (drop_bit 8 (inp ! i) AND 0xff)];
          out = out[s + 2 := ucast (drop_bit 16 (inp ! i) AND 0xff)]
      in out[s + 3 := ucast (drop_bit 24 (inp ! i) AND 0xff)])"

definition fcontract_bytes :: "byte list \<Rightarrow> limb list \<Rightarrow> byte list" where
  "fcontract_bytes out inp =
     (let inp = inp[1 := push_bit 2 (inp ! 1)]; inp = inp[2 := push_bit 3 (inp ! 2)]; inp = inp[3 := push_bit 5 (inp ! 3)];
          inp = inp[4 := push_bit 6 (inp ! 4)]; inp = inp[6 := push_bit 1 (inp ! 6)]; inp = inp[7 := push_bit 3 (inp ! 7)];
          inp = inp[8 := push_bit 4 (inp ! 8)]; inp = inp[9 := push_bit 6 (inp ! 9)];
          out = out[0 := 0]; out = out[16 := 0];
          out = F_contract inp 0 0 out; out = F_contract inp 1 3 out; out = F_contract inp 2 6 out; out = F_contract inp 3 9 out;
          out = F_contract inp 4 12 out; out = F_contract inp 5 16 out; out = F_contract inp 6 19 out; out = F_contract inp 7 22 out;
          out = F_contract inp 8 25 out
      in F_contract inp 9 28 out)"

definition fcontract :: "byte list \<Rightarrow> limb list \<Rightarrow> byte list" where
  "fcontract out inp = fcontract_bytes out (borrow_step 26 0 (borrow_pass (borrow_pass inp)))"

section \<open>Expanding\<close>

lemma unat_load64:
  "unat (ucast a OR push_bit 8 (ucast b) OR push_bit 16 (ucast c) OR push_bit 24 (ucast d) :: limb) = le_val [a, b, c, d]"
  using unat_load4 [where 'a = 64] by (simp add: or.assoc)

lemma unat_F_expand:
  assumes "start + 4 \<le> length p" "s + k \<le> 32"
  shows "unat (F_expand p start s (mask k)) = le_val p div 2 ^ (8 * start + s) mod 2 ^ k"
  by (simp only: F_expand_def unat_and_mask_mod unat_drop_bit_div unat_load64 le_val_window [OF assms(1)] window [OF assms(2)])

lemma sint_unat: "unat (w :: limb) < 2 ^ 63 \<Longrightarrow> sint w = int (unat w)"
proof -
  assume "unat w < 2 ^ 63"
  then have "int (unat w) < int (2 ^ 63)" by (simp only: of_nat_less_iff)
  then have "\<bar>int (unat w)\<bar> < 2 ^ 63" by (simp only: abs_of_nat of_nat_power of_nat_numeral)
  from sint_of_int64 [OF this] show ?thesis by simp
qed

lemma digit_step: "(v div 2 ^ a) * 2 ^ a = (v div 2 ^ a mod 2 ^ k) * 2 ^ a + (v div 2 ^ (a + k)) * (2 ^ (a + k) :: nat)"
proof -
  have "v div 2 ^ a = v div 2 ^ a mod 2 ^ k + 2 ^ k * (v div 2 ^ (a + k))"
    by (simp add: power_add div_mult2_eq)
  then have "(v div 2 ^ a) * 2 ^ a = (v div 2 ^ a mod 2 ^ k + 2 ^ k * (v div 2 ^ (a + k))) * 2 ^ a" by simp
  then show ?thesis by (simp only: ring_distribs power_add mult.assoc mult.commute [of "2 ^ k"] mult.left_commute)
qed

definition expanded_limbs :: "nat \<Rightarrow> nat list" where
  "expanded_limbs v = [v mod 2 ^ 26, v div 2 ^ 26 mod 2 ^ 25, v div 2 ^ 51 mod 2 ^ 26, v div 2 ^ 77 mod 2 ^ 25, v div 2 ^ 102 mod 2 ^ 26,
     v div 2 ^ 128 mod 2 ^ 25, v div 2 ^ 153 mod 2 ^ 26, v div 2 ^ 179 mod 2 ^ 25, v div 2 ^ 204 mod 2 ^ 26, v div 2 ^ 230 mod 2 ^ 26]"

lemma masks: "(0x3ffffff :: limb) = mask 26" "(0x1ffffff :: limb) = mask 25"
  by (simp_all add: mask_eq_exp_minus_1)

lemma unat_fexpand:
  assumes "length p = 32"
  shows "map unat (fexpand p) = expanded_limbs (le_val p)"
  unfolding fexpand_def masks using assms
  by (simp add: unat_F_expand expanded_limbs_def del: mask_numeral)

lemma expanded_less: "\<forall>x \<in> set (expanded_limbs v). x < 2 ^ 26"
proof -
  have "x mod 2 ^ 25 < (2 ^ 26 :: nat)" for x by (rule less_trans [OF mod_less_divisor]) simp_all
  then show ?thesis unfolding expanded_limbs_def by (simp del: power_numeral numeral_power_eq_of_nat_cancel_iff)
qed

lemma fexpand_ints:
  assumes "length p = 32"
  shows "ints (fexpand p) = map int (expanded_limbs (le_val p))"
proof -
  have "sint w = int (unat w)" if "w \<in> set (fexpand p)" for w
  proof -
    have "unat w \<in> set (expanded_limbs (le_val p))" using that unfolding unat_fexpand [OF assms, symmetric] by simp
    then show ?thesis using expanded_less [of "le_val p"] by (intro sint_unat) fastforce
  qed
  then have "ints (fexpand p) = map (\<lambda>w. int (unat w)) (fexpand p)" by (intro map_cong refl)
  also have "\<dots> = map int (map unat (fexpand p))" by (simp only: map_map comp_def)
  finally show ?thesis using unat_fexpand [OF assms] by simp
qed

lemma fval_nat: "length xs = 10 \<Longrightarrow> fval 10 (map int xs) =
  int (xs ! 0 + 2 ^ 26 * xs ! 1 + 2 ^ 51 * xs ! 2 + 2 ^ 77 * xs ! 3 + 2 ^ 102 * xs ! 4 + 2 ^ 128 * xs ! 5
   + 2 ^ 153 * xs ! 6 + 2 ^ 179 * xs ! 7 + 2 ^ 204 * xs ! 8 + 2 ^ 230 * xs ! 9)"
  by (simp add: fval_10)

lemma expanded_value:
  assumes "v < 2 ^ 256"
  shows "fval 10 (map int (expanded_limbs v)) = int v"
proof -
  have 0: "v = v mod 2 ^ 26 + (v div 2 ^ 26) * 2 ^ 26" by simp
  have 9: "v div 2 ^ 230 mod 2 ^ 26 = v div 2 ^ 230" using assms by (intro mod_less) (simp add: less_mult_imp_div_less)
  have "v = v mod 2 ^ 26 + 2 ^ 26 * (v div 2 ^ 26 mod 2 ^ 25) + 2 ^ 51 * (v div 2 ^ 51 mod 2 ^ 26) + 2 ^ 77 * (v div 2 ^ 77 mod 2 ^ 25)
      + 2 ^ 102 * (v div 2 ^ 102 mod 2 ^ 26) + 2 ^ 128 * (v div 2 ^ 128 mod 2 ^ 25) + 2 ^ 153 * (v div 2 ^ 153 mod 2 ^ 26)
      + 2 ^ 179 * (v div 2 ^ 179 mod 2 ^ 25) + 2 ^ 204 * (v div 2 ^ 204 mod 2 ^ 26) + 2 ^ 230 * (v div 2 ^ 230 mod 2 ^ 26)"
    using 0 9 digit_step [of v 26 25] digit_step [of v 51 26] digit_step [of v 77 25] digit_step [of v 102 26]
      digit_step [of v 128 25] digit_step [of v 153 26] digit_step [of v 179 25] digit_step [of v 204 26] 
    by (simp only: arith_simps mult.commute)
  then show ?thesis by (subst fval_nat) (simp_all add: expanded_limbs_def)
qed

lemma fexpand_rep: "length p = 32 \<Longrightarrow> represents loose_limbs (int (le_val p)) (fexpand p)"
proof -
  assume l: "length p = 32"
  have v: "le_val p < 2 ^ 256" using le_val_less [of p] l by simp
  have "length (expanded_limbs (le_val p)) = 10" by (simp add: expanded_limbs_def)
  moreover have "\<bar>ints (fexpand p) ! i\<bar> \<le> loose_limbs ! i" if "i < 10" for i
  proof -
    have "x mod 67108864 \<le> 67108864" "x mod 33554432 \<le> 33554432" for x :: int by (simp_all add: less_imp_le)
    then show ?thesis using all_less_10 [OF that] unfolding fexpand_ints [OF l] expanded_limbs_def loose_limbs_def
      by (auto simp: zmod_int zdiv_int)
  qed
  ultimately show ?thesis using expanded_value [OF v] by (simp add: represents_def limbs_within_def bounded_def fe_val_def fexpand_ints [OF l] loose_double)
qed

section \<open>The borrow passes\<close>

text \<open>The borrow on integers: a limb keeps its remainder, the next one gets the quotient.\<close>

definition norm_step :: "nat \<Rightarrow> nat \<Rightarrow> int list \<Rightarrow> int list" where
  "norm_step k i zs = zs[i := zs ! i mod 2 ^ k, Suc i := zs ! Suc i + zs ! i div 2 ^ k]"

definition norm_last :: "int list \<Rightarrow> int list" where
  "norm_last zs = zs[9 := zs ! 9 mod 2 ^ 25, 0 := zs ! 0 + 19 * (zs ! 9 div 2 ^ 25)]"

lemma borrow_eq:
  assumes "- (2 ^ k) \<le> sint v" "sint v < 2 ^ k" "k < 31"
  shows "borrow k v = of_int (- (sint v div 2 ^ k))"
proof -
  show ?thesis
  proof (cases "sint v < 0")
    case True
    have "signed_drop_bit k v = of_int (sint (signed_drop_bit k v))" by simp
    also have "sint (signed_drop_bit k v) = sint v div 2 ^ k" by (simp add: sint_signed_drop_bit_eq drop_bit_eq_div [where 'a = int])
    finally show ?thesis using True by (simp add: borrow_def sign_32 Let_def)
  next
    case False
    then show ?thesis using assms by (simp add: borrow_def sign_32 Let_def div_pos_pos_trivial)
  qed
qed

lemma quot_cases: "- (2 ^ k) \<le> x \<Longrightarrow> x < 2 ^ k \<Longrightarrow> x div 2 ^ k = (if x < 0 then -1 else (0 :: int)) \<and> x mod 2 ^ k = (if x < 0 then x + 2 ^ k else x)"
proof -
  assume a: "- (2 ^ k) \<le> x" "x < 2 ^ k"
  show ?thesis
  proof (cases "x < 0")
    case True
    have d: "x div 2 ^ k = -1"
      using a True by (intro int_div_pos_eq [of _ _ _ "x + 2 ^ k"]) auto
    then show ?thesis using True minus_div_mult_eq_mod [of x "2 ^ k"] by simp
  next
    case False
    then show ?thesis using a by simp
  qed
qed

lemma cast32: "\<bar>z\<bar> < 2 ^ 31 \<Longrightarrow> sint (scast (of_int z :: 32 word) :: limb) = z"
  using sint_up_scast [where 'a = 32 and 'b = 64, of "of_int z"] sint_of_int32 [of z] by (simp add: is_up)

lemma borrow_words:
  assumes "- (2 ^ k) \<le> sint (v :: limb)" "sint v < 2 ^ k" "k < 31" "\<bar>sint (u :: limb)\<bar> \<le> 2 ^ 30" "c = borrow k (ucast v)" "\<bar>m\<bar> \<le> 19"
  shows "sint (scast (ucast v + push_bit k c :: 32 word) :: limb) = sint v mod 2 ^ k"
    and "sint (scast (ucast u - c * of_int m :: 32 word) :: limb) = sint u + m * (sint v div 2 ^ k)"
proof -
  have K: "(2::int) ^ k \<le> 1073741824" using assms(3) power_increasing [of k 30 "2 :: int"] by simp
  have v: "sint (ucast v :: 32 word) = sint v" by (rule sint_ucast32) (use assms(1,2) K in auto)
  have u: "sint (ucast u :: 32 word) = sint u" by (rule sint_ucast32) (use assms(4) in auto)
  have c: "c = of_int (- (sint v div 2 ^ k))" using assms(1-3,5) v by (simp add: borrow_eq)
  note q = quot_cases [OF assms(1,2)]
  have "ucast v + push_bit k c = of_int (sint v - 2 ^ k * (sint v div 2 ^ k))"
    by (simp add: c push_bit_eq_mult ucast_scast mult.commute)
  also have "sint v - 2 ^ k * (sint v div 2 ^ k) = sint v mod 2 ^ k" by (simp add: minus_mult_div_eq_mod)
  finally show "sint (scast (ucast v + push_bit k c :: 32 word) :: limb) = sint v mod 2 ^ k"
    using q assms(1,2) K by (simp only:) (rule cast32, auto)
  have "ucast u - c * of_int m = of_int (sint u + m * (sint v div 2 ^ k))"
    by (simp add: c ucast_scast mult.commute)
  then show "sint (scast (ucast u - c * of_int m :: 32 word) :: limb) = sint u + m * (sint v div 2 ^ k)"
    using q assms(4,6) by (simp only:) (rule cast32, auto)
qed

lemma borrow_step_ints:
  assumes "- (2 ^ k) \<le> ints ws ! i" "ints ws ! i < 2 ^ k" "k < 31" "\<bar>ints ws ! Suc i\<bar> \<le> 2 ^ 30" "Suc i < length ws"
  shows "ints (borrow_step k i ws) = norm_step k i (ints ws)"
proof -
  have "i < length ws" using assms(5) by simp
  with borrow_words [of k "ws ! i" "ws ! Suc i" _ 1] assms show ?thesis
    by (simp add: borrow_step_def norm_step_def Let_def map_update)
qed

lemma borrow_last_ints:
  assumes "- (2 ^ 25) \<le> ints ws ! 9" "ints ws ! 9 < 2 ^ 25" "\<bar>ints ws ! 0\<bar> \<le> 2 ^ 30" "9 < length ws"
  shows "ints (borrow_last ws) = norm_last (ints ws)"
proof -
  have "ws \<noteq> []" using assms(4) by auto
  with borrow_words [of 25 "ws ! 9" "ws ! 0" _ 19] assms show ?thesis
    by (simp add: borrow_last_def norm_last_def Let_def map_update)
qed


lemma weight_Suc: "limb_weight (Suc i) = limb_weight i + limb_width i"
  unfolding limb_weight_def limb_width_def by presburger

lemma norm_step_fval: "Suc i < 10 \<Longrightarrow> 10 \<le> length zs \<Longrightarrow> fval 10 (norm_step (limb_width i) i zs) = fval 10 zs"
  by (simp add: norm_step_def fval_update weight_Suc power_add minus_mult_div_eq_mod [symmetric] algebra_simps)

lemma norm_last_fval: "10 \<le> length zs \<Longrightarrow> fval 10 (norm_last zs) = fval 10 zs - p25519 * (zs ! 9 div 2 ^ 25)"
proof -
  assume l: "10 \<le> length zs"
  then have "zs \<noteq> []" by auto
  then show ?thesis using l
    by (simp add: norm_last_def fval_update limb_weight_def p25519_def minus_mult_div_eq_mod [symmetric] algebra_simps)
qed

text \<open>Before step \<open>i\<close> of the first pass the limbs below \<open>i\<close> are normal_limbs, limb \<open>i\<close> may have lent one.\<close>

definition pass_inv :: "nat \<Rightarrow> int list \<Rightarrow> bool" where
  "pass_inv i zs \<longleftrightarrow> (\<forall>j < i. 0 \<le> zs ! j \<and> zs ! j < 2 ^ limb_width j) \<and> - (2 ^ limb_width i) \<le> zs ! i \<and> zs ! i < 2 ^ limb_width i
     \<and> (\<forall>j. i < j \<and> j < 10 \<longrightarrow> \<bar>zs ! j\<bar> < 2 ^ limb_width j)"

lemma pass_step:
  assumes "pass_inv i zs" "Suc i < 10" "length zs = 10"
  shows "pass_inv (Suc i) (norm_step (limb_width i) i zs)"
proof -
  have q: "zs ! i div 2 ^ limb_width i = (if zs ! i < 0 then -1 else 0)" using assms(1) quot_cases by (auto simp: pass_inv_def)
  have "\<bar>zs ! Suc i\<bar> < 2 ^ limb_width (Suc i)" using assms(1,2) by (auto simp: pass_inv_def)
  moreover have "0 \<le> zs ! i mod 2 ^ limb_width i" "zs ! i mod 2 ^ limb_width i < 2 ^ limb_width i" by simp_all
  ultimately show ?thesis using assms q unfolding pass_inv_def norm_step_def
    by (auto simp: nth_list_update less_Suc_eq)
qed


text \<open>Before step \<open>i\<close> of the second pass a negative limb \<open>i\<close> means that limb 0 has just borrowed.\<close>

definition pass2_inv :: "nat \<Rightarrow> int list \<Rightarrow> bool" where
  "pass2_inv i zs \<longleftrightarrow> (\<forall>j < i. 0 \<le> zs ! j \<and> zs ! j < 2 ^ limb_width j) \<and> - 19 \<le> zs ! i \<and> zs ! i < 2 ^ limb_width i
     \<and> (zs ! i < 0 \<longrightarrow> i = 0 \<or> 2 ^ 26 - 19 \<le> zs ! 0)
     \<and> (\<forall>j. i < j \<and> j < 10 \<longrightarrow> 0 \<le> zs ! j \<and> zs ! j < 2 ^ limb_width j)"

lemma width_ge: "(67108864 :: int) = 2 ^ 26" "33554432 \<le> (2 :: int) ^ limb_width i"
  by (simp_all add: limb_width_def)

lemma pass2_pass: "pass2_inv i zs \<Longrightarrow> pass_inv i zs"
  using width_ge(2) [of i] unfolding pass2_inv_def pass_inv_def by auto

lemma pass2_step:
  assumes "pass2_inv i zs" "Suc i < 10" "length zs = 10"
  shows "pass2_inv (Suc i) (norm_step (limb_width i) i zs)"
proof -
  have i: "- (2 ^ limb_width i) \<le> zs ! i" "zs ! i < 2 ^ limb_width i" using pass2_pass [OF assms(1)] by (simp_all add: pass_inv_def)
  note q = quot_cases [OF i]
  have n: "0 \<le> zs ! Suc i" "zs ! Suc i < 2 ^ limb_width (Suc i)" using assms(1,2) by (auto simp: pass2_inv_def)
  moreover have "0 \<le> zs ! i mod 2 ^ limb_width i" "zs ! i mod 2 ^ limb_width i < 2 ^ limb_width i" by simp_all
  moreover have "2 ^ 26 - 19 \<le> (if i = 0 then zs ! i mod 2 ^ limb_width i else zs ! 0)" if "zs ! i < 0"
    using assms(1) that q by (auto simp: pass2_inv_def limb_width_def)
  ultimately show ?thesis using assms q unfolding pass2_inv_def norm_step_def
    by (auto simp: nth_list_update less_Suc_eq split: if_splits)
qed

definition normal_limbs :: "int list \<Rightarrow> bool" where
  "normal_limbs zs \<longleftrightarrow> length zs = 10 \<and> (\<forall>j < 10. 0 \<le> zs ! j \<and> zs ! j < 2 ^ limb_width j)"

lemma nth_norm_last:
  "length zs = 10 \<Longrightarrow> j < 10 \<Longrightarrow> norm_last zs ! j = (if j = 0 then zs ! 0 + 19 * (zs ! 9 div 2 ^ 25) else if j = 9 then zs ! 9 mod 2 ^ 25 else zs ! j)"
  by (simp add: norm_last_def nth_list_update)

lemma pass2_last:
  assumes "pass2_inv 9 zs" "length zs = 10"
  shows "normal_limbs (norm_last zs)"
proof -
  have i: "- (2 ^ 25) \<le> zs ! 9" "zs ! 9 < 2 ^ 25" using assms(1) by (simp_all add: pass2_inv_def limb_width_def)
  note q = quot_cases [OF i]
  have "0 \<le> norm_last zs ! j \<and> norm_last zs ! j < 2 ^ limb_width j" if j: "j < 10" for j
  proof (cases "j = 9")
    case True
    then show ?thesis using nth_norm_last [OF assms(2) j] by (simp add: limb_width_def)
  next
    case False
    then have b: "0 \<le> zs ! j" "zs ! j < 2 ^ limb_width j" using j assms(1) by (auto simp: pass2_inv_def)
    have "zs ! 9 < 0 \<Longrightarrow> 2 ^ 26 - 19 \<le> zs ! 0" using assms(1) by (auto simp: pass2_inv_def)
    then show ?thesis using nth_norm_last [OF assms(2) j] False b q by auto
  qed
  then show ?thesis using assms(2) by (simp add: normal_limbs_def norm_last_def)
qed

lemma pass1_last:
  assumes "pass_inv 9 zs" "length zs = 10"
  shows "pass2_inv 0 (norm_last zs)"
proof -
  have i: "- (2 ^ 25) \<le> zs ! 9" "zs ! 9 < 2 ^ 25" using assms(1) by (simp_all add: pass_inv_def limb_width_def)
  note q = quot_cases [OF i]
  have b: "0 \<le> zs ! j" "zs ! j < 2 ^ limb_width j" if "j < 9" for j using that assms(1) by (auto simp: pass_inv_def)
  have "0 \<le> norm_last zs ! j \<and> norm_last zs ! j < 2 ^ limb_width j" if j: "0 < j" "j < 10" for j
    using nth_norm_last [OF assms(2) j(2)] b [of j] j by (cases "j = 9") (simp_all add: limb_width_def)
  moreover have "- 19 \<le> norm_last zs ! 0 \<and> norm_last zs ! 0 < 2 ^ limb_width 0"
    using nth_norm_last [OF assms(2), of 0] b [of 0] q by auto
  ultimately show ?thesis by (auto simp: pass2_inv_def)
qed

definition borrow_steps :: "nat \<Rightarrow> limb list \<Rightarrow> limb list" where
  "borrow_steps m ws = fold (\<lambda>i ws. borrow_step (if i mod 2 = 1 then 25 else 26) i ws) [0..<m] ws"

lemma steps_Suc: "borrow_steps (Suc m) ws = borrow_step (limb_width m) m (borrow_steps m ws)"
  by (simp add: borrow_steps_def limb_width_def)

lemma steps_ok:
  assumes "\<And>i. Q i = pass_inv i \<or> Q i = pass2_inv i"
    and "\<And>i zs. Q i zs \<Longrightarrow> Suc i < 10 \<Longrightarrow> length zs = 10 \<Longrightarrow> Q (Suc i) (norm_step (limb_width i) i zs)"
    and "Q 0 (ints ws)" "length ws = 10" "m \<le> 9"
  shows "Q m (ints (borrow_steps m ws)) \<and> fval 10 (ints (borrow_steps m ws)) = fval 10 (ints ws) \<and> length (borrow_steps m ws) = 10"
  using assms(5)
proof (induction m)
  case 0
  then show ?case using assms by (simp add: borrow_steps_def)
next
  case (Suc m)
  let ?w = "borrow_steps m ws"
  have IH: "Q m (ints ?w)" "fval 10 (ints ?w) = fval 10 (ints ws)" "length ?w = 10" using Suc by auto
  have p: "pass_inv m (ints ?w)" using IH(1) assms(1) [of m] pass2_pass by metis
  have W: "limb_width m < 31" "(2 :: int) ^ limb_width (Suc m) \<le> 2 ^ 30" by (auto simp: limb_width_def)
  have "ints (borrow_step (limb_width m) m ?w) = norm_step (limb_width m) m (ints ?w)"
    using p IH(3) Suc.prems W by (intro borrow_step_ints) (auto simp: pass_inv_def dest!: spec [of _ "Suc m"])
  then show ?case using assms(2) [OF IH(1)] IH Suc.prems norm_step_fval [of m "ints ?w"]
    by (simp add: steps_Suc) (metis length_map length_list_update norm_step_def)
qed

lemma borrow_pass_steps: "borrow_pass ws = borrow_last (borrow_steps 9 ws)"
  by (simp add: borrow_pass_def borrow_steps_def)

lemma last_ok:
  assumes "pass_inv 9 (ints vs)" "length vs = 10"
  shows "ints (borrow_last vs) = norm_last (ints vs)" "length (borrow_last vs) = 10"
    "fval 10 (ints (borrow_last vs)) mod p25519 = fval 10 (ints vs) mod p25519"
proof -
  have b: "- (2 ^ 25) \<le> ints vs ! 9" "ints vs ! 9 < 2 ^ 25" "\<bar>ints vs ! 0\<bar> < 2 ^ 26"
    using assms by (auto simp: pass_inv_def limb_width_def dest!: spec [of _ 0])
  then show e: "ints (borrow_last vs) = norm_last (ints vs)"
    using assms(2) by (intro borrow_last_ints) auto
  show "length (borrow_last vs) = 10" using arg_cong [OF e, of length] assms(2) by (simp add: norm_last_def)
  show "fval 10 (ints (borrow_last vs)) mod p25519 = fval 10 (ints vs) mod p25519"
    unfolding e using norm_last_fval [of "ints vs"] assms(2) by (simp add: mod_diff_right_eq [symmetric])
qed

lemma passes:
  assumes "limbs_within full_limbs ws" "length ws = 10"
  shows "normal_limbs (ints (borrow_pass (borrow_pass ws)))"
    "fval 10 (ints (borrow_pass (borrow_pass ws))) mod p25519 = fe_val ws mod p25519"
    "length (borrow_pass (borrow_pass ws)) = 10"
proof -
  have "pass_inv 0 (ints ws)"
    using within_nth [OF assms(1)] full_width assms(2) by (fastforce simp: pass_inv_def)
  then have 1: "pass_inv 9 (ints (borrow_steps 9 ws))" "fval 10 (ints (borrow_steps 9 ws)) = fval 10 (ints ws)" "length (borrow_steps 9 ws) = 10"
    using steps_ok [of pass_inv ws 9] pass_step assms(2) by auto
  note l1 = last_ok [OF 1(1,3)]
  let ?v = "borrow_last (borrow_steps 9 ws)"
  have "pass2_inv 0 (ints ?v)" unfolding l1(1) using 1 by (intro pass1_last) simp_all
  then have 2: "pass2_inv 9 (ints (borrow_steps 9 ?v))" "fval 10 (ints (borrow_steps 9 ?v)) = fval 10 (ints ?v)" "length (borrow_steps 9 ?v) = 10"
    using steps_ok [of pass2_inv ?v 9] pass2_step l1(2) by auto
  note l2 = last_ok [OF pass2_pass [OF 2(1)] 2(3)]
  show "normal_limbs (ints (borrow_pass (borrow_pass ws)))"
    unfolding borrow_pass_steps l2(1) using 2 by (intro pass2_last) simp_all
  show "fval 10 (ints (borrow_pass (borrow_pass ws))) mod p25519 = fe_val ws mod p25519"
    unfolding borrow_pass_steps l2(3) 2(2) l1(3) 1(2) fe_val_def ..
  show "length (borrow_pass (borrow_pass ws)) = 10" unfolding borrow_pass_steps by (rule l2(2))
qed

text \<open>The step after the passes finds limb 0 positive: it changes nothing.\<close>

lemma last_step_id:
  assumes "normal_limbs (ints ws)"
  shows "borrow_step 26 0 ws = ws"
proof -
  have l: "length ws = 10" using assms by (simp add: normal_limbs_def)
  then have n: "0 \<le> sint (ws ! 0)" "sint (ws ! 0) < 2 ^ 26" "\<bar>sint (ws ! 1)\<bar> \<le> 2 ^ 25"
    using assms by (auto simp: normal_limbs_def limb_width_def dest: spec [of _ 0] spec [of _ 1])
  have "ints (borrow_step 26 0 ws) = norm_step 26 0 (ints ws)"
    using n l by (intro borrow_step_ints) auto
  also have "\<dots> = ints ws"
    using n l by (auto simp: norm_step_def intro!: nth_equalityI simp: nth_list_update)
  finally have "map sint (borrow_step 26 0 ws) = map sint ws" .
  then show ?thesis using inj_map_eq_map [OF inj_onI [of UNIV sint]] by (metis signed_word_eqI)
qed

section \<open>Bytes\<close>

definition lane :: "nat \<Rightarrow> limb \<Rightarrow> byte" where
  "lane n y = ucast (drop_bit (8 * n) y AND 0xff)"

lemma unat_lane: "unat (lane n y) = unat y div 256 ^ n mod 256"
  by (simp only: lane_def ucast_and_ff unat_ucast_mod unat_drop_bit_div power_mult) simp

lemma lanes_value:
  assumes "unat (y :: limb) < 2 ^ 32"
  shows "unat (lane 0 y) + 256 * unat (lane 1 y) + 65536 * unat (lane 2 y) + 16777216 * unat (lane 3 y) = unat y"
proof -
  define a b c where "a = unat y div 256" and "b = a div 256" and "c = b div 256"
  have "unat y = unat y mod 256 + 256 * a" "a = a mod 256 + 256 * b" "b = b mod 256 + 256 * c"
    by (simp_all add: a_def b_def c_def)
  moreover have e: "b = unat y div 65536" "c = unat y div 16777216" by (simp_all add: a_def b_def c_def flip: div_mult2_eq)
  moreover have "c mod 256 = c" using assms unfolding e by (intro mod_less) (simp add: less_mult_imp_div_less)
  ultimately show ?thesis unfolding unat_lane by (simp add: a_def [symmetric])
qed

lemma lane_or:
  assumes "unat y < 2 ^ (24 + s)" "s \<le> 8"
  shows "unat (lane 3 y OR lane 0 (push_bit s x)) = unat (lane 3 y) + unat (lane 0 (push_bit s x))"
proof -
  have p: "lane 0 (push_bit s x) = push_bit s (ucast x :: byte)"
    unfolding lane_def ucast_and_ff by (rule bit_word_eqI) (auto simp: bit_simps)
  have "unat y div 256 ^ 3 < 2 ^ s" using assms(1) by (simp add: less_mult_imp_div_less power_add mult.commute)
  then have l: "unat (lane 3 y) < 2 ^ s" by (simp add: unat_lane)
  define r where "r = unat (ucast x :: byte) mod 2 ^ (8 - s)"
  have 256: "(256 :: nat) = 2 ^ (8 - s) * 2 ^ s" using assms(2) by (simp flip: power_add)
  have "unat (push_bit s (ucast x :: byte)) = unat (ucast x :: byte) * 2 ^ s mod 256"
    by (simp only: unsigned_push_bit_eq push_bit_eq_mult [where 'a = nat] take_bit_eq_mod [where 'a = nat]) simp
  then have r: "unat (push_bit s (ucast x :: byte)) = r * 2 ^ s" unfolding 256 mod_mult_mult2 r_def .
  have "(r + 1) * 2 ^ s \<le> 2 ^ (8 - s) * 2 ^ s" by (intro mult_le_mono1) (simp add: r_def Suc_leI)
  then have "unat (lane 3 y) + unat (push_bit s (ucast x :: byte)) < 256" using l unfolding r 256 [symmetric] by simp
  then show ?thesis unfolding p or_disjoint_add [OF l] by (intro unat_add_exact) simp
qed

lemma F_contract_eq:
  "s + 3 < length out \<Longrightarrow> F_contract inp i s out =
    out[s := out ! s OR lane 0 (inp ! i), s + 1 := lane 1 (inp ! i), s + 2 := lane 2 (inp ! i), s + 3 := lane 3 (inp ! i)]"
  by (simp add: F_contract_def lane_def)

lemma fcontract_bytes_eq:
  assumes "length out = 32" "length inp = 10"
    and y: "y0 = inp ! 0" "y1 = push_bit 2 (inp ! 1)" "y2 = push_bit 3 (inp ! 2)" "y3 = push_bit 5 (inp ! 3)" "y4 = push_bit 6 (inp ! 4)" "y5 = inp ! 5" "y6 = push_bit 1 (inp ! 6)" "y7 = push_bit 3 (inp ! 7)" "y8 = push_bit 4 (inp ! 8)" "y9 = push_bit 6 (inp ! 9)"
  shows "fcontract_bytes out inp = [lane 0 y0, lane 1 y0, lane 2 y0, lane 3 y0 OR lane 0 y1, lane 1 y1, lane 2 y1, lane 3 y1 OR lane 0 y2, lane 1 y2, lane 2 y2, lane 3 y2 OR lane 0 y3, lane 1 y3, lane 2 y3, lane 3 y3 OR lane 0 y4, lane 1 y4, lane 2 y4, lane 3 y4, lane 0 y5, lane 1 y5, lane 2 y5, lane 3 y5 OR lane 0 y6, lane 1 y6, lane 2 y6, lane 3 y6 OR lane 0 y7, lane 1 y7, lane 2 y7, lane 3 y7 OR lane 0 y8, lane 1 y8, lane 2 y8, lane 3 y8 OR lane 0 y9, lane 1 y9, lane 2 y9, lane 3 y9]"
proof -
  obtain o0 o1 o2 o3 o4 o5 o6 o7 o8 o9 o10 o11 o12 o13 o14 o15 o16 o17 o18 o19 o20 o21 o22 o23 o24 o25 o26 o27 o28 o29 o30 o31 where o: "out = [o0, o1, o2, o3, o4, o5, o6, o7, o8, o9, o10, o11, o12, o13, o14, o15, o16, o17, o18, o19, o20, o21, o22, o23, o24, o25, o26, o27, o28, o29, o30, o31]"
    using assms(1) by (auto simp: length_Suc_conv eval_nat_numeral)
  obtain x0 x1 x2 x3 x4 x5 x6 x7 x8 x9 where x: "inp = [x0, x1, x2, x3, x4, x5, x6, x7, x8, x9]"
    using assms(2) by (auto simp: length_Suc_conv eval_nat_numeral)
  show ?thesis
    using y by (simp add: fcontract_bytes_def F_contract_eq Let_def o x)
qed


lemma fcontract_bytes_buffer:
  "length out = 32 \<Longrightarrow> length out' = 32 \<Longrightarrow> length inp = 10 \<Longrightarrow> fcontract_bytes out inp = fcontract_bytes out' inp"
  using fcontract_bytes_eq [of out inp, OF _ _ refl refl refl refl refl refl refl refl refl refl]
    fcontract_bytes_eq [of out' inp, OF _ _ refl refl refl refl refl refl refl refl refl refl] by simp

lemma length_borrow_pass [simp]: "length (borrow_pass ws) = length ws"
proof -
  have "length (borrow_steps m ws) = length ws" for m
    by (induction m) (simp_all add: steps_Suc borrow_step_def Let_def, simp add: borrow_steps_def)
  then show ?thesis by (simp add: borrow_pass_steps borrow_last_def Let_def)
qed

lemma fcontract_buffer: "length out = 32 \<Longrightarrow> length out' = 32 \<Longrightarrow> length ws = 10 \<Longrightarrow> fcontract out ws = fcontract out' ws"
  unfolding fcontract_def by (rule fcontract_bytes_buffer) (simp_all add: borrow_step_def Let_def)

lemma normal_unat:
  assumes "normal_limbs (ints ws)" "i < 10"
  shows "sint (ws ! i) = int (unat (ws ! i))" "unat (ws ! i) < 2 ^ limb_width i"
proof -
  have b: "0 \<le> sint (ws ! i)" "sint (ws ! i) < 2 ^ limb_width i" using assms by (auto simp: normal_limbs_def)
  have "(2 :: int) ^ limb_width i < 2 ^ 63" by (auto simp: limb_width_def)
  then have "unat (of_int (sint (ws ! i)) :: limb) = nat (sint (ws ! i))"
    using b by (simp only: unsigned_of_int take_bit_int_eq_self) (simp add: take_bit_int_eq_self)
  then have u: "unat (ws ! i) = nat (sint (ws ! i))" by simp
  then show s: "sint (ws ! i) = int (unat (ws ! i))" using b by simp
  show "unat (ws ! i) < 2 ^ limb_width i" using b unfolding u by (simp add: nat_less_iff)
qed

lemma fcontract_bytes_value:
  assumes "normal_limbs (ints ws)" "length out = 32"
  shows "int (le_val (fcontract_bytes out ws)) = fval 10 (ints ws)" "length (fcontract_bytes out ws) = 32"
proof -
  have l: "length ws = 10" using assms(1) by (simp add: normal_limbs_def)
  define y0 where "y0 = ws ! 0"
  define y1 where "y1 = push_bit 2 (ws ! 1)"
  define y2 where "y2 = push_bit 3 (ws ! 2)"
  define y3 where "y3 = push_bit 5 (ws ! 3)"
  define y4 where "y4 = push_bit 6 (ws ! 4)"
  define y5 where "y5 = ws ! 5"
  define y6 where "y6 = push_bit 1 (ws ! 6)"
  define y7 where "y7 = push_bit 3 (ws ! 7)"
  define y8 where "y8 = push_bit 4 (ws ! 8)"
  define y9 where "y9 = push_bit 6 (ws ! 9)"
  note y = y0_def y1_def y2_def y3_def y4_def y5_def y6_def y7_def y8_def y9_def
  note n = normal_unat(2) [OF assms(1)]
  have u0: "unat y0 = unat (ws ! 0)" "unat y0 < 2 ^ 26"
    using n [of 0] by (simp_all add: y0_def limb_width_def)
  have u1: "unat y1 = unat (ws ! 1) * 2 ^ 2" "unat y1 < 2 ^ 27"
    using n [of 1] by (simp_all add: y1_def limb_width_def unat_push_bit_exact)
  have u2: "unat y2 = unat (ws ! 2) * 2 ^ 3" "unat y2 < 2 ^ 29"
    using n [of 2] by (simp_all add: y2_def limb_width_def unat_push_bit_exact)
  have u3: "unat y3 = unat (ws ! 3) * 2 ^ 5" "unat y3 < 2 ^ 30"
    using n [of 3] by (simp_all add: y3_def limb_width_def unat_push_bit_exact)
  have u4: "unat y4 = unat (ws ! 4) * 2 ^ 6" "unat y4 < 2 ^ 32"
    using n [of 4] by (simp_all add: y4_def limb_width_def unat_push_bit_exact)
  have u5: "unat y5 = unat (ws ! 5)" "unat y5 < 2 ^ 25"
    using n [of 5] by (simp_all add: y5_def limb_width_def)
  have u6: "unat y6 = unat (ws ! 6) * 2 ^ 1" "unat y6 < 2 ^ 27"
    unfolding y6_def by (subst unat_push_bit_exact; use n [of 6] in \<open>simp add: limb_width_def\<close>)+
  have u7: "unat y7 = unat (ws ! 7) * 2 ^ 3" "unat y7 < 2 ^ 28"
    using n [of 7] by (simp_all add: y7_def limb_width_def unat_push_bit_exact)
  have u8: "unat y8 = unat (ws ! 8) * 2 ^ 4" "unat y8 < 2 ^ 30"
    using n [of 8] by (simp_all add: y8_def limb_width_def unat_push_bit_exact)
  have u9: "unat y9 = unat (ws ! 9) * 2 ^ 6" "unat y9 < 2 ^ 31"
    using n [of 9] by (simp_all add: y9_def limb_width_def unat_push_bit_exact)
  have v0: "unat (lane 0 y0) + 256 * unat (lane 1 y0) + 65536 * unat (lane 2 y0) + 16777216 * unat (lane 3 y0) = unat y0"
    by (rule lanes_value) (use u0 in simp)
  have v1: "unat (lane 0 y1) + 256 * unat (lane 1 y1) + 65536 * unat (lane 2 y1) + 16777216 * unat (lane 3 y1) = unat y1"
    by (rule lanes_value) (use u1 in simp)
  have v2: "unat (lane 0 y2) + 256 * unat (lane 1 y2) + 65536 * unat (lane 2 y2) + 16777216 * unat (lane 3 y2) = unat y2"
    by (rule lanes_value) (use u2 in simp)
  have v3: "unat (lane 0 y3) + 256 * unat (lane 1 y3) + 65536 * unat (lane 2 y3) + 16777216 * unat (lane 3 y3) = unat y3"
    by (rule lanes_value) (use u3 in simp)
  have v4: "unat (lane 0 y4) + 256 * unat (lane 1 y4) + 65536 * unat (lane 2 y4) + 16777216 * unat (lane 3 y4) = unat y4"
    by (rule lanes_value) (use u4 in simp)
  have v5: "unat (lane 0 y5) + 256 * unat (lane 1 y5) + 65536 * unat (lane 2 y5) + 16777216 * unat (lane 3 y5) = unat y5"
    by (rule lanes_value) (use u5 in simp)
  have v6: "unat (lane 0 y6) + 256 * unat (lane 1 y6) + 65536 * unat (lane 2 y6) + 16777216 * unat (lane 3 y6) = unat y6"
    by (rule lanes_value) (use u6 in simp)
  have v7: "unat (lane 0 y7) + 256 * unat (lane 1 y7) + 65536 * unat (lane 2 y7) + 16777216 * unat (lane 3 y7) = unat y7"
    by (rule lanes_value) (use u7 in simp)
  have v8: "unat (lane 0 y8) + 256 * unat (lane 1 y8) + 65536 * unat (lane 2 y8) + 16777216 * unat (lane 3 y8) = unat y8"
    by (rule lanes_value) (use u8 in simp)
  have v9: "unat (lane 0 y9) + 256 * unat (lane 1 y9) + 65536 * unat (lane 2 y9) + 16777216 * unat (lane 3 y9) = unat y9"
    by (rule lanes_value) (use u9 in simp)
  have o0: "unat (lane 3 y0 OR lane 0 y1) = unat (lane 3 y0) + unat (lane 0 y1)"
    unfolding y1_def by (rule lane_or) (use u0 in simp_all)
  have o1: "unat (lane 3 y1 OR lane 0 y2) = unat (lane 3 y1) + unat (lane 0 y2)"
    unfolding y2_def by (rule lane_or) (use u1 in simp_all)
  have o2: "unat (lane 3 y2 OR lane 0 y3) = unat (lane 3 y2) + unat (lane 0 y3)"
    unfolding y3_def by (rule lane_or) (use u2 in simp_all)
  have o3: "unat (lane 3 y3 OR lane 0 y4) = unat (lane 3 y3) + unat (lane 0 y4)"
    unfolding y4_def by (rule lane_or) (use u3 in simp_all)
  have o5: "unat (lane 3 y5 OR lane 0 y6) = unat (lane 3 y5) + unat (lane 0 y6)"
    unfolding y6_def by (rule lane_or) (use u5 in simp_all)
  have o6: "unat (lane 3 y6 OR lane 0 y7) = unat (lane 3 y6) + unat (lane 0 y7)"
    unfolding y7_def by (rule lane_or) (use u6 in simp_all)
  have o7: "unat (lane 3 y7 OR lane 0 y8) = unat (lane 3 y7) + unat (lane 0 y8)"
    unfolding y8_def by (rule lane_or) (use u7 in simp_all)
  have o8: "unat (lane 3 y8 OR lane 0 y9) = unat (lane 3 y8) + unat (lane 0 y9)"
    unfolding y9_def by (rule lane_or) (use u8 in simp_all)
  have e: "fcontract_bytes out ws = [lane 0 y0, lane 1 y0, lane 2 y0, lane 3 y0 OR lane 0 y1, lane 1 y1, lane 2 y1, lane 3 y1 OR lane 0 y2, lane 1 y2, lane 2 y2, lane 3 y2 OR lane 0 y3, lane 1 y3, lane 2 y3, lane 3 y3 OR lane 0 y4, lane 1 y4, lane 2 y4, lane 3 y4, lane 0 y5, lane 1 y5, lane 2 y5, lane 3 y5 OR lane 0 y6, lane 1 y6, lane 2 y6, lane 3 y6 OR lane 0 y7, lane 1 y7, lane 2 y7, lane 3 y7 OR lane 0 y8, lane 1 y8, lane 2 y8, lane 3 y8 OR lane 0 y9, lane 1 y9, lane 2 y9, lane 3 y9]"
    by (rule fcontract_bytes_eq [OF assms(2) l y])
  have "le_val (fcontract_bytes out ws) = unat y0 + 2 ^ 24 * unat y1 + 2 ^ 48 * unat y2 + 2 ^ 72 * unat y3 + 2 ^ 96 * unat y4
     + 2 ^ 128 * unat y5 + 2 ^ 152 * unat y6 + 2 ^ 176 * unat y7 + 2 ^ 200 * unat y8 + 2 ^ 224 * unat y9"
    unfolding e le_val.simps o0 o1 o2 o3 o5 o6 o7 o8 v0 [symmetric] v1 [symmetric] v2 [symmetric] v3 [symmetric] v4 [symmetric]
      v5 [symmetric] v6 [symmetric] v7 [symmetric] v8 [symmetric] v9 [symmetric] by simp
  also have "int \<dots> = fval 10 (ints ws)"
    using l normal_unat(1) [OF assms(1)] by (simp add: fval_10 u0(1) u1(1) u2(1) u3(1) u4(1) u5(1) u6(1) u7(1) u8(1) u9(1))
  finally show "int (le_val (fcontract_bytes out ws)) = fval 10 (ints ws)" .
  show "length (fcontract_bytes out ws) = 32" unfolding e by simp
qed

lemma le_val_normal: 
  assumes "normal_limbs zs"
  shows "0 \<le> fval 10 zs" "fval 10 zs < 2 ^ 255"
proof -
  have b: "0 \<le> zs ! j" "zs ! j \<le> full_limbs ! j" if "j < 10" for j
    using assms that full_width(1) [OF that] by (auto simp: normal_limbs_def)
  show "0 \<le> fval 10 zs" unfolding fval_def using b by (intro sum_nonneg) simp
  have "fval 10 zs \<le> fval 10 full_limbs" unfolding fval_def using b by (intro sum_mono mult_right_mono) simp_all
  also have "\<dots> < 2 ^ 255" by (simp add: fval_10 full_limbs_def)
  finally show "fval 10 zs < 2 ^ 255" .
qed

lemma fcontract_value:
  assumes "limbs_within full_limbs ws" "length ws = 10" "length out = 32"
  shows "length (fcontract out ws) = 32" "int (le_val (fcontract out ws)) mod p25519 = fe_val ws mod p25519"
    "le_val (fcontract out ws) < 2 ^ 255" "fcontract out ws = fcontract_bytes out (borrow_pass (borrow_pass ws))"
proof -
  note p = passes [OF assms(1,2)]
  show e: "fcontract out ws = fcontract_bytes out (borrow_pass (borrow_pass ws))"
    by (simp add: fcontract_def last_step_id [OF p(1)])
  note v = fcontract_bytes_value [OF p(1) assms(3)]
  show "length (fcontract out ws) = 32" "int (le_val (fcontract out ws)) mod p25519 = fe_val ws mod p25519"
    unfolding e using v p(2) by simp_all
  have "int (le_val (fcontract out ws)) < 2 ^ 255" unfolding e v(1) by (rule le_val_normal(2) [OF p(1)])
  then show "le_val (fcontract out ws) < 2 ^ 255" by simp
qed

section \<open>Properties\<close>

text \<open>\<open>fcontract\<close> writes a number below 2^255 that is the value of its limbs modulo 2^255 - 19, from any limbs below their
  widths in magnitude and whatever the buffer held. The borrow from limb 0 after the second pass never changes
  anything, although the comment calls it necessary.\<close>

theorem fcontract_correct:
  assumes "limbs_within full_limbs ws" "length ws = 10" "length out = 32"
  shows "length (fcontract out ws) = 32 \<and> le_val (fcontract out ws) < 2 ^ 255 \<and>
    int (le_val (fcontract out ws)) mod p25519 = fe_val ws mod p25519 \<and>
    fcontract out ws = fcontract_bytes out (borrow_pass (borrow_pass ws))"
  using fcontract_value [OF assms] by simp

theorem fcontract_correct_witness:
  "length (fcontract (replicate 32 7) (replicate 10 (- 1))) = 32 \<and> le_val (fcontract (replicate 32 7) (replicate 10 (- 1))) < 2 ^ 255 \<and>
    int (le_val (fcontract (replicate 32 7) (replicate 10 (- 1)))) mod p25519 = fe_val (replicate 10 (- 1)) mod p25519 \<and>
    fcontract (replicate 32 7) (replicate 10 (- 1)) = fcontract_bytes (replicate 32 7) (borrow_pass (borrow_pass (replicate 10 (- 1))))"
  by (rule fcontract_correct) (simp_all add: limbs_within_def bounded_def full_limbs_def nth_Cons' numeral_eq_Suc)

end
