(* ===== verification/Curve25519.thy ===== *)
theory Curve25519
  imports Curve_Bytes
begin

text \<open>
  Personal-HomeKit-HAP/curve25519/curve25519-donna.c: the Montgomery ladder (\<open>fmonty\<close>, \<open>swap_conditional\<close>, \<open>cmult\<close>), the
  inversion by a chain of squarings (\<open>crecip\<close>) and \<open>curve25519_donna\<close>, the key agreement of pair verify. The pointers the
  loop of \<open>cmult\<close> exchanges after each bit are the state it returns; of the arrays of 19 limbs the callees overwrite only
  what the next callee reads, the first ten limbs.

  The abstract description is \<open>x25519\<close>: the ladder on integers modulo p = 2^255 - 19 with a24 = 121665, over the 256 bits of
  the scalar, and x * z^(p - 2). \<open>curve25519_correct\<close> is the refinement: the bytes the code writes are that value. Not
  modelled as a theorem is that the ladder multiplies points of the curve, and that two parties get one secret.
\<close>

section \<open>The code\<close>

text \<open>The exchange is a mask: all ones or zero, in 32 bits.\<close>

definition swap_conditional :: "limb list \<Rightarrow> limb list \<Rightarrow> limb \<Rightarrow> limb list \<times> limb list" where
  "swap_conditional a b iswap =
     (let swap = ucast (- iswap) :: 32 word;
          x = (\<lambda>i. swap AND (ucast (a ! i) XOR ucast (b ! i)))
      in (on_ten (\<lambda>i. scast (ucast (a ! i) XOR x i)) a, on_ten (\<lambda>i. scast (ucast (b ! i) XOR x i)) b))"

text \<open>The two points of the ladder: nqx, nqz, nqpqx, nqpqz.\<close>

type_synonym ladder = "limb list \<times> limb list \<times> limb list \<times> limb list"

definition fmonty :: "limb list \<Rightarrow> limb list \<Rightarrow> limb list \<Rightarrow> limb list \<Rightarrow> limb list \<Rightarrow> ladder" where
  "fmonty x z xprime zprime qmqp =
     (let origx = take 10 x;
          x = fsum x z;
          z = fdifference z origx;
          origxprime = take 10 xprime;
          xprime = fsum xprime zprime;
          zprime = fdifference zprime origxprime;
          xxprime = fproduct xprime z;
          zzprime = fproduct x zprime;
          xxprime = freduce_coefficients (freduce_degree xxprime);
          zzprime = freduce_coefficients (freduce_degree zzprime);
          origxprime = take 10 xxprime;
          xxprime = fsum xxprime zzprime;
          zzprime = fdifference zzprime origxprime;
          xxxprime = fsquare xxprime;
          zzzprime = fsquare zzprime;
          zzprime = freduce_coefficients (freduce_degree (fproduct zzzprime qmqp));
          x3 = take 10 xxxprime;
          z3 = take 10 zzprime;
          xx = fsquare x;
          zz = fsquare z;
          x2 = freduce_coefficients (freduce_degree (fproduct xx zz));
          zz = fdifference zz xx;
          zzz = fscalar_product (replicate 19 0) zz 121665;
          zzz = freduce_coefficients zzz;
          zzz = fsum zzz xx;
          z2 = freduce_coefficients (freduce_degree (fproduct zz zzz))
      in (x2, z2, x3, z3))"

text \<open>The body of the loop over the bits of a byte, and that loop.\<close>

definition ladder_round :: "limb list \<Rightarrow> limb \<Rightarrow> ladder \<Rightarrow> ladder" where
  "ladder_round q b st =
     (case st of (nqx, nqz, nqpqx, nqpqz) \<Rightarrow>
        let (nqx, nqpqx) = swap_conditional nqx nqpqx b;
            (nqz, nqpqz) = swap_conditional nqz nqpqz b;
            (nqx2, nqz2, nqpqx2, nqpqz2) = fmonty nqx nqz nqpqx nqpqz q;
            (nqx2, nqpqx2) = swap_conditional nqx2 nqpqx2 b;
            (nqz2, nqpqz2) = swap_conditional nqz2 nqpqz2 b
        in (nqx2, nqz2, nqpqx2, nqpqz2))"

definition ladder_byte :: "limb list \<Rightarrow> byte \<Rightarrow> ladder \<Rightarrow> ladder" where
  "ladder_byte q v st = snd (fold (\<lambda>j (v, st). (push_bit 1 v, ladder_round q (ucast (drop_bit 7 v)) st)) [0..<8] (v, st))"

definition cmult :: "byte list \<Rightarrow> limb list \<Rightarrow> limb list \<times> limb list" where
  "cmult n q =
     (let a = take 10 q @ replicate 9 0; b = 1 # replicate 18 0; c = 1 # replicate 18 0; d = replicate 19 0;
          (nqx, nqz, nqpqx, nqpqz) = fold (\<lambda>i. ladder_byte q (n ! (31 - i))) [0..<32] (c, d, a, b)
      in (take 10 nqx, take 10 nqz))"

text \<open>The loops of \<open>crecip\<close> run two squarings at a time: \<open>squarings (n - 2)\<close> for the bound \<open>n\<close>.\<close>

definition squarings :: "nat \<Rightarrow> limb list \<Rightarrow> limb list" where
  "squarings n = (fsquare ^^ n)"

definition crecip :: "limb list \<Rightarrow> limb list" where
  "crecip z =
     (let z2 = fsquare z; t1 = fsquare z2; t0 = fsquare t1; z9 = fmul t0 z; z11 = fmul z9 z2; t0 = fsquare z11;
          z2_5_0 = fmul t0 z9;
          t0 = fsquare z2_5_0; t1 = fsquare t0; t0 = fsquare t1; t1 = fsquare t0; t0 = fsquare t1;
          z2_10_0 = fmul t0 z2_5_0;
          t0 = fsquare z2_10_0; t1 = fsquare t0; t1 = squarings 8 t1;
          z2_20_0 = fmul t1 z2_10_0;
          t0 = fsquare z2_20_0; t1 = fsquare t0; t1 = squarings 18 t1;
          t0 = fmul t1 z2_20_0;
          t1 = fsquare t0; t0 = fsquare t1; t0 = squarings 8 t0;
          z2_50_0 = fmul t0 z2_10_0;
          t0 = fsquare z2_50_0; t1 = fsquare t0; t1 = squarings 48 t1;
          z2_100_0 = fmul t1 z2_50_0;
          t1 = fsquare z2_100_0; t0 = fsquare t1; t0 = squarings 98 t0;
          t1 = fmul t0 z2_100_0;
          t0 = fsquare t1; t1 = fsquare t0; t1 = squarings 48 t1;
          t0 = fmul t1 z2_50_0;
          t1 = fsquare t0; t0 = fsquare t1; t1 = fsquare t0; t0 = fsquare t1; t1 = fsquare t0
      in fmul t1 z11)"

definition curve25519_donna :: "byte list \<Rightarrow> byte list \<Rightarrow> byte list \<Rightarrow> byte list" where
  "curve25519_donna mypublic secret basepoint =
     (let e = take 32 secret;
          e = e[0 := e ! 0 AND 248];
          e = e[31 := e ! 31 AND 127];
          e = e[31 := e ! 31 OR 64];
          bp = fexpand basepoint;
          (x, z) = cmult e bp;
          zmone = crecip z;
          z = fmul x zmone @ [0];
          z = freduce_coefficients z
      in fcontract mypublic (take 10 z))"

section \<open>The ladder on integers\<close>

definition monty :: "int \<Rightarrow> int \<times> int \<times> int \<times> int \<Rightarrow> int \<times> int \<times> int \<times> int" where
  "monty q st =
     (case st of (x2, z2, x3, z3) \<Rightarrow>
       let a = x2 + z2; aa = a ^ 2; b = x2 - z2; bb = b ^ 2; e = aa - bb; c = x3 + z3; d = x3 - z3; da = d * a; cb = c * b
       in (aa * bb mod p25519, e * (aa + 121665 * e) mod p25519, (da + cb) ^ 2 mod p25519, q * (da - cb) ^ 2 mod p25519))"

definition exchange_pair :: "int \<times> int \<times> int \<times> int \<Rightarrow> int \<times> int \<times> int \<times> int" where
  "exchange_pair st = (case st of (x2, z2, x3, z3) \<Rightarrow> (x3, z3, x2, z2))"

definition monty_round :: "int \<Rightarrow> bool \<Rightarrow> int \<times> int \<times> int \<times> int \<Rightarrow> int \<times> int \<times> int \<times> int" where
  "monty_round q b st = (if b then exchange_pair (monty q (exchange_pair st)) else monty q st)"

fun monty_ladder :: "int \<Rightarrow> nat \<Rightarrow> nat \<Rightarrow> int \<times> int \<times> int \<times> int \<Rightarrow> int \<times> int \<times> int \<times> int" where
  "monty_ladder q k 0 st = st"
| "monty_ladder q k (Suc n) st = monty_ladder q k n (monty_round q (odd (k div 2 ^ n)) st)"

definition x25519 :: "nat \<Rightarrow> int \<Rightarrow> int" where
  "x25519 k u = (case monty_ladder u k 256 (1, 0, u, 1) of (x2, z2, x3, z3) \<Rightarrow> x2 * z2 ^ (2 ^ 255 - 21) mod p25519)"

definition clamped :: "nat \<Rightarrow> nat" where
  "clamped v = 2 ^ 254 + 8 * (v div 8 mod 2 ^ 251)"

text \<open>The four arrays of the code represent four integers.\<close>

definition rep4 :: "int \<times> int \<times> int \<times> int \<Rightarrow> ladder \<Rightarrow> bool" where
  "rep4 c st \<longleftrightarrow> (case (c, st) of ((a, b, c, d), (x, z, x', z')) \<Rightarrow> represents loose_limbs a x \<and> represents loose_limbs b z \<and> represents loose_limbs c x' \<and> represents loose_limbs d z')"

section \<open>The code follows it\<close>

lemma fmonty_rep:
  assumes "represents loose_limbs x2 x" "represents loose_limbs z2 z" "represents loose_limbs x3 x'" "represents loose_limbs z3 z'" "represents loose_limbs q w"
  shows "rep4 (monty q (x2, z2, x3, z3)) (fmonty x z x' z' w)"
proof -
  note t = iffD2 [OF rep_take]
  have s: "represents double_limbs (x2 + z2) (fsum x z)" "represents double_limbs (x2 - z2) (fdifference z (take 10 x))"
    "represents double_limbs (x3 + z3) (fsum x' z')" "represents double_limbs (x3 - z3) (fdifference z' (take 10 x'))"
    by (intro fsum_rep fdifference_rep t assms)+
  define xxp where "xxp = reduce_product (fproduct (fsum x' z') (fdifference z (take 10 x)))"
  define zzp where "zzp = reduce_product (fproduct (fsum x z) (fdifference z' (take 10 x')))"
  have p: "represents loose_limbs ((x3 + z3) * (x2 - z2)) xxp" "represents loose_limbs ((x2 + z2) * (x3 - z3)) zzp"
    unfolding xxp_def zzp_def by (intro product_rep s)+
  define xx where "xx = fsquare (fsum x z)"
  define zz where "zz = fsquare (fdifference z (take 10 x))"
  have sq: "represents loose_limbs ((x2 + z2) * (x2 + z2)) xx" "represents loose_limbs ((x2 - z2) * (x2 - z2)) zz"
    unfolding xx_def zz_def by (intro fsquare_rep s)+
  define e where "e = (x2 + z2) * (x2 + z2) - (x2 - z2) * (x2 - z2)"
  have e: "represents double_limbs e (fdifference zz xx)" unfolding e_def by (intro fdifference_rep sq)
  have k: "represents loose_limbs (121665 * e) (freduce_coefficients (fscalar_product (replicate 19 0) (fdifference zz xx) 121665))"
    by (intro scaled_rep e) simp
  have r: "fmonty x z x' z' w =
    (reduce_product (fproduct xx zz),
     reduce_product (fproduct (fdifference zz xx)
       (fsum (freduce_coefficients (fscalar_product (replicate 19 0) (fdifference zz xx) 121665)) xx)),
     take 10 (fsquare (fsum xxp zzp)),
     take 10 (reduce_product (fproduct (fsquare (fdifference zzp (take 10 xxp))) w)))"
    by (simp only: fmonty_def Let_def xx_def zz_def xxp_def zzp_def)
  have o: "represents loose_limbs ((x2 + z2) * (x2 + z2) * ((x2 - z2) * (x2 - z2))) (reduce_product (fproduct xx zz))"
      "represents loose_limbs (e * (121665 * e + (x2 + z2) * (x2 + z2))) (reduce_product (fproduct (fdifference zz xx)
       (fsum (freduce_coefficients (fscalar_product (replicate 19 0) (fdifference zz xx) 121665)) xx)))"
      "represents loose_limbs (((x3 + z3) * (x2 - z2) + (x2 + z2) * (x3 - z3)) * ((x3 + z3) * (x2 - z2) + (x2 + z2) * (x3 - z3)))
        (take 10 (fsquare (fsum xxp zzp)))"
      "represents loose_limbs (((x3 + z3) * (x2 - z2) - (x2 + z2) * (x3 - z3)) * ((x3 + z3) * (x2 - z2) - (x2 + z2) * (x3 - z3)) * q)
         (take 10 (reduce_product (fproduct (fsquare (fdifference zzp (take 10 xxp))) w)))"
    by (intro product_rep fsquare_rep fsum_rep fdifference_rep rep_loose sq e k p t assms)+
  show ?thesis unfolding r rep4_def monty_def Let_def prod.case
    by (intro conjI; (rule rep_cong [OF o(1)] rep_cong [OF o(2)] rep_cong [OF o(3)] rep_cong [OF o(4)])) (simp_all add: e_def power2_eq_square algebra_simps)
qed

lemma cast_back: "\<bar>sint (v :: limb)\<bar> < 2 ^ 31 \<Longrightarrow> scast (ucast v :: 32 word) = v"
  using s32_of_int [of "sint v"] by (simp add: s32_def)

lemma rep_ten: "represents loose_limbs c a \<Longrightarrow> (\<And>i. i < 10 \<Longrightarrow> b ! i = a ! i) \<Longrightarrow> 10 \<le> length b \<Longrightarrow> represents loose_limbs c b"
proof -
  assume a: "represents loose_limbs c a" "\<And>i. i < 10 \<Longrightarrow> b ! i = a ! i" "10 \<le> length b"
  then have "take 10 b = take 10 a" using rep_D(1) [OF a(1)] by (intro nth_equalityI) simp_all
  then show ?thesis using a(1) rep_take [of loose_limbs c a] rep_take [of loose_limbs c b] by simp
qed

lemma swap_rep:
  assumes "represents loose_limbs c a" "represents loose_limbs d b" "swap_conditional a b (of_bool s) = (a', b')"
  shows "represents loose_limbs (if s then d else c) a'" "represents loose_limbs (if s then c else d) b'"
proof -
  have l: "10 \<le> length a" "10 \<le> length b" using assms rep_D(1) by blast+
  have c: "scast (ucast (a ! i) :: 32 word) = a ! i" "scast (ucast (b ! i) :: 32 word) = b ! i" if "i < 10" for i
    using rep_D(2) [OF assms(1) that] rep_D(2) [OF assms(2) that] loose_double(2) [OF that] by (auto intro!: cast_back)
  have m: "ucast (- 1 :: limb) = (- 1 :: 32 word)" by (rule bit_word_eqI) (simp add: bit_simps)
  have x: "u XOR (u XOR v) = v" "v XOR (u XOR v) = u" for u v :: "32 word"
    by (auto simp: bit_eq_iff bit_xor_iff)
  have "a' ! i = (if s then b ! i else a ! i)" "b' ! i = (if s then a ! i else b ! i)" if "i < 10" for i
    using assms(3) that l c [OF that] by (auto simp: swap_conditional_def Let_def nth_on_ten x m)
  moreover have "10 \<le> length a'" "10 \<le> length b'" using assms(3) l by (auto simp: swap_conditional_def Let_def length_on_ten)
  ultimately show "represents loose_limbs (if s then d else c) a'" "represents loose_limbs (if s then c else d) b'"
    using assms(1,2) by (auto intro: rep_ten)
qed

lemma round_rep:
  assumes "rep4 c st" "represents loose_limbs q w"
  shows "rep4 (monty_round q b c) (ladder_round w (of_bool b) st)"
proof -
  obtain x z x' z' where st: "st = (x, z, x', z')" by (cases st)
  obtain c1 c2 c3 c4 where c: "c = (c1, c2, c3, c4)" by (cases c)
  have r: "represents loose_limbs c1 x" "represents loose_limbs c2 z" "represents loose_limbs c3 x'" "represents loose_limbs c4 z'" using assms(1) by (simp_all add: st c rep4_def)
  obtain x1 x1' where s1: "swap_conditional x x' (of_bool b) = (x1, x1')" by fastforce
  obtain z1 z1' where s2: "swap_conditional z z' (of_bool b) = (z1, z1')" by fastforce
  obtain y v y' v' where f: "fmonty x1 z1 x1' z1' w = (y, v, y', v')" by (cases "fmonty x1 z1 x1' z1' w")
  obtain y1 y1' where s3: "swap_conditional y y' (of_bool b) = (y1, y1')" by fastforce
  obtain v1 v1' where s4: "swap_conditional v v' (of_bool b) = (v1, v1')" by fastforce
  note fm = fmonty_rep [OF swap_rep(1) [OF r(1,3) s1] swap_rep(1) [OF r(2,4) s2] swap_rep(2) [OF r(1,3) s1] swap_rep(2) [OF r(2,4) s2] assms(2)]
  obtain d1 d2 d3 d4 where d: "monty q (if b then c3 else c1, if b then c4 else c2, if b then c1 else c3, if b then c2 else c4) = (d1, d2, d3, d4)"
    by (cases "monty q (if b then c3 else c1, if b then c4 else c2, if b then c1 else c3, if b then c2 else c4)")
  have t: "represents loose_limbs d1 y" "represents loose_limbs d2 v" "represents loose_limbs d3 y'" "represents loose_limbs d4 v'" using fm by (simp_all add: f d rep4_def)
  have "ladder_round w (of_bool b) st = (y1, v1, y1', v1')"
    by (simp add: st ladder_round_def s1 s2 s3 s4 f)
  moreover have "monty_round q b c = (if b then d3 else d1, if b then d4 else d2, if b then d1 else d3, if b then d2 else d4)"
    using d by (cases b) (simp_all add: c monty_round_def exchange_pair_def)
  ultimately show ?thesis using swap_rep [OF t(1,3) s3] swap_rep [OF t(2,4) s4] by (simp add: rep4_def)
qed

lemma ladder_split: "monty_ladder q k (m + n) st = monty_ladder q k m (monty_ladder q (k div 2 ^ m) n st)"
  by (induction n arbitrary: st) (simp_all add: div_mult2_eq power_add)

lemma ladder_low: "k mod 2 ^ n = k' mod 2 ^ n \<Longrightarrow> monty_ladder q k n st = monty_ladder q k' n st"
proof (induction n arbitrary: st)
  case (Suc n)
  have "k mod 2 ^ n = k' mod 2 ^ n" using Suc.prems by (metis mod_mod_cancel le_imp_power_dvd le_SucI order_refl)
  moreover have "odd (m div 2 ^ n) = bit (m mod 2 ^ Suc n) n" for m :: nat
    by (simp only: bit_iff_odd [symmetric] take_bit_eq_mod [symmetric] bit_take_bit_iff) simp
  then have "odd (k div 2 ^ n) = odd (k' div 2 ^ n)" using Suc.prems by simp
  ultimately show ?case using Suc.IH by simp
qed simp

lemma byte_bit: "j < 8 \<Longrightarrow> ucast (drop_bit 7 (push_bit j (v :: byte))) = (of_bool (bit v (7 - j)) :: limb)"
  by (rule bit_word_eqI) (auto simp: bit_simps)

lemma byte_fold:
  "m \<le> 8 \<Longrightarrow> fold (\<lambda>j (v, st). (push_bit 1 v, ladder_round w (ucast (drop_bit 7 v)) st)) [0..<m] (v :: byte, st) =
    (push_bit m v, fold (\<lambda>j. ladder_round w (of_bool (bit v (7 - j)))) [0..<m] st)"
proof (induction m)
  case (Suc m)
  define F where "F = (\<lambda>j :: nat. \<lambda>(v :: byte, st). (push_bit 1 v, ladder_round w (ucast (drop_bit 7 v)) st))"
  define G where "G = (\<lambda>j. ladder_round w (of_bool (bit v (7 - j))))"
  have "fold F [0..<Suc m] (v, st) = F m (push_bit m v, fold G [0..<m] st)"
    using Suc unfolding F_def [symmetric] G_def [symmetric] by simp
  also have "\<dots> = (push_bit (Suc m) v, G m (fold G [0..<m] st))"
    using byte_bit [of m v] Suc.prems by (simp only: F_def G_def case_prod_conv push_bit_push_bit) simp
  finally show ?case unfolding F_def [symmetric] G_def [symmetric] by simp
qed simp

lemma ladder_fold: "monty_ladder q k n c = fold (\<lambda>j. monty_round q (bit k j)) (rev [0..<n]) c"
  by (induction n arbitrary: c) (simp_all add: bit_iff_odd)

lemma byte_rep:
  assumes "rep4 c st" "represents loose_limbs q w"
  shows "rep4 (monty_ladder q (unat v) 8 c) (ladder_byte w v st)"
proof -
  have r: "rev [0..<8] = map (\<lambda>j. 7 - j) [0..<8]" by (simp add: upt_conv_Cons)
  have m: "ladder_byte w v st = fold (\<lambda>j. ladder_round w (of_bool (bit v j))) (rev [0..<8]) st"
    using byte_fold [of 8 w v st] unfolding r by (simp add: ladder_byte_def fold_map comp_def)
  have "rep4 (fold (\<lambda>j. monty_round q (bit v j)) js c) (fold (\<lambda>j. ladder_round w (of_bool (bit v j))) js st)" for js
    using assms(1)
  proof (induction js arbitrary: c st)
    case (Cons j js)
    show ?case using Cons.IH [OF round_rep [OF Cons.prems assms(2)]] by simp
  qed simp
  then show ?thesis unfolding m ladder_fold by (simp add: bit_unsigned_iff)
qed

lemma bytes_rep:
  assumes "rep4 c st" "represents loose_limbs q w"
  shows "rep4 (monty_ladder q (le_val vs) (8 * length vs) c) (fold (ladder_byte w) (rev vs) st)"
proof (induction vs)
  case Nil
  then show ?case using assms by simp
next
  case (Cons v vs)
  have "monty_ladder q (le_val (v # vs)) (8 * length (v # vs)) c =
    monty_ladder q (le_val (v # vs)) 8 (monty_ladder q (le_val (v # vs) div 2 ^ 8) (8 * length vs) c)"
    using ladder_split [of q "le_val (v # vs)" 8 "8 * length vs" c] by simp
  also have "le_val (v # vs) div 2 ^ 8 = le_val vs" using unat_byte_less [of v] by simp
  also have "monty_ladder q (le_val (v # vs)) 8 = monty_ladder q (unat v) 8"
    by (intro ext ladder_low) simp
  finally show ?case using byte_rep [OF Cons assms(2), of v] by simp
qed

lemma const_rep: "represents loose_limbs 0 (replicate 19 0)" "represents loose_limbs 1 (1 # replicate 18 0)"
  by (simp_all add: represents_def limbs_within_def bounded_def fe_val_def fval_list upt_lists loose_limbs_def limb_weight_def nth_Cons')

lemma cmult_rep:
  assumes "represents loose_limbs q w" "length n = 32" "cmult n w = (x, z)" "monty_ladder q (le_val n) 256 (1, 0, q, 1) = (x2, z2, x3, z3)"
  shows "represents loose_limbs x2 x" "represents loose_limbs z2 z"
proof -
  have "fold (\<lambda>i. ladder_byte w (n ! (31 - i))) [0..<32] = fold (ladder_byte w) (map (\<lambda>i. n ! (31 - i)) [0..<32])"
    by (simp add: fold_map comp_def)
  also have "map (\<lambda>i. n ! (31 - i)) [0..<32] = rev n"
    using assms(2) by (intro nth_equalityI) (simp_all add: rev_nth)
  finally have f: "fold (\<lambda>i. ladder_byte w (n ! (31 - i))) [0..<32] = fold (ladder_byte w) (rev n)" .
  have "represents loose_limbs q (take 10 w @ replicate 9 0)" using assms(1) rep_D(1) [OF assms(1)] by (intro rep_ten [OF assms(1)]) (auto simp: nth_append)
  then have "rep4 (1, 0, q, 1) (1 # replicate 18 0, replicate 19 0, take 10 w @ replicate 9 0, 1 # replicate 18 0)"
    using const_rep by (simp add: rep4_def)
  from bytes_rep [OF this assms(1), of n] show "represents loose_limbs x2 x" "represents loose_limbs z2 z"
    using assms(2-4) f by (auto simp: cmult_def Let_def rep4_def rep_take split: prod.splits)
qed

section \<open>The inversion\<close>

lemma square_power: "represents loose_limbs (c ^ e) z \<Longrightarrow> represents loose_limbs (c ^ (2 * e)) (fsquare z)"
  using fsquare_rep [OF rep_loose, of "c ^ e" z] by (simp add: mult_2 power_add)

lemma mul_power: "represents loose_limbs (c ^ e) y \<Longrightarrow> represents loose_limbs (c ^ f) z \<Longrightarrow> represents loose_limbs (c ^ (e + f)) (fmul y z)"
  using fmul_rep [OF rep_loose rep_loose, of "c ^ e" y "c ^ f" z] by (simp add: power_add)

lemma squarings_power: "represents loose_limbs (c ^ e) z \<Longrightarrow> represents loose_limbs (c ^ (2 ^ n * e)) (squarings n z)"
  using square_power by (induction n) (fastforce simp: squarings_def mult.assoc)+

lemma crecip_rep:
  assumes "represents loose_limbs c z"
  shows "represents loose_limbs (c ^ (2 ^ 255 - 21)) (crecip z)"
proof -
  have p1: "represents loose_limbs (c ^ 1) z" using assms by simp
  note sq = square_power [of c] and ml = mul_power [of c] and sqs = squarings_power [of c]
  note p2 = sq [OF p1, simplified]
  note p8 = sq [OF sq [OF p2], simplified]
  note p9 = ml [OF p8 p1, simplified]
  note p11 = ml [OF p9 p2, simplified]
  note p31 = ml [OF sq [OF p11] p9, simplified]
  note p_10 = ml [OF sq [OF sq [OF sq [OF sq [OF sq [OF p31]]]]] p31, simplified]
  note p_20 = ml [OF sqs [OF sq [OF sq [OF p_10]], of 8] p_10, simplified]
  note p_40 = ml [OF sqs [OF sq [OF sq [OF p_20]], of 18] p_20, simplified]
  note p_50 = ml [OF sqs [OF sq [OF sq [OF p_40]], of 8] p_10, simplified]
  note p_100 = ml [OF sqs [OF sq [OF sq [OF p_50]], of 48] p_50, simplified]
  note p_200 = ml [OF sqs [OF sq [OF sq [OF p_100]], of 98] p_100, simplified]
  note p_250 = ml [OF sqs [OF sq [OF sq [OF p_200]], of 48] p_50, simplified]
  note p_255 = ml [OF sq [OF sq [OF sq [OF sq [OF sq [OF p_250]]]]] p11, simplified]
  show ?thesis using p_255 by (simp add: crecip_def Let_def)
qed

section \<open>The scalar\<close>

lemma unat_and_248: "unat (b AND 248 :: byte) = 8 * (unat b div 8)"
proof -
  have "b AND 248 = b AND push_bit 3 (mask 5)" by (simp add: mask_eq_exp_minus_1)
  also have "\<dots> = push_bit 3 (drop_bit 3 b)" by (rule bit_word_eqI) (auto simp: bit_simps)
  finally have e: "b AND 248 = push_bit 3 (drop_bit 3 b)" .
  have "unat b < 256" by (rule unat_byte_less)
  then have "unat (push_bit 3 (drop_bit 3 b)) = unat (drop_bit 3 b) * 2 ^ 3"
    by (intro unat_push_bit_exact) (simp add: unat_drop_bit_div)
  then show ?thesis by (simp add: e unat_drop_bit_div)
qed

lemma unat_top_bits: "unat ((b AND 127) OR 64 :: byte) = 64 + unat b mod 64"
proof -
  have m: "127 = (mask 7 :: byte)" "64 = (push_bit 6 1 :: byte)" by (simp_all add: mask_eq_exp_minus_1)
  have e: "(b AND 127) OR 64 = (b AND mask 6) OR push_bit 6 1"
    unfolding m by (rule bit_word_eqI) (simp only: bit_or_iff bit_and_iff bit_mask_iff bit_push_bit_iff bit_1_iff, auto)
  have u: "unat (b AND mask 6) = unat b mod 2 ^ 6" by (rule unat_and_mask_mod)
  have l: "unat b mod 2 ^ 6 < 2 ^ 6" by (rule mod_less_divisor) simp
  have "unat ((b AND mask 6) OR push_bit 6 1) = unat (b AND mask 6) + unat (1 :: byte) * 2 ^ 6"
    by (rule unat_or_disjoint) (use u l in simp_all)
  then show ?thesis unfolding e u by simp
qed

lemma clamp_value:
  assumes "length e = 32"
  shows "le_val (e[0 := e ! 0 AND 248, 31 := (e ! 31 AND 127) OR 64]) = clamped (le_val e)"
proof -
  obtain a r where "e = a # r" "length r = 31" using assms by (cases e) auto
  moreover from this obtain m z where "r = m @ [z]" "length m = 30" by (cases r rule: rev_cases) auto
  ultimately have e: "e = a # m @ [z]" and lm: "length m = 30" by simp_all
  define M A Z where "M = le_val m" and "A = unat a" and "Z = unat z"
  have b: "M < 2 ^ 240" "A < 256" "Z < 256" using le_val_less [of m] lm unat_byte_less by (simp_all add: M_def A_def Z_def)
  have v: "le_val e = A + 256 * M + 2 ^ 248 * Z" by (simp add: e lm le_val_append M_def A_def Z_def)
  have "e[0 := e ! 0 AND 248, 31 := (e ! 31 AND 127) OR 64] = (a AND 248) # m @ [(z AND 127) OR 64]"
    using lm by (simp add: e nth_append list_update_append)
  then have l: "le_val (e[0 := e ! 0 AND 248, 31 := (e ! 31 AND 127) OR 64]) = 8 * (A div 8) + 256 * M + 2 ^ 248 * (64 + Z mod 64)"
    using lm by (simp add: le_val_append unat_and_248 unat_top_bits M_def A_def Z_def)
  have "le_val e = 8 * (32 * M + 2 ^ 245 * Z) + A" using v by simp
  then have d: "le_val e div 8 = A div 8 + 32 * M + 2 ^ 245 * Z" by simp
  have "2 ^ 245 * Z = 2 ^ 245 * (Z mod 64 + 64 * (Z div 64))" by simp
  also have "\<dots> = 2 ^ 245 * (Z mod 64) + 2 ^ 251 * (Z div 64)" by (simp only: distrib_left) simp
  finally have "le_val e div 8 = (A div 8 + 32 * M + 2 ^ 245 * (Z mod 64)) + 2 ^ 251 * (Z div 64)" unfolding d by simp
  moreover have "A div 8 + 32 * M + 2 ^ 245 * (Z mod 64) < 2 ^ 251"
  proof -
    have "A div 8 < 32" using b(2) by (simp add: less_mult_imp_div_less)
    moreover have "Z mod 64 \<le> 63" by (simp add: less_Suc_eq_le [symmetric])
    ultimately show ?thesis using b(1) by simp
  qed
  ultimately have "le_val e div 8 mod 2 ^ 251 = A div 8 + 32 * M + 2 ^ 245 * (Z mod 64)" by simp
  then show ?thesis unfolding l clamped_def by simp
qed

lemma donna_value:
  assumes "length mypublic = 32" "length secret = 32" "length basepoint = 32"
  shows "length (curve25519_donna mypublic secret basepoint) = 32"
    and "int (le_val (curve25519_donna mypublic secret basepoint)) mod p25519 = x25519 (clamped (le_val secret)) (int (le_val basepoint))"
    and "le_val (curve25519_donna mypublic secret basepoint) < 2 ^ 255"
proof -
  define q where "q = int (le_val basepoint)"
  define e where "e = secret[0 := secret ! 0 AND 248, 31 := (secret ! 31 AND 127) OR 64]"
  obtain x z where c: "cmult e (fexpand basepoint) = (x, z)" by fastforce
  obtain x2 z2 x3 z3 where l: "monty_ladder q (le_val e) 256 (1, 0, q, 1) = (x2, z2, x3, z3)" by (cases "monty_ladder q (le_val e) 256 (1, 0, q, 1)")
  have q: "represents loose_limbs q (fexpand basepoint)" unfolding q_def by (rule fexpand_rep [OF assms(3)])
  have r: "represents loose_limbs x2 x" "represents loose_limbs z2 z" using cmult_rep [OF q _ c l] assms(2) by (simp_all add: e_def)
  define m where "m = fmul x (crecip z)"
  have m: "represents reduced_limbs (x2 * z2 ^ (2 ^ 255 - 21)) m"
    unfolding m_def by (intro fmul_reduced rep_loose r crecip_rep)
  have lm: "length m = 10" using within_length [of reduced_limbs m] m by (simp add: m_def fmul_def represents_def)
  have t: "take 10 (m @ [0]) = m" using lm by simp
  have "represents reduced_limbs (x2 * z2 ^ (2 ^ 255 - 21)) (m @ [0])" "fe_val (m @ [0]) = fe_val m"
    using m rep_take [of reduced_limbs _ "m @ [0]"] fe_take [of "m @ [0]"] lm unfolding t by (simp_all add: fe_val_def)
  then obtain k where "carried (full_limbs @ [0]) (freduce_coefficients (m @ [0])) (fe_val m + p25519 * k)"
    using freduce_again [of "m @ [0]"] lm by (auto simp: represents_def)
  from car_within [OF this] have "represents full_limbs (fe_val m) (freduce_coefficients (m @ [0]))" by (simp add: represents_def)
  then have w: "represents full_limbs (fe_val m) (take 10 (freduce_coefficients (m @ [0])))" by (simp only: rep_take)
  let ?w = "take 10 (freduce_coefficients (m @ [0]))"
  have lw: "length ?w = 10" using lm by simp
  have d: "curve25519_donna mypublic secret basepoint = fcontract mypublic ?w"
    using assms(2) c by (simp add: curve25519_donna_def Let_def e_def m_def)
  note o = fcontract_value [OF _ lw assms(1)]
  show "length (curve25519_donna mypublic secret basepoint) = 32" "le_val (curve25519_donna mypublic secret basepoint) < 2 ^ 255"
    unfolding d using o w by (auto simp: represents_def)
  show "int (le_val (curve25519_donna mypublic secret basepoint)) mod p25519 = x25519 (clamped (le_val secret)) (int (le_val basepoint))"
    unfolding d using o(2) w m l clamp_value [OF assms(2)] by (simp add: x25519_def represents_def q_def e_def)
qed

text \<open>What the buffer held before does not matter.\<close>

lemma donna_buffer:
  assumes "length m = 32" "length m' = 32"
  shows "curve25519_donna m s p = curve25519_donna m' s p"
proof -
  have "length (fmul a b) = 10" for a b by (simp add: fmul_def fproduct_def freduce_degree_eq)
  then show ?thesis using assms by (simp add: curve25519_donna_def Let_def fcontract_buffer [of m m'] split: prod.splits)
qed

section \<open>Properties\<close>

text \<open>C9: \<open>curve25519_donna\<close> computes the X25519 function: for any 32 bytes of secret and of point the 32 bytes it writes are,
  modulo 2^255 - 19, the affine coordinate that the ladder over the clamped scalar gives, and less than 2^255. No
  intermediate limb overflows. All 256 bits of the point are used.\<close>

theorem curve25519_correct:
  assumes "length mypublic = 32" "length secret = 32" "length basepoint = 32"
  shows "length (curve25519_donna mypublic secret basepoint) = 32 \<and> le_val (curve25519_donna mypublic secret basepoint) < 2 ^ 255 \<and>
    int (le_val (curve25519_donna mypublic secret basepoint)) mod p25519 = x25519 (clamped (le_val secret)) (int (le_val basepoint))"
  using donna_value [OF assms] by simp

theorem curve25519_correct_witness:
  "length (curve25519_donna (replicate 32 0) (replicate 32 1) (replicate 32 9)) = 32 \<and>
   le_val (curve25519_donna (replicate 32 0) (replicate 32 1) (replicate 32 9)) < 2 ^ 255 \<and>
   int (le_val (curve25519_donna (replicate 32 0) (replicate 32 1) (replicate 32 9))) mod p25519 =
     x25519 (clamped (le_val (replicate 32 1))) (int (le_val (replicate 32 9)))"
  by (rule curve25519_correct) simp_all

end
