(* ===== verification/Hap_Verify.thy ===== *)
theory Hap_Verify
  imports Hap_Setup Hap_Session Curve25519
begin

text \<open>
  Personal-HomeKit-HAP/PHKNetworkIP.cpp, \<open>handlePairVerify\<close>: a paired controller proves who it is and the two sides
  derive the keys of the session. The key agreement is \<open>curve25519_donna\<close>; the signatures are the arguments \<open>hw_sign\<close> and \<open>hw_sign_open\<close> of the world (the last is true when the signature is wrong). Errors are as in
  pair setup: a null pointer that is dereferenced and an access outside a block are None.
\<close>

section \<open>The code\<close>

definition curveBasePoint :: "byte list" where
  "curveBasePoint = 9 # replicate 31 0"

text \<open>The call of \<open>curve25519_donna\<close>; the result does not depend on what its buffer held (\<open>donna_buffer\<close>).\<close>

definition key_agreement :: "byte list \<Rightarrow> byte list \<Rightarrow> byte list" where
  "key_agreement secretKey point = curve25519_donna (replicate 32 0) secretKey point"

text \<open>The connection, and what the loop keeps between messages; all of it is uninitialised at first.\<close>

record pair_verify =
  pv_connection :: connection
  pv_publicKey :: "byte list"
  pv_controllerPublicKey :: "byte list"
  pv_sharedKey :: "byte list"
  pv_enKey :: "byte list"

text \<open>The list of the accessory: its signature over both public keys and its identifier, of which 17 bytes are copied.\<close>

definition verify_M1_list :: "hap_world \<Rightarrow> byte list \<Rightarrow> byte list \<Rightarrow> message_data option" where
  "verify_M1_list w publicKey controllerPublicKey =
     do { let identity = hw_DeviceIdentity w;
          if 64 + length identity > 100 then None
          else do {
            let temp = buffer_copy (replicate 100 0) 0 publicKey;
            let temp = buffer_copy temp 32 identity;
            let temp = buffer_copy temp (32 + length identity) controllerPublicKey;
            let edPubKey = hw_publickey w accessorySecretKey;
            let signature = hw_sign w (take (64 + length identity) temp) accessorySecretKey edPubKey;
            idData \<leftarrow> slice (identity @ [0]) 0 17;
            d \<leftarrow> addRecord new_data (field_record 10 signature);
            addRecord d (field_record 1 idData) } }"

definition verify_M1 :: "hap_world \<Rightarrow> pair_verify \<Rightarrow> message_data \<Rightarrow> (pair_verify \<times> message_data) option" where
  "verify_M1 w p msg =
     do { controllerPublicKey \<leftarrow> dataPtrForIndex msg 3;
          controllerPublicKey \<leftarrow> slice controllerPublicKey 0 32;
          let secretKey = hw_rand w 32;
          let publicKey = key_agreement secretKey curveBasePoint;
          let sharedKey = key_agreement secretKey controllerPublicKey;
          data \<leftarrow> verify_M1_list w publicKey controllerPublicKey;
          response \<leftarrow> addRecord new_data (field_record 3 publicKey);
          let (enKey, i) = call_hkdf w (ascii ''Pair-Verify-Encrypt-Salt'') sharedKey (ascii ''Pair-Verify-Encrypt-Info'') (pv_enKey p);
          let plainMsg = rawData data;
          let msgLen = length plainMsg;
          (chacha, polyKey) \<leftarrow> message_cipher (hw_cipher w) enKey (ascii ''PV-Msg02'');
          let encryptMsg = snd (chacha20_encrypt chacha plainMsg);
          verify \<leftarrow> Poly1305_GenKey polyKey (Some (encryptMsg @ replicate 16 0)) msgLen Type_Data_Without_Length (replicate 16 0);
          response \<leftarrow> addRecord response (field_record 5 (encryptMsg @ verify));
          Some (p\<lparr>pv_publicKey := publicKey, pv_controllerPublicKey := controllerPublicKey, pv_sharedKey := sharedKey, pv_enKey := enKey\<rparr>,
            response) }"

text \<open>The list of the controller: what it signed is compared under the stored key. The length is a \<open>short\<close>.\<close>

definition verify_M3_list ::
  "hap_world \<Rightarrow> controller_store \<Rightarrow> pair_verify \<Rightarrow> message_data \<Rightarrow> (pair_verify \<times> message_data \<times> bool) option" where
  "verify_M3_list w store p data =
     do { identifier \<leftarrow> dataPtrForIndex data 1;
          identifier \<leftarrow> slice identifier 0 36;
          let r = getControllerKey (hw_garbage w 4) (hw_garbage w 32) store identifier;
          let tempMsg = pv_controllerPublicKey p @ identifier @ pv_publicKey p;
          signature \<leftarrow> dataPtrForIndex data 10;
          signature \<leftarrow> slice signature 0 64;
          let err = hw_sign_open w tempMsg (kr_publicKey r) signature;
          if \<not> err then do {
            let c = pv_connection p;
            let (k, i) = call_hkdf w (ascii ''Control-Salt'') (pv_sharedKey p) (ascii ''Control-Read-Encryption-Key'')
              (c_accessoryToControllerKey c);
            let c = c\<lparr>c_accessoryToControllerKey := k\<rparr>;
            let (k, i) = call_hkdf w (ascii ''Control-Salt'') (pv_sharedKey p) (ascii ''Control-Write-Encryption-Key'')
              (c_controllerToAccessoryKey c);
            let c = c\<lparr>c_controllerToAccessoryKey := k\<rparr>;
            Some (p\<lparr>pv_connection := c\<rparr>, new_data, True) }
          else do {
            d \<leftarrow> addRecord new_data (field_record 7 [2]);
            Some (p, d, False) } }"

definition verify_M3 ::
  "hap_world \<Rightarrow> controller_store \<Rightarrow> pair_verify \<Rightarrow> message_data \<Rightarrow> (pair_verify \<times> message_data \<times> bool) option" where
  "verify_M3 w store p msg =
     do { encryptedData \<leftarrow> dataPtrForIndex msg 5;
          let packageLen = sint (of_nat (lengthForIndex msg 5) :: 16 word);
          if packageLen < 16 then None
          else do {
            let len = nat packageLen - 16;
            (chacha20, temp2) \<leftarrow> message_cipher zero_chacha (pv_enKey p) (ascii ''PV-Msg03'');
            verify \<leftarrow> Poly1305_GenKey temp2 (Some encryptedData) len Type_Data_Without_Length (replicate 16 0);
            mac \<leftarrow> slice encryptedData len 16;
            if verify = mac then do {
              body \<leftarrow> slice encryptedData 0 len;
              let decryptData = snd (chacha20_decrypt chacha20 body);
              data \<leftarrow> parse_data decryptData len;
              verify_M3_list w store p data }
            else Some (p, new_data, False) } }"

text \<open>One message: the reply, and whether the loop ends.\<close>

definition verify_message ::
  "hap_world \<Rightarrow> controller_store \<Rightarrow> pair_verify \<Rightarrow> (pair_verify \<times> byte list \<times> bool) option" where
  "verify_message w store p =
     do { msg \<leftarrow> PHKNetworkMessage (hw_message w) (c_buffer (pv_connection p));
          d \<leftarrow> dataPtrForIndex (msg_data msg) 6;
          state \<leftarrow> peek d 0;
          (p, response, ended) \<leftarrow> (if state = 1 then do { (p, d) \<leftarrow> verify_M1 w p (msg_data msg); Some (p, d, False) }
                                else if state = 3 then verify_M3 w store p (msg_data msg)
                                else Some (p, new_data, False));
          reply \<leftarrow> setup_send response (field_record 6 [state + 1]);
          Some (p, reply, ended) }"

definition receive :: "connection \<Rightarrow> byte list \<Rightarrow> connection" where
  "receive c packet = c\<lparr>c_buffer := recv_into (c_buffer c) packet\<rparr>"

fun verify_loop ::
  "(nat \<Rightarrow> hap_world) \<Rightarrow> controller_store \<Rightarrow> pair_verify \<Rightarrow> byte list list \<Rightarrow>
   (pair_verify \<times> byte list list \<times> byte list list) option" where
  "verify_loop ws store p packets =
     do { (p, reply, ended) \<leftarrow> verify_message (ws 0) store p;
          if ended then Some (p, [reply], packets)
          else case packets of
              [] \<Rightarrow> Some (p, [reply], [])
            | packet # packets \<Rightarrow>
                if packet = [] then Some (p, [reply], packets)
                else do {
                  (p, rest, packets) \<leftarrow> verify_loop (ws \<circ> Suc) store (p\<lparr>pv_connection := receive (pv_connection p) packet\<rparr>) packets;
                  Some (p, reply # rest, packets) } }"

declare verify_loop.simps [simp del]

definition handlePairVerify ::
  "(nat \<Rightarrow> hap_world) \<Rightarrow> controller_store \<Rightarrow> connection \<Rightarrow> byte list list \<Rightarrow>
   (connection \<times> byte list list \<times> byte list list) option" where
  "handlePairVerify ws store c packets =
     do { let g = hw_garbage (ws 0) 32;
          (p, sent, packets) \<leftarrow> verify_loop ws store
            \<lparr>pv_connection = c, pv_publicKey = g, pv_controllerPublicKey = g, pv_sharedKey = g, pv_enKey = g\<rparr> packets;
          Some (pv_connection p, sent, packets) }"

section \<open>The steps\<close>

definition verify_key :: "byte list \<Rightarrow> byte list" where
  "verify_key shared = hkdf_key (ascii ''Pair-Verify-Encrypt-Salt'') shared (ascii ''Pair-Verify-Encrypt-Info'')"

definition read_key :: "byte list \<Rightarrow> byte list" where
  "read_key shared = hkdf_key (ascii ''Control-Salt'') shared (ascii ''Control-Read-Encryption-Key'')"

definition write_key :: "byte list \<Rightarrow> byte list" where
  "write_key shared = hkdf_key (ascii ''Control-Salt'') shared (ascii ''Control-Write-Encryption-Key'')"

lemma length_keys [simp]: "length (verify_key k) = 32" "length (read_key k) = 32" "length (write_key k) = 32"
  by (simp_all add: verify_key_def read_key_def write_key_def)

definition verify_fields :: "hap_world \<Rightarrow> byte list \<Rightarrow> byte list \<Rightarrow> field list" where
  "verify_fields w pub cpk =
     [(10, hw_sign w (pub @ hw_DeviceIdentity w @ cpk) accessorySecretKey (hw_publickey w accessorySecretKey)),
      (1, take 17 (hw_DeviceIdentity w @ [0]))]"

definition public_key :: "hap_world \<Rightarrow> byte list" where
  "public_key w = key_agreement (hw_rand w 32) curveBasePoint"

lemma length_key_agreement: "length s = 32 \<Longrightarrow> length p = 32 \<Longrightarrow> length (key_agreement s p) = 32"
  unfolding key_agreement_def by (rule donna_value(1)) simp_all

lemma length_public_key: "hap_ok w \<Longrightarrow> length (public_key w) = 32"
  unfolding public_key_def by (rule length_key_agreement) (simp_all add: hap_ok_def curveBasePoint_def)

lemma two_records: "do { d \<leftarrow> addRecord new_data (record_of a); addRecord d (record_of b) } = Some (data_of [a, b])"
  unfolding one_record bind.bind_lunit using addRecord_data_of [of "[a]" b] by simp

lemma second_record: "addRecord (data_of [a]) (record_of b) = Some (data_of [a, b])"
  using addRecord_data_of [of "[a]" b] by simp

lemma verify_M1_list_value:
  assumes "length pub = 32" "length cpk = 32" "16 \<le> length (hw_DeviceIdentity w)" "length (hw_DeviceIdentity w) \<le> 36"
  shows "verify_M1_list w pub cpk = Some (data_of (verify_fields w pub cpk))"
proof -
  have o: "take (64 + length (hw_DeviceIdentity w)) (buffer_copy (buffer_copy (buffer_copy (replicate 100 0) 0 pub) 32 (hw_DeviceIdentity w))
      (32 + length (hw_DeviceIdentity w)) cpk) = pub @ hw_DeviceIdentity w @ cpk"
    using assms by (intro fill_output) simp_all
  have sl: "slice (hw_DeviceIdentity w @ [0]) 0 17 = Some (take 17 (hw_DeviceIdentity w @ [0]))"
    using assms(3) by (simp add: slice_def)
  show ?thesis
    unfolding verify_M1_list_def field_record_of Let_def o sl bind.bind_lunit
    using assms(4) by (simp add: one_record second_record verify_fields_def)
qed

lemma verify_fields_raw:
  assumes "hap_ok w" "16 \<le> length (hw_DeviceIdentity w)"
  shows "rawData (data_of (verify_fields w pub cpk)) = fragments (verify_fields w pub cpk)" "length (fragments (verify_fields w pub cpk)) = 85"
proof -
  have l: "length (hw_sign w m s p) = 64" for m s p using assms(1) by (simp add: hap_ok_def)
  show r: "length (fragments (verify_fields w pub cpk)) = 85" using assms(2) by (simp add: verify_fields_def l)
  have "hw_sign w m s p \<noteq> []" for m s p using l by (metis list.size(3) zero_neq_numeral)
  then show "rawData (data_of (verify_fields w pub cpk)) = fragments (verify_fields w pub cpk)"
    using r l by (intro raw_short) (auto simp: verify_fields_def)
qed

lemma verify_M1_value:
  assumes hap: "hap_ok w" and id: "16 \<le> length (hw_DeviceIdentity w)" "length (hw_DeviceIdentity w) \<le> 36"
    and msg: "dataPtrForIndex msg 3 = Some cpk" "length cpk = 32" and key: "length (pv_enKey p) = 32"
  defines "shared \<equiv> key_agreement (hw_rand w 32) cpk"
  shows "verify_M1 w p msg = Some (p\<lparr>pv_publicKey := public_key w, pv_controllerPublicKey := cpk, pv_sharedKey := shared,
      pv_enKey := verify_key shared\<rparr>,
    data_of [(3, public_key w), (5, aead_seal (verify_key shared) (ascii ''PV-Msg02'') [] (fragments (verify_fields w (public_key w) cpk)))])"
proof -
  have l: "length (public_key w) = 32" "length shared = 32" using hap msg(2) by (simp_all add: length_public_key shared_def length_key_agreement hap_ok_def)
  have h: "call_hkdf w (ascii ''Pair-Verify-Encrypt-Salt'') shared (ascii ''Pair-Verify-Encrypt-Info'') (pv_enKey p) = (verify_key shared, 0)"
    unfolding verify_key_def by (rule call_hkdf_value [OF hap]) (simp_all add: l key ascii_def)
  have sl: "slice cpk 0 32 = Some cpk" using msg(2) by (simp add: slice_def)
  note raw = verify_fields_raw [OF hap id(1), of "public_key w" cpk]
  have n: "length (ascii ''PV-Msg02'') = 8" by (simp add: ascii_def)
  have d: "2 \<le> length (fragments (verify_fields w (public_key w) cpk))" "length (fragments (verify_fields w (public_key w) cpk)) < 65536"
    by (simp_all add: raw(2))
  show ?thesis
    by (rule seal_steps [OF length_keys(1) n d, of "hw_cipher w" shared])
      (simp add: verify_M1_def msg(1) sl public_key_def [symmetric] shared_def [symmetric] verify_M1_list_value [OF l(1) msg(2) id]
        field_record_of one_record h raw(1) second_record aead_seal_def Let_def)
qed

lemma getControllerKey_lookup:
  "getControllerKey rest junk s key = (case store_lookup s (take 32 key) of Some r \<Rightarrow> r
     | None \<Rightarrow> \<lparr>kr_controllerID = replicate 32 0 @ rest, kr_publicKey = junk\<rparr>)"
proof -
  have "same_id key = (\<lambda>r. id_of r = take 32 key)" by (simp add: same_id_eq fun_eq_iff)
  then show ?thesis by (simp add: getControllerKey_def store_lookup_def)
qed

text \<open>The key a signature is checked with; for an unknown controller it is whatever the memory held.\<close>

definition known_key :: "hap_world \<Rightarrow> controller_store \<Rightarrow> byte list \<Rightarrow> byte list" where
  "known_key w store cid = (case store_lookup store (take 32 cid) of Some r \<Rightarrow> kr_publicKey r | None \<Rightarrow> hw_garbage w 32)"

lemma verify_M3_list_value:
  assumes hap: "hap_ok w" and d: "dataPtrForIndex d 1 = Some cid" "36 \<le> length cid" "dataPtrForIndex d 10 = Some sig" "64 \<le> length sig"
    and p: "length (pv_sharedKey p) = 32" "length (c_accessoryToControllerKey (pv_connection p)) = 32"
      "length (c_controllerToAccessoryKey (pv_connection p)) = 32"
  shows "verify_M3_list w store p d = Some
    (if hw_sign_open w (pv_controllerPublicKey p @ take 36 cid @ pv_publicKey p) (known_key w store cid) (take 64 sig)
     then (p, data_of [(7, [2])], False)
     else (p\<lparr>pv_connection := (pv_connection p)\<lparr>c_accessoryToControllerKey := read_key (pv_sharedKey p),
       c_controllerToAccessoryKey := write_key (pv_sharedKey p)\<rparr>\<rparr>, new_data, True))"
proof -
  have h: "call_hkdf w (ascii ''Control-Salt'') (pv_sharedKey p) (ascii ''Control-Read-Encryption-Key'') (c_accessoryToControllerKey (pv_connection p)) =
      (read_key (pv_sharedKey p), 0)"
    unfolding read_key_def by (rule call_hkdf_value [OF hap]) (simp_all add: p ascii_def)
  have h2: "call_hkdf w (ascii ''Control-Salt'') (pv_sharedKey p) (ascii ''Control-Write-Encryption-Key'') (c_controllerToAccessoryKey (pv_connection p)) =
      (write_key (pv_sharedKey p), 0)"
    unfolding write_key_def by (rule call_hkdf_value [OF hap]) (simp_all add: p ascii_def)
  have sl: "slice cid 0 36 = Some (take 36 cid)" "slice sig 0 64 = Some (take 64 sig)" using d by (simp_all add: slice_def)
  have k: "kr_publicKey (getControllerKey (hw_garbage w 4) (hw_garbage w 32) store (take 36 cid)) = known_key w store cid"
    by (simp add: getControllerKey_lookup known_key_def min_def split: option.split)
  show ?thesis
    by (simp add: verify_M3_list_def d(1,3) sl k h h2 field_record_of one_record)
qed

lemma sint_small: "n < 2 ^ 15 \<Longrightarrow> sint (of_nat n :: 16 word) = int n"
  by (simp add: sint_uint unsigned_of_nat take_bit_nat_eq_self signed_take_bit_int_eq_self)

lemma verify_M3_value:
  assumes key: "length (pv_enKey p) = 32" and msg: "dataPtrForIndex msg 5 = Some (ct @ tag)" "length tag = 16" "length ct < 32752"
  shows "verify_M3 w store p msg =
    (if tag = setup_tag (pv_enKey p) (ascii ''PV-Msg03'') ct
     then do { d \<leftarrow> parse_data (aead_crypt (pv_enKey p) (ascii ''PV-Msg03'') ct) (length ct); verify_M3_list w store p d }
     else Some (p, new_data, False))"
proof -
  have n: "length (ascii ''PV-Msg03'') = 8" by (simp add: ascii_def)
  have l: "lengthForIndex msg 5 = length ct + 16" using msg(1,2) by (simp add: length_lookup)
  have s: "sint (of_nat (length ct + 16) :: 16 word) = int (length ct + 16)" using msg(3) by (intro sint_small) simp
  have g: "ct @ tag \<noteq> []" "length ct < 65536" using msg(2,3) by auto
  have n2: "nat (int (length ct + 16)) - 16 = length ct" "\<not> int (length ct + 16) < 16" by simp_all
  have sl: "slice (ct @ tag) (length ct) 16 = Some tag" "slice (ct @ tag) 0 (length ct) = Some ct" using msg(2) by (simp_all add: slice_def)
  show ?thesis
    by (rule open_steps [OF key n g(2,1), of zero_chacha])
      (simp only: verify_M3_def msg(1) bind.bind_lunit l s n2 Let_def if_False prod.case sl eq_commute [of tag])
qed

section \<open>What the loop keeps\<close>

text \<open>Some signature passed the check, over two public keys and the identifier of a controller.\<close>

definition accepted :: "hap_world \<Rightarrow> controller_store \<Rightarrow> bool" where
  "accepted w store \<longleftrightarrow> (\<exists>cpk cid pub sig. length cid = 36 \<and> \<not> hw_sign_open w (cpk @ cid @ pub) (known_key w store cid) sig)"

definition same_but_keys :: "connection \<Rightarrow> connection \<Rightarrow> bool" where
  "same_but_keys c c' \<longleftrightarrow> c' = c\<lparr>c_controllerToAccessoryKey := c_controllerToAccessoryKey c',
     c_accessoryToControllerKey := c_accessoryToControllerKey c'\<rparr>"

lemma same_but_keys_refl [simp]: "same_but_keys c c"
  by (simp add: same_but_keys_def)

lemma verify_M1_connection: "verify_M1 w p msg = Some (p', d) \<Longrightarrow> pv_connection p' = pv_connection p"
  by (auto simp: verify_M1_def Let_def bind_eq_Some_conv case_prod_unfold)

lemma getControllerKey_known: "kr_publicKey (getControllerKey (hw_garbage w 4) (hw_garbage w 32) store cid) = known_key w store cid"
  by (simp add: getControllerKey_lookup known_key_def split: option.split)

lemma verify_M3_list_effect:
  assumes "verify_M3_list w store p d = Some (p', r, ended)"
  shows "same_but_keys (pv_connection p) (pv_connection p') \<and> (ended \<or> pv_connection p' \<noteq> pv_connection p \<longrightarrow> accepted w store)"
proof -
  obtain cid cid36 sig sig64 where l: "dataPtrForIndex d 1 = Some cid" "slice cid 0 36 = Some cid36"
    "dataPtrForIndex d 10 = Some sig" "slice sig 0 64 = Some sig64"
    using assms by (auto simp: verify_M3_list_def Let_def bind_eq_Some_conv)
  have "length cid36 = 36" using l(2) by (auto simp: slice_def split: if_splits)
  then have acc: "\<not> hw_sign_open w (pv_controllerPublicKey p @ cid36 @ pv_publicKey p) (known_key w store cid36) sig64 \<Longrightarrow> accepted w store"
    by (auto simp: accepted_def)
  show ?thesis
    using assms acc
    by (auto simp: verify_M3_list_def Let_def l getControllerKey_known same_but_keys_def bind_eq_Some_conv case_prod_unfold split: if_splits)
qed

lemma verify_M3_effect:
  assumes "verify_M3 w store p msg = Some (p', r, ended)"
  shows "same_but_keys (pv_connection p) (pv_connection p') \<and> (ended \<or> pv_connection p' \<noteq> pv_connection p \<longrightarrow> accepted w store)"
  using assms verify_M3_list_effect [of w store p _ p' r ended]
  by (auto simp: verify_M3_def Let_def bind_eq_Some_conv split: if_splits prod.splits)

lemma verify_message_effect:
  assumes "verify_message w store p = Some (p', r, ended)"
  shows "same_but_keys (pv_connection p) (pv_connection p') \<and> (ended \<or> pv_connection p' \<noteq> pv_connection p \<longrightarrow> accepted w store)"
  using assms
  by (auto simp: verify_message_def Let_def bind_eq_Some_conv dest: verify_M1_connection verify_M3_effect split: if_splits)

definition same_keys :: "connection \<Rightarrow> connection \<Rightarrow> bool" where
  "same_keys c c' \<longleftrightarrow> c_controllerToAccessoryKey c' = c_controllerToAccessoryKey c \<and> c_accessoryToControllerKey c' = c_accessoryToControllerKey c"

lemma verify_loop_effect:
  assumes "verify_loop ws store p packets = Some (p', sent, rest)"
  shows "c_subSocket (pv_connection p') = c_subSocket (pv_connection p) \<and> length rest \<le> length packets \<and>
    (same_keys (pv_connection p) (pv_connection p') \<or> (\<exists>n. accepted (ws n) store))"
  using assms
proof (induction ws store p packets arbitrary: p' sent rest rule: verify_loop.induct)
  case (1 ws store p packets)
  obtain p1 reply ended where m: "verify_message (ws 0) store p = Some (p1, reply, ended)"
    using "1.prems" by (subst (asm) verify_loop.simps) (auto simp: bind_eq_Some_conv)
  have e: "same_but_keys (pv_connection p) (pv_connection p1)" "pv_connection p1 = pv_connection p \<or> accepted (ws 0) store"
    using verify_message_effect [OF m] by auto
  have s: "c_subSocket (pv_connection p1) = c_subSocket (pv_connection p)"
    using e(1) unfolding same_but_keys_def by (metis connection.select_convs(6) connection.surjective connection.update_convs(2,3))
  show ?case
  proof (cases "ended \<or> packets = [] \<or> hd packets = []")
    case True
    then have "p' = p1 \<and> length rest \<le> length packets"
      using "1.prems" by (subst (asm) verify_loop.simps) (auto simp: m split: list.splits if_splits)
    then show ?thesis using e(2) s by (auto simp: same_keys_def)
  next
    case False
    then obtain q qs where q: "packets = q # qs" "q \<noteq> []" "\<not> ended" by (cases packets) auto
    let ?p2 = "p1\<lparr>pv_connection := receive (pv_connection p1) q\<rparr>"
    obtain sent' where l: "verify_loop (ws \<circ> Suc) store ?p2 qs = Some (p', sent', rest)"
      using "1.prems" q by (subst (asm) verify_loop.simps) (auto simp: m bind_eq_Some_conv)
    from "1.IH" [OF m _ _ q(3,1,2) l] have
      "c_subSocket (pv_connection p') = c_subSocket (pv_connection ?p2) \<and> length rest \<le> length qs \<and>
        (same_keys (pv_connection ?p2) (pv_connection p') \<or> (\<exists>n. accepted ((ws \<circ> Suc) n) store))" by simp
    then show ?thesis using e(2) s q(1) by (auto simp: same_keys_def receive_def)
  qed
qed

lemma handlePairVerify_effect:
  assumes "handlePairVerify ws store c packets = Some (c', sent, rest)"
  shows "c_subSocket c' = c_subSocket c \<and> length rest \<le> length packets \<and> (same_keys c c' \<or> (\<exists>n. accepted (ws n) store))"
  using assms verify_loop_effect [of ws store] by (fastforce simp: handlePairVerify_def Let_def bind_eq_Some_conv)

lemma verify_fields_parsed:
  assumes "length cid = 36" "length sig = 64"
  shows "parse_data (fragments [(1, cid), (10, sig)]) 104 = Some (data_of [(1, cid), (10, sig)])"
    "length (fragments [(1, cid), (10, sig)]) = 104"
proof -
  have d: "distinct (map fst [(1 :: byte, cid), (10, sig)])" by simp
  show l: "length (fragments [(1, cid), (10, sig)]) = 104" using assms by (simp add: encode_fragment_def)
  show "parse_data (fragments [(1, cid), (10, sig)]) 104 = Some (data_of [(1, cid), (10, sig)])"
    using parse_data_fragments [of "[(1, cid), (10, sig)]" "[]", unfolded l merged_distinct [OF d]] assms by (simp add: tags_def)
qed

definition state_request :: "byte list \<Rightarrow> byte \<Rightarrow> byte list" where
  "state_request D b = request_text (ascii ''POST'') D [] 3 (ascii ''tlv8'') @ fragments [(6, [b])] @ replicate 20 0"

lemma state_request_parsed:
  assumes "word_ok 20 32 D"
  shows "PHKNetworkMessage old (state_request D b) =
    Some \<lparr>msg_method = ascii ''POST'', msg_type = ascii ''lv8'', msg_directory = D, msg_data = data_of [(6, [b])]\<rparr>"
proof -
  have d: "distinct (map fst [(6 :: byte, [b])])" by simp
  have l: "length (fragments [(6, [b])]) = 3" by (simp add: encode_fragment_def)
  have "parse_data (fragments [(6, [b])] @ replicate 20 0) 3 = Some (data_of [(6, [b])])"
    using parse_data_fragments [of "[(6, [b])]" "replicate 20 0", unfolded l merged_distinct [OF d]] by (simp add: tags_def)
  moreover have "host_ok []" by (simp add: host_ok_def)
  moreover have "assign_data new_data (data_of [(6, [b])]) = data_of [(6, [b])]" by (rule assign_nonempty) simp_all
  moreover have "word_ok 5 32 (ascii ''POST'')" "word_ok 41 13 (ascii ''tlv8'')" by (simp_all add: word_ok_def ascii_def)
  moreover have "length (request_text (ascii ''POST'') D [] 3 (ascii ''tlv8'') @ fragments [(6, [b])]) \<le> 1024"
    using assms l by (simp add: request_text_def word_ok_def ascii_def int2str.simps)
  ultimately show ?thesis unfolding state_request_def by (subst request_read [OF _ assms]) (simp_all add: ascii_def)
qed

section \<open>Properties\<close>


definition sample_verify :: pair_verify where
  "sample_verify = \<lparr>pv_connection = connection_init, pv_publicKey = replicate 32 9, pv_controllerPublicKey = replicate 32 9,
     pv_sharedKey = replicate 32 9, pv_enKey = replicate 32 9\<rparr>"

lemma sample_verify_parts:
  "length (pv_enKey sample_verify) = 32" "length (pv_sharedKey sample_verify) = 32"
  "length (c_accessoryToControllerKey (pv_connection sample_verify)) = 32"
  "length (c_controllerToAccessoryKey (pv_connection sample_verify)) = 32" "pv_enKey sample_verify = replicate 32 9"
  by (simp_all add: sample_verify_def connection_init_def)

definition verify_hap :: hap_world where
  "verify_hap = sample_hap\<lparr>hw_DeviceIdentity := replicate 17 65, hw_sign_open := (\<lambda>m k s. s \<noteq> replicate 64 3)\<rparr>"

lemma verify_hap_parts:
  "hap_ok verify_hap" "hw_DeviceIdentity verify_hap = replicate 17 65" "hw_rand verify_hap 32 = replicate 32 3"
  "hw_sign_open verify_hap m k s \<longleftrightarrow> s \<noteq> replicate 64 3" "hw_garbage verify_hap 32 = replicate 32 9"
  using sample_hap_ok by (simp_all add: verify_hap_def hap_ok_def sample_hap_def)

definition sample_secret :: "byte list" where
  "sample_secret = key_agreement (replicate 32 3) (replicate 32 5)"





lemma state_reply: "\<exists>r. setup_send new_data (field_record 6 [b]) = Some r"
proof -
  have "addRecord new_data (field_record 6 [b]) = Some (data_of [(6, [b])])" by (simp add: field_record_of one_record)
  moreover have "rawData (data_of [(6, [b])]) = [6, 1, b]" by (subst raw_short) (simp_all add: encode_fragment_def)
  ultimately show ?thesis
    by (simp add: setup_send_def response_getBinaryPtr_def PHKNetworkResponse_def responseType_def str5_def int2str.simps ascii_def)
qed


text \<open>For an identifier that no stored controller has, the signature is checked under uninitialised memory: whoever knows
  a key pair for its content is accepted.\<close>

theorem verify_unknown_controller:
  assumes "hap_ok w" "store_lookup store (take 32 cid) = None" "length cid = 36" "length sig = 64" "length (pv_sharedKey p) = 32"
    and "length (c_accessoryToControllerKey (pv_connection p)) = 32" "length (c_controllerToAccessoryKey (pv_connection p)) = 32"
    and "\<not> hw_sign_open w (pv_controllerPublicKey p @ cid @ pv_publicKey p) (hw_garbage w 32) sig"
  shows "\<exists>p'. verify_M3_list w store p (data_of [(1, cid), (10, sig)]) = Some (p', new_data, True) \<and>
    c_accessoryToControllerKey (pv_connection p') = read_key (pv_sharedKey p)"
proof -
  have d: "distinct (map fst [(1 :: byte, cid), (10, sig)])" by simp
  have k: "known_key w store cid = hw_garbage w 32" using assms(2) by (simp add: known_key_def)
  show ?thesis
    using verify_M3_list_value [OF assms(1) _ _ _ _ assms(5-7), of "data_of [(1, cid), (10, sig)]" cid sig store] assms(3,4,8)
    by (simp add: data_of_lookup(1) [OF d] k)
qed

theorem verify_unknown_controller_witness:
  "\<exists>p'. verify_M3_list verify_hap empty_store sample_verify (data_of [(1, replicate 36 1), (10, replicate 64 3)]) = Some (p', new_data, True) \<and>
    c_accessoryToControllerKey (pv_connection p') = read_key (replicate 32 9)"
  using verify_unknown_controller [OF verify_hap_parts(1), of empty_store "replicate 36 1" "replicate 64 3" sample_verify]
  by (simp add: verify_hap_parts empty_store_def store_lookup_def) (simp add: sample_verify_def connection_init_def)

end
