(* ===== verification/Hap_Server.thy ===== *)
theory Hap_Server
  imports Hap_Verify
begin

text \<open>
  Personal-HomeKit-HAP/PHKNetworkIP.cpp: the life of a connection (\<open>connectionLoop\<close>), the table of connections
  (\<open>handleConnection\<close>), the start of the server and the text record it announces. What \<open>recv\<close> returns is a list of
  packets; an empty one and the end of the list stand for a closed connection. Threads run one connection each;
  the theorems are about one of them.
\<close>

section \<open>The code\<close>

definition numberOfClient :: nat where "numberOfClient = 20"

definition write204 :: "byte list" where
  "write204 = ascii ''HTTP/1.1 204 No Content'' @ [13, 10] @ ascii ''Content-Type: application/hap+json'' @ [13, 10] @
     ascii ''Content-Length: 0'' @ [13, 10, 13, 10]"

record server =
  sv_store :: controller_store
  sv_currentConfigurationNum :: nat
  sv_currentDeviceType :: nat
  sv_DeviceName :: "byte list"

text \<open>The entries of the record; the identifier is 17 bytes, read past its end when it is shorter, and the buffer of the number
  has ten bytes.\<close>

definition buildTXTRecord :: "server \<Rightarrow> byte list \<Rightarrow> (string \<times> byte list) list option" where
  "buildTXTRecord sv identity =
     do { id17 \<leftarrow> slice (identity @ [0]) 0 17;
          let buf = take 9 (int2str (sv_currentConfigurationNum sv));
          let sf = (if hasController (sv_store sv) then 48 else 49);
          Some [(''pv'', ascii ''1.0''), (''id'', id17), (''c#'', buf), (''s#'', ascii ''1''), (''sf'', [sf]), (''ff'', ascii ''0''),
            (''md'', sv_DeviceName sv), (''ci'', int2str (sv_currentDeviceType sv))] }"

text \<open>The counter is an \<open>int\<close>; the announced record is returned.\<close>

definition updateConfiguration :: "server \<Rightarrow> byte list \<Rightarrow> (server \<times> (string \<times> byte list) list) option" where
  "updateConfiguration sv identity =
     (if sv_currentConfigurationNum sv + 1 < 2 ^ 31
      then do { let sv = sv\<lparr>sv_currentConfigurationNum := sv_currentConfigurationNum sv + 1\<rparr>;
                txt \<leftarrow> buildTXTRecord sv identity;
                Some (sv, txt) }
      else None)"

definition resetControllerAll :: "server \<Rightarrow> server" where
  "resetControllerAll sv = sv\<lparr>sv_store := resetController (sv_store sv), sv_currentConfigurationNum := 1\<rparr>"

definition server_start :: "bool \<Rightarrow> byte list \<Rightarrow> nat \<Rightarrow> byte list \<Rightarrow> server \<times> connection list" where
  "server_start sees_end name deviceType file =
     (\<lparr>sv_store = loadController sees_end file, sv_currentConfigurationNum = 1, sv_currentDeviceType = deviceType, sv_DeviceName = name\<rparr>,
      replicate numberOfClient connection_init)"

text \<open>One round of the loop on a packet that is not empty: the state, what is sent, and the packets that are left.
  After \<open>identify\<close> the socket is closed, so that the next \<open>recv\<close> fails.\<close>

definition connection_round ::
  "(nat \<Rightarrow> hap_world) \<Rightarrow> 'a accessory \<Rightarrow> message \<Rightarrow> server \<Rightarrow> connection \<Rightarrow> 'a \<Rightarrow> byte list list \<Rightarrow>
   (server \<times> connection \<times> 'a \<times> byte list list \<times> byte list list) option" where
  "connection_round ws handleAccessory msg sv c a packets =
     (if msg_directory msg = ascii ''pair-setup'' then do {
        (store, buffer, sent, packets) \<leftarrow> handlePairSeup ws (sv_store sv) (c_buffer c) packets;
        (sv, txt) \<leftarrow> updateConfiguration (sv\<lparr>sv_store := store\<rparr>) (hw_DeviceIdentity (ws 0));
        Some (sv, c\<lparr>c_buffer := buffer\<rparr>, a, sent, packets) }
      else if msg_directory msg = ascii ''pair-verify'' then do {
        (c, sent, packets) \<leftarrow> handlePairVerify ws (sv_store sv) c packets;
        (c, a, sent2) \<leftarrow> handleAccessoryRequest handleAccessory c a packets;
        Some (sv, c, a, sent @ sent2, []) }
      else if msg_directory msg = ascii ''identify'' then Some (sv, c, a, [write204], [])
      else Some (sv, c, a, [], packets))"

text \<open>No handler gives back more packets than it was given.\<close>

lemma setup_loop_rest: "setup_loop ws p buffer packets = Some (p', buffer', sent, rest) \<Longrightarrow> length rest \<le> length packets"
proof (induction ws p buffer packets arbitrary: p' buffer' sent rest rule: setup_loop.induct)
  case (1 ws p buffer packets)
  obtain p1 s1 again where m: "setup_message (ws 0) p buffer = Some (p1, s1, again)"
    using "1.prems" by (subst (asm) setup_loop.simps) (auto simp: bind_eq_Some_conv)
  show ?case
  proof (cases "\<not> again \<or> packets = [] \<or> hd packets = []")
    case True
    then show ?thesis using "1.prems" by (subst (asm) setup_loop.simps) (auto simp: m split: list.splits if_splits)
  next
    case False
    then obtain q qs where q: "packets = q # qs" "q \<noteq> []" "\<not> \<not> again" by (cases packets) auto
    then obtain sent' where l: "setup_loop (ws \<circ> Suc) p1 (recv_into buffer q) qs = Some (p', buffer', sent', rest)"
      using "1.prems" by (subst (asm) setup_loop.simps) (auto simp: m bind_eq_Some_conv)
    from "1.IH" [OF m refl refl q(3,1,2) l] show ?thesis using q(1) by simp
  qed
qed

lemma connection_round_rest:
  assumes "connection_round ws h msg sv c a packets = Some (sv', c', a', sent, rest)"
  shows "length rest \<le> length packets"
  using assms
  by (auto simp: connection_round_def handlePairSeup_def bind_eq_Some_conv dest: setup_loop_rest handlePairVerify_effect split: if_splits)

text \<open>The message is parsed before the length is looked at.\<close>

function (sequential) connection_loop ::
  "(nat \<Rightarrow> nat \<Rightarrow> hap_world) \<Rightarrow> 'a accessory \<Rightarrow> server \<Rightarrow> connection \<Rightarrow> 'a \<Rightarrow> byte list list \<Rightarrow>
   (server \<times> connection \<times> 'a \<times> byte list list) option" where
  "connection_loop ws handleAccessory sv c a [] =
     do { msg \<leftarrow> PHKNetworkMessage (hw_message (ws 0 0)) (c_buffer c);
          Some (sv, c\<lparr>c_subSocket := - 1\<rparr>, a, []) }"
| "connection_loop ws handleAccessory sv c a (packet # packets) =
     do { let c = receive c packet;
          msg \<leftarrow> PHKNetworkMessage (hw_message (ws 0 0)) (c_buffer c);
          if packet = [] then Some (sv, c\<lparr>c_subSocket := - 1\<rparr>, a, [])
          else do {
            (sv, c, a, sent, packets) \<leftarrow> connection_round (ws 0) handleAccessory msg sv c a packets;
            (sv, c, a, rest) \<leftarrow> connection_loop (ws \<circ> Suc) handleAccessory sv c a packets;
            Some (sv, c, a, sent @ rest) } }"
  by pat_completeness auto
termination
  by (relation "measure (\<lambda>(ws, h, sv, c, a, packets). length packets)") (auto dest!: connection_round_rest)

definition connectionLoop ::
  "(nat \<Rightarrow> nat \<Rightarrow> hap_world) \<Rightarrow> 'a accessory \<Rightarrow> server \<Rightarrow> connection \<Rightarrow> 'a \<Rightarrow> byte list list \<Rightarrow>
   (server \<times> connection \<times> 'a \<times> byte list list) option" where
  "connectionLoop ws handleAccessory sv info a packets =
     (if c_subSocket info \<ge> 0 then connection_loop ws handleAccessory sv info a packets else Some (sv, info, a, []))"

text \<open>\<open>accept\<close> gave \<open>subSocket\<close>: the table and whether the socket was closed at once.\<close>

fun first_free :: "connection list \<Rightarrow> nat option" where
  "first_free [] = None"
| "first_free (c # cs) = (if c_subSocket c = - 1 then Some 0 else map_option Suc (first_free cs))"

definition handleConnection :: "connection list \<Rightarrow> int \<Rightarrow> connection list \<times> bool" where
  "handleConnection cs subSocket =
     (if subSocket < 0 then (cs, False)
      else case first_free cs of
          Some i \<Rightarrow> (cs[i := (cs ! i)\<lparr>c_subSocket := subSocket\<rparr>], False)
        | None \<Rightarrow> (cs, True))"

section \<open>What a connection keeps\<close>

lemma handleAccessoryRequest_keys:
  assumes "handleAccessoryRequest h c a packets = Some (c', a', sent)"
  shows "same_keys c c'"
  using assms
  by (auto simp: handleAccessoryRequest_def Let_def bind_eq_Some_conv same_keys_def clearNotify_def dest!: accessory_loop_effect)

text \<open>Some world of the round accepted a signature under a key of the store.\<close>

definition round_accepts :: "(nat \<Rightarrow> hap_world) \<Rightarrow> server \<Rightarrow> bool" where
  "round_accepts ws sv \<longleftrightarrow> (\<exists>n. accepted (ws n) (sv_store sv))"

lemma connection_round_keys:
  assumes "connection_round ws h msg sv c a packets = Some (sv', c', a', sent, rest)"
  shows "same_keys c c' \<or> round_accepts ws sv \<and> msg_directory msg = ascii ''pair-verify''"
  using assms
  by (auto simp: connection_round_def same_keys_def round_accepts_def bind_eq_Some_conv
      dest!: handlePairVerify_effect handleAccessoryRequest_keys split: if_splits)

text \<open>A controller is stored only by the last message of pair setup; no stored one is replaced or forgotten.\<close>

definition store_grows :: "controller_store \<Rightarrow> controller_store \<Rightarrow> bool" where
  "store_grows s s' \<longleftrightarrow> (store_ok s \<longrightarrow> store_ok s' \<and>
     (\<forall>k. store_lookup s k \<noteq> None \<longrightarrow> store_lookup s' k = store_lookup s k))"

lemma store_grows_refl [simp]: "store_grows s s"
  by (simp add: store_grows_def)

lemma store_grows_trans: "store_grows s t \<Longrightarrow> store_grows t u \<Longrightarrow> store_grows s u"
  unfolding store_grows_def by metis

lemma store_grows_add: "record_ok (id_of r) r \<Longrightarrow> store_grows s (addControllerKey s r)"
  by (auto simp: store_grows_def store_ok_add store.lookup_add)

lemma setup_M5_list_store:
  assumes "setup_M5_list w p list = Some (p', out)"
  shows "store_grows (ps_store p) (ps_store p')"
proof -
  obtain d cid cid36 pk pk32 where l: "parse_data list (length list) = Some d" "dataPtrForIndex d 1 = Some cid" "slice cid 0 36 = Some cid36"
    "dataPtrForIndex d 3 = Some pk" "slice pk 0 32 = Some pk32"
    using assms by (auto simp: setup_M5_list_def Let_def bind_eq_Some_conv)
  have "ps_store p' = addControllerKey (ps_store p) \<lparr>kr_controllerID = cid36, kr_publicKey = pk32\<rparr>"
    using assms by (auto simp: setup_M5_list_def l Let_def bind_eq_Some_conv case_prod_unfold split: if_splits)
  moreover have "length cid36 = 36" "length pk32 = 32" using l(3,5) by (auto simp: slice_def split: if_splits)
  ultimately show ?thesis by (simp add: store_grows_add record_ok_def)
qed

lemma setup_M5_store: "setup_M5 w p msg = Some (p', out) \<Longrightarrow> store_grows (ps_store p) (ps_store p')"
  by (auto simp: setup_M5_def Let_def bind_eq_Some_conv case_prod_unfold dest: setup_M5_list_store split: if_splits)

lemma setup_M1_store: "setup_M1 w p r = Some (p', out) \<Longrightarrow> ps_store p' = ps_store p"
  by (auto simp: setup_M1_def Let_def bind_eq_Some_conv case_prod_unfold)

lemma setup_M3_store: "setup_M3 w p msg = Some (p', out) \<Longrightarrow> ps_store p' = ps_store p"
  by (auto simp: setup_M3_def Let_def bind_eq_Some_conv case_prod_unfold)

lemma setup_message_store:
  assumes "setup_message w p buffer = Some (p', sent, again)"
  shows "store_grows (ps_store p) (ps_store p')"
proof -
  obtain msg d state where m: "PHKNetworkMessage (hw_message w) buffer = Some msg" "dataPtrForIndex (msg_data msg) 6 = Some d" "peek d 0 = Some state"
    using assms by (auto simp: setup_message_def bind_eq_Some_conv)
  define step where "step = (if state = 1 then setup_M1 w p (field_record 6 [state + 1]) else if state = 3 then setup_M3 w p (msg_data msg)
       else if state = 5 then setup_M5 w p (msg_data msg) else Some (p, Respond new_data))"
  obtain p1 out where st: "step = Some (p1, out)"
    using assms unfolding setup_message_def m bind.bind_lunit Let_def step_def [symmetric] by (auto simp: bind_eq_Some_conv)
  have "p' = p1"
    using assms unfolding setup_message_def m bind.bind_lunit Let_def step_def [symmetric]
    by (cases out) (auto simp: st bind_eq_Some_conv split: if_splits)
  note s = st this
  then show ?thesis by (auto simp: step_def dest: setup_M1_store setup_M3_store setup_M5_store split: if_splits)
qed

lemma setup_loop_store: "setup_loop ws p buffer packets = Some (p', buffer', sent, rest) \<Longrightarrow> store_grows (ps_store p) (ps_store p')"
proof (induction ws p buffer packets arbitrary: p' buffer' sent rest rule: setup_loop.induct)
  case (1 ws p buffer packets)
  obtain p1 s1 again where m: "setup_message (ws 0) p buffer = Some (p1, s1, again)"
    using "1.prems" by (subst (asm) setup_loop.simps) (auto simp: bind_eq_Some_conv)
  note g = setup_message_store [OF m]
  show ?case
  proof (cases "\<not> again \<or> packets = [] \<or> hd packets = []")
    case True
    then have "p' = p1" using "1.prems" by (subst (asm) setup_loop.simps) (auto simp: m split: list.splits if_splits)
    then show ?thesis using g by simp
  next
    case False
    then obtain q qs where q: "packets = q # qs" "q \<noteq> []" "\<not> \<not> again" by (cases packets) auto
    then obtain sent' where l: "setup_loop (ws \<circ> Suc) p1 (recv_into buffer q) qs = Some (p', buffer', sent', rest)"
      using "1.prems" by (subst (asm) setup_loop.simps) (auto simp: m bind_eq_Some_conv)
    from "1.IH" [OF m refl refl q(3,1,2) l] g show ?thesis by (rule store_grows_trans [rotated])
  qed
qed

lemma connection_round_store:
  assumes "connection_round ws h msg sv c a packets = Some (sv', c', a', sent, rest)"
  shows "store_grows (sv_store sv) (sv_store sv') \<and> (sv_store sv' \<noteq> sv_store sv \<longrightarrow> msg_directory msg = ascii ''pair-setup'')"
  using assms
  by (auto simp: connection_round_def handlePairSeup_def setup_start_def updateConfiguration_def Let_def bind_eq_Some_conv
      dest!: setup_loop_store split: if_splits)

lemma connection_loop_effect:
  "connection_loop ws h sv c a packets = Some (sv', c', a', sent) \<Longrightarrow>
   store_grows (sv_store sv) (sv_store sv') \<and> c_subSocket c' = - 1 \<and>
   (same_keys c c' \<or> (\<exists>i sv''. round_accepts (ws i) sv'' \<and> store_grows (sv_store sv) (sv_store sv'')))"
proof (induction ws h sv c a packets arbitrary: sv' c' a' sent rule: connection_loop.induct)
  case (1 ws h sv c a)
  then show ?case by (auto simp: bind_eq_Some_conv same_keys_def)
next
  case (2 ws h sv c a q qs)
  obtain msg where msg: "PHKNetworkMessage (hw_message (ws 0 0)) (c_buffer (receive c q)) = Some msg"
    using "2.prems" by (auto simp: Let_def bind_eq_Some_conv)
  show ?case
  proof (cases "q = []")
    case True
    then show ?thesis using "2.prems" msg by (auto simp: Let_def same_keys_def receive_def)
  next
    case False
    then obtain sv1 c1 a1 s1 rest s2 where r: "connection_round (ws 0) h msg sv (receive c q) a qs = Some (sv1, c1, a1, s1, rest)"
      "connection_loop (ws \<circ> Suc) h sv1 c1 a1 rest = Some (sv', c', a', s2)"
      using "2.prems" msg by (auto simp: Let_def bind_eq_Some_conv)
    have IH: "store_grows (sv_store sv1) (sv_store sv')" "c_subSocket c' = - 1"
      "same_keys c1 c' \<or> (\<exists>i sv''. round_accepts (ws (Suc i)) sv'' \<and> store_grows (sv_store sv1) (sv_store sv''))"
      using "2.IH" [OF refl msg False r(1) refl refl refl refl r(2)] by simp_all
    have g: "store_grows (sv_store sv) (sv_store sv1)" using connection_round_store [OF r(1)] by simp
    have "same_keys c c1 \<or> round_accepts (ws 0) sv" using connection_round_keys [OF r(1)] by (auto simp: same_keys_def receive_def)
    then have "same_keys c c' \<or> (\<exists>i sv''. round_accepts (ws i) sv'' \<and> store_grows (sv_store sv) (sv_store sv''))"
      using IH(3) store_grows_trans [OF g] store_grows_refl [of "sv_store sv"] unfolding same_keys_def by metis
    then show ?thesis using IH(1,2) store_grows_trans [OF g] by blast
  qed
qed

section \<open>A session from the start\<close>

definition reply_text :: "byte list \<Rightarrow> byte list" where
  "reply_text body = ascii ''HTTP/1.1 200 OK'' @ [13, 10] @ ascii ''Content-Type: application/pairing+tlv8'' @ [13, 10] @
     ascii ''Content-Length: '' @ int2str (length body) @ [13, 10, 13, 10] @ body"

lemma setup_send_value:
  assumes "\<forall>f \<in> set fs. snd f \<noteq> [] \<and> length (snd f) \<le> 255" "length fs < 10" "length (fragments (fs @ [(6, [b])])) < 10000"
  shows "setup_send (data_of fs) (field_record 6 [b]) = Some (reply_text (fragments (fs @ [(6, [b])])))"
proof -
  have "addRecord (data_of fs) (field_record 6 [b]) = Some (data_of (fs @ [(6, [b])]))"
    unfolding field_record_of by (rule addRecord_data_of [OF assms(2)])
  moreover have raw: "rawData (data_of (fs @ [(6, [b])])) = fragments (fs @ [(6, [b])])"
    using assms(1,3) by (intro raw_short) auto
  moreover have "length (int2str (length (fragments (fs @ [(6, [b])])))) < 5"
    using length_int2str [of "length (fragments (fs @ [(6, [b])]))" 4] assms(3) by simp
  moreover have "str5 200 = Some (int2str 200)" "int2str 200 = ascii ''200''" by (simp_all add: str5_def int2str.simps ascii_def)
  ultimately show ?thesis
    by (simp add: setup_send_def response_getBinaryPtr_def PHKNetworkResponse_def responseType_def str5_def reply_text_def)
      (simp add: ascii_def)
qed

text \<open>A request of the pairing protocol, and what the constructor makes of it in a buffer of zeros.\<close>

definition pairing_request :: "byte list \<Rightarrow> byte list \<Rightarrow> field list \<Rightarrow> byte list" where
  "pairing_request host D fs = request_text (ascii ''POST'') D host (length (fragments fs)) (ascii ''application/pairing+tlv8'') @ fragments fs"

lemma pairing_request_parsed:
  assumes "host_ok host" "word_ok 20 32 D" "length (pairing_request host D fs) \<le> 1024" "19 < k"
    and "distinct (map fst fs)" "\<forall>f \<in> set fs. snd f \<noteq> [] \<and> length (snd f) \<le> 255" "length fs \<le> 10"
  obtains m where "PHKNetworkMessage old (pairing_request host D fs @ replicate k 0) = Some m" "msg_directory m = D" "msg_data m = data_of fs"
proof -
  have l: "length (fragments fs) < 2 ^ 16" using assms(3) by (simp add: pairing_request_def)
  have "map fst (merged fs) = tags fs" by (simp add: merged_def comp_def)
  then have t: "tags fs = map fst fs" unfolding merged_distinct [OF assms(5)] by (rule sym)
  have "parse_data (fragments fs @ replicate k 0) (length (fragments fs)) = Some (data_of fs)"
    using parse_data_fragments [of fs "replicate k 0", OF _ l] assms(6,7) by (simp add: merged_distinct [OF assms(5)] t)
  moreover have "assign_data new_data (data_of fs) = data_of fs" using assms(6,7) by (intro assign_nonempty) auto
  moreover have "word_ok 5 32 (ascii ''POST'')" "word_ok 41 13 (ascii ''application/pairing+tlv8'')" by (simp_all add: word_ok_def ascii_def)
  ultimately show thesis
    using request_read [OF _ assms(2) _ assms(1) l _ assms(4), of "ascii ''POST''" "ascii ''application/pairing+tlv8''" "fragments fs" old] assms(3) that
    by (simp add: pairing_request_def)
qed

lemma receive_request:
  "length p1 \<le> length p \<Longrightarrow> length p \<le> n \<Longrightarrow> recv_into (p1 @ replicate (n - length p1) 0) p = p @ replicate (n - length p) 0"
  by (simp add: recv_into_def)

lemma scan_zeros: "0 < n \<Longrightarrow> stop 0 \<Longrightarrow> scan stop (replicate n 0) = Some ([], replicate n 0)"
  by (cases n) (simp_all add: scan_def)

lemma skipTillChar_zeros: "0 < n \<Longrightarrow> skipTillChar (replicate n 0) c = Some (replicate (n - 1) 0)"
  by (simp add: skipTillChar_def scan_zeros advance_def)

lemma copy_word_zeros: "0 < n \<Longrightarrow> 0 < cap \<Longrightarrow> copy_word cap old c (replicate n 0) = Some (old, replicate n 0)"
  by (simp add: copy_word_def scan_zeros)

lemma copyLine_zeros: "1 < n \<Longrightarrow> copyLine (replicate n 0) = Some ([], replicate (n - 1) 0)"
  by (simp add: copyLine_def scan_zeros advance_def peek_def)

lemma copy_lines_zeros: "k < n \<Longrightarrow> copy_lines k (replicate n 0) = Some (replicate (n - k) 0)"
proof (induction k arbitrary: n)
  case (Suc k)
  then show ?case using Suc.IH [of "n - 1"] by (simp add: copyLine_zeros)
qed simp

lemma advance_zeros: "k \<le> n \<Longrightarrow> advance k (replicate n 0) = Some (replicate (n - k) 0)"
  by (simp add: advance_def)

lemma strncmp_zeros: "0 < n \<Longrightarrow> strncmp_equal (replicate n 0) (ascii ''Host'') = Some False"
  by (simp add: ascii_def peek_def)

lemma strtol10_zeros: "0 < n \<Longrightarrow> strtol10 (replicate n 0) = Some (0, replicate n 0)"
  by (cases n) (simp_all add: strtol10_def scan_def isspace_def isdigit_def)

text \<open>A buffer of zeros is parsed: the message is empty but for what was in its arrays.\<close>

lemma zeros_parsed: "100 \<le> n \<Longrightarrow> \<exists>m. PHKNetworkMessage old (replicate n 0) = Some m"
  by (simp add: PHKNetworkMessage_def copy_word_zeros advance_zeros skipTillChar_zeros copy_lines_zeros strncmp_zeros strtol10_zeros)
    (simp add: parse_data_def parse_loop.simps)

definition M1_fields :: "byte list \<Rightarrow> field list" where
  "M1_fields cpk = [(6, [1]), (3, cpk)]"

definition M3_fields :: "byte list \<Rightarrow> byte list \<Rightarrow> byte list \<Rightarrow> field list" where
  "M3_fields shared cid sig = [(6, [3]), (5, aead_seal (verify_key shared) (ascii ''PV-Msg03'') [] (fragments [(1, cid), (10, sig)]))]"

definition M1_reply :: "hap_world \<Rightarrow> byte list \<Rightarrow> byte list" where
  "M1_reply w cpk = reply_text (fragments [(3, public_key w),
     (5, aead_seal (verify_key (key_agreement (hw_rand w 32) cpk)) (ascii ''PV-Msg02'') [] (fragments (verify_fields w (public_key w) cpk))),
     (6, [2])])"

definition M3_reply :: "byte list" where
  "M3_reply = reply_text (fragments [(6, [4])])"

abbreviation verify_request :: "byte list \<Rightarrow> field list \<Rightarrow> byte list" where
  "verify_request host \<equiv> pairing_request host (ascii ''pair-verify'')"

lemma verify_word: "word_ok 20 32 (ascii ''pair-verify'')"
  by (simp add: word_ok_def ascii_def)

lemma length_seal: "length key = 32 \<Longrightarrow> length nonce = 8 \<Longrightarrow> length (aead_seal key nonce aad m) = length m + 16"
  by (simp add: aead_seal_def Let_def)

lemma length_M3_fields:
  assumes "length cid = 36" "length sig = 64"
  shows "length (snd (M3_fields shared cid sig ! 1)) = 120"
  using verify_fields_parsed(2) [OF assms] by (simp add: M3_fields_def length_seal ascii_def)

lemma length_request:
  "length (fragments fs) < 1000 \<Longrightarrow> length (verify_request host fs) \<le> length host + length (fragments fs) + 110"
  using length_int2str [of "length (fragments fs)" 3] by (simp add: pairing_request_def request_text_def ascii_def)

lemma verify_first:
  assumes hap: "hap_ok w" and id: "16 \<le> length (hw_DeviceIdentity w)" "length (hw_DeviceIdentity w) \<le> 36"
    and cpk: "length cpk = 32" and key: "length (pv_enKey p) = 32" and host: "host_ok host" "length host \<le> 700"
    and buf: "c_buffer (pv_connection p) = verify_request host (M1_fields cpk) @ replicate k 0" "19 < k"
  defines "shared \<equiv> key_agreement (hw_rand w 32) cpk"
  shows "verify_message w store p = Some (p\<lparr>pv_publicKey := public_key w, pv_controllerPublicKey := cpk, pv_sharedKey := shared,
      pv_enKey := verify_key shared\<rparr>, M1_reply w cpk, False)"
proof -
  have d: "distinct (map fst (M1_fields cpk))" by (simp add: M1_fields_def)
  have f: "length (fragments (M1_fields cpk)) = 37" using cpk by (simp add: M1_fields_def encode_fragment_def)
  have ne: "\<forall>g \<in> set (M1_fields cpk). snd g \<noteq> [] \<and> length (snd g) \<le> 255" using cpk by (auto simp: M1_fields_def)
  have l: "length (verify_request host (M1_fields cpk)) \<le> 1024" using length_request [of "M1_fields cpk" host] host(2) f by simp
  obtain m where m: "PHKNetworkMessage (hw_message w) (c_buffer (pv_connection p)) = Some m" "msg_data m = data_of (M1_fields cpk)"
    unfolding buf(1) by (rule pairing_request_parsed [OF host(1) verify_word l buf(2) d ne]) (simp_all add: M1_fields_def)
  have look: "dataPtrForIndex (msg_data m) 6 = Some [1]" "dataPtrForIndex (msg_data m) 3 = Some cpk"
    by (simp_all add: m(2) data_of_lookup(1) [OF d]) (simp_all add: M1_fields_def)
  define fs where "fs = [(3 :: byte, public_key w),
    (5, aead_seal (verify_key shared) (ascii ''PV-Msg02'') [] (fragments (verify_fields w (public_key w) cpk)))]"
  have lf: "length (public_key w) = 32"
    "length (aead_seal (verify_key shared) (ascii ''PV-Msg02'') [] (fragments (verify_fields w (public_key w) cpk))) = 101"
    using hap verify_fields_raw(2) [OF hap id(1), of "public_key w" cpk] by (simp_all add: hap_ok_def length_public_key [OF hap] length_seal ascii_def)
  have "snd g \<noteq> [] \<and> length (snd g) \<le> 255" if "g \<in> set fs" for g using that lf by (auto simp: fs_def)
  moreover have "length fs < 10" "length (fragments (fs @ [(6, [2])])) < 10000" using lf by (simp_all add: fs_def encode_fragment_def)
  ultimately have "setup_send (data_of fs) (field_record 6 [2]) = Some (reply_text (fragments (fs @ [(6, [2])])))"
    by (intro setup_send_value) auto
  moreover have "reply_text (fragments (fs @ [(6, [2])])) = M1_reply w cpk" by (simp add: M1_reply_def fs_def shared_def)
  moreover note verify_M1_value [OF hap id look(2) cpk key, folded shared_def, folded fs_def]
  ultimately show ?thesis by (simp add: verify_message_def m(1) look(1) peek_def flip: fs_def)
qed

lemma verify_second:
  assumes hap: "hap_ok w" and host: "host_ok host" "length host \<le> 700" and k: "19 < k" and shared: "length shared = 32"
    and cid: "length cid = 36" "store_lookup store (take 32 cid) = Some r" and sig: "length sig = 64" "\<not> hw_sign_open w (cpk @ cid @ pub) (kr_publicKey r) sig"
    and p: "pv_publicKey p = pub" "pv_controllerPublicKey p = cpk" "pv_sharedKey p = shared" "pv_enKey p = verify_key shared"
      "length (c_accessoryToControllerKey (pv_connection p)) = 32" "length (c_controllerToAccessoryKey (pv_connection p)) = 32"
      "c_buffer (pv_connection p) = verify_request host (M3_fields shared cid sig) @ replicate k 0"
  shows "verify_message w store p = Some (p\<lparr>pv_connection := (pv_connection p)\<lparr>c_accessoryToControllerKey := read_key shared,
      c_controllerToAccessoryKey := write_key shared\<rparr>\<rparr>, M3_reply, True)"
proof -
  let ?fs = "M3_fields shared cid sig" and ?n = "ascii ''PV-Msg03''"
  define ct where "ct = aead_crypt (verify_key shared) ?n (fragments [(1, cid), (10, sig)])"
  have kn: "length (verify_key shared) = 32" "length ?n = 8" by (simp_all add: ascii_def)
  note f = verify_fields_parsed [OF cid(1) sig(1)]
  have ct: "length ct = 104" unfolding ct_def length_aead_crypt [OF kn] by (rule f(2))
  have fs: "?fs = [(6, [3]), (5, ct @ aead_tag (verify_key shared) ?n [] ct)]" by (simp add: M3_fields_def aead_seal_def Let_def ct_def)
  have d: "distinct (map fst ?fs)" by (simp add: fs)
  have l: "length (verify_request host ?fs) \<le> 1024" using length_request [of ?fs host] host(2) ct by (simp add: fs encode_fragment_def)
  have ne: "\<forall>g \<in> set ?fs. snd g \<noteq> [] \<and> length (snd g) \<le> 255" using ct by (auto simp: fs)
  obtain m where m: "PHKNetworkMessage (hw_message w) (c_buffer (pv_connection p)) = Some m" "msg_data m = data_of ?fs"
    unfolding p(7) by (rule pairing_request_parsed [OF host(1) verify_word l k d ne]) (simp_all add: fs)
  have look: "dataPtrForIndex (msg_data m) 6 = Some [3]" "dataPtrForIndex (msg_data m) 5 = Some (ct @ aead_tag (verify_key shared) ?n [] ct)"
    by (simp_all add: m(2) data_of_lookup(1) [OF d]) (simp_all add: fs)
  have key: "length (pv_enKey p) = 32" by (simp add: p(4))
  have "verify_M3 w store p (msg_data m) = verify_M3_list w store p (data_of [(1, cid), (10, sig)])"
    using verify_M3_value [OF key look(2) length_tag, of w store] ct f(1)
    by (simp add: p(4) setup_tag_def) (simp add: ct_def aead_crypt_involution [OF kn])
  moreover have "known_key w store cid = kr_publicKey r" using cid(2) by (simp add: known_key_def)
  moreover have d2: "distinct (map fst [(1 :: byte, cid), (10, sig)])" by simp
  ultimately have m3: "verify_M3 w store p (msg_data m) = Some (p\<lparr>pv_connection := (pv_connection p)\<lparr>c_accessoryToControllerKey := read_key shared,
      c_controllerToAccessoryKey := write_key shared\<rparr>\<rparr>, new_data, True)"
    using verify_M3_list_value [OF hap _ _ _ _ _ p(5,6), of "data_of [(1, cid), (10, sig)]" cid sig store] cid(1) sig shared
    by (simp add: data_of_lookup(1) [OF d2] p(1-3))
  have "new_data = data_of []" using data_of_Nil by (simp add: merged_def tags_def)
  then have "setup_send new_data (field_record 6 [4]) = Some M3_reply"
    using setup_send_value [of "[]" 4] by (simp add: M3_reply_def encode_fragment_def)
  then show ?thesis by (simp add: verify_message_def m(1) look(1) peek_def m3)
qed

lemma accessory_loop_buffer:
  assumes "accessory_loop h c a ps = Some (c', a', sent)" "\<forall>p \<in> set ps. length p \<le> 4096"
  shows "c_buffer c' = replicate 4096 0 @ drop 4096 (c_buffer c)"
  using assms
proof (induction ps arbitrary: c a sent)
  case (Cons q qs)
  show ?case
  proof (cases "q = []")
    case False
    then obtain c1 a1 s1 s2 where step: "handle_frame h c a q = Some (c1, a1, s1)" "accessory_loop h c1 a1 qs = Some (c', a', s2)"
      using Cons.prems(1) by (auto simp: bind_eq_Some_conv)
    have "drop 4096 (c_buffer c1) = drop 4096 (c_buffer c)"
      using handle_frame_effect [OF step(1)] Cons.prems(2) by (simp add: recv_buffer_def)
    then show ?thesis using Cons.IH [OF step(2)] Cons.prems(2) by simp
  qed (use Cons.prems in \<open>auto simp: recv_buffer_def\<close>)
qed (auto simp: recv_buffer_def)

lemma frames_small: "length key = 32 \<Longrightarrow> \<forall>m \<in> set ms. length m < 2048 \<Longrightarrow> \<forall>p \<in> set (frames key n ms). length p \<le> 4096"
  by (induction ms arbitrary: n) (auto simp: length_frame)

text \<open>\<open>handleAccessoryRequest\<close> on the frames of a controller.\<close>

lemma session_runs:
  assumes "keys_ok c" "\<forall>m \<in> set ms. 2 \<le> length m \<and> length m < 2048"
    and "\<And>d n a l. 2 \<le> length (fst (h d n a l)) \<and> length (fst (h d n a l)) < 65536"
    and "serve h a (replicate (length (c_notificationList c)) 0) ms = (rs, a', ns)"
  obtains c' where "handleAccessoryRequest h c a (frames (c_controllerToAccessoryKey c) 0 ms) =
      Some (c', a', frames (c_accessoryToControllerKey c) 0 rs)"
    "c_buffer c' = replicate 4096 0 @ drop 4096 (c_buffer c)"
proof -
  define c1 where "c1 = clearNotify (c\<lparr>c_connected := True, c_numberOfMsgRec := 0, c_numberOfMsgSend := 0\<rparr>)"
  have l: "c_notificationList c1 = replicate (length (c_notificationList c)) 0"
    by (simp add: c1_def clearNotify_def map_replicate_const)
  have k: "keys_ok c1" "c_controllerToAccessoryKey c1 = c_controllerToAccessoryKey c" "c_numberOfMsgRec c1 = 0"
    "c_accessoryToControllerKey c1 = c_accessoryToControllerKey c" "c_numberOfMsgSend c1 = 0" "c_buffer c1 = c_buffer c"
    using assms(1) by (simp_all add: c1_def clearNotify_def keys_ok_def)
  obtain c' where c': "accessory_loop h c1 a (frames (c_controllerToAccessoryKey c) 0 ms) =
      Some (c', a', frames (c_accessoryToControllerKey c) 0 rs)"
    using accessory_loop_serves [where h = h and c = c1 and ms = ms and a = a, OF assms(3) k(1) assms(2)] assms(4) k l by auto
  have "\<forall>p \<in> set (frames (c_controllerToAccessoryKey c) 0 ms). length p \<le> 4096"
    using assms(1,2) by (intro frames_small) (auto simp: keys_ok_def)
  from accessory_loop_buffer [OF c' this] c' show thesis
    using that [of "c'\<lparr>c_connected := False\<rparr>"] k by (simp add: handleAccessoryRequest_def Let_def c1_def [symmetric])
qed

lemma pair_verify_runs:
  assumes hap: "hap_ok w" and id: "16 \<le> length (hw_DeviceIdentity w)" "length (hw_DeviceIdentity w) \<le> 36"
    and host: "host_ok host" "length host \<le> 700" and cpk: "length cpk = 32" "key_agreement (hw_rand w 32) cpk = shared"
    and cid: "length cid = 36" "store_lookup store (take 32 cid) = Some r"
    and sig: "length sig = 64" "\<not> hw_sign_open w (cpk @ cid @ public_key w) (kr_publicKey r) sig"
    and c: "keys_ok c" "c_buffer c = verify_request host (M1_fields cpk) @ replicate (4097 - length (verify_request host (M1_fields cpk))) 0"
  obtains c' where "handlePairVerify (\<lambda>_. w) store c (verify_request host (M3_fields shared cid sig) # rest) = Some (c', [M1_reply w cpk, M3_reply], rest)"
    "c_accessoryToControllerKey c' = read_key shared" "c_controllerToAccessoryKey c' = write_key shared" "keys_ok c'"
    "c_notificationList c' = c_notificationList c" "c_subSocket c' = c_subSocket c" "drop 4096 (c_buffer c') = [0]"
proof -
  let ?q1 = "verify_request host (M1_fields cpk)" and ?q3 = "verify_request host (M3_fields shared cid sig)"
  define g where "g = hw_garbage w 32"
  define p where "p = \<lparr>pv_connection = c, pv_publicKey = g, pv_controllerPublicKey = g, pv_sharedKey = g, pv_enKey = g\<rparr>"
  define p1 where "p1 = p\<lparr>pv_publicKey := public_key w, pv_controllerPublicKey := cpk, pv_sharedKey := shared, pv_enKey := verify_key shared\<rparr>"
  define c2 where "c2 = receive c ?q3"
  have sl: "length shared = 32" using hap cpk length_key_agreement [of "hw_rand w 32" cpk] by (auto simp: hap_ok_def)
  have f: "length (fragments (M1_fields cpk)) = 37" "length (fragments (M3_fields shared cid sig)) = 125"
    using cpk(1) length_M3_fields [OF cid(1) sig(1), of shared] by (simp_all add: M1_fields_def M3_fields_def encode_fragment_def)
  have q: "length ?q1 \<le> length ?q3" "length ?q3 \<le> 1000"
    using length_request [of "M3_fields shared cid sig" host] host(2) f
    by (simp_all add: pairing_request_def request_text_def int2str.simps)
  have k: "19 < 4097 - length ?q1" "19 < 4097 - length ?q3" using q by simp_all
  have pk: "length (pv_enKey p) = 32" "c_buffer (pv_connection p) = ?q1 @ replicate (4097 - length ?q1) 0"
    using hap c(2) by (simp_all add: p_def g_def hap_ok_def)
  have first: "verify_message w store p = Some (p1, M1_reply w cpk, False)"
    using verify_first [OF hap id cpk(1) pk(1) host pk(2) k(1)] by (simp add: p1_def cpk(2))
  let ?p2 = "p1\<lparr>pv_connection := receive (pv_connection p1) ?q3\<rparr>"
  have c2: "pv_connection p1 = c" by (simp add: p1_def p_def)
  have buf: "c_buffer c2 = ?q3 @ replicate (4097 - length ?q3) 0"
    using receive_request [of ?q1 ?q3 4097] q by (simp add: c2_def receive_def c(2))
  have second: "verify_message w store ?p2 = Some (?p2\<lparr>pv_connection := c2\<lparr>c_accessoryToControllerKey := read_key shared,
      c_controllerToAccessoryKey := write_key shared\<rparr>\<rparr>, M3_reply, True)"
    using verify_second [OF hap host k(2) sl cid sig, of ?p2] c(1) buf c2
    by (simp add: p1_def keys_ok_def receive_def flip: c2_def) (simp add: c2_def receive_def)
  have "?q3 \<noteq> []" by (simp add: pairing_request_def request_text_def ascii_def)
  then have "handlePairVerify (\<lambda>_. w) store c (?q3 # rest) = Some (c2\<lparr>c_accessoryToControllerKey := read_key shared,
      c_controllerToAccessoryKey := write_key shared\<rparr>, [M1_reply w cpk, M3_reply], rest)"
    by (simp add: handlePairVerify_def verify_loop.simps g_def [symmetric] p_def [symmetric] first second comp_def)
  moreover have "length (c_buffer c2) = 4097" "drop 4096 (c_buffer c2) = [0]"
  proof -
    have "4097 - length ?q3 = (4096 - length ?q3) + 1" using q by simp
    then show "drop 4096 (c_buffer c2) = [0]" using q by (simp add: buf del: replicate.simps) (simp add: replicate_add)
  qed (use q in \<open>simp add: buf\<close>)
  ultimately show thesis
    by (intro that [of "c2\<lparr>c_accessoryToControllerKey := read_key shared, c_controllerToAccessoryKey := write_key shared\<rparr>"])
      (simp_all add: keys_ok_def, simp_all add: c2_def receive_def)
qed

section \<open>Properties\<close>


definition sample_server :: server where
  "sample_server = \<lparr>sv_store = \<lparr>cs_file = [], cs_records = [sample_record 1]\<rparr>, sv_currentConfigurationNum = 1, sv_currentDeviceType = 2,
     sv_DeviceName = ascii ''lamp''\<rparr>"

definition idle_connection :: connection where
  "idle_connection = connection_init\<lparr>c_subSocket := 5\<rparr>"

lemma idle_parts:
  "keys_ok idle_connection" "c_buffer idle_connection = replicate 4097 0" "0 \<le> c_subSocket idle_connection"
  "c_notificationList idle_connection = [0]"
  by (simp_all add: idle_connection_def connection_init_def keys_ok_def numberOfNotifiableValue_def)




text \<open>A new connection takes the first free place of the table and no other place changes; it is closed at once when the
  table is full.\<close>

theorem handleConnection_first_free:
  assumes "0 \<le> sock"
  shows "handleConnection cs sock = (let free = filter (\<lambda>i. c_subSocket (cs ! i) = - 1) [0..<length cs]
    in if free = [] then (cs, True) else (cs[hd free := (cs ! hd free)\<lparr>c_subSocket := sock\<rparr>], False))"
proof -
  have "first_free cs = (case filter (\<lambda>i. c_subSocket (cs ! i) = - 1) [0..<length cs] of [] \<Rightarrow> None | i # _ \<Rightarrow> Some i)"
  proof (induction cs)
    case (Cons c cs)
    have "filter (\<lambda>i. c_subSocket ((c # cs) ! i) = - 1) [0..<length (c # cs)] =
        (if c_subSocket c = - 1 then [0] else []) @ map Suc (filter (\<lambda>i. c_subSocket (cs ! i) = - 1) [0..<length cs])"
      by (simp add: upt_conv_Cons map_Suc_upt [symmetric] filter_map comp_def del: upt_Suc)
    then show ?case using Cons by (auto split: list.split)
  qed simp
  then show ?thesis using assms by (auto simp: handleConnection_def Let_def split: list.split)
qed

theorem handleConnection_first_free_witness:
  "handleConnection [idle_connection, connection_init] 7 = ([idle_connection, connection_init\<lparr>c_subSocket := 7\<rparr>], False) \<and>
   handleConnection [idle_connection] 7 = ([idle_connection], True)"
  using handleConnection_first_free [of 7 "[idle_connection, connection_init]"] handleConnection_first_free [of 7 "[idle_connection]"]
  by (simp add: idle_connection_def connection_init_def)

text \<open>The record that is announced says whether the accessory can be paired.\<close>

lemma announces_pairing:
  "buildTXTRecord sv identity = Some txt \<Longrightarrow> map_of txt ''sf'' = Some [if hasController (sv_store sv) then 48 else 49]"
  by (auto simp: buildTXTRecord_def bind_eq_Some_conv)

end
