(* ===== verification/Irr_Driver.thy ===== *)
theory Irr_Driver
  imports Hap_Message
begin

text \<open>
  sub/irr/kernelland_bbb, kernelland_bbgreen and kernelland_razby, irr_driver.c: the kernel modules that record the times of
  the edges of an infrared signal. Two views of one module: what it acquires from the kernel when it is loaded and
  gives back (\<open>irr_driver_init\<close>, \<open>cleanup\<close>), and the buffer the interrupt handler fills while a process reads it through
  /proc. The kernel answers each call as it likes (\<open>kernel\<close>, given the calls before); a run is the list of calls with
  their answers, from which the resources held follow. The three modules differ in the pin, the address of the timer and
  the interface of /proc: create_proc_entry with a reader for offsets (\<open>ir_proc_recv_read\<close>) on the first, a sequence file
  (\<open>ir_proc_recv_show\<close>) on the others.
\<close>

section \<open>Calls to the kernel\<close>

datatype proc_entry = IR_PROCNAME_RECV | IR_PROCNAME_RECV_COUNT

datatype kcall =
  Create_Proc proc_entry
| Remove_Proc proc_entry
| Ioremap u32
| Iowrite32 u32 u32
| Iounmap u32
| Gpio_Request nat
| Gpio_To_Irq nat
| Gpio_Free nat
| Request_Irq u16
| Free_Irq u16

type_synonym calls = "(kcall \<times> int) list"
type_synonym kernel = "calls \<Rightarrow> kcall \<Rightarrow> int"

definition kcall :: "kernel \<Rightarrow> kcall \<Rightarrow> calls \<Rightarrow> int \<times> calls" where
  "kcall k c tr = (k tr c, tr @ [(c, k tr c)])"

definition kdo :: "kernel \<Rightarrow> kcall \<Rightarrow> calls \<Rightarrow> calls" where
  "kdo k c tr = snd (kcall k c tr)"

text \<open>Pointers are null exactly when the answer is 0, error codes are negative.\<close>

fun acquires :: "kcall \<Rightarrow> int \<Rightarrow> kcall option" where
  "acquires (Create_Proc e) r = (if r \<noteq> 0 then Some (Remove_Proc e) else None)"
| "acquires (Ioremap a) r = (if r \<noteq> 0 then Some (Iounmap a) else None)"
| "acquires (Gpio_Request p) r = (if r \<ge> 0 then Some (Gpio_Free p) else None)"
| "acquires (Request_Irq n) r = (if r \<ge> 0 then Some (Free_Irq n) else None)"
| "acquires _ r = None"

text \<open>What is held is named by the call that gives it back.\<close>

definition hold :: "kcall \<times> int \<Rightarrow> kcall set \<Rightarrow> kcall set" where
  "hold e H = (case acquires (fst e) (snd e) of Some x \<Rightarrow> insert x H | None \<Rightarrow> H - {fst e})"

definition held :: "calls \<Rightarrow> kcall set" where
  "held tr = fold hold tr {}"

fun is_release :: "kcall \<Rightarrow> bool" where
  "is_release (Remove_Proc e) = True"
| "is_release (Iounmap a) = True"
| "is_release (Gpio_Free p) = True"
| "is_release (Free_Irq n) = True"
| "is_release _ = False"

text \<open>The calls that give back what is not held.\<close>

definition faults :: "calls \<Rightarrow> kcall list" where
  "faults tr = snd (fold (\<lambda>e (H, fs). (hold e H, if is_release (fst e) \<and> fst e \<notin> H then fs @ [fst e] else fs)) tr ({}, []))"

section \<open>Loading and unloading\<close>

datatype board = BBB | BBGreen | Razby

definition IR_RECV_GPIO_PIN :: "board \<Rightarrow> nat" where
  "IR_RECV_GPIO_PIN b = (case b of Razby \<Rightarrow> 9 | _ \<Rightarrow> 47)"

definition AM33XX_CONTROL_BASE :: u32 where
  "AM33XX_CONTROL_BASE = 0x44e10000"

definition IR_RECV_GPIO_INITADDRESS :: u32 where
  "IR_RECV_GPIO_INITADDRESS = 0x83c"

definition timer_address :: "board \<Rightarrow> u32" where
  "timer_address b = (case b of Razby \<Rightarrow> 0x3F003004 | _ \<Rightarrow> 0x4804003C)"

definition EBUSY :: int where "EBUSY = 16"

record irr_module =
  IRRecvGPIO :: u16
  IRRecvIRQ :: u16
  DMTIMERMemory :: bool

definition irr_module_start :: irr_module where
  "irr_module_start = \<lparr>IRRecvGPIO = 0, IRRecvIRQ = 0, DMTIMERMemory = False\<rparr>"

text \<open>\<open>GPIOInit\<close> for an input pin; \<open>request_pin\<close> is its second half, the whole of it on the third board.\<close>

definition request_pin :: "kernel \<Rightarrow> nat \<Rightarrow> calls \<Rightarrow> int \<times> calls" where
  "request_pin k pin tr = (let (err, tr) = kcall k (Gpio_Request pin) tr in if err < 0 then (err, tr) else (1, tr))"

definition GPIOInit :: "kernel \<Rightarrow> nat \<Rightarrow> bool \<Rightarrow> u32 \<Rightarrow> calls \<Rightarrow> int \<times> calls" where
  "GPIOInit k pin input init_address tr =
     (let a = AM33XX_CONTROL_BASE + init_address;
          (addr, tr) = kcall k (Ioremap a) tr
      in if addr = 0 then (- EBUSY, tr)
         else let tr = kdo k (Iowrite32 (if input then 0x7 OR push_bit 3 2 OR push_bit 5 1 else 0x7 OR push_bit 3 2) a) tr;
                  tr = kdo k (Iounmap a) tr
              in request_pin k pin tr)"

definition GPIOInit_board :: "board \<Rightarrow> kernel \<Rightarrow> calls \<Rightarrow> int \<times> calls" where
  "GPIOInit_board b k tr =
     (if b = Razby then request_pin k (IR_RECV_GPIO_PIN b) tr else GPIOInit k (IR_RECV_GPIO_PIN b) True IR_RECV_GPIO_INITADDRESS tr)"

definition cleanup :: "board \<Rightarrow> kernel \<Rightarrow> irr_module \<Rightarrow> calls \<Rightarrow> irr_module \<times> calls" where
  "cleanup b k m tr =
     (let tr = kdo k (Remove_Proc IR_PROCNAME_RECV_COUNT) tr;
          tr = kdo k (Remove_Proc IR_PROCNAME_RECV) tr;
          tr = (if IRRecvIRQ m \<noteq> 0 then kdo k (Free_Irq (IRRecvIRQ m)) tr else tr);
          m = m\<lparr>IRRecvIRQ := 0\<rparr>;
          tr = (if IRRecvGPIO m \<noteq> 0 then kdo k (Gpio_Free (IR_RECV_GPIO_PIN b)) tr else tr);
          m = m\<lparr>IRRecvGPIO := 0\<rparr>;
          tr = (if DMTIMERMemory m then kdo k (Iounmap (timer_address b)) tr else tr)
      in (m\<lparr>DMTIMERMemory := False\<rparr>, tr))"

text \<open>A failing step runs \<open>cleanup\<close> and returns the code.\<close>

definition init_failed :: "board \<Rightarrow> kernel \<Rightarrow> int \<Rightarrow> irr_module \<Rightarrow> calls \<Rightarrow> int \<times> irr_module \<times> calls" where
  "init_failed b k err m tr = (let (m, tr) = cleanup b k m tr in (err, m, tr))"

text \<open>\<open>irr_driver_init\<close> after the entries of /proc are made.\<close>

definition init_hardware :: "board \<Rightarrow> kernel \<Rightarrow> irr_module \<Rightarrow> calls \<Rightarrow> int \<times> irr_module \<times> calls" where
  "init_hardware b k m tr =
     (let (mem, tr) = kcall k (Ioremap (timer_address b)) tr;
          m = m\<lparr>DMTIMERMemory := (mem \<noteq> 0)\<rparr>;
          (err, tr) = GPIOInit_board b k tr in
      if err < 0 then init_failed b k err m tr else
      let m = m\<lparr>IRRecvGPIO := 1\<rparr>;
          (err, tr) = kcall k (Gpio_To_Irq (IR_RECV_GPIO_PIN b)) tr in
      if err < 0 then init_failed b k err m tr else
      let m = m\<lparr>IRRecvIRQ := of_int err\<rparr>;
          (err, tr) = kcall k (Request_Irq (IRRecvIRQ m)) tr in
      if err < 0 then init_failed b k err m tr else (0, m, tr))"

definition irr_driver_init :: "board \<Rightarrow> kernel \<Rightarrow> irr_module \<Rightarrow> calls \<Rightarrow> int \<times> irr_module \<times> calls" where
  "irr_driver_init b k m tr =
     (let (entry, tr) = kcall k (Create_Proc IR_PROCNAME_RECV) tr in
      if entry = 0 then init_failed b k (- EBUSY) m tr else
      let (entry, tr) = kcall k (Create_Proc IR_PROCNAME_RECV_COUNT) tr in
      if entry = 0 then init_failed b k (- EBUSY) m tr else init_hardware b k m tr)"

definition irr_driver_exit :: "board \<Rightarrow> kernel \<Rightarrow> irr_module \<Rightarrow> calls \<Rightarrow> irr_module \<times> calls" where
  "irr_driver_exit b k m tr = cleanup b k m tr"

section \<open>The recording\<close>

definition IR_RECV_BUFFER_SIZE :: u32 where
  "IR_RECV_BUFFER_SIZE = 600000"

record irr_buffer =
  IRRecvBuffer :: "nat \<Rightarrow> u32"
  IRRecvBufferIndex :: u32

definition irr_buffer_start :: irr_buffer where
  "irr_buffer_start = \<lparr>IRRecvBuffer = (\<lambda>_. 0), IRRecvBufferIndex = 0\<rparr>"

text \<open>The handler; \<open>time\<close> is what the timer shows, None is the null pointer it reads when the timer is not mapped.\<close>

definition test_irq_latency_interrupt_handler :: "u32 option \<Rightarrow> irr_buffer \<Rightarrow> irr_buffer option" where
  "test_irq_latency_interrupt_handler time d =
     (case time of None \<Rightarrow> None
      | Some a \<Rightarrow> Some (if IRRecvBufferIndex d < IR_RECV_BUFFER_SIZE
          then \<lparr>IRRecvBuffer = (IRRecvBuffer d)(unat (IRRecvBufferIndex d) := a), IRRecvBufferIndex = IRRecvBufferIndex d + 1\<rparr> else d))"

text \<open>The bytes of the buffer as memory holds them.\<close>

definition buffer_byte :: "irr_buffer \<Rightarrow> nat \<Rightarrow> byte" where
  "buffer_byte d n = ucast (drop_bit (8 * (n mod 4)) (IRRecvBuffer d (n div 4)))"

datatype read_result = Eof | Busy | Data "byte list"

text \<open>The offset is compared as an unsigned 32-bit number, so is the count. The result carries the bytes copied.\<close>

definition ir_proc_recv_read :: "irr_buffer \<Rightarrow> u32 \<Rightarrow> u32 \<Rightarrow> read_result" where
  "ir_proc_recv_read d offset count =
     (if offset \<ge> IRRecvBufferIndex d * 4 then Eof
      else if IRRecvBufferIndex d * 4 \<le> 0 then Busy
      else let copysize = IRRecvBufferIndex d * 4 - offset;
               copysize = (if copysize > count then count else copysize)
           in Data (map (\<lambda>i. buffer_byte d (unat offset + i)) [0..<unat copysize]))"

definition ir_proc_recv_write :: int where
  "ir_proc_recv_write = - EBUSY"

text \<open>The sequence file: four bytes for each entry, the lowest first.\<close>

definition ir_proc_recv_show :: "irr_buffer \<Rightarrow> byte list" where
  "ir_proc_recv_show d = concat (map (\<lambda>i. let v = IRRecvBuffer d i in
     [ucast (v AND 0xff), ucast (drop_bit 8 v AND 0xff), ucast (drop_bit 16 v AND 0xff), ucast (drop_bit 24 v AND 0xff)])
     [0..<unat (IRRecvBufferIndex d)])"

text \<open>The count as printf writes it with \<open>%u\<close>.\<close>

definition ir_proc_recv_count_show :: "irr_buffer \<Rightarrow> byte list" where
  "ir_proc_recv_count_show d = int2str (unat (IRRecvBufferIndex d))"

section \<open>What the module holds\<close>

lemma held_kcall [simp]: "held (snd (kcall k c tr)) = hold (c, k tr c) (held tr)"
  by (simp add: kcall_def held_def)

lemma kcall_held: "kcall k c tr = (r, tr') \<Longrightarrow> held tr' = hold (c, r) (held tr)"
  by (auto simp: kcall_def held_def)

lemma fst_kcall [simp]: "fst (kcall k c tr) = k tr c"
  by (simp add: kcall_def)

lemma held_kdo [simp]: "held (kdo k c tr) = hold (c, k tr c) (held tr)"
  by (simp add: kdo_def)

lemma hold_release [simp]:
  "hold (Remove_Proc e, r) H = H - {Remove_Proc e}" "hold (Iounmap a, r) H = H - {Iounmap a}"
  "hold (Gpio_Free p, r) H = H - {Gpio_Free p}" "hold (Free_Irq n, r) H = H - {Free_Irq n}"
  by (simp_all add: hold_def)

text \<open>What the flags of the module stand for.\<close>

definition owned :: "board \<Rightarrow> irr_module \<Rightarrow> kcall set" where
  "owned b m = (if IRRecvIRQ m \<noteq> 0 then {Free_Irq (IRRecvIRQ m)} else {}) \<union>
     (if IRRecvGPIO m \<noteq> 0 then {Gpio_Free (IR_RECV_GPIO_PIN b)} else {}) \<union>
     (if DMTIMERMemory m then {Iounmap (timer_address b)} else {})"

definition proc_entries :: "kcall set" where
  "proc_entries = {Remove_Proc IR_PROCNAME_RECV, Remove_Proc IR_PROCNAME_RECV_COUNT}"

lemma cleanup_held: "held (snd (cleanup b k m tr)) = held tr - proc_entries - owned b m"
  by (auto simp: cleanup_def Let_def owned_def proc_entries_def)

lemma cleanup_module: "fst (cleanup b k m tr) = m\<lparr>IRRecvIRQ := 0, IRRecvGPIO := 0, DMTIMERMemory := False\<rparr>"
  by (simp add: cleanup_def Let_def)

lemma cleanup_start: "fst (cleanup b k m tr) = irr_module_start"
  by (cases m) (simp add: cleanup_module irr_module_start_def)

text \<open>Nothing but releases is ever held, so that a failed request changes nothing.\<close>

lemma held_releases: "c \<in> held tr \<Longrightarrow> is_release c"
proof (induction tr rule: rev_induct)
  case Nil
  then show ?case by (simp add: held_def)
next
  case (snoc e tr)
  obtain x r where e: "e = (x, r)" by (cases e)
  have "is_release y" if "acquires x r = Some y" for y
    using that by (cases x) (auto split: if_splits)
  then show ?case using snoc e by (auto simp: held_def hold_def split: option.splits)
qed

lemma GPIOInit_held:
  assumes "Iounmap (AM33XX_CONTROL_BASE + IR_RECV_GPIO_INITADDRESS) \<notin> held tr"
  shows "held (snd (GPIOInit_board b k tr)) =
    (if fst (GPIOInit_board b k tr) < 0 then held tr else insert (Gpio_Free (IR_RECV_GPIO_PIN b)) (held tr))"
proof -
  have no: "c \<notin> held t" if "\<not> is_release c" for c t
    using held_releases that by blast
  show ?thesis
    using assms by (auto simp: GPIOInit_board_def GPIOInit_def request_pin_def case_prod_unfold Let_def hold_def EBUSY_def no)
qed

lemma init_failed_held:
  assumes "held tr \<subseteq> proc_entries \<union> owned b m"
  shows "held (snd (snd (init_failed b k err m tr))) = {}" "fst (snd (init_failed b k err m tr)) = irr_module_start"
    "fst (init_failed b k err m tr) = err"
  using assms by (auto simp: init_failed_def case_prod_unfold cleanup_held cleanup_start)

definition loaded :: "board \<Rightarrow> irr_module \<Rightarrow> kcall set" where
  "loaded b m = proc_entries \<union> {Gpio_Free (IR_RECV_GPIO_PIN b), Free_Irq (IRRecvIRQ m)} \<union>
     (if DMTIMERMemory m then {Iounmap (timer_address b)} else {})"

lemma gpio_address_differs: "Iounmap (AM33XX_CONTROL_BASE + IR_RECV_GPIO_INITADDRESS) \<noteq> Iounmap (timer_address b)"
  by (cases b) (simp_all add: AM33XX_CONTROL_BASE_def IR_RECV_GPIO_INITADDRESS_def timer_address_def)

definition init_ok :: "board \<Rightarrow> int \<times> irr_module \<times> calls \<Rightarrow> bool" where
  "init_ok b = (\<lambda>(r, m, tr). if r < 0 then held tr = {} \<and> m = irr_module_start else r = 0 \<and> held tr = loaded b m \<and> IRRecvGPIO m = 1)"

lemma init_failed_ok:
  assumes "held tr \<subseteq> proc_entries \<union> owned b m" "err < 0"
  shows "init_ok b (init_failed b k err m tr)"
  using init_failed_held [OF assms(1), of k err] assms(2) by (simp add: init_ok_def case_prod_unfold)

lemma init_hardware_ok:
  assumes h: "held tr = proc_entries" and m: "m = irr_module_start"
  shows "init_ok b (init_hardware b k m tr)"
proof -
  obtain mem tr1 where 1: "kcall k (Ioremap (timer_address b)) tr = (mem, tr1)" by fastforce
  have t: "\<And>c. \<not> is_release c \<Longrightarrow> c \<notin> held t" for t using held_releases by blast
  have h1: "held tr1 = proc_entries \<union> (if mem \<noteq> 0 then {Iounmap (timer_address b)} else {})"
    using kcall_held [OF 1] h t [of "Ioremap (timer_address b)" tr] by (auto simp: hold_def)
  obtain e2 tr2 where 2: "GPIOInit_board b k tr1 = (e2, tr2)" by fastforce
  have "Iounmap (AM33XX_CONTROL_BASE + IR_RECV_GPIO_INITADDRESS) \<notin> held tr1"
    using gpio_address_differs [of b] by (auto simp: h1 proc_entries_def)
  from GPIOInit_held [OF this, of b k]
  have h2: "held tr2 = (if e2 < 0 then held tr1 else insert (Gpio_Free (IR_RECV_GPIO_PIN b)) (held tr1))" by (simp add: 2)
  obtain e3 tr3 where 3: "kcall k (Gpio_To_Irq (IR_RECV_GPIO_PIN b)) tr2 = (e3, tr3)" by fastforce
  have h3: "held tr3 = held tr2"
    using kcall_held [OF 3] t [of "Gpio_To_Irq (IR_RECV_GPIO_PIN b)" tr2] by (auto simp: hold_def)
  obtain e4 tr4 where 4: "kcall k (Request_Irq (of_int e3)) tr3 = (e4, tr4)" by fastforce
  have h4: "held tr4 = (if e4 < 0 then held tr3 else insert (Free_Irq (of_int e3)) (held tr3))"
    using kcall_held [OF 4] t [of "Request_Irq (of_int e3)" tr3] by (auto simp: hold_def)
  define m1 where "m1 = m\<lparr>DMTIMERMemory := (mem \<noteq> 0)\<rparr>"
  define m2 where "m2 = m1\<lparr>IRRecvGPIO := 1\<rparr>"
  define m3 where "m3 = m2\<lparr>IRRecvIRQ := of_int e3\<rparr>"
  note ms = m3_def m2_def m1_def m irr_module_start_def
  have run: "init_hardware b k m tr = (if e2 < 0 then init_failed b k e2 m1 tr2 else if e3 < 0 then init_failed b k e3 m2 tr3
      else if e4 < 0 then init_failed b k e4 m3 tr4 else (0, m3, tr4))"
    using 4 by (simp add: init_hardware_def 1 2 3 Let_def m3_def m2_def m1_def)
  consider "e2 < 0" | "\<not> e2 < 0" "e3 < 0" | "\<not> e2 < 0" "\<not> e3 < 0" "e4 < 0" | "\<not> e2 < 0" "\<not> e3 < 0" "\<not> e4 < 0" by blast
  then show ?thesis
  proof cases
    case 1
    have "held tr2 \<subseteq> proc_entries \<union> owned b m1" using 1 by (auto simp: h1 h2 owned_def ms)
    then show ?thesis using init_failed_ok 1 by (simp add: run)
  next
    case 2
    have "held tr3 \<subseteq> proc_entries \<union> owned b m2" using 2 by (auto simp: h1 h2 h3 owned_def ms)
    then show ?thesis using init_failed_ok 2 by (simp add: run)
  next
    case 3
    have "held tr4 \<subseteq> proc_entries \<union> owned b m3" using 3 by (auto simp: h1 h2 h3 h4 owned_def ms)
    then show ?thesis using init_failed_ok 3 by (simp add: run)
  next
    case 4
    then have "held tr4 = loaded b m3" by (auto simp: h1 h2 h3 h4 loaded_def ms)
    moreover have "IRRecvGPIO m3 = 1" by (simp add: m3_def m2_def)
    ultimately show ?thesis using 4 by (simp add: run init_ok_def)
  qed
qed

lemma irr_driver_init_ok:
  assumes "held tr = {}"
  shows "init_ok b (irr_driver_init b k irr_module_start tr)"
proof -
  obtain e1 tr1 where 1: "kcall k (Create_Proc IR_PROCNAME_RECV) tr = (e1, tr1)" by fastforce
  obtain e2 tr2 where 2: "kcall k (Create_Proc IR_PROCNAME_RECV_COUNT) tr1 = (e2, tr2)" by fastforce
  have h1: "held tr1 = (if e1 \<noteq> 0 then {Remove_Proc IR_PROCNAME_RECV} else {})"
    using kcall_held [OF 1] assms by (auto simp: hold_def)
  have h2: "held tr2 = (if e2 \<noteq> 0 then insert (Remove_Proc IR_PROCNAME_RECV_COUNT) (held tr1) else held tr1 - {Create_Proc IR_PROCNAME_RECV_COUNT})"
    using kcall_held [OF 2]  by (auto simp: hold_def)
  have *: "held tr2 = proc_entries" if "e1 \<noteq> 0" "e2 \<noteq> 0" using that h1 h2 by (auto simp: proc_entries_def)
  have run: "irr_driver_init b k irr_module_start tr = (if e1 = 0 then init_failed b k (- EBUSY) irr_module_start tr1
      else if e2 = 0 then init_failed b k (- EBUSY) irr_module_start tr2 else init_hardware b k irr_module_start tr2)"
    by (simp add: irr_driver_init_def 1 2)
  have neg: "- EBUSY < 0" by (simp add: EBUSY_def)
  have "held tr1 \<subseteq> proc_entries" by (auto simp: h1 proc_entries_def)
  moreover have "held tr2 \<subseteq> proc_entries" by (auto simp: h1 h2 proc_entries_def split: if_splits)
  ultimately show ?thesis using * neg by (auto simp: run intro!: init_failed_ok init_hardware_ok)
qed

text \<open>C35: For every behaviour of the kernel, loading the module either fails with a negative code and holds nothing, or
  succeeds and holds the two entries of /proc, the pin, the interrupt and the timer if it was mapped; unloading then gives
  all of it back, unless the interrupt has number 0, which is not freed.
\<close>

theorem driver_lifecycle:
  "case irr_driver_init b k irr_module_start [] of (r, m, tr) \<Rightarrow>
     if r < 0 then held tr = {} \<and> m = irr_module_start
     else r = 0 \<and> held tr = loaded b m \<and>
       (case irr_driver_exit b k m tr of (m', tr') \<Rightarrow> m' = irr_module_start \<and> held tr' = (if IRRecvIRQ m = 0 then {Free_Irq 0} else {}))"
proof -
  have 0: "held [] = {}" by (simp add: held_def)
  have *: "held (snd (cleanup b k m tr)) = (if IRRecvIRQ m = 0 then {Free_Irq 0} else {})"
    if "held tr = loaded b m" "IRRecvGPIO m = 1" for m tr
    using that by (auto simp: cleanup_held loaded_def owned_def proc_entries_def)
  show ?thesis
    using irr_driver_init_ok [OF 0, of b k]
    by (auto simp: init_ok_def case_prod_unfold irr_driver_exit_def cleanup_start * split: if_splits)
qed

text \<open>Faults of the code: what is freed without being held, and a timer that is not there.\<close>

lemma faults_snoc: "faults (tr @ [e]) = (if is_release (fst e) \<and> fst e \<notin> held tr then faults tr @ [fst e] else faults tr)"
proof -
  have "fst (fold (\<lambda>e (H, fs). (hold e H, if is_release (fst e) \<and> fst e \<notin> H then fs @ [fst e] else fs)) tr (H, fs)) = fold hold tr H" for H fs
    by (induction tr arbitrary: H fs) auto
  then show ?thesis by (simp add: faults_def held_def case_prod_unfold)
qed

text \<open>A kernel that refuses only the interrupt: the failing load frees an interrupt it never had.\<close>

definition refuse_irq :: kernel where
  "refuse_irq tr c = (case c of Request_Irq n \<Rightarrow> - 16 | Gpio_To_Irq p \<Rightarrow> 100 | Create_Proc e \<Rightarrow> 1 | Ioremap a \<Rightarrow> 1 | _ \<Rightarrow> 0)"

lemma driver_frees_refused_irq: "faults (snd (snd (irr_driver_init Razby refuse_irq irr_module_start []))) = [Free_Irq 100]"
  by code_simp

text \<open>A kernel that maps nothing: the third module loads, and its first interrupt reads through a null pointer.\<close>

definition no_mapping :: kernel where
  "no_mapping tr c = (case c of Gpio_To_Irq p \<Rightarrow> 100 | Create_Proc e \<Rightarrow> 1 | _ \<Rightarrow> 0)"

lemma driver_loads_without_timer:
  "fst (irr_driver_init Razby no_mapping irr_module_start []) = 0" "\<not> DMTIMERMemory (fst (snd (irr_driver_init Razby no_mapping irr_module_start [])))"
  "test_irq_latency_interrupt_handler None d = None"
  by (code_simp, code_simp, simp add: test_irq_latency_interrupt_handler_def)

section \<open>What a reader sees while edges arrive\<close>

text \<open>The bytes of a list of words, and what is kept of a log of edges.\<close>

definition word_bytes :: "u32 list \<Rightarrow> byte list" where
  "word_bytes ws = concat (map (\<lambda>w. le_bytes 4 (unat w)) ws)"

definition kept :: "u32 list \<Rightarrow> u32 list" where
  "kept log = take 600000 log"

definition recorded :: "irr_buffer \<Rightarrow> u32 list \<Rightarrow> bool" where
  "recorded d log = (unat (IRRecvBufferIndex d) = length (kept log) \<and> map (IRRecvBuffer d) [0..<length (kept log)] = kept log)"

text \<open>
  The steps of a run: an edge at a time, and a read of a process that goes on where its last read ended; \<open>log\<close> holds
  the times of all edges and \<open>out\<close> what the process has got. A read runs to its end between two edges.
\<close>

inductive recording :: "irr_buffer \<Rightarrow> u32 list \<Rightarrow> byte list \<Rightarrow> bool" where
  start: "recording irr_buffer_start [] []"
| edge: "recording d log out \<Longrightarrow> test_irq_latency_interrupt_handler (Some a) d = Some d' \<Longrightarrow> recording d' (log @ [a]) out"
| read: "recording d log out \<Longrightarrow> ir_proc_recv_read d (of_nat (length out)) count = Data bs \<Longrightarrow> recording d log (out @ bs)"

lemma length_kept: "length (kept log) = min 600000 (length log)"
  by (simp add: kept_def)

lemma length_word_bytes [simp]: "length (word_bytes ws) = 4 * length ws"
  by (induction ws) (simp_all add: word_bytes_def)

lemma word_bytes_append [simp]: "word_bytes (xs @ ys) = word_bytes xs @ word_bytes ys"
  by (simp add: word_bytes_def)

lemma word_bytes_Nil [simp]: "word_bytes [] = []"
  by (simp add: word_bytes_def)

lemma kept_snoc: "kept (log @ [a]) = (if length log < 600000 then kept log @ [a] else kept log)"
  by (simp add: kept_def)

lemma size_unat: "unat IR_RECV_BUFFER_SIZE = 600000"
  by (simp add: IR_RECV_BUFFER_SIZE_def)

lemma handler_recorded:
  assumes "recorded d log" "test_irq_latency_interrupt_handler (Some a) d = Some d'"
  shows "recorded d' (log @ [a])"
proof (cases "length log < 600000")
  case True
  then have k: "kept log = log" "kept (log @ [a]) = log @ [a]" by (simp_all add: kept_def)
  have i: "unat (IRRecvBufferIndex d) = length log" using assms(1) by (simp add: recorded_def k)
  then have "IRRecvBufferIndex d < IR_RECV_BUFFER_SIZE" using True by (simp add: word_less_nat_alt size_unat)
  then have d': "d' = \<lparr>IRRecvBuffer = (IRRecvBuffer d)(length log := a), IRRecvBufferIndex = IRRecvBufferIndex d + 1\<rparr>"
    using assms(2) i by (simp add: test_irq_latency_interrupt_handler_def)
  have "unat (IRRecvBufferIndex d + 1) = Suc (length log)"
    using i True by (simp add: unat_add_exact)
  then show ?thesis using assms(1) by (simp add: recorded_def k d')
next
  case False
  then have k: "kept (log @ [a]) = kept log" "length (kept log) = 600000" by (simp_all add: kept_snoc length_kept)
  then have "\<not> IRRecvBufferIndex d < IR_RECV_BUFFER_SIZE" using assms(1) by (simp add: recorded_def word_less_nat_alt size_unat)
  then have "d' = d" using assms(2) by (simp add: test_irq_latency_interrupt_handler_def)
  then show ?thesis using assms(1) k by (simp add: recorded_def)
qed

lemma nth_le_bytes_div: "m < n \<Longrightarrow> le_bytes n v ! m = of_nat (v div 256 ^ m)"
proof (induction n v arbitrary: m rule: le_bytes.induct)
  case (2 n v)
  then show ?case by (cases m) (simp_all add: div_mult2_eq)
qed simp

lemma word_bytes_nth:
  "n < 4 * length ws \<Longrightarrow> word_bytes ws ! n = ucast (drop_bit (8 * (n mod 4)) (ws ! (n div 4)))"
proof (induction ws arbitrary: n)
  case (Cons w ws)
  have byte: "le_bytes 4 (unat w) ! m = ucast (drop_bit (8 * m) w)" if "m < 4" for m
  proof -
    have "ucast (drop_bit (8 * m) w) = (of_nat (unat (drop_bit (8 * m) w)) :: byte)" by simp
    also have "unat (drop_bit (8 * m) w) = unat w div 256 ^ m" by (simp only: unat_drop_bit_div power_mult) simp
    finally show ?thesis using that by (simp add: nth_le_bytes_div)
  qed
  show ?case
  proof (cases "n < 4")
    case True
    then show ?thesis by (simp add: word_bytes_def nth_append byte)
  next
    case False
    then obtain m where "n = m + 4" by (metis add.commute le_Suc_ex not_less)
    moreover have "(m + 4) div 4 = Suc (m div 4)" by simp
    ultimately show ?thesis using Cons by (simp add: word_bytes_def nth_append)
  qed
qed simp

lemma buffer_byte_recorded:
  assumes "recorded d log" "n < 4 * length (kept log)"
  shows "buffer_byte d n = word_bytes (kept log) ! n"
proof -
  have "n div 4 < length (kept log)" using assms(2) by simp
  then have "IRRecvBuffer d (n div 4) = kept log ! (n div 4)"
    using assms(1) by (metis (no_types, lifting) recorded_def add_0 diff_zero length_upt nth_map nth_upt)
  then show ?thesis using assms(2) by (simp add: buffer_byte_def word_bytes_nth)
qed

lemma index_bytes:
  assumes "recorded d log"
  shows "unat (IRRecvBufferIndex d * 4) = 4 * length (kept log)"
proof -
  have "unat (IRRecvBufferIndex d) = length (kept log)" using assms by (simp add: recorded_def)
  moreover have "length (kept log) \<le> 600000" by (simp add: length_kept)
  ultimately show ?thesis by (simp add: unat_mult_exact)
qed

text \<open>A read gets the next bytes of the image, and the end only when there are none.\<close>

lemma read_recorded:
  assumes r: "recorded d log" and n: "n \<le> 4 * length (kept log)"
  shows "ir_proc_recv_read d (of_nat n) count =
    (if n = 4 * length (kept log) then Eof else Data (take (unat count) (drop n (word_bytes (kept log)))))"
proof -
  have k: "4 * length (kept log) \<le> 2400000" by (simp add: length_kept)
  have i: "unat (IRRecvBufferIndex d * 4) = 4 * length (kept log)" by (rule index_bytes [OF r])
  have u: "unat (of_nat n :: u32) = n" using n k by (simp add: unat_of_nat take_bit_nat_eq_self)
  have copy: "map (\<lambda>i. buffer_byte d (n + i)) [0..<m] = take m (drop n (word_bytes (kept log)))"
    if "n + m \<le> 4 * length (kept log)" for m
    using that by (intro nth_equalityI) (auto simp: buffer_byte_recorded [OF r])
  show ?thesis
  proof (cases "n = 4 * length (kept log)")
    case True
    then have "unat (IRRecvBufferIndex d * 4) \<le> unat (of_nat n :: u32)" using u i by linarith
    then have "IRRecvBufferIndex d * 4 \<le> of_nat n" by (simp only: word_le_nat_alt)
    then show ?thesis using True by (simp only: ir_proc_recv_read_def if_True simp_thms)
  next
    case False
    then have less: "n < 4 * length (kept log)" using n by simp
    have "unat (IRRecvBufferIndex d * 4 - of_nat n) = 4 * length (kept log) - n"
      using less by (subst unat_sub) (simp_all add: word_le_nat_alt i u)
    moreover have "\<not> IRRecvBufferIndex d * 4 \<le> 0" using less i by (auto simp: word_le_nat_alt)
    moreover have "\<not> IRRecvBufferIndex d * 4 \<le> of_nat n" using less by (simp add: word_le_nat_alt u i)
    ultimately show ?thesis
      using less copy [of "unat count"] copy [of "4 * length (kept log) - n"]
      by (auto simp: ir_proc_recv_read_def Let_def u word_less_nat_alt not_less)
  qed
qed

lemma take_own_length: "xs = take m ys \<Longrightarrow> xs = take (length xs) ys"
  by (simp add: min_def)

lemma recorded_start: "recorded irr_buffer_start []"
  by (simp add: recorded_def irr_buffer_start_def kept_def)

lemma prefix_kept: "take n (word_bytes (kept log)) = out \<Longrightarrow> n \<le> 4 * length (kept log) \<Longrightarrow> take n (word_bytes (kept (log @ [a]))) = out"
  by (auto simp: kept_snoc)

lemma recording_invariant:
  "recording d log out \<Longrightarrow> recorded d log \<and> length out \<le> 4 * length (kept log) \<and> out = take (length out) (word_bytes (kept log))"
proof (induction rule: recording.induct)
  case start
  then show ?case by (simp add: recorded_start)
next
  case (edge d log out a d')
  then show ?case using handler_recorded prefix_kept [of "length out" log out a] by (auto simp: kept_snoc)
next
  case (read d log out count bs)
  then have r: "recorded d log" and l: "length out \<le> 4 * length (kept log)" and o: "out = take (length out) (word_bytes (kept log))"
    by auto
  have bs: "bs = take (unat count) (drop (length out) (word_bytes (kept log)))"
    using read.hyps(2) read_recorded [OF r l, of count] by (auto split: if_splits)
  have "out @ bs = take (length out + unat count) (word_bytes (kept log))"
    unfolding bs by (subst o) (simp add: take_add)
  then show ?case using r take_own_length by (metis length_take length_word_bytes min.cobounded1)
qed

text \<open>C36: Whatever the order of edges and reads, the buffer holds the times of the first 600000 edges in order, what a process
  has read is the beginning of their bytes, and it is told the end exactly when it has read all that is recorded so far.
\<close>

theorem recording_prefix:
  assumes "recording d log out"
  shows "unat (IRRecvBufferIndex d) = min 600000 (length log) \<and> map (IRRecvBuffer d) [0..<min 600000 (length log)] = take 600000 log \<and>
    out = take (length out) (word_bytes (take 600000 log)) \<and>
    (ir_proc_recv_read d (of_nat (length out)) count = Eof \<longleftrightarrow> out = word_bytes (take 600000 log))"
proof -
  note i = recording_invariant [OF assms]
  then have "out = word_bytes (kept log) \<longleftrightarrow> length out = 4 * length (kept log)" by (metis length_word_bytes order_refl take_all)
  then show ?thesis using i read_recorded [of d log "length out" count] by (simp add: recorded_def length_kept flip: kept_def)
qed

text \<open>Reading to the end; None when the fuel is used up or the dead branch is reached.\<close>

fun drain :: "nat \<Rightarrow> irr_buffer \<Rightarrow> u32 \<Rightarrow> byte list \<Rightarrow> byte list option" where
  "drain 0 d count out = None"
| "drain (Suc n) d count out = (case ir_proc_recv_read d (of_nat (length out)) count of
     Eof \<Rightarrow> Some out | Busy \<Rightarrow> None | Data bs \<Rightarrow> drain n d count (out @ bs))"

lemma drain_recorded:
  assumes "recorded d log" "0 < count" "length out \<le> 4 * length (kept log)" "out = take (length out) (word_bytes (kept log))"
    "4 * length (kept log) - length out < n"
  shows "drain n d count out = Some (word_bytes (kept log))"
  using assms(3-5)
proof (induction n arbitrary: out)
  case (Suc n)
  let ?img = "word_bytes (kept log)" and ?bs = "take (unat count) (drop (length out) (word_bytes (kept log)))"
  have c: "0 < unat count" using assms(2) by (simp add: word_less_nat_alt)
  show ?case
  proof (cases "length out = 4 * length (kept log)")
    case True
    then show ?thesis using Suc.prems read_recorded [OF assms(1), of "length out" count] by simp
  next
    case False
    have all: "out @ ?bs = take (length out + unat count) ?img" using Suc.prems(2) by (metis take_add)
    have "length (out @ ?bs) = min (4 * length (kept log)) (length out + unat count)" by (simp only: all length_take length_word_bytes min.commute)
    then have "drain n d count (out @ ?bs) = Some ?img"
      using False Suc.prems(1,3) c all by (intro Suc.IH) (auto simp: min_def)
    then show ?thesis using False Suc.prems(1) read_recorded [OF assms(1), of "length out" count] by simp
  qed
qed simp

lemma show_recorded:
  assumes "recorded d log"
  shows "ir_proc_recv_show d = word_bytes (kept log)"
proof -
  have bytes: "[ucast (v AND 0xff), ucast (drop_bit 8 v AND 0xff), ucast (drop_bit 16 v AND 0xff), ucast (drop_bit 24 v AND 0xff)] =
      le_bytes 4 (unat v)" for v :: u32
  proof -
    have "le_bytes 4 (unat v) ! m = ucast (drop_bit (8 * m) v)" if "m < 4" for m
      using that word_bytes_nth [of m "[v]"] by (simp add: word_bytes_def)
    from this [of 0] this [of 1] this [of 2] this [of 3]
    have "ucast v = le_bytes 4 (unat v) ! 0" "ucast (drop_bit 8 v) = le_bytes 4 (unat v) ! 1"
      "ucast (drop_bit 16 v) = le_bytes 4 (unat v) ! 2" "ucast (drop_bit 24 v) = le_bytes 4 (unat v) ! 3"
      by simp_all
    moreover have "bs = [bs ! 0, bs ! 1, bs ! 2, bs ! 3]" if "length bs = 4" for bs :: "byte list"
      using that by (auto simp: length_Suc_conv numeral_eq_Suc)
    from this [of "le_bytes 4 (unat v)"] have "le_bytes 4 (unat v) =
        [le_bytes 4 (unat v) ! 0, le_bytes 4 (unat v) ! 1, le_bytes 4 (unat v) ! 2, le_bytes 4 (unat v) ! 3]"
      by (simp only: length_le_bytes simp_thms)
    ultimately show ?thesis by (simp only: ucast_and_ff)
  qed
  have "ir_proc_recv_show d = word_bytes (map (IRRecvBuffer d) [0..<unat (IRRecvBufferIndex d)])"
    by (simp add: ir_proc_recv_show_def word_bytes_def bytes Let_def o_def)
  then show ?thesis using assms by (simp add: recorded_def)
qed

text \<open>C37: A process that reads on with a buffer of any size above 0, while no edge comes, ends and has the bytes of all that
  is recorded; the sequence file of the other two modules gives the same bytes.
\<close>

theorem drain_complete:
  assumes "recording d log out" "0 < count"
  shows "drain 2400001 d count out = Some (word_bytes (take 600000 log)) \<and> ir_proc_recv_show d = word_bytes (take 600000 log)"
proof
  note i = recording_invariant [OF assms(1)]
  have "4 * length (kept log) - length out < 2400001" by (simp add: length_kept)
  then have "drain 2400001 d count out = Some (word_bytes (kept log))"
    using i assms(2) by (intro drain_recorded) auto
  then show "drain 2400001 d count out = Some (word_bytes (take 600000 log))" by (simp only: kept_def)
  show "ir_proc_recv_show d = word_bytes (take 600000 log)" using show_recorded i by (simp add: kept_def)
qed

text \<open>Two edges, then a read of three bytes.\<close>

definition sample_buffer :: irr_buffer where
  "sample_buffer = \<lparr>IRRecvBuffer = (\<lambda>_. 0)(0 := 0x01020304, 1 := 7), IRRecvBufferIndex = 2\<rparr>"

lemma sample_recording: "recording sample_buffer [0x01020304, 7] [4, 3, 2]"
proof -
  let ?d = "\<lparr>IRRecvBuffer = (\<lambda>_. 0)(0 := 0x01020304), IRRecvBufferIndex = 1\<rparr>"
  have "test_irq_latency_interrupt_handler (Some 0x01020304) irr_buffer_start = Some ?d"
    by (simp add: test_irq_latency_interrupt_handler_def irr_buffer_start_def IR_RECV_BUFFER_SIZE_def)
  from recording.edge [OF recording.start this] have "recording ?d [0x01020304] []" by simp
  moreover have "test_irq_latency_interrupt_handler (Some 7) ?d = Some sample_buffer"
    by (simp add: test_irq_latency_interrupt_handler_def sample_buffer_def IR_RECV_BUFFER_SIZE_def)
  ultimately have "recording sample_buffer [0x01020304, 7] []" using recording.edge by fastforce
  moreover have "ir_proc_recv_read sample_buffer (of_nat (length [])) 3 = Data [4, 3, 2]"
    by code_simp
  ultimately show ?thesis using recording.read [of sample_buffer "[0x01020304, 7]" "[]" 3 "[4, 3, 2]"] by simp
qed

lemma le_bytes_4: "le_bytes 4 v = [of_nat v, of_nat (v div 256), of_nat (v div 256 div 256), of_nat (v div 256 div 256 div 256)]"
proof -
  have "(4 :: nat) = Suc (Suc (Suc (Suc 0)))" by simp
  then show ?thesis by (simp only: le_bytes.simps)
qed

lemma sample_bytes: "word_bytes [0x01020304, 7] = [4, 3, 2, 1, 7, 0, 0, 0]"
  by (simp add: word_bytes_def le_bytes_4)

lemma recording_prefix_witness: "ir_proc_recv_read sample_buffer 3 1 \<noteq> Eof \<and> unat (IRRecvBufferIndex sample_buffer) = 2"
  using recording_prefix [OF sample_recording, of 1] by (simp add: sample_bytes)

lemma drain_complete_witness: "drain 2400001 sample_buffer 100 [4, 3, 2] = Some [4, 3, 2, 1, 7, 0, 0, 0]"
  using drain_complete [OF sample_recording, of 100] by (simp add: sample_bytes del: drain.simps)

end
