(* ===== verification/Irr_Capture.thy ===== *)
theory Irr_Capture
  imports Irr_Driver
begin

text \<open>
  sub/irr/userland_razby/irr.cpp: the tool that reads what the kernel module recorded, turns times of edges into waves,
  checks and stores them, and sends them again. The functions on data are the same in userland_bb/irr.cpp. Operations
  on arrays are None when they leave the array; \<open>malloc\<close> may fail in \<open>CaptureIR\<close>, elsewhere memory is granted. A file of /proc is a function from the offset and the size of a read to
  the bytes read; the timer is the sequence of its readings; what an array holds before it is written is a parameter.
\<close>

section \<open>Reading the kernel module\<close>

type_synonym proc_reader = "nat \<Rightarrow> nat \<Rightarrow> byte list"

text \<open>Four bytes of the array of \<open>srcIndex\<close> words for each word; a longer read writes past it.\<close>

function read_loop :: "proc_reader \<Rightarrow> u32 \<Rightarrow> byte list \<Rightarrow> byte list option" where
  "read_loop rd srcIndex acc =
     (let bs = rd (length acc) (unat (4 * (srcIndex * 4 - of_nat (length acc)) :: u32)); total = length acc + length bs in
      if bs = [] then Some acc
      else if unat (4 * srcIndex) < total then None
      else if unat (srcIndex * 4) \<le> total then Some (acc @ bs)
      else read_loop rd srcIndex (acc @ bs))"
  by auto
termination
proof (relation "measure (\<lambda>(rd, n, acc). unat (4 * n) - length acc)")
  fix rd :: proc_reader and n :: u32 and acc bs :: "byte list" and t
  assume t: "t = length acc + length bs" and bs: "bs \<noteq> []" and less: "\<not> unat (n * 4) \<le> t"
  have "0 < length bs" using bs by simp
  moreover have "t < unat (4 * n)" using less by (simp only: mult.commute not_le)
  ultimately have "unat (4 * n) - length (acc @ bs) < unat (4 * n) - length acc" using t by (simp only: length_append)
  then show "((rd, n, acc @ bs), (rd, n, acc)) \<in> measure (\<lambda>(rd, n, acc). unat (4 * n) - length acc)"
    by (simp only: in_measure case_prod_conv)
qed simp

declare read_loop.simps [simp del]

definition words_of :: "byte list \<Rightarrow> u32 list" where
  "words_of bs = map (\<lambda>b. of_nat (le_val b)) (blocks_of 4 bs)"

definition readDriverIRR :: "proc_reader option \<Rightarrow> u32 \<Rightarrow> (int + u32 list) option" where
  "readDriverIRR fp srcIndex = (case fp of None \<Rightarrow> Some (Inl (- 1))
     | Some rd \<Rightarrow> do { bs \<leftarrow> read_loop rd srcIndex [];
         Some (if length bs \<noteq> unat (srcIndex * 4) then Inl (- 2) else Inr (words_of bs)) })"

text \<open>\<open>stack\<close> is what the array of ten bytes and the memory after it hold.\<close>

definition readCountDriverIRR :: "byte list option \<Rightarrow> byte list \<Rightarrow> int option" where
  "readCountDriverIRR fd stack = (case fd of None \<Rightarrow> Some (- 1)
     | Some text' \<Rightarrow> let got = take 10 text' in atoi (got @ drop (length got) stack))"

text \<open>The \<open>k\<close>-th count is \<open>counts k\<close>; a loop returns the number of counts taken and the last one.\<close>

fun pull_loop :: "(int \<Rightarrow> bool) \<Rightarrow> (nat \<Rightarrow> int) \<Rightarrow> nat \<Rightarrow> int \<Rightarrow> nat \<Rightarrow> nat \<times> int" where
  "pull_loop stop counts k r 0 = (k, r)"
| "pull_loop stop counts k r (Suc n) = (if stop (counts k) then (Suc k, counts k) else pull_loop stop counts (Suc k) (counts k) n)"

definition PullData :: "(nat \<Rightarrow> int) \<Rightarrow> nat \<Rightarrow> int" where
  "PullData counts waitSec =
     (let k = fst (pull_loop (\<lambda>r. r > 0) counts 0 0 waitSec); r = counts k in
      if r \<le> 0 then - 1 else snd (pull_loop (\<lambda>r'. r' \<le> r) counts (Suc k) r waitSec))"

section \<open>From times to waves\<close>

definition convertReti :: "nat \<Rightarrow> u32 list \<Rightarrow> nat \<times> u32 list" where
  "convertReti size' ioBuffer =
     (if size' \<le> 0 then (0, ioBuffer)
      else let basetime = 0xffffffff - ioBuffer ! 0 + 1
           in (size' - 1, fold (\<lambda>index io. io[index - 1 := (io ! index + basetime) - (io ! (index - 1) + basetime)]) [1..<size'] ioBuffer))"

definition IR_BIGWAVE :: u32 where "IR_BIGWAVE = 700"

record pwm_state =
  outTimer :: "u32 list"
  wave_index :: nat
  isON :: bool
  f_on_sum :: u32
  f_on_index :: nat
  f_off_sum :: u32
  f_off_index :: nat

definition write_wave :: "nat \<Rightarrow> u32 \<Rightarrow> pwm_state \<Rightarrow> pwm_state option" where
  "write_wave i v s = (if i < length (outTimer s) then Some (s\<lparr>outTimer := (outTimer s)[i := v]\<rparr>) else None)"

text \<open>A wave of its own and the start of the next: \<open>outTimer[++index] = t; outTimer[++index] = 0\<close>.\<close>

definition new_wave :: "u32 \<Rightarrow> pwm_state \<Rightarrow> pwm_state option" where
  "new_wave t s = do {
     let s = s\<lparr>wave_index := wave_index s + 1\<rparr>;
     s \<leftarrow> write_wave (wave_index s) t s;
     let s = s\<lparr>wave_index := wave_index s + 1\<rparr>;
     s \<leftarrow> write_wave (wave_index s) 0 s;
     Some (s\<lparr>isON := True\<rparr>) }"

definition add_wave :: "u32 \<Rightarrow> pwm_state \<Rightarrow> pwm_state option" where
  "add_wave t s = (if wave_index s < length (outTimer s) then write_wave (wave_index s) (outTimer s ! wave_index s + t) s else None)"

definition count_short :: "u32 \<Rightarrow> pwm_state \<Rightarrow> pwm_state" where
  "count_short t s =
     (if isON s then
        let s = (if wave_index s \<ge> 1 \<and> f_on_index s < 300 then
                   (if t < 100 then s else s\<lparr>f_on_sum := f_on_sum s + t, f_on_index := f_on_index s + 1\<rparr>) else s)
        in s\<lparr>isON := False\<rparr>
      else
        let s = (if wave_index s \<ge> 1 \<and> f_off_index s < 300 then
                   (if t < 100 then s else s\<lparr>f_off_sum := f_off_sum s + t, f_off_index := f_off_index s + 1\<rparr>) else s)
        in s\<lparr>isON := True\<rparr>)"

definition pwm_step :: "u32 \<Rightarrow> pwm_state \<Rightarrow> pwm_state option" where
  "pwm_step t s =
     (if t > IR_BIGWAVE then
        if isON s then
          if wave_index s < length (outTimer s) then
            if outTimer s ! wave_index s \<le> IR_BIGWAVE
            then do { s \<leftarrow> add_wave t s; Some (s\<lparr>isON := False\<rparr>) }
            else new_wave t s
          else None
        else new_wave t s
      else do { s \<leftarrow> add_wave t s; Some (count_short t s) })"

fun pwm_steps :: "u32 list \<Rightarrow> pwm_state \<Rightarrow> pwm_state option" where
  "pwm_steps [] s = Some s"
| "pwm_steps (t # ts) s = do { s \<leftarrow> pwm_step t s; pwm_steps ts s }"

text \<open>The averages without short waves are \<open>8800/41.65\<close> and \<open>17500/41.65\<close>, cut to integers.\<close>

definition pwm_averages :: "pwm_state \<Rightarrow> u32 \<times> u32" where
  "pwm_averages s =
     (if f_on_index s \<le> 0 \<or> f_off_index s \<le> 0 then (211, 420)
      else (f_on_sum s div of_nat (f_on_index s), f_off_sum s div of_nat (f_off_index s)))"

text \<open>\<open>timer\<close> up to \<open>maxindex\<close>, \<open>mem\<close> the new array of waves; the waves and the averages.\<close>

definition ir_convertpwm :: "u32 list \<Rightarrow> u32 list \<Rightarrow> (u32 list \<times> u32 \<times> u32) option" where
  "ir_convertpwm timer mem = do {
     s \<leftarrow> write_wave 0 0 \<lparr>outTimer = mem, wave_index = 0, isON = True, f_on_sum = 0, f_on_index = 0, f_off_sum = 0, f_off_index = 0\<rparr>;
     s \<leftarrow> pwm_steps (drop 2 timer) s;
     Some (take (wave_index s + 1) (outTimer s), pwm_averages s) }"

section \<open>Reading gives what was recorded\<close>

text \<open>What the tool relies on of a file of /proc, and the two kinds the modules make.\<close>

locale proc_file =
  fixes rd :: proc_reader and image :: "byte list"
  assumes part: "rd off n = take (length (rd off n)) (drop off image)"
    and bounded: "length (rd off n) \<le> n"
    and progress: "0 < n \<Longrightarrow> off < length image \<Longrightarrow> off < 2 ^ 31 \<Longrightarrow> rd off n \<noteq> []"
begin

lemma read_next: "acc = take (length acc) image \<Longrightarrow> acc @ rd (length acc) n = take (length (acc @ rd (length acc) n)) image"
  by (metis part take_add length_append)

lemma read_loop_all:
  assumes "unat c < 2 ^ 26" "length image \<le> 4 * unat c" "acc = take (length acc) image"
  shows "read_loop rd c acc = Some image"
proof -
  have c: "unat (4 * c) = 4 * unat c" "unat (c * 4) = 4 * unat c" using assms(1) by (simp_all add: unat_mult_exact)
  show ?thesis using assms(3)
  proof (induction "4 * unat c - length acc" arbitrary: acc rule: less_induct)
    case less
    define m where "m = unat (4 * (c * 4 - of_nat (length acc)) :: u32)"
    define bs where "bs = rd (length acc) m"
    have acc: "length acc \<le> length image" by (metis less.prems length_take min.cobounded1)
    have all: "acc @ bs = take (length (acc @ bs)) image" unfolding bs_def by (rule read_next [OF less.prems])
    then have le: "length (acc @ bs) \<le> length image" by (metis length_take min.cobounded1)
    have step: "read_loop rd c acc = (if bs = [] then Some acc else if 4 * unat c < length acc + length bs then None
        else if 4 * unat c \<le> length acc + length bs then Some (acc @ bs) else read_loop rd c (acc @ bs))"
      by (subst read_loop.simps) (simp only: Let_def c flip: m_def bs_def)
    show ?case
    proof (cases "bs = []")
      case True
      have "length acc = length image"
      proof (rule ccontr)
        assume "length acc \<noteq> length image"
        then have l: "length acc < length image" using acc by simp
        then have u: "unat (of_nat (length acc) :: u32) = length acc"
          using assms(1,2) by (simp add: unat_of_nat take_bit_nat_eq_self)
        have d: "unat (c * 4 - of_nat (length acc)) = 4 * unat c - length acc"
          using l assms(2) c u by (subst unat_sub) (simp_all add: word_le_nat_alt)
        have "m = 4 * (4 * unat c - length acc)"
          unfolding m_def using assms(1) d by (subst unat_mult_exact) simp_all
        then have "0 < m" using l assms(2) by simp
        then show False using True l progress [of m "length acc"] assms(1,2) by (simp add: bs_def)
      qed
      then have "acc = image" using less.prems by simp
      moreover have "read_loop rd c acc = Some acc" using step by (simp only: True simp_thms if_True)
      ultimately show ?thesis by (simp only:)
    next
      case False
      have "\<not> 4 * unat c < length acc + length bs" using le assms(2) by simp
      moreover have "acc @ bs = image" if "4 * unat c \<le> length acc + length bs"
        using that all le assms(2) by simp
      moreover have "read_loop rd c (acc @ bs) = Some image" if "\<not> 4 * unat c \<le> length acc + length bs"
      proof (rule less.hyps [OF _ all])
        have "0 < length bs" using False by simp
        then show "4 * unat c - length (acc @ bs) < 4 * unat c - length acc" using that by (simp only: length_append)
      qed
      ultimately show ?thesis using False by (simp add: step)
    qed
  qed
qed

end

lemma take_min_length: "take (min (length xs - off) n) (drop off xs) = take n (drop off xs)"
  by (metis length_drop min.commute take_all take_take order_refl)

text \<open>\<open>seq_read\<close> on the text a show function makes, and reads of a page of \<open>read_proc\<close> up to the offset \<open>2^31\<close>.\<close>

definition seq_read :: "byte list \<Rightarrow> proc_reader" where
  "seq_read shown off n = take n (drop off shown)"

definition page_read :: "irr_buffer \<Rightarrow> proc_reader" where
  "page_read d off n = (if 2 ^ 31 \<le> off then []
     else case ir_proc_recv_read d (of_nat off) (of_nat (min n 4096)) of Data bs \<Rightarrow> bs | _ \<Rightarrow> [])"

interpretation seq: proc_file "seq_read shown" shown for shown
  by unfold_locales (auto simp: seq_read_def take_min_length)

lemma unat_of_nat_u32: "n < 4294967296 \<Longrightarrow> unat (of_nat n :: u32) = n"
  by (simp add: unat_of_nat take_bit_nat_eq_self)

lemma unat_if_min: "unat (if a > b then b else a) = min (unat b) (unat a)" for a b :: u32
  by (auto simp: word_less_nat_alt)

definition buffer_image :: "irr_buffer \<Rightarrow> byte list" where
  "buffer_image d = map (buffer_byte d) [0..<unat (IRRecvBufferIndex d * 4)]"

lemma page_read_image:
  "page_read d off n = (if 2 ^ 31 \<le> off then [] else take (min n 4096) (drop off (buffer_image d)))"
proof (cases "2 ^ 31 \<le> off")
  case False
  let ?t = "unat (IRRecvBufferIndex d * 4)"
  have off: "unat (of_nat off :: u32) = off" and n: "unat (of_nat (min n 4096) :: u32) = min n 4096"
    using False by (auto intro!: unat_of_nat_u32)
  show ?thesis
  proof (cases "?t \<le> off")
    case True
    then have "IRRecvBufferIndex d * 4 \<le> of_nat off" by (simp only: word_le_nat_alt off)
    then have "page_read d off n = []" by (simp add: page_read_def ir_proc_recv_read_def)
    then show ?thesis using True by (simp add: buffer_image_def)
  next
    case below: False
    let ?d = "IRRecvBufferIndex d * 4 - of_nat off"
    have "unat (of_nat off :: u32) \<le> ?t" using below by (simp only: off)
    then have "of_nat off \<le> IRRecvBufferIndex d * 4" by (simp only: word_le_nat_alt)
    from unat_sub [OF this] have d: "unat ?d = ?t - off" by (simp only: off)
    have "\<not> IRRecvBufferIndex d * 4 \<le> of_nat off" using below by (simp only: word_le_nat_alt off simp_thms)
    moreover have "\<not> IRRecvBufferIndex d * 4 \<le> 0" using below by (cases "IRRecvBufferIndex d * 4 = 0") (simp_all add: word_le_nat_alt)
    moreover have "unat (if ?d > of_nat (min n 4096) then of_nat (min n 4096) else ?d) = min (min n 4096) (?t - off)"
      by (simp only: unat_if_min n d)
    ultimately have "page_read d off n = map (\<lambda>i. buffer_byte d (off + i)) [0..<min (min n 4096) (?t - off)]"
      using False by (simp add: page_read_def ir_proc_recv_read_def Let_def off)
    also have "\<dots> = take (min n 4096) (drop off (buffer_image d))"
      using below by (intro nth_equalityI) (auto simp: buffer_image_def)
    finally show ?thesis using False by simp
  qed
qed (simp add: page_read_def)

interpretation page: proc_file "page_read d" "buffer_image d" for d
  by unfold_locales (auto simp: page_read_image take_min_length)

lemma words_of_word_bytes: "words_of (word_bytes ws) = ws"
proof (induction ws)
  case (Cons w ws)
  have "blocks_of 4 (word_bytes (w # ws)) = le_bytes 4 (unat w) # blocks_of 4 (word_bytes ws)"
    by (simp add: word_bytes_def blocks_of_block)
  moreover have "of_nat (le_val (le_bytes 4 (unat w))) = w"
    using unat_u32_less [of w] by (simp add: le_val_le_bytes)
  ultimately show ?case using Cons by (simp add: words_of_def)
qed (simp add: words_of_def)

lemma buffer_image_recorded:
  assumes "recorded d edges"
  shows "buffer_image d = word_bytes (kept edges)"
  by (intro nth_equalityI) (auto simp: buffer_image_def index_bytes [OF assms] buffer_byte_recorded [OF assms])

lemma word_bytes_eq_length: "length (word_bytes ws) = unat (n * 4) \<Longrightarrow> unat n < 2 ^ 26 \<Longrightarrow> length ws = unat n" for n :: u32
  by (simp add: unat_mult_exact)

lemma read_recorded_log:
  assumes r: "recorded d edges" and n: "unat n = length (kept edges)"
  shows "readDriverIRR (Some (page_read d)) n = Some (Inr (kept edges))"
    "readDriverIRR (Some (seq_read (ir_proc_recv_show d))) n = Some (Inr (kept edges))"
proof -
  have less: "unat n < 2 ^ 26" using n by (simp add: length_kept)
  then have n4: "unat (n * 4) = 4 * length (kept edges)" using n by (simp add: unat_mult_exact)
  have "read_loop (page_read d) n [] = Some (word_bytes (kept edges))"
    using page.read_loop_all [of n d "[]"] n less by (simp add: buffer_image_recorded [OF r])
  moreover have "read_loop (seq_read (ir_proc_recv_show d)) n [] = Some (word_bytes (kept edges))"
    using seq.read_loop_all [of n "ir_proc_recv_show d" "[]"] n less by (simp add: show_recorded [OF r])
  ultimately show "readDriverIRR (Some (page_read d)) n = Some (Inr (kept edges))"
    "readDriverIRR (Some (seq_read (ir_proc_recv_show d))) n = Some (Inr (kept edges))"
    by (simp_all add: readDriverIRR_def n4 words_of_word_bytes)
qed

text \<open>
  Reading the recording of any of the three modules, with the count that was announced, gives the times of the edges.
\<close>

theorem read_recording:
  assumes "recording d edges out" "unat n = min 600000 (length edges)"
  shows "readDriverIRR (Some (page_read d)) n = Some (Inr (take 600000 edges)) \<and>
    readDriverIRR (Some (seq_read (ir_proc_recv_show d))) n = Some (Inr (take 600000 edges))"
  using read_recorded_log [of d edges n] recording_invariant [OF assms(1)] assms(2) by (simp add: length_kept flip: kept_def)

lemma read_recording_witness: "readDriverIRR (Some (page_read sample_buffer)) 2 = Some (Inr [0x01020304, 7])"
  using read_recording [OF sample_recording, of 2] by simp

text \<open>An edge that comes between reading the count and reading the recording is written past the end of the array: the
  size asked for is four times that of the array.
\<close>

theorem late_edge_overflows:
  assumes "recording d edges out" "0 < n" "unat n < min 600000 (length edges)"
  shows "readDriverIRR (Some (seq_read (ir_proc_recv_show d))) n = None"
proof -
  have r: "recorded d edges" using recording_invariant [OF assms(1)] by simp
  have n: "unat n < length (kept edges)" "unat n < 2 ^ 26" using assms(3) length_kept [of edges] by simp_all
  have pos: "0 < unat n" using assms(2) by (simp add: word_less_nat_alt)
  have c: "unat (4 * n) = 4 * unat n" "unat (n * 4) = 4 * unat n" using n(2) by (simp_all add: unat_mult_exact)
  have "unat (16 * n) = 16 * unat n" using n(2) by (simp add: unat_mult_exact)
  then have bs: "seq_read (ir_proc_recv_show d) 0 (unat (16 * n)) = take (16 * unat n) (word_bytes (kept edges))"
    by (simp add: seq_read_def show_recorded [OF r])
  moreover have "4 * unat n < length (take (16 * unat n) (word_bytes (kept edges)))" using n pos by simp
  ultimately have "read_loop (seq_read (ir_proc_recv_show d)) n [] = None"
    by (subst read_loop.simps) (auto simp: Let_def c dest: arg_cong [where f = length])
  then show ?thesis by (simp add: readDriverIRR_def)
qed

lemma late_edge_overflows_witness: "readDriverIRR (Some (seq_read (ir_proc_recv_show sample_buffer))) 1 = None"
  using late_edge_overflows [OF sample_recording, of 1] by simp

text \<open>
  The count is read back when the byte of memory after its digits is no digit; the text has no terminator, and a digit
  there changes the count.
\<close>

theorem count_read:
  assumes "recording d edges out" "drop (length (ir_proc_recv_count_show d)) stack = c # rest" "\<not> isdigit c"
  shows "readCountDriverIRR (Some (ir_proc_recv_count_show d)) stack = Some (int (min 600000 (length edges))) \<and>
    readCountDriverIRR (Some (ir_proc_recv_count_show irr_buffer_start)) [0, 55, 0] = Some 7"
proof
  let ?n = "min 600000 (length edges)"
  have "recorded d edges" using recording_invariant [OF assms(1)] by simp
  then have shown: "ir_proc_recv_count_show d = int2str ?n" by (simp add: recorded_def ir_proc_recv_count_show_def length_kept)
  have "length (int2str ?n) \<le> 10" by (rule length_int2str) simp_all
  moreover have "strtol10 (int2str ?n @ c # rest) = Some (int ?n, c # rest)" using assms(3) by (rule strtol10_at) simp
  ultimately show "readCountDriverIRR (Some (ir_proc_recv_count_show d)) stack = Some (int ?n)"
    using assms(2) by (simp add: readCountDriverIRR_def shown atoi_def Let_def)
  show "readCountDriverIRR (Some (ir_proc_recv_count_show irr_buffer_start)) [0, 55, 0] = Some 7"
    by (simp add: readCountDriverIRR_def ir_proc_recv_count_show_def irr_buffer_start_def int2str.simps atoi_def strtol10_def
        isspace_def isdigit_def digits_value_def scan_def Let_def)
qed

lemma count_read_witness: "readCountDriverIRR (Some (ir_proc_recv_count_show sample_buffer)) [9, 0] = Some 2"
  using count_read [OF sample_recording, of "[9, 0]" 0 "[]"]
  by (simp add: ir_proc_recv_count_show_def sample_buffer_def int2str.simps isdigit_def)

section \<open>Waiting for the signal\<close>

lemma pull_loop_stop:
  "pull_loop stop counts k r n = (k', r') \<Longrightarrow>
   k \<le> k' \<and> k' \<le> k + n \<and> (k' = k \<and> r' = r \<or> k < k' \<and> r' = counts (k' - 1)) \<and> (k' < k + n \<longrightarrow> stop r' \<and> k < k')"
proof (induction n arbitrary: k r)
  case (Suc n)
  show ?case
  proof (cases "stop (counts k)")
    case True
    then show ?thesis using Suc.prems by auto
  next
    case False
    then have run: "pull_loop stop counts (Suc k) (counts k) n = (k', r')" using Suc.prems by simp
    show ?thesis using Suc.IH [OF run] by (cases "k' = Suc k") auto
  qed
qed auto

text \<open>
  With counts that never decrease, \<open>PullData\<close> fails exactly when there is no edge after the first wait; otherwise it
  returns a count that is positive and the last one taken, and either no edge came in the last second or it waited to
  the end of its time.
\<close>

theorem pull_data_correct:
  assumes "mono counts"
  shows "\<exists>k \<le> waitSec. if counts k \<le> 0 then k = waitSec \<and> PullData counts waitSec = - 1
    else (\<exists>n \<le> waitSec. PullData counts waitSec = counts (k + n) \<and> (n = waitSec \<or> counts (k + n - 1) = counts (k + n)))"
proof -
  obtain k r where 1: "pull_loop (\<lambda>r. r > 0) counts 0 0 waitSec = (k, r)" by fastforce
  note first = pull_loop_stop [OF 1]
  obtain k' r' where 2: "pull_loop (\<lambda>r'. r' \<le> counts k) counts (Suc k) (counts k) waitSec = (k', r')" by fastforce
  note second = pull_loop_stop [OF 2]
  have run: "PullData counts waitSec = (if counts k \<le> 0 then - 1 else r')" by (simp add: PullData_def 1 2 Let_def)
  have k: "k \<le> waitSec" using first by simp
  show ?thesis
  proof (cases "counts k \<le> 0")
    case True
    have "k = waitSec"
    proof (rule ccontr)
      assume "k \<noteq> waitSec"
      then have "0 < counts (k - 1)" using first by auto
      moreover have "counts (k - 1) \<le> counts k" using assms by (simp add: monoD)
      ultimately show False using True by simp
    qed
    then show ?thesis using True run by auto
  next
    case False
    let ?n = "k' - Suc k"
    have r: "r' = counts (k + ?n)" using second by auto
    have n: "?n \<le> waitSec" using second by auto
    have "counts (k + ?n - 1) = counts (k + ?n)" if "?n \<noteq> waitSec"
    proof -
      have le: "counts (k + ?n) \<le> counts k" "Suc k < k'" using that second r by auto
      have "counts k \<le> counts (k + ?n - 1)" "counts (k + ?n - 1) \<le> counts (k + ?n)"
        using le(2) by (auto intro!: monoD [OF assms])
      then show ?thesis using le(1) by simp
    qed
    then have "?n \<le> waitSec \<and> PullData counts waitSec = counts (k + ?n) \<and> (?n = waitSec \<or> counts (k + ?n - 1) = counts (k + ?n))"
      using False n run r by auto
    then show ?thesis using False k by (intro exI [of _ k]) (simp only: if_False simp_thms, blast)
  qed
qed

lemma pull_data_correct_witness: "mono (\<lambda>k. int k) \<and> PullData (\<lambda>k. int k) 1 \<noteq> - 1"
  using pull_data_correct [of "\<lambda>k. int k" 1] by (auto simp: mono_def split: if_splits)

text \<open>The count compared with is never renewed: a signal that ends in the third second is waited for to the end.\<close>

lemma pull_data_waits: "fst (pull_loop (\<lambda>r'. r' \<le> 10) (\<lambda>k. if k < 3 then int k * 10 else 30) 2 10 5) = 7"
  by code_simp

section \<open>Times become distances\<close>

lemma convert_steps:
  fixes io :: "u32 list"
  assumes "k < length io"
  shows "fold (\<lambda>index io. io[index - 1 := (io ! index + b) - (io ! (index - 1) + b)]) [1..<Suc k] io =
    map (\<lambda>i. io ! Suc i - io ! i) [0..<k] @ drop k io"
  using assms
proof (induction k)
  case (Suc k)
  let ?done = "map (\<lambda>i. io ! Suc i - io ! i) [0..<k]"
  have "drop k io = io ! k # drop (Suc k) io" using Suc.prems by (simp add: Cons_nth_drop_Suc)
  then show ?case using Suc by (simp add: list_update_append nth_append algebra_simps)
qed simp

lemma convertReti_distances:
  assumes "io \<noteq> []"
  shows "convertReti (length io) io = (length io - 1, map (\<lambda>i. io ! Suc i - io ! i) [0..<length io - 1] @ [last io])"
proof -
  obtain k where k: "length io = Suc k" using assms by (cases io) auto
  moreover have "drop k io = [last io]" using k assms by (metis Cons_nth_drop_Suc drop_all last_conv_nth diff_Suc_1 lessI order_refl)
  ultimately show ?thesis using convert_steps [of k io] by (simp add: convertReti_def Let_def)
qed

text \<open>
  From the readings of a timer of 32 bits \<open>convertReti\<close> computes the distances of the true times, also when the
  timer passes its end in between.
\<close>

theorem convert_wraps:
  assumes "T \<noteq> []" "\<And>i. Suc i < length T \<Longrightarrow> T ! i \<le> T ! Suc i \<and> T ! Suc i - T ! i < 2 ^ 32"
  shows "fst (convertReti (length T) (map of_nat T)) = length T - 1 \<and>
    map unat (take (length T - 1) (snd (convertReti (length T) (map of_nat T)))) = map (\<lambda>i. T ! Suc i - T ! i) [0..<length T - 1]"
proof -
  have "unat (of_nat (T ! Suc i) - of_nat (T ! i) :: u32) = T ! Suc i - T ! i" if "Suc i < length T" for i
    using assms(2) [OF that] by (simp add: unat_of_nat take_bit_nat_eq_self flip: of_nat_diff)
  then show ?thesis using convertReti_distances [of "map of_nat T"] assms(1) by simp
qed

lemma convert_wraps_witness: "map unat (take 2 (snd (convertReti 3 (map of_nat [4294967280, 4294967312, 4294967344 :: nat])))) = [32, 32]"
proof -
  let ?T = "[4294967280, 4294967312, 4294967344] :: nat list"
  have "?T ! i \<le> ?T ! Suc i \<and> ?T ! Suc i - ?T ! i < 2 ^ 32" if "Suc i < length ?T" for i
    using that by (auto simp: less_Suc_eq)
  from convert_wraps [OF _ this]
  have "map unat (take (length ?T - 1) (snd (convertReti (length ?T) (map of_nat ?T)))) = map (\<lambda>i. ?T ! Suc i - ?T ! i) [0..<length ?T - 1]"
    by (meson list.discI)
  moreover have "length ?T = 3" "[0..<length ?T - 1] = [0, 1]" by (simp_all add: upt_rec)
  ultimately show ?thesis by (simp add: numeral_2_eq_2 numeral_3_eq_3)
qed

section \<open>Distances become waves\<close>

text \<open>What the sums of short times keep, and the state after \<open>n\<close> steps over \<open>ts\<close>.\<close>

definition short_sum :: "nat \<Rightarrow> u32 \<Rightarrow> bool" where
  "short_sum n w \<longleftrightarrow> n \<le> 300 \<and> 100 * n \<le> unat w \<and> unat w \<le> 700 * n"

definition wave_inv :: "pwm_state \<Rightarrow> u32 list \<Rightarrow> bool" where
  "wave_inv s ts \<longleftrightarrow> short_sum (f_on_index s) (f_on_sum s) \<and> short_sum (f_off_index s) (f_off_sum s) \<and>
     (\<exists>pre cur rest. outTimer s = pre @ cur # rest \<and> wave_index s = length pre \<and> even (length pre) \<and>
        (\<forall>i < length pre. odd i \<longrightarrow> 700 < pre ! i) \<and> sum_list pre + cur = sum_list ts \<and>
        length pre + (if isON s \<and> cur \<le> 700 then 0 else 1) \<le> length ts)"

lemma short_sum_add:
  assumes "short_sum n w" "n < 300" "\<not> t < 100" "t \<le> 700"
  shows "short_sum (n + 1) (w + t)"
proof -
  have "100 \<le> unat t" "unat t \<le> 700" using assms(3,4) by (simp_all add: word_less_nat_alt word_le_nat_alt)
  moreover from this have "unat (w + t) = unat w + unat t" using assms(1,2) by (intro unat_add_exact) (simp add: short_sum_def)
  ultimately show ?thesis using assms(1,2) by (simp add: short_sum_def)
qed

lemma count_short_fields [simp]:
  "outTimer (count_short t s) = outTimer s" "wave_index (count_short t s) = wave_index s" "isON (count_short t s) = (\<not> isON s)"
  by (simp_all add: count_short_def Let_def)

lemma count_short_sums:
  assumes "short_sum (f_on_index s) (f_on_sum s)" "short_sum (f_off_index s) (f_off_sum s)" "t \<le> 700"
  shows "short_sum (f_on_index (count_short t s)) (f_on_sum (count_short t s)) \<and> short_sum (f_off_index (count_short t s)) (f_off_sum (count_short t s))"
  using assms short_sum_add by (simp add: count_short_def Let_def)

lemma outTimer_cases:
  assumes "outTimer s = pre @ cur # rest" "wave_index s = length pre"
  shows "write_wave (wave_index s) v s = Some (s\<lparr>outTimer := pre @ v # rest\<rparr>)" "add_wave t s = Some (s\<lparr>outTimer := pre @ (cur + t) # rest\<rparr>)"
    "outTimer s ! wave_index s = cur" "wave_index s < length (outTimer s)"
  using assms by (simp_all add: write_wave_def add_wave_def)

lemma new_wave_at:
  assumes "outTimer s = pre @ cur # r1 # r2 # rest" "wave_index s = length pre"
  shows "new_wave t s = Some (s\<lparr>outTimer := (pre @ [cur, t]) @ 0 # rest, wave_index := length pre + 2, isON := True\<rparr>)"
  using assms by (simp add: new_wave_def write_wave_def list_update_append Let_def)

lemma wave_step:
  assumes inv: "wave_inv s ts" and len: "Suc (Suc (length ts)) < length (outTimer s)"
  shows "\<exists>s'. pwm_step t s = Some s' \<and> wave_inv s' (ts @ [t]) \<and> length (outTimer s') = length (outTimer s)"
proof -
  obtain pre cur rest where o: "outTimer s = pre @ cur # rest" "wave_index s = length pre" and ev: "even (length pre)"
    and big: "\<forall>i < length pre. odd i \<longrightarrow> 700 < pre ! i" and sum: "sum_list pre + cur = sum_list ts"
    and slack: "length pre + (if isON s \<and> cur \<le> 700 then 0 else 1) \<le> length ts"
    and short: "short_sum (f_on_index s) (f_on_sum s)" "short_sum (f_off_index s) (f_off_sum s)"
    using inv by (auto simp: wave_inv_def)
  note at = outTimer_cases [OF o]
  have sum': "sum_list pre + (cur + t) = sum_list (ts @ [t])" using sum by (simp add: algebra_simps)
  have fresh: "\<exists>s'. new_wave t s = Some s' \<and> wave_inv s' (ts @ [t]) \<and> length (outTimer s') = length (outTimer s)"
    if t: "700 < t" and one: "\<not> (isON s \<and> cur \<le> 700)"
  proof -
    have "Suc (Suc 0) \<le> length rest" using len o slack one by simp
    then obtain r1 r2 rest' where rest: "rest = r1 # r2 # rest'" by (auto simp: Suc_le_length_iff)
    have "\<forall>i < length (pre @ [cur, t]). odd i \<longrightarrow> 700 < (pre @ [cur, t]) ! i"
      using big ev t by (auto simp: nth_append nth_Cons' less_Suc_eq)
    then have "wave_inv (s\<lparr>outTimer := (pre @ [cur, t]) @ 0 # rest', wave_index := length pre + 2, isON := True\<rparr>) (ts @ [t])"
      unfolding wave_inv_def using short ev sum' slack one
      by (intro conjI exI [of _ "pre @ [cur, t]"] exI [of _ "0 :: u32"] exI [of _ rest']) (auto simp: algebra_simps)
    then show ?thesis using new_wave_at [OF o(1) [unfolded rest] o(2), of t] o rest by simp
  qed
  show ?thesis
  proof (cases "700 < t")
    case True
    show ?thesis
    proof (cases "isON s \<and> cur \<le> 700")
      case True
      have "wave_inv (s\<lparr>outTimer := pre @ (cur + t) # rest, isON := False\<rparr>) (ts @ [t])"
        unfolding wave_inv_def using short ev big sum' slack o(2)
        by (intro conjI exI [of _ pre] exI [of _ "cur + t"] exI [of _ rest]) auto
      then show ?thesis using True \<open>700 < t\<close> o at by (simp add: pwm_step_def IR_BIGWAVE_def)
    next
      case False
      then have "pwm_step t s = new_wave t s" using True at by (auto simp: pwm_step_def IR_BIGWAVE_def)
      then show ?thesis using fresh [OF True False] by simp
    qed
  next
    case False
    then have t: "t \<le> 700" by simp
    let ?s = "s\<lparr>outTimer := pre @ (cur + t) # rest\<rparr>"
    have "wave_inv (count_short t ?s) (ts @ [t])"
      unfolding wave_inv_def using count_short_sums [of ?s t] short t ev big sum' slack o(2)
      by (intro conjI exI [of _ pre] exI [of _ "cur + t"] exI [of _ rest]) auto
    then show ?thesis using False o at by (simp add: pwm_step_def IR_BIGWAVE_def)
  qed
qed

lemma wave_steps:
  "wave_inv s done' \<Longrightarrow> Suc (length done' + length ts) < length (outTimer s) \<Longrightarrow>
   \<exists>s'. pwm_steps ts s = Some s' \<and> wave_inv s' (done' @ ts) \<and> length (outTimer s') = length (outTimer s)"
proof (induction ts arbitrary: s done')
  case (Cons t ts)
  obtain s1 where 1: "pwm_step t s = Some s1" "wave_inv s1 (done' @ [t])" "length (outTimer s1) = length (outTimer s)"
    using wave_step [OF Cons.prems(1), of t] Cons.prems(2) by auto
  then show ?case using Cons.IH [OF 1(2)] Cons.prems(2) by simp
qed auto

lemma short_average:
  assumes "short_sum n w" "0 < n"
  shows "100 \<le> unat (w div of_nat n) \<and> unat (w div of_nat n) \<le> 700"
proof -
  have n: "unat (of_nat n :: u32) = n" using assms(1) by (intro unat_of_nat_u32) (simp add: short_sum_def)
  have "100 \<le> unat w div n" using assms by (simp add: less_eq_div_iff_mult_less_eq short_sum_def)
  moreover have "unat w div n \<le> 700"
    using assms div_le_mono [of "unat w" "700 * n" n] by (simp add: short_sum_def)
  ultimately show ?thesis by (simp add: unat_div n)
qed

lemma convertpwm_waves:
  assumes "timer \<noteq> []" "length mem = length timer"
  shows "\<exists>bigwave onAvg offAvg. ir_convertpwm timer mem = Some (bigwave, onAvg, offAvg) \<and> odd (length bigwave) \<and>
    length bigwave \<le> length timer \<and> (\<forall>i < length bigwave. odd i \<longrightarrow> 700 < bigwave ! i) \<and>
    sum_list bigwave = sum_list (drop 2 timer) \<and>
    100 \<le> unat onAvg \<and> unat onAvg \<le> 700 \<and> 100 \<le> unat offAvg \<and> unat offAvg \<le> 700"
proof -
  let ?s = "\<lparr>outTimer = mem[0 := 0], wave_index = 0, isON = True, f_on_sum = 0, f_on_index = 0, f_off_sum = 0, f_off_index = 0\<rparr>"
  obtain m0 rest where mem: "mem = m0 # rest" using assms by (cases mem) auto
  have inv: "wave_inv ?s []" unfolding wave_inv_def
    by (intro conjI exI [of _ "[]"] exI [of _ "0 :: u32"] exI [of _ rest]) (auto simp: short_sum_def mem)
  have "\<exists>s. pwm_steps (drop 2 timer) ?s = Some s \<and> wave_inv s (drop 2 timer) \<and> length (outTimer s) = length mem"
  proof (cases "drop 2 timer = []")
    case True
    then show ?thesis using inv by simp
  next
    case False
    then have "2 < length timer" by simp
    then show ?thesis using wave_steps [OF inv, of "drop 2 timer"] assms(2) by simp
  qed
  then obtain s where s: "pwm_steps (drop 2 timer) ?s = Some s" "wave_inv s (drop 2 timer)" "length (outTimer s) = length mem" by blast
  obtain pre cur r where o: "outTimer s = pre @ cur # r" "wave_index s = length pre" and ev: "even (length pre)"
    and big: "\<forall>i < length pre. odd i \<longrightarrow> 700 < pre ! i" and sum: "sum_list pre + cur = sum_list (drop 2 timer)"
    and short: "short_sum (f_on_index s) (f_on_sum s)" "short_sum (f_off_index s) (f_off_sum s)"
    using s(2) by (auto simp: wave_inv_def)
  have run: "ir_convertpwm timer mem = Some (pre @ [cur], pwm_averages s)"
    using s(1) by (simp add: ir_convertpwm_def write_wave_def mem o)
  have avg: "100 \<le> unat a \<and> unat a \<le> 700 \<and> 100 \<le> unat b \<and> unat b \<le> 700" if "pwm_averages s = (a, b)" for a b
    using that short short_average by (auto simp: pwm_averages_def split: if_splits)
  have "length (pre @ [cur]) \<le> length timer" using s(3) o assms(2) by simp
  moreover have "\<forall>i < length (pre @ [cur]). odd i \<longrightarrow> 700 < (pre @ [cur]) ! i"
    using big ev by (auto simp: nth_append less_Suc_eq)
  ultimately show ?thesis using run ev sum avg by (cases "pwm_averages s") auto
qed



end
