(* ===== verification/Irr_Signal.thy ===== *)
theory Irr_Signal
  imports Complex_Main Irr_Capture
begin

text \<open>
  sub/irr/userland_razby/irr.cpp, second part: the check of a signal in floating point, the file of a signal, and sending
  it with the timer of the machine.
\<close>

section \<open>The check\<close>

text \<open>
  Floating point: a positive rational is rounded to \<open>p\<close> binary digits, to the nearest, ties to even; no value of the
  program is near the ends of the range of exponents. A \<open>float\<close> has 24 digits, a \<open>double\<close> 53.
\<close>

fun bits :: "nat \<Rightarrow> nat" where
  "bits n = (if n = 0 then 0 else Suc (bits (n div 2)))"

declare bits.simps [simp del]

definition expo :: "rat \<Rightarrow> int" where
  "expo x = (if 1 \<le> x then int (bits (nat \<lfloor>x\<rfloor>)) - 1 else - int (bits (nat (\<lceil>1 / x\<rceil> - 1))))"

definition nearest_even :: "rat \<Rightarrow> int" where
  "nearest_even x = (let f = \<lfloor>x\<rfloor>; r = x - of_int f in if r < 1 / 2 then f else if 1 / 2 < r then f + 1 else if even f then f else f + 1)"

definition rounded :: "nat \<Rightarrow> rat \<Rightarrow> rat" where
  "rounded p x = (if x = 0 then 0 else let u = 2 powi (expo x + 1 - int p) in of_int (nearest_even (x / u)) * u)"

definition flt :: "rat \<Rightarrow> rat" where "flt = rounded 24"
definition dbl :: "rat \<Rightarrow> rat" where "dbl = rounded 53"

definition DMTIME_TO_NS :: rat where "DMTIME_TO_NS = dbl (4165 / 100)"

definition flt_u32 :: "u32 \<Rightarrow> rat" where "flt_u32 w = flt (of_nat (unat w))"

text \<open>\<open>((float)onAvg+offAvg)\<close>.\<close>

definition avg_sum :: "u32 \<Rightarrow> u32 \<Rightarrow> rat" where
  "avg_sum onAvg offAvg = flt (flt_u32 onAvg + flt_u32 offAvg)"

text \<open>When the averages are 0 the frequency is infinite.\<close>

definition checkIRData :: "u32 \<Rightarrow> u32 \<Rightarrow> u32 list \<Rightarrow> int" where
  "checkIRData onAvg offAvg timer2 =
     (let s = avg_sum onAvg offAvg;
          Fkhz = flt (dbl (1000000 / dbl (s * DMTIME_TO_NS)));
          dutycycle = flt (flt (flt_u32 onAvg / s) * 100)
      in if s = 0 \<or> Fkhz \<le> 38 - 30 \<or> Fkhz \<ge> 38 + 30 then - 1
         else if dutycycle > 80 then - 2
         else if length timer2 < 10 then - 3
         else if sum_list timer2 > 10000000 * 16 then - 4
         else 1)"

text \<open>The text of a signal; the terminator is written after the loop.\<close>

fun binary_loop :: "u32 list \<Rightarrow> nat \<Rightarrow> nat \<Rightarrow> byte list \<Rightarrow> byte list" where
  "binary_loop (_ # t # ts) msgmax slitcount outMsg =
     (let outMsg = outMsg @ (if t \<ge> 25000 then [49] else [48]) in
      if length outMsg \<ge> msgmax then outMsg
      else let slitcount = slitcount + 1;
               outMsg = (if slitcount mod 4 = 0 then outMsg @ [32] else outMsg)
           in if length outMsg \<ge> msgmax then outMsg else binary_loop ts msgmax slitcount outMsg)"
| "binary_loop _ msgmax slitcount outMsg = outMsg"

definition irdata2binary :: "u32 list \<Rightarrow> nat \<Rightarrow> byte list option" where
  "irdata2binary timer2 msgmax =
     (let outMsg = binary_loop (drop 2 timer2) msgmax 0 [] in if length outMsg < msgmax then Some outMsg else None)"

section \<open>Files\<close>

definition IR_BIGWAVE_SIZE :: u32 where "IR_BIGWAVE_SIZE = 100000"

definition u32_bytes :: "u32 \<Rightarrow> byte list" where "u32_bytes w = le_bytes 4 (unat w)"

definition ir_file :: "u32 \<Rightarrow> u32 \<Rightarrow> u32 list \<Rightarrow> u32 list \<Rightarrow> byte list" where
  "ir_file onAvg offAvg bigwave src =
     ascii ''IRR '' @ u32_bytes onAvg @ u32_bytes offAvg @
     u32_bytes (of_nat (length bigwave)) @ word_bytes bigwave @
     u32_bytes (of_nat (length src)) @ word_bytes src"

text \<open>
  \<open>CaptureIR\<close>: the answer and the file it leaves, if any. \<open>counts\<close> are the counts read, \<open>fp\<close> the file of the recording,
  \<open>mem n\<close> a new array of \<open>n\<close> words or None, \<open>writable\<close> says that the file can be made. \<open>DumpHeaderIR\<close> writes the text
  of the signal to an array of 8192 bytes.
\<close>

definition DumpHeaderIR :: "u32 list \<Rightarrow> byte list option" where
  "DumpHeaderIR bigwave = irdata2binary bigwave 8192"

definition CaptureIR :: "(nat \<Rightarrow> int) \<Rightarrow> proc_reader option \<Rightarrow> (nat \<Rightarrow> u32 list option) \<Rightarrow> bool \<Rightarrow> (int \<times> byte list option) option" where
  "CaptureIR counts fp mem writable =
     (let size' = PullData counts 5; srcIndex = of_int size' in
      if size' \<le> 0 then Some (- 8, None)
      else if mem (unat srcIndex) = None then Some (- 9, None)
      else do {
        r \<leftarrow> readDriverIRR fp srcIndex;
        case r of Inl _ \<Rightarrow> Some (- 10, None)
        | Inr src \<Rightarrow>
          if srcIndex < 32 then Some (- 20, None)
          else do {
            let (n, src) = convertReti (unat srcIndex) src;
            let src = take n src;
            m \<leftarrow> mem n;
            (bigwave, onAvg, offAvg) \<leftarrow> ir_convertpwm src m;
            let r = checkIRData onAvg offAvg bigwave;
            _ \<leftarrow> DumpHeaderIR bigwave;
            Some (if \<not> writable then (- 30, None)
              else (if r \<le> 0 then - 9999 else 1, Some (ir_file onAvg offAvg bigwave src))) } })"

text \<open>\<open>fread\<close> into an object: what the file does not have stays as it was.\<close>

definition fread :: "nat \<Rightarrow> byte list \<Rightarrow> byte list \<Rightarrow> byte list \<times> byte list" where
  "fread n old bs = (take n bs @ drop (length (take n bs)) (take n old), drop n bs)"

definition fread_u32 :: "u32 \<Rightarrow> byte list \<Rightarrow> u32 \<times> byte list" where
  "fread_u32 old bs = (let (v, bs) = fread 4 (u32_bytes old) bs in (of_nat (le_val v), bs))"

definition fread_words :: "u32 \<Rightarrow> u32 list \<Rightarrow> byte list \<Rightarrow> u32 list \<times> byte list" where
  "fread_words n old bs = (let (v, bs) = fread (4 * unat n) (word_bytes old) bs in (words_of v, bs))"

text \<open>What the variables of a function hold before they are read: the header, the three numbers and the arrays.\<close>

record unset =
  u_header :: "byte list"
  u_on :: u32
  u_off :: u32
  u_count :: u32
  u_array :: "u32 \<Rightarrow> u32 list"

definition load_bigwave :: "byte list option \<Rightarrow> unset \<Rightarrow> int + (u32 \<times> u32 \<times> u32 list \<times> byte list)" where
  "load_bigwave fp u = (case fp of None \<Rightarrow> Inl (- 30)
     | Some bs \<Rightarrow>
        let (header, bs) = fread 4 (u_header u) bs in
        if header \<noteq> ascii ''IRR '' then Inl (- 2) else
        let (onAvg, bs) = fread_u32 (u_on u) bs;
            (offAvg, bs) = fread_u32 (u_off u) bs;
            (bigwaveIndex, bs) = fread_u32 (u_count u) bs in
        if bigwaveIndex \<ge> IR_BIGWAVE_SIZE then Inl (- 3) else
        let (bigwave, bs) = fread_words bigwaveIndex (u_array u bigwaveIndex) bs
        in Inr (onAvg, offAvg, bigwave, bs))"

text \<open>\<open>DumpIR\<close>: the source waves and the big waves it lists.\<close>

definition DumpIR :: "byte list option \<Rightarrow> unset \<Rightarrow> unset \<Rightarrow> (int + (u32 list \<times> u32 list)) option" where
  "DumpIR fp u v = (case load_bigwave fp u of Inl r \<Rightarrow> Some (Inl r)
     | Inr (onAvg, offAvg, bigwave, bs) \<Rightarrow>
        let (srcIndex, bs) = fread_u32 (u_count v) bs in
        if srcIndex \<ge> IR_RECV_BUFFER_SIZE then Some (Inl (- 3)) else
        let (src, bs) = fread_words srcIndex (u_array v srcIndex) bs
        in do { _ \<leftarrow> DumpHeaderIR bigwave; Some (Inr (src, bigwave)) })"

section \<open>Sending\<close>

text \<open>
  \<open>clock k\<close> is the \<open>k\<close>-th reading of the timer. The loop that waits may never end, then it is None. A wave is the level
  written, and the numbers of the first reading and of the one after the last.
\<close>

partial_function (option) fire_wait :: "(nat \<Rightarrow> u32) \<Rightarrow> u32 \<Rightarrow> u32 \<Rightarrow> nat \<Rightarrow> nat option" where
  "fire_wait clock basetime stopTime k =
     (if clock k + basetime < stopTime then fire_wait clock basetime stopTime (Suc k) else Some (Suc k))"

type_synonym wave = "bool \<times> nat \<times> nat"

fun fire_loop :: "(nat \<Rightarrow> u32) \<Rightarrow> bool \<Rightarrow> nat \<Rightarrow> u32 list \<Rightarrow> (wave list \<times> nat) option" where
  "fire_loop clock on k [] = None"
| "fire_loop clock on k (stopTime # recP) = do {
     let basetime = 0xffffffff - clock k + 1;
     k' \<leftarrow> fire_wait clock basetime stopTime (Suc k);
     if recP = [] then Some ([(on, k, k')], k')
     else do { (ws, k'') \<leftarrow> fire_loop clock (\<not> on) k' recP; Some ((on, k, k') # ws, k'') } }"

text \<open>The divisor of the clock of the pulses: \<open>19200000/3\<close> over the frequency in Hz.\<close>

definition pwm_clock :: "u32 \<Rightarrow> u32 \<Rightarrow> int" where
  "pwm_clock onAvg offAvg =
     (let Fhz = flt (dbl (dbl (1000000 / dbl (avg_sum onAvg offAvg * DMTIME_TO_NS)) * 1000)) in \<lfloor>flt (6400000 / Fhz)\<rfloor>)"

definition FireIRLow2 :: "(nat \<Rightarrow> u32) \<Rightarrow> u32 list \<Rightarrow> wave list option" where
  "FireIRLow2 clock timer2 = do { (ws, k) \<leftarrow> fire_loop clock True 0 timer2; Some ws }"

text \<open>\<open>FireIR\<close>: a refusal, or the divisor and the waves sent.\<close>

definition FireIR :: "byte list option \<Rightarrow> unset \<Rightarrow> (nat \<Rightarrow> u32) \<Rightarrow> (int + int \<times> wave list) option" where
  "FireIR fp u clock = (case load_bigwave fp u of Inl r \<Rightarrow> Some (Inl r)
     | Inr (onAvg, offAvg, bigwave, bs) \<Rightarrow>
        let r = checkIRData onAvg offAvg bigwave in
        if r \<le> 0 then Some (Inl (- 10 + r))
        else do { _ \<leftarrow> DumpHeaderIR bigwave; ws \<leftarrow> FireIRLow2 clock bigwave; Some (Inr (pwm_clock onAvg offAvg, ws)) })"

section \<open>Rounding\<close>

lemma bits_bounds: "0 < n \<Longrightarrow> 0 < bits n \<and> 2 ^ (bits n - 1) \<le> n \<and> n < 2 ^ bits n"
proof (induction n rule: bits.induct)
  case (1 n)
  show ?case
  proof (cases "n = 1")
    case True
    then show ?thesis by (simp add: bits.simps)
  next
    case False
    then have ih: "0 < bits (n div 2)" "2 ^ (bits (n div 2) - 1) \<le> n div 2" "n div 2 < 2 ^ bits (n div 2)"
      using 1 by auto
    have "2 * 2 ^ (bits (n div 2) - 1) = (2 :: nat) ^ bits (n div 2)" using ih(1) by (cases "bits (n div 2)") auto
    moreover have "bits n = Suc (bits (n div 2))" using 1(2) by (subst bits.simps) simp
    ultimately show ?thesis using ih by (simp only: power_Suc diff_Suc_1 zero_less_Suc simp_thms) linarith
  qed
qed

lemma expo_le: "0 < x \<Longrightarrow> 2 powi expo x \<le> x"
proof (cases "1 \<le> x")
  case True
  let ?n = "nat \<lfloor>x\<rfloor>"
  have n: "0 < ?n" using True by simp
  have "(2 :: rat) powi (int (bits ?n) - 1) = 2 ^ (bits ?n - 1)"
    using bits_bounds [OF n] by (simp add: power_int_def nat_diff_distrib)
  also have "\<dots> \<le> of_nat ?n" using bits_bounds [OF n] by (metis of_nat_le_iff of_nat_numeral of_nat_power)
  also have "\<dots> \<le> x" using True by simp
  finally show ?thesis using True by (simp add: expo_def)
next
  case False
  assume pos: "0 < x"
  let ?c = "\<lceil>1 / x\<rceil>" and ?n = "nat (\<lceil>1 / x\<rceil> - 1)"
  have "1 < 1 / x" using False pos by simp
  then have c: "1 < ?c" by (simp add: less_ceiling_iff)
  then have n: "0 < ?n" by simp
  have "?c \<le> 2 ^ bits ?n" using bits_bounds [OF n] c by (simp add: nat_less_iff)
  then have "of_int ?c \<le> (2 :: rat) ^ bits ?n" by (metis of_int_le_iff of_int_numeral of_int_power)
  then have "1 / x \<le> 2 ^ bits ?n" using le_of_int_ceiling [of "1 / x"] by linarith
  then have "1 / 2 ^ bits ?n \<le> x" using pos by (simp add: divide_simps mult.commute)
  moreover have "expo x = - int (bits ?n)" using False by (simp only: expo_def if_False)
  ultimately show ?thesis by (simp only: power_int_minus power_int_of_nat inverse_eq_divide)
qed

lemma nearest_even_error: "\<bar>of_int (nearest_even x) - x\<bar> \<le> 1 / 2"
  using floor_correct [of x] unfolding nearest_even_def Let_def by (auto simp: abs_le_iff; linarith)

lemma nearest_even_int [simp]: "nearest_even (of_int n) = n"
  by (simp add: nearest_even_def)

lemma rounded_error:
  assumes "0 \<le> x"
  shows "\<bar>rounded p x - x\<bar> \<le> x / 2 ^ p"
proof (cases "x = 0")
  case False
  then have x: "0 < x" using assms by simp
  define u :: rat where "u = 2 powi (expo x + 1 - int p)"
  have u: "0 < u" by (simp add: u_def)
  have "u = 2 powi expo x * 2 / 2 ^ p" by (simp add: u_def power_int_add power_int_diff)
  then have half: "u / 2 \<le> x / 2 ^ p" using expo_le [OF x] by (simp add: divide_right_mono)
  have "\<bar>of_int (nearest_even (x / u)) * u - x\<bar> = \<bar>of_int (nearest_even (x / u)) - x / u\<bar> * u"
    using u by (simp add: abs_mult_pos left_diff_distrib)
  also have "\<dots> \<le> 1 / 2 * u" using nearest_even_error u by (intro mult_right_mono) auto
  also have "1 / 2 * u \<le> x / 2 ^ p" using half by simp
  finally show ?thesis using x by (simp add: rounded_def Let_def flip: u_def)
qed (simp add: rounded_def)

lemma rounded_int:
  assumes "n < 2 ^ p"
  shows "rounded p (of_nat n) = of_nat n"
proof (cases "n = 0")
  case False
  let ?x = "of_nat n :: rat" and ?e = "expo (of_nat n)"
  have "2 powi ?e \<le> ?x" using False by (intro expo_le) simp
  also have "?x < 2 powi int p" using assms by (metis of_nat_less_iff of_nat_numeral of_nat_power power_int_of_nat)
  finally have "?e < int p" using power_int_increasing [of "int p" ?e "2 :: rat"] by force
  then obtain k where k: "int p - 1 - ?e = int k" by (metis zero_le_imp_eq_int diff_ge_0_iff_ge zle_diff1_eq le_diff_eq add.commute)
  have "?x / 2 powi (?e + 1 - int p) = ?x * 2 powi (int p - 1 - ?e)"
  proof -
    have "- (?e + 1 - int p) = int p - 1 - ?e" by simp
    then show ?thesis by (simp only: divide_inverse flip: power_int_minus)
  qed
  also have "\<dots> = of_int (int n * 2 ^ k)" by (simp add: k)
  finally have "of_int (nearest_even (?x / 2 powi (?e + 1 - int p))) = ?x / 2 powi (?e + 1 - int p)"
    by (simp only: nearest_even_int)
  then show ?thesis using False by (simp add: rounded_def Let_def)
qed (simp add: rounded_def)

definition tiny :: rat where "tiny = 1 / 2 ^ 24"

lemma round_bounds:
  assumes "0 \<le> x"
  shows "x * (1 - tiny) \<le> flt x" "flt x \<le> x * (1 + tiny)" "x * (1 - tiny) \<le> dbl x" "dbl x \<le> x * (1 + tiny)"
proof -
  have f: "\<bar>flt x - x\<bar> \<le> x * tiny" using rounded_error [OF assms, of 24] by (simp add: flt_def tiny_def)
  have "x / 2 ^ 53 \<le> x / 2 ^ 24" using assms by (intro divide_left_mono) auto
  then have d: "\<bar>dbl x - x\<bar> \<le> x * tiny" using rounded_error [OF assms, of 53] by (simp add: dbl_def tiny_def)
  show "x * (1 - tiny) \<le> flt x" "flt x \<le> x * (1 + tiny)" "x * (1 - tiny) \<le> dbl x" "dbl x \<le> x * (1 + tiny)"
    using f d by (auto simp: algebra_simps abs_le_iff)
qed

section \<open>The check in whole numbers\<close>

definition freq_khz :: "rat \<Rightarrow> rat" where
  "freq_khz s = flt (dbl (1000000 / dbl (s * DMTIME_TO_NS)))"

lemma tiny_range: "0 < tiny" "tiny < 1"
  by (simp_all add: tiny_def)

lemma dmtime_bounds: "4165 / 100 * (1 - tiny) \<le> DMTIME_TO_NS" "DMTIME_TO_NS \<le> 4165 / 100 * (1 + tiny)"
  using round_bounds [of "4165 / 100"] by (simp_all add: DMTIME_TO_NS_def)

lemma divide_between:
  assumes "0 < l" "l \<le> d" "d \<le> h" "0 \<le> c"
  shows "c / h \<le> c / d" "c / d \<le> c / (l :: rat)"
  using assms by (auto intro!: divide_left_mono mult_pos_pos)

lemma square_quotient: "c / (s * (k * b) * b) * a * a = c * a ^ 2 / (s * k * b ^ 2)" for a b c k s :: rat
  by (simp add: power2_eq_square mult.assoc)

lemma freq_bounds:
  assumes s: "0 < s"
  shows "1000000 * (1 - tiny) ^ 2 / (s * (4165 / 100) * (1 + tiny) ^ 2) \<le> freq_khz s"
    "freq_khz s \<le> 1000000 * (1 + tiny) ^ 2 / (s * (4165 / 100) * (1 - tiny) ^ 2)"
proof -
  let ?m = "1 - tiny" and ?p = "1 + tiny" and ?k = "4165 / 100 :: rat"
  have pos: "0 < ?m" "0 < ?p" using tiny_range by auto
  have sd: "s * (?k * ?m) \<le> s * DMTIME_TO_NS" "s * DMTIME_TO_NS \<le> s * (?k * ?p)"
    using dmtime_bounds s by (auto intro!: mult_left_mono simp del: times_divide_eq_left times_divide_eq_right)
  have nn: "0 \<le> s * DMTIME_TO_NS" using s pos by (intro order_trans [OF _ sd(1)]) simp
  have dl: "s * (?k * ?m) * ?m \<le> dbl (s * DMTIME_TO_NS)"
    using round_bounds(3) [OF nn] mult_right_mono [OF sd(1), of ?m] pos by linarith
  have dh: "dbl (s * DMTIME_TO_NS) \<le> s * (?k * ?p) * ?p"
    using round_bounds(4) [OF nn] mult_right_mono [OF sd(2), of ?p] pos by linarith
  let ?q = "1000000 / dbl (s * DMTIME_TO_NS)"
  have l0: "0 < s * (?k * ?m) * ?m" using s pos by simp
  note q = divide_between [OF l0 dl dh, of 1000000, simplified]
  have q0: "0 \<le> ?q" using dl l0 by (intro divide_nonneg_pos) linarith+
  have f0: "0 \<le> dbl ?q" using q0 pos by (intro order_trans [OF _ round_bounds(3) [OF q0]] mult_nonneg_nonneg) auto
  have "freq_khz s \<ge> ?q * ?m * ?m" "freq_khz s \<le> ?q * ?p * ?p"
    using round_bounds(1,2) [OF f0] mult_right_mono [OF round_bounds(3) [OF q0], of ?m] mult_right_mono [OF round_bounds(4) [OF q0], of ?p] pos
    unfolding freq_khz_def by linarith+
  moreover have "1000000 / (s * (?k * ?p) * ?p) * ?m * ?m \<le> ?q * ?m * ?m"
    using pos by (intro mult_right_mono divide_between(1) [OF l0 dl dh]) auto
  moreover have "?q * ?p * ?p \<le> 1000000 / (s * (?k * ?m) * ?m) * ?p * ?p"
    using pos by (intro mult_right_mono divide_between(2) [OF l0 dl dh]) auto
  moreover have "1000000 / (s * (?k * ?p) * ?p) * ?m * ?m = 1000000 * ?m ^ 2 / (s * ?k * ?p ^ 2)"
    "1000000 / (s * (?k * ?m) * ?m) * ?p * ?p = 1000000 * ?p ^ 2 / (s * ?k * ?m ^ 2)"
    by (simp_all only: square_quotient)
  ultimately show "1000000 * ?m ^ 2 / (s * ?k * ?p ^ 2) \<le> freq_khz s" "freq_khz s \<le> 1000000 * ?p ^ 2 / (s * ?k * ?m ^ 2)"
    by linarith+
qed

lemma freq_high: "0 < s \<Longrightarrow> s \<le> 353 \<Longrightarrow> 68 \<le> freq_khz s"
proof -
  assume s: "0 < s" "s \<le> 353"
  have "68 \<le> 1000000 * (1 - tiny) ^ 2 / (353 * (4165 / 100) * (1 + tiny) ^ 2)" by (simp add: tiny_def power2_eq_square)
  also have "\<dots> \<le> 1000000 * (1 - tiny) ^ 2 / (s * (4165 / 100) * (1 + tiny) ^ 2)"
    using s tiny_range by (intro divide_left_mono mult_right_mono) auto
  finally show ?thesis using freq_bounds(1) [OF s(1)] by linarith
qed

lemma freq_inside: "354 \<le> s \<Longrightarrow> s \<le> 3001 \<Longrightarrow> 8 < freq_khz s \<and> freq_khz s < 68"
proof -
  assume s: "354 \<le> s" "s \<le> 3001"
  have "freq_khz s \<le> 1000000 * (1 + tiny) ^ 2 / (s * (4165 / 100) * (1 - tiny) ^ 2)" using s by (intro freq_bounds) simp
  also have "\<dots> \<le> 1000000 * (1 + tiny) ^ 2 / (354 * (4165 / 100) * (1 - tiny) ^ 2)"
    using s tiny_range by (intro divide_left_mono mult_right_mono) auto
  also have "\<dots> < 68" by (simp add: tiny_def power2_eq_square)
  finally have "freq_khz s < 68" .
  moreover have "8 < 1000000 * (1 - tiny) ^ 2 / (3001 * (4165 / 100) * (1 + tiny) ^ 2)" by (simp add: tiny_def power2_eq_square)
  moreover have "\<dots> \<le> 1000000 * (1 - tiny) ^ 2 / (s * (4165 / 100) * (1 + tiny) ^ 2)"
    using s tiny_range by (intro divide_left_mono mult_right_mono) auto
  moreover have "\<dots> \<le> freq_khz s" using s by (intro freq_bounds) simp
  ultimately show ?thesis by linarith
qed

lemma freq_low: "30019 / 10 \<le> s \<Longrightarrow> freq_khz s \<le> 8"
proof -
  assume s: "30019 / 10 \<le> s"
  have "freq_khz s \<le> 1000000 * (1 + tiny) ^ 2 / (s * (4165 / 100) * (1 - tiny) ^ 2)" using s by (intro freq_bounds) simp
  also have "\<dots> \<le> 1000000 * (1 + tiny) ^ 2 / (30019 / 10 * (4165 / 100) * (1 - tiny) ^ 2)"
    using s tiny_range by (intro divide_left_mono mult_right_mono) auto
  also have "\<dots> \<le> 8" by (simp add: tiny_def power2_eq_square)
  finally show ?thesis .
qed

text \<open>The check on whole numbers: the sum of the averages, the on part in fifths, the length and the sum of the waves.\<close>

definition check_exact :: "nat \<Rightarrow> nat \<Rightarrow> u32 list \<Rightarrow> int" where
  "check_exact on off ws =
     (if on + off < 354 \<or> 3001 < on + off then - 1
      else if 4 * (on + off) < 5 * on then - 2
      else if length ws < 10 then - 3
      else if 160000000 < sum_list ws then - 4
      else 1)"

lemma flt_small: "n < 2 ^ 24 \<Longrightarrow> flt (of_nat n) = of_nat n"
  by (simp add: flt_def rounded_int)

lemma duty_above:
  assumes "4 * (a + b) < 5 * a" "a + b \<le> 3001" "0 < a + b"
  shows "80 < flt (flt (of_nat a / of_nat (a + b)) * 100)"
proof -
  let ?m = "1 - tiny" and ?r = "of_nat a / of_nat (a + b) :: rat"
  have pos: "0 < ?m" using tiny_range by simp
  have ab: "(0 :: rat) < of_nat (a + b)" "of_nat (a + b) \<le> (3001 :: rat)" using assms(2,3) by linarith+
  have "4 * of_nat (a + b) + 1 \<le> (5 * of_nat a :: rat)" using assms(1) by linarith
  then have "4 * of_nat (a + b) + of_nat (a + b) / 3001 \<le> (5 * of_nat a :: rat)" using ab(2) by (simp add: divide_simps)
  then have r: "4 / 5 + 1 / 15005 \<le> ?r" using ab(1) by (simp add: divide_simps mult_ac)
  then have r0: "0 \<le> ?r" by simp
  have "80 < (4 / 5 + 1 / 15005) * ?m * 100 * ?m" by (simp add: tiny_def)
  also have "\<dots> \<le> ?r * ?m * 100 * ?m" using r pos by (intro mult_right_mono) auto
  also have "\<dots> \<le> flt ?r * 100 * ?m" using round_bounds(1) [OF r0] pos by (intro mult_right_mono) auto
  also have "\<dots> \<le> flt (flt ?r * 100)"
  proof (rule round_bounds(1))
    show "0 \<le> flt ?r * 100" using r0 pos by (intro mult_nonneg_nonneg order_trans [OF _ round_bounds(1) [OF r0]]) auto
  qed
  finally show ?thesis .
qed

lemma duty_below:
  assumes "5 * a < 4 * (a + b)" "a + b \<le> 3001" "0 < a + b"
  shows "flt (flt (of_nat a / of_nat (a + b)) * 100) \<le> 80"
proof -
  let ?p = "1 + tiny" and ?r = "of_nat a / of_nat (a + b) :: rat"
  have pos: "0 < ?p" "0 < 1 - tiny" using tiny_range by auto
  have ab: "(0 :: rat) < of_nat (a + b)" "of_nat (a + b) \<le> (3001 :: rat)" using assms(2,3) by linarith+
  have "5 * of_nat a + 1 \<le> (4 * of_nat (a + b) :: rat)" using assms(1) by linarith
  then have "5 * of_nat a + of_nat (a + b) / 3001 \<le> (4 * of_nat (a + b) :: rat)" using ab(2) by (simp add: divide_simps)
  then have r: "?r \<le> 4 / 5 - 1 / 15005" using ab(1) by (simp add: divide_simps mult_ac)
  have r0: "0 \<le> ?r" by simp
  have "flt (flt ?r * 100) \<le> flt ?r * 100 * ?p"
  proof (rule round_bounds(2))
    show "0 \<le> flt ?r * 100" using r0 pos by (intro mult_nonneg_nonneg order_trans [OF _ round_bounds(1) [OF r0]]) auto
  qed
  also have "\<dots> \<le> ?r * ?p * 100 * ?p" using round_bounds(2) [OF r0] pos by (intro mult_right_mono) auto
  also have "\<dots> \<le> (4 / 5 - 1 / 15005) * ?p * 100 * ?p" using r pos by (intro mult_right_mono) auto
  also have "\<dots> \<le> 80" by (simp add: tiny_def)
  finally show ?thesis .
qed

lemma bits_code: "bits (numeral n) = Suc (bits (numeral n div 2))" "bits 0 = 0" "bits (Suc 0) = 1"
  by (subst bits.simps; simp)+

lemma duty_equal: "flt (flt (4 / 5) * 100) = 80"
proof -
  have "\<lceil>5 / 4 :: rat\<rceil> = 2" by (simp add: ceiling_eq_iff)
  then have "expo (4 / 5) = - 1" by (simp add: expo_def bits_code)
  moreover have "\<lfloor>67108864 / 5 :: rat\<rfloor> = 13421772" by (simp add: floor_eq_iff)
  then have "nearest_even (67108864 / 5) = 13421773" by (simp add: nearest_even_def Let_def)
  ultimately have 1: "flt (4 / 5) = 13421773 / 16777216" by (simp add: flt_def rounded_def Let_def power_int_minus)
  have "\<lfloor>1342177300 / 16777216 :: rat\<rfloor> = 80" by (simp add: floor_eq_iff)
  then have "expo (1342177300 / 16777216) = 6" by (simp add: expo_def bits_code)
  moreover have "\<lfloor>167772162500 / 16000 :: rat\<rfloor> = 10485760" by (simp add: floor_eq_iff)
  then have "nearest_even (335544325 / 32) = 10485760" by (simp add: nearest_even_def Let_def)
  ultimately have "flt (1342177300 / 16777216) = 80" by (simp add: flt_def rounded_def Let_def power_int_minus)
  then show ?thesis by (simp add: 1)
qed

lemma avg_sum_bounds:
  "of_nat (unat a + unat b) * (1 - tiny) ^ 2 \<le> avg_sum a b"
proof -
  let ?m = "1 - tiny" and ?a = "of_nat (unat a) :: rat" and ?b = "of_nat (unat b) :: rat"
  have pos: "0 < ?m" using tiny_range by simp
  have l: "?a * ?m \<le> flt_u32 a" "?b * ?m \<le> flt_u32 b" unfolding flt_u32_def by (rule round_bounds(1), rule of_nat_0_le_iff)+
  then have "0 \<le> flt_u32 a + flt_u32 b" by (intro add_nonneg_nonneg order_trans [OF _ l(1)] order_trans [OF _ l(2)] mult_nonneg_nonneg of_nat_0_le_iff less_imp_le [OF pos])
  from round_bounds(1) [OF this] have "(flt_u32 a + flt_u32 b) * ?m \<le> avg_sum a b" by (simp add: avg_sum_def)
  moreover have "(?a * ?m + ?b * ?m) * ?m \<le> (flt_u32 a + flt_u32 b) * ?m" using l pos by (intro mult_right_mono) auto
  ultimately show ?thesis by (simp add: power2_eq_square algebra_simps)
qed

lemma avg_sum_small: "unat a + unat b < 2 ^ 24 \<Longrightarrow> avg_sum a b = of_nat (unat a + unat b)"
  using flt_small [of "unat a"] flt_small [of "unat b"] flt_small [of "unat a + unat b"] by (simp add: avg_sum_def flt_u32_def)

lemma check_equals_exact: "checkIRData onAvg offAvg timer2 = check_exact (unat onAvg) (unat offAvg) timer2"
proof -
  let ?n = "unat onAvg + unat offAvg" and ?s = "avg_sum onAvg offAvg"
  have run: "checkIRData onAvg offAvg timer2 = (if ?s = 0 \<or> freq_khz ?s \<le> 8 \<or> 68 \<le> freq_khz ?s then - 1
      else if 80 < flt (flt (flt_u32 onAvg / ?s) * 100) then - 2 else if length timer2 < 10 then - 3
      else if 160000000 < sum_list timer2 then - 4 else 1)"
    by (simp add: checkIRData_def freq_khz_def Let_def)
  consider "?n < 354" | "354 \<le> ?n" "?n \<le> 3001" | "3001 < ?n" by linarith
  then show ?thesis
  proof cases
    case 1
    then have s: "?s = of_nat ?n" by (intro avg_sum_small) simp
    have "?s \<le> 353" unfolding s using 1 by linarith
    moreover have "?s = 0 \<or> 0 < ?s" unfolding s by (metis of_nat_0_le_iff order_le_less)
    ultimately have "?s = 0 \<or> 68 \<le> freq_khz ?s" using freq_high by blast
    then show ?thesis using 1 by (auto simp: run check_exact_def)
  next
    case 2
    then have s: "?s = of_nat ?n" by (intro avg_sum_small) simp
    have range: "354 \<le> ?s" "?s \<le> 3001" unfolding s using 2 by linarith+
    have on: "flt_u32 onAvg = of_nat (unat onAvg)" using 2 flt_small [of "unat onAvg"] by (simp add: flt_u32_def)
    have duty: "80 < flt (flt (of_nat (unat onAvg) / of_nat ?n) * 100) \<longleftrightarrow> 4 * ?n < 5 * unat onAvg"
    proof -
      consider "4 * ?n < 5 * unat onAvg" | "5 * unat onAvg < 4 * ?n" | "5 * unat onAvg = 4 * ?n" by linarith
      then show ?thesis
      proof cases
        case 3
        then have "5 * of_nat (unat onAvg) = (4 * of_nat ?n :: rat)" by (metis of_nat_mult of_nat_numeral)
        then have "of_nat (unat onAvg) = (4 / 5 :: rat) * of_nat ?n" by linarith
        moreover have "(of_nat ?n :: rat) \<noteq> 0" using 2(1) by (simp only: of_nat_eq_0_iff)
        ultimately have "of_nat (unat onAvg) / of_nat ?n = (4 / 5 :: rat)" by (subst nonzero_divide_eq_eq)
        then have "\<not> 80 < flt (flt (of_nat (unat onAvg) / of_nat ?n) * 100)" by (simp only: duty_equal less_irrefl not_False_eq_True)
        then show ?thesis using 3 by linarith
      qed (use duty_above [of "unat onAvg" "unat offAvg"] duty_below [of "unat onAvg" "unat offAvg"] 2 in auto)
    qed
    have "?s \<noteq> 0" "\<not> freq_khz ?s \<le> 8" "\<not> 68 \<le> freq_khz ?s" using range freq_inside [OF range] by auto
    then show ?thesis using 2 duty by (simp add: run check_exact_def on s)
  next
    case 3
    have "(3002 :: rat) \<le> of_nat ?n" using 3 by linarith
    then have "3002 * (1 - tiny) ^ 2 \<le> of_nat ?n * (1 - tiny) ^ 2" by (intro mult_right_mono) auto
    moreover have "30019 / 10 \<le> 3002 * (1 - tiny) ^ 2" by (simp add: tiny_def power2_eq_square)
    ultimately have "30019 / 10 \<le> ?s" using avg_sum_bounds [of onAvg offAvg] by linarith
    then show ?thesis using 3 freq_low by (auto simp: run check_exact_def)
  qed
qed

text \<open>C39: In single and double precision, with every rounding, the check accepts exactly the signals whose averages add up to
  between 354 and 3001, with at most four fifths on, of at least 10 waves whose sum modulo 2^32 is at most 160000000.
\<close>

theorem check_is_exact: "checkIRData onAvg offAvg timer2 = check_exact (unat onAvg) (unat offAvg) timer2"
  by (rule check_equals_exact)

section \<open>The text of a signal\<close>

lemma length_binary_loop:
  "length outMsg = m + m div 4 \<Longrightarrow> length outMsg < msgmax \<Longrightarrow>
   length (binary_loop ts msgmax m outMsg) = min msgmax ((m + length ts div 2) + (m + length ts div 2) div 4)"
proof (induction ts msgmax m outMsg rule: binary_loop.induct)
  case (1 x t ts msgmax m outMsg)
  let ?out1 = "outMsg @ (if t \<ge> 25000 then [49] else [48])"
  let ?out2 = "if (m + 1) mod 4 = 0 then ?out1 @ [32] else ?out1"
  have len1: "length ?out1 = Suc (m + m div 4)" using 1 by simp
  have four: "Suc m div 4 = (if Suc m mod 4 = 0 then Suc (m div 4) else m div 4)" by (rule div_Suc)
  have len2: "length ?out2 = Suc m + Suc m div 4" using len1 four by simp
  have mono: "Suc m + Suc m div 4 \<le> (m + length (x # t # ts) div 2) + (m + length (x # t # ts) div 2) div 4"
    by (intro add_mono div_le_mono) auto
  show ?case
  proof (cases "msgmax \<le> length ?out1")
    case True
    have "length ?out1 \<le> (m + length (x # t # ts) div 2) + (m + length (x # t # ts) div 2) div 4"
      using len1 mono div_le_mono [of m "Suc m" 4] by linarith
    moreover have "length ?out1 = msgmax" using True len1 1(2,3) by linarith
    moreover have "binary_loop (x # t # ts) msgmax m outMsg = ?out1" using True by (simp add: Let_def)
    ultimately show ?thesis by (simp only: min_absorb1)
  next
    case below: False
    show ?thesis
    proof (cases "msgmax \<le> length ?out2")
      case True
      have "Suc m div 4 \<le> Suc (m div 4)" using four by simp
      then have "length ?out2 = msgmax" using True below len1 len2 by linarith
      moreover have "binary_loop (x # t # ts) msgmax m outMsg = ?out2" using True below by (simp add: Let_def)
      ultimately show ?thesis using mono len2 by (simp only: min_absorb1)
    next
      case False
      then show ?thesis using below 1(1) [OF refl below refl refl False] len2 by (simp add: Let_def)
    qed
  qed
qed auto

lemma dump_header_none: "DumpHeaderIR bigwave = None \<longleftrightarrow> 13110 \<le> length bigwave"
proof -
  let ?b = "(length bigwave - 2) div 2"
  have "length (binary_loop (drop 2 bigwave) 8192 0 []) = min 8192 (?b + ?b div 4)"
    using length_binary_loop [of "[]" 0 8192 "drop 2 bigwave"] by simp
  then have "DumpHeaderIR bigwave = None \<longleftrightarrow> 8192 \<le> ?b + ?b div 4"
    by (auto simp: DumpHeaderIR_def irdata2binary_def Let_def min_def)
  also have "\<dots> \<longleftrightarrow> 6554 \<le> ?b"
    using div_le_mono [of ?b 6553 4] div_le_mono [of 6554 ?b 4] by (cases "6554 \<le> ?b") simp_all
  also have "\<dots> \<longleftrightarrow> 13110 \<le> length bigwave" by (simp add: less_eq_div_iff_mult_less_eq) linarith
  finally show ?thesis .
qed

section \<open>Files\<close>

lemma fread_exact: "length xs = n \<Longrightarrow> fread n old (xs @ ys) = (xs, ys)"
  by (simp add: fread_def)

lemma fread_u32_bytes: "fread_u32 old (u32_bytes w @ ys) = (w, ys)"
  using unat_u32_less [of w] by (simp add: fread_u32_def u32_bytes_def fread_exact le_val_le_bytes)

lemma fread_word_bytes: "length ws = unat n \<Longrightarrow> fread_words n old (word_bytes ws @ ys) = (ws, ys)"
  by (simp add: fread_words_def fread_exact words_of_word_bytes)

lemma load_ir_file:
  assumes "length big < 2 ^ 32"
  shows "load_bigwave (Some (ir_file on off big src)) u =
    (if 100000 \<le> length big then Inl (- 3) else Inr (on, off, big, u32_bytes (of_nat (length src)) @ word_bytes src))"
proof -
  have n: "unat (of_nat (length big) :: u32) = length big" using assms by (intro unat_of_nat_u32) simp
  have "IR_BIGWAVE_SIZE \<le> of_nat (length big) \<longleftrightarrow> 100000 \<le> length big"
    by (simp only: word_le_nat_alt n) (simp add: IR_BIGWAVE_SIZE_def)
  moreover have "fread_words (of_nat (length big)) old (word_bytes big @ ys) = (big, ys)" for old ys
    using n by (intro fread_word_bytes) simp
  moreover have "length (ascii ''IRR '') = 4" by (simp add: ascii_def)
  ultimately show ?thesis by (simp add: load_bigwave_def ir_file_def fread_exact fread_u32_bytes Let_def)
qed

lemma dump_ir_file:
  assumes "length big < 2 ^ 32" "length src < 600000"
  shows "DumpIR (Some (ir_file on off big src)) u v =
    (if 100000 \<le> length big then Some (Inl (- 3)) else if 13110 \<le> length big then None else Some (Inr (src, big)))"
proof -
  have n: "unat (of_nat (length src) :: u32) = length src" using assms(2) by (intro unat_of_nat_u32) simp
  have "\<not> IR_RECV_BUFFER_SIZE \<le> of_nat (length src)"
    using assms(2) by (simp only: word_le_nat_alt n) (simp add: IR_RECV_BUFFER_SIZE_def)
  moreover have "fread_words (of_nat (length src)) old (word_bytes src) = (src, [])" for old
    using fread_word_bytes [of src "of_nat (length src)" old "[]"] n by simp
  ultimately show ?thesis using load_ir_file [OF assms(1), of on off src u] dump_header_none [of big]
    by (cases "DumpHeaderIR big") (auto simp: DumpIR_def fread_u32_bytes Let_def)
qed

text \<open>
  The text of a signal is written past its array exactly from 13110 waves on, which is less than the 100000 waves a file
  may have: then \<open>FireIR\<close> leaves the stack, when the check accepts the signal.
\<close>

theorem header_overflows:
  assumes "length bigwave < 100000" "checkIRData onAvg offAvg bigwave = 1"
  shows "FireIR (Some (ir_file onAvg offAvg bigwave src)) u clock = None \<longleftrightarrow>
    13110 \<le> length bigwave \<or> FireIRLow2 clock bigwave = None"
proof -
  have "DumpHeaderIR bigwave = None \<longleftrightarrow> 13110 \<le> length bigwave" by (rule dump_header_none)
  then show ?thesis
    using load_ir_file [of bigwave onAvg offAvg src u] assms by (cases "DumpHeaderIR bigwave"; cases "FireIRLow2 clock bigwave") (auto simp: FireIR_def Let_def)
qed

lemma header_overflows_witness:
  "\<forall>u clock. FireIR (Some (ir_file 200 200 (replicate 13110 700) [])) u clock = None"
proof (intro allI)
  fix u clock
  have "checkIRData 200 200 (replicate 13110 700) = 1"
    by (simp add: check_equals_exact check_exact_def sum_list_replicate)
  then show "FireIR (Some (ir_file 200 200 (replicate 13110 700) [])) u clock = None"
    using header_overflows [of "replicate 13110 700" 200 200 "[]" u clock] by simp
qed

text \<open>
  \<open>FireIR\<close> reads back what \<open>CaptureIR\<close> wrote, unless there are 100000 waves or more, which it refuses though
  \<open>CaptureIR\<close> writes them; \<open>DumpIR\<close> also gives the distances.
\<close>

theorem ir_file_roundtrip:
  assumes "length bigwave < 2 ^ 32" "length src < 600000"
  shows "load_bigwave (Some (ir_file onAvg offAvg bigwave src)) u =
      (if 100000 \<le> length bigwave then Inl (- 3) else Inr (onAvg, offAvg, bigwave, u32_bytes (of_nat (length src)) @ word_bytes src)) \<and>
    DumpIR (Some (ir_file onAvg offAvg bigwave src)) u v =
      (if 100000 \<le> length bigwave then Some (Inl (- 3)) else if 13110 \<le> length bigwave then None else Some (Inr (src, bigwave)))"
  using load_ir_file [OF assms(1)] dump_ir_file [OF assms] by (rule conjI)

lemma ir_file_roundtrip_witness: "\<forall>u v. DumpIR (Some (ir_file 200 200 [700] [1, 2])) u v = Some (Inr ([1, 2], [700]))"
  using ir_file_roundtrip [of "[700]" "[1, 2]" 200 200] by simp

text \<open>A file that ends after its header is sent all the same: the numbers and the waves are what memory held.\<close>

lemma short_file_loads: "load_bigwave (Some (ascii ''IRR '')) u =
  (if IR_BIGWAVE_SIZE \<le> u_count u then Inl (- 3) else Inr (u_on u, u_off u, words_of (take (4 * unat (u_count u)) (word_bytes (u_array u (u_count u)))), []))"
proof -
  have "fread_u32 w [] = (w, [])" for w
    using unat_u32_less [of w] by (simp add: fread_u32_def fread_def u32_bytes_def le_val_le_bytes)
  moreover have "length (ascii ''IRR '') = 4" by (simp add: ascii_def)
  ultimately show ?thesis using fread_exact [of "ascii ''IRR ''" 4 "u_header u" "[]"]
    by (simp add: load_bigwave_def fread_words_def fread_def Let_def)
qed

section \<open>Sending keeps time\<close>

text \<open>
  A timer of 32 bits that shows the time \<open>T k\<close> at its \<open>k\<close>-th reading: it moves on by at most \<open>d\<close> from one reading to
  the next, and goes on forever.
\<close>

definition timer_of :: "(nat \<Rightarrow> u32) \<Rightarrow> (nat \<Rightarrow> nat) \<Rightarrow> nat \<Rightarrow> bool" where
  "timer_of clock T d \<longleftrightarrow> (\<forall>k. clock k = of_nat (T k) \<and> T k \<le> T (Suc k) \<and> T (Suc k) \<le> T k + d) \<and> (\<forall>n. \<exists>k. n \<le> T k)"

lemma timer_mono: "timer_of clock T d \<Longrightarrow> i \<le> j \<Longrightarrow> T i \<le> T j"
  by (rule lift_Suc_mono_le [of T]) (auto simp: timer_of_def)

lemma elapsed:
  assumes "timer_of clock T d" "k \<le> j" "T j - T k < 2 ^ 32"
  shows "unat (clock j + (0xffffffff - clock k + 1)) = T j - T k"
proof -
  have "clock j + (0xffffffff - clock k + 1) = of_nat (T j) - of_nat (T k)" using assms(1) by (simp add: timer_of_def)
  also have "\<dots> = of_nat (T j - T k)" using timer_mono [OF assms(1,2)] by (simp add: of_nat_diff)
  finally show ?thesis using assms(3) by (simp only:) (rule unat_of_nat_u32, simp)
qed

lemma fire_wait_ends:
  assumes t: "timer_of clock T d" and w: "unat stop + d < 2 ^ 32"
  shows "\<exists>k'. fire_wait clock (0xffffffff - clock k + 1) stop (Suc k) = Some k' \<and> Suc k < k' \<and>
    unat stop \<le> T (k' - 1) - T k \<and> T (k' - 1) - T k \<le> unat stop + d"
proof -
  let ?base = "0xffffffff - clock k + 1"
  obtain n where "T k + unat stop \<le> T n" using t by (auto simp: timer_of_def)
  then have "unat stop \<le> T (max (Suc k) n) - T k" using timer_mono [OF t, of n "max (Suc k) n"] by simp
  then have ex: "\<exists>m. unat stop \<le> T (Suc (k + m)) - T k" by (intro exI [of _ "max (Suc k) n - Suc k"]) simp
  define m where "m = (LEAST m. unat stop \<le> T (Suc (k + m)) - T k)"
  have reach: "unat stop \<le> T (Suc (k + m)) - T k" unfolding m_def by (rule LeastI_ex [OF ex])
  have early: "T (Suc (k + i)) - T k < unat stop" if "i < m" for i using not_less_Least that unfolding m_def by (metis not_le)
  have late: "T (Suc (k + m)) - T k \<le> unat stop + d"
  proof -
    have "T (k + m) - T k \<le> unat stop" using early [of "m - 1"] by (cases m) auto
    moreover have "T (Suc (k + m)) \<le> T (k + m) + d" using t by (simp add: timer_of_def)
    ultimately show ?thesis by linarith
  qed
  have wait: "fire_wait clock ?base stop (Suc (k + i)) = fire_wait clock ?base stop (Suc (k + m))" if "i \<le> m" for i
    using that
  proof (induction "m - i" arbitrary: i)
    case (Suc n)
    then have i: "i < m" by simp
    have "unat (clock (Suc (k + i)) + ?base) = T (Suc (k + i)) - T k"
      using early [OF i] w by (intro elapsed [OF t]) auto
    then have "clock (Suc (k + i)) + ?base < stop" using early [OF i] by (simp only: word_less_nat_alt)
    then have "fire_wait clock ?base stop (Suc (k + i)) = fire_wait clock ?base stop (Suc (Suc (k + i)))"
      by (subst fire_wait.simps) (simp only: if_True)
    then show ?case using Suc.hyps(1) [of "Suc i"] Suc.hyps(2) i by simp
  qed simp
  have "unat (clock (Suc (k + m)) + ?base) = T (Suc (k + m)) - T k" using late w by (intro elapsed [OF t]) auto
  then have "\<not> clock (Suc (k + m)) + ?base < stop" using reach by (simp only: word_less_nat_alt)
  then have "fire_wait clock ?base stop (Suc (k + m)) = Some (Suc (Suc (k + m)))"
    by (subst fire_wait.simps) (simp only: if_False)
  then show ?thesis using wait [of 0] reach late by (intro exI [of _ "Suc (Suc (k + m))"]) simp
qed

text \<open>The \<open>i\<close>-th wave sent: its level, its length on the timer, and that the next starts with the next reading.\<close>

definition sent_ok :: "(nat \<Rightarrow> nat) \<Rightarrow> nat \<Rightarrow> bool \<Rightarrow> nat \<Rightarrow> u32 list \<Rightarrow> wave list \<Rightarrow> bool" where
  "sent_ok T d on k timer2 ws \<longleftrightarrow> length ws = length timer2 \<and> fst (snd (ws ! 0)) = k \<and>
     (\<forall>i < length ws. case ws ! i of (level, a, b) \<Rightarrow> level = (on = even i) \<and> a < b \<and>
        unat (timer2 ! i) \<le> T (b - 1) - T a \<and> T (b - 1) - T a \<le> unat (timer2 ! i) + d \<and>
        (Suc i < length ws \<longrightarrow> fst (snd (ws ! Suc i)) = b))"

lemma sent_ok_Cons:
  assumes "sent_ok T d (\<not> on) k1 ts ws" "k < k1" "unat t \<le> T (k1 - 1) - T k" "T (k1 - 1) - T k \<le> unat t + d"
  shows "sent_ok T d on k (t # ts) ((on, k, k1) # ws)"
proof -
  have "case ((on, k, k1) # ws) ! i of (level, a, b) \<Rightarrow> level = (on = even i) \<and> a < b \<and>
      unat ((t # ts) ! i) \<le> T (b - 1) - T a \<and> T (b - 1) - T a \<le> unat ((t # ts) ! i) + d \<and>
      (Suc i < length ((on, k, k1) # ws) \<longrightarrow> fst (snd (((on, k, k1) # ws) ! Suc i)) = b)"
    if "i < length ((on, k, k1) # ws)" for i
  proof (cases i)
    case 0
    then show ?thesis using assms by (auto simp: sent_ok_def)
  next
    case (Suc j)
    then have "j < length ws" using that by simp
    then show ?thesis using assms(1) Suc by (auto simp: sent_ok_def split: prod.splits)
  qed
  then show ?thesis using assms(1) by (simp add: sent_ok_def)
qed

lemma fire_loop_ends:
  assumes t: "timer_of clock T d"
  shows "timer2 \<noteq> [] \<Longrightarrow> \<forall>w \<in> set timer2. unat w + d < 2 ^ 32 \<Longrightarrow>
    \<exists>ws k'. fire_loop clock on k timer2 = Some (ws, k') \<and> sent_ok T d on k timer2 ws"
proof (induction timer2 arbitrary: on k)
  case (Cons stop recP)
  have "unat stop + d < 2 ^ 32" using Cons.prems(2) by simp
  from fire_wait_ends [OF t this, of k] obtain k1
    where 1: "fire_wait clock (0xffffffff - clock k + 1) stop (Suc k) = Some k1" "Suc k < k1"
      "unat stop \<le> T (k1 - 1) - T k" "T (k1 - 1) - T k \<le> unat stop + d" by blast
  show ?case
  proof (cases "recP = []")
    case True
    then show ?thesis using 1 by (auto simp: sent_ok_def Let_def)
  next
    case False
    then obtain ws k' where 2: "fire_loop clock (\<not> on) k1 recP = Some (ws, k')" "sent_ok T d (\<not> on) k1 recP ws"
      using Cons by fastforce
    have "sent_ok T d on k (stop # recP) ((on, k, k1) # ws)" using 1 by (intro sent_ok_Cons [OF 2(2)]) auto
    then show ?thesis using False 1(1) 2(1) by (simp add: Let_def)
  qed
qed simp



section \<open>From the module to the file\<close>

lemma pull_data_still:
  assumes "\<And>k. counts k = int n" "0 < n"
  shows "PullData counts 5 = int n"
  using assms by (simp add: PullData_def eval_nat_numeral)


lemma recording_exists: "\<exists>d. recording d edges []"
proof (induction edges rule: rev_induct)
  case Nil
  show ?case using recording.start by blast
next
  case (snoc a edges)
  then obtain d where "recording d edges []" by blast
  moreover have "\<exists>d'. test_irq_latency_interrupt_handler (Some a) d = Some d'" by (simp add: test_irq_latency_interrupt_handler_def)
  ultimately show ?case using recording.edge by blast
qed


section \<open>The start of the tool\<close>

text \<open>
  \<open>rasberypi_init\<close> from the answers of \<open>open\<close> and \<open>mmap\<close> (None is MAP_FAILED), and the test of its result in \<open>main\<close>:
  True when the tool goes on.
\<close>

definition rasberypi_init :: "int \<Rightarrow> nat option \<Rightarrow> int" where
  "rasberypi_init fd map' = (if fd < 0 then - 1 else if map' = None then - 2 else 1)"

definition main_goes_on :: "int \<Rightarrow> bool" where
  "main_goes_on r \<longleftrightarrow> r \<noteq> 0"

lemma failed_init_goes_on: "main_goes_on (rasberypi_init fd map')"
  by (simp add: main_goes_on_def rasberypi_init_def)

text \<open>\<open>mainIRR\<close>: \<open>run command\<close> is the answer of the operation that the word selects; other words succeed. Loading the
  module before a capture and removing it after is not modelled.\<close>

datatype command = Save | Load | Dump

definition command_of :: "string \<Rightarrow> command option" where
  "command_of w = (if w = ''save'' then Some Save else if w = ''load'' then Some Load else if w = ''dump'' then Some Dump else None)"

definition mainIRR :: "string list \<Rightarrow> (command \<Rightarrow> string \<Rightarrow> int) \<Rightarrow> int" where
  "mainIRR argv run = (case command_of (argv ! 1) of None \<Rightarrow> 1
     | Some c \<Rightarrow> if length argv \<le> 2 then (if c = Save then - 2 else - 6)
         else if run c (argv ! 2) \<le> 0 then (if c = Save then - 3 else - 7) else 1)"

lemma mainIRR_success:
  "1 < length argv \<Longrightarrow> mainIRR argv run = 1 \<longleftrightarrow>
   (case command_of (argv ! 1) of None \<Rightarrow> True | Some c \<Rightarrow> 2 < length argv \<and> 0 < run c (argv ! 2))"
  by (auto simp: mainIRR_def split: option.splits)

end
