(* ===== verification/Srp_Primes.thy ===== *)
theory Srp_Primes
  imports Srp_Session
begin

text \<open>
  srp/t_conf.c, the generation of moduli: the search of a Sophie Germain prime along a sieve modulo 30, with the tests of \<open>Srp\<close>,
  the moduli 2q + 1 and (2j + 1)(2k + 1) with their generators. The primality test of the library, the exponentiation
  engine and the random bytes come from \<open>srp_world\<close>; a second search draws from a second world.
\<close>

section \<open>The search\<close>

definition sieve30 :: "nat list" where
  "sieve30 = [11, 10, 9, 8, 7, 6, 5, 4, 3, 2, 1, 12, 11, 10, 9, 8, 7, 6, 5, 4, 3, 2, 1, 6, 5, 4, 3, 2, 1, 12]"

lemma sieve30_pos: "k < 30 \<Longrightarrow> 0 < sieve30 ! k"
proof -
  have "\<forall>i \<in> set sieve30. 0 < i" by (simp add: sieve30_def)
  moreover have "length sieve30 = 30" by (simp add: sieve30_def)
  ultimately show "k < 30 \<Longrightarrow> 0 < sieve30 ! k" by simp
qed

text \<open>The tests of one candidate; the second component is what they leave in \<open>r\<close>.\<close>

definition candidate_test :: "srp_world \<Rightarrow> bignum \<Rightarrow> bignum \<Rightarrow> bool \<times> bignum" where
  "candidate_test w r q =
     (if trialdiv q < 2 then
        let p = BigIntegerAddInt (BigIntegerMulInt q 2) 1 in
        if trialdiv p < 2 then
          let r = BigIntegerModExp (w_engine w) r 2 q q None in
          if BigIntegerCmpInt r 2 = 0 then
            let r = BigIntegerModExp (w_engine w) r 2 p p None in
            if BigIntegerCmpInt r 2 = 0
            then (BigIntegerCheckPrime (w_is_prime w) q \<and> BigIntegerCheckPrime (w_is_prime w) p, r)
            else (False, r)
          else (False, r)
        else (False, r)
      else (False, r))"

text \<open>The result of a search; without a prime the process ends. A residue of 30 or more would be outside \<open>sieve30\<close>.\<close>

datatype prime_search = Found bignum | Prime_generation_failed

function search_loop :: "srp_world \<Rightarrow> bignum \<Rightarrow> bignum \<Rightarrow> bignum \<Rightarrow> nat \<Rightarrow> prime_search option" where
  "search_loop w hi r q mod30 =
     (if BigIntegerCmp q hi < 0 then
        case candidate_test w r q of (ok, r) \<Rightarrow>
          if ok then Some (Found q)
          else if mod30 < 30 then
            let i = sieve30 ! mod30 in search_loop w hi r (BigIntegerAddInt q i) ((mod30 + i) mod 30)
          else None
      else Some Prime_generation_failed)"
  by auto

termination
proof (relation "measure (\<lambda>(w, hi, r, q, mod30). nat (hi - q))")
  fix w :: srp_world and hi r q :: bignum and mod30 i :: nat and ok :: bool and r' :: bignum and x
  assume "BigIntegerCmp q hi < 0" and "mod30 < 30" and i: "i = sieve30 ! mod30"
  then have "q < hi" "0 < i" by (auto simp: BigIntegerCmp_def sgn_if sieve30_pos split: if_splits)
  then show "((w, hi, r', BigIntegerAddInt q i, (mod30 + i) mod 30), w, hi, r, q, mod30) \<in> measure (\<lambda>(w, hi, r, q, mod30). nat (hi - q))"
    by (simp add: BigIntegerAddInt_def)
qed simp

declare search_loop.simps [simp del]

text \<open>The random start between \<open>lo\<close> and \<open>hi\<close>, made odd; None when the random bytes do not fit their buffer.\<close>

definition search_start :: "srp_world \<Rightarrow> bignum \<Rightarrow> bignum \<Rightarrow> (bignum \<times> bignum) option" where
  "search_start w lo hi =
     do { let m = BigIntegerSub hi lo;
          let i = BigIntegerByteLen m;
          parambuf \<leftarrow> write_data (fst (cstr_set_length (w_mem w) new_cstr (int i))) (w_random w i);
          let r = BigIntegerFromBytes (take i (c_data parambuf));
          let r = BigIntegerMod r r m;
          let q = BigIntegerAdd r lo;
          Some (if BigIntegerModInt q 2 = 0 then BigIntegerAddInt q 1 else q, r) }"

definition sophie_germain :: "srp_world \<Rightarrow> bignum \<Rightarrow> bignum \<Rightarrow> prime_search option" where
  "sophie_germain w lo hi = do { (q, r) \<leftarrow> search_start w lo hi; search_loop w hi r q (BigIntegerModInt q 30) }"

section \<open>Moduli and generators\<close>

text \<open>The numbers that \<open>t_makeconfent\<close> and \<open>t_makeconfent_c\<close> make, of at least 2 and 6 bits; \<open>Srp_Params\<close> stores them.\<close>

text \<open>The first \<open>g\<close> whose power is not 1; None when there is none.\<close>

partial_function (option) generator_loop :: "srp_world \<Rightarrow> bignum \<Rightarrow> bignum \<Rightarrow> bignum \<Rightarrow> bignum \<Rightarrow> bignum option" where
  "generator_loop w e n t g =
     (let t = BigIntegerModExp (w_engine w) t g e n None in
      if BigIntegerCmpInt t 1 = 0 then generator_loop w e n t (BigIntegerAddInt g 1) else Some g)"

datatype made_conf = Made bignum bignum | Exit_1

definition conf_modulus :: "srp_world \<Rightarrow> nat \<Rightarrow> made_conf option" where
  "conf_modulus w nsize =
     do { let u = BigIntegerFromInt 1;
          let t = BigIntegerLShift u (nsize - 2);
          let u = BigIntegerMulInt t 2;
          s \<leftarrow> sophie_germain w t u;
          case s of Prime_generation_failed \<Rightarrow> Some Exit_1
          | Found q \<Rightarrow> do {
              let n = BigIntegerAddInt (BigIntegerMulInt q 2) 1;
              g \<leftarrow> generator_loop w q n t 2;
              Some (Made n g) } }"

text \<open>The composite modulus; \<open>w2\<close> serves the second search.\<close>

definition conf_modulus_c :: "srp_world \<Rightarrow> srp_world \<Rightarrow> nat \<Rightarrow> made_conf option" where
  "conf_modulus_c w w2 nsize =
     do { let psize = nsize div 2;
          let qsize = nsize - psize;
          let u = BigIntegerLShift (BigIntegerFromInt 1) (psize - 3);
          let t = BigIntegerMulInt u 3;
          let u = BigIntegerAdd u t;
          sj \<leftarrow> sophie_germain w t u;
          case sj of Prime_generation_failed \<Rightarrow> Some Exit_1
          | Found j \<Rightarrow> do {
              let (t, u) = (if qsize \<noteq> psize
                then let u = BigIntegerLShift (BigIntegerFromInt 1) (qsize - 3); t = BigIntegerMulInt u 3 in (t, BigIntegerAdd u t)
                else (t, u));
              sk \<leftarrow> sophie_germain w2 t u;
              case sk of Prime_generation_failed \<Rightarrow> Some Exit_1
              | Found k \<Rightarrow> do {
                  let p = BigIntegerAddInt (BigIntegerMulInt j 2) 1;
                  let q = BigIntegerAddInt (BigIntegerMulInt k 2) 1;
                  let n = BigIntegerMul p q;
                  let u = BigIntegerMul j k;
                  g \<leftarrow> generator_loop w2 u n t 2;
                  Some (Made n g) } } }"

section \<open>What the tests are\<close>

lemma modint_zero: "BigIntegerModInt x p = 0 \<longleftrightarrow> int p dvd x"
proof -
  have "BigIntegerModInt x p = 0 \<longleftrightarrow> p dvd nat \<bar>x\<bar>" by (simp add: BigIntegerModInt_def dvd_eq_mod_eq_0)
  also have "\<dots> \<longleftrightarrow> int p dvd x" by (metis dvd_nat_abs_iff nat_int abs_of_nat int_dvd_int_iff dvd_abs_iff nat_abs_dvd_iff)
  finally show ?thesis .
qed

lemma trialdiv_loop_less: "\<forall>p \<in> set ps. 2 \<le> p \<Longrightarrow> trialdiv_loop x ps < 2 \<longleftrightarrow> (\<forall>p \<in> set ps. \<not> int p dvd x)"
  by (induction ps) (auto simp: modint_zero)

lemma trialdiv_less: "trialdiv x < 2 \<longleftrightarrow> (\<forall>p \<in> set small_primes. \<not> int p dvd x)"
  unfolding trialdiv_def by (rule trialdiv_loop_less) (simp add: small_primes_def)

text \<open>What a candidate has to pass: it and its double plus one.\<close>

definition passes :: "srp_world \<Rightarrow> bignum \<Rightarrow> bool" where
  "passes w x \<longleftrightarrow> (\<forall>p \<in> set small_primes. \<not> int p dvd x) \<and> 2 ^ nat x mod x = 2 \<and> w_is_prime w x 25"

lemma modexp_positive:
  assumes "w_engine w = None" "0 < e" "0 < n"
  shows "BigIntegerModExp (w_engine w) r b e n None = b ^ nat e mod n"
  using assms by (simp add: BigIntegerModExp_def BN_mod_exp_def)

lemma cmpint_mod: "0 \<le> x \<Longrightarrow> c < 2 ^ 64 \<Longrightarrow> BigIntegerCmpInt x c = 0 \<longleftrightarrow> x = int c"
  using BigIntegerCmpInt_value [of c x] by (auto simp: sgn_if)

lemma candidate_test_passes:
  assumes "w_engine w = None" "0 < q"
  shows "fst (candidate_test w r q) \<longleftrightarrow> passes w q \<and> passes w (2 * q + 1)"
proof -
  have p: "BigIntegerAddInt (BigIntegerMulInt q 2) 1 = 2 * q + 1" by (simp add: BigIntegerAddInt_def BigIntegerMulInt_def)
  have c: "BigIntegerCmpInt (2 ^ k mod n) 2 = 0 \<longleftrightarrow> 2 ^ k mod n = 2" if "0 < n" for k and n :: int
    using that cmpint_mod [of "2 ^ k mod n" 2] by simp
  have pq: "0 < 2 * q + 1" using assms(2) by simp
  show ?thesis
    using assms(2) pq
    by (auto simp: candidate_test_def Let_def p [unfolded One_nat_def] trialdiv_less modexp_positive [OF assms(1)] c passes_def BigIntegerCheckPrime_def)
qed

section \<open>The sieve misses nothing\<close>

definition sieved :: "nat \<Rightarrow> bool" where
  "sieved k \<longleftrightarrow> k = 11 \<or> k = 23 \<or> k = 29"

lemma sieve30_next:
  assumes "k < 30"
  shows "sieved ((k + sieve30 ! k) mod 30)" "0 < j \<Longrightarrow> j < sieve30 ! k \<Longrightarrow> \<not> sieved ((k + j) mod 30)"
proof -
  have all: "list_all (\<lambda>k. sieved ((k + sieve30 ! k) mod 30) \<and> list_all (\<lambda>j. \<not> sieved ((k + j) mod 30)) [1..<sieve30 ! k]) [0..<30]"
    by code_simp
  show "sieved ((k + sieve30 ! k) mod 30)" "0 < j \<Longrightarrow> j < sieve30 ! k \<Longrightarrow> \<not> sieved ((k + j) mod 30)"
    using all assms by (auto simp: list_all_iff)
qed

lemma odd_passes_sieved:
  assumes "0 \<le> x" "odd x" "passes w x" "passes w (2 * x + 1)"
  shows "sieved (nat x mod 30)"
proof -
  obtain n where n: "x = int n" using assms(1) by (metis nat_0_le)
  have three: "\<not> 3 dvd n" "\<not> 5 dvd n" "\<not> 3 dvd 2 * n + 1" "\<not> 5 dvd 2 * n + 1"
  proof -
    have "\<not> int 3 dvd x" "\<not> int 5 dvd x" "\<not> int 3 dvd 2 * x + 1" "\<not> int 5 dvd 2 * x + 1"
      using assms(3,4) unfolding passes_def small_primes_def by (simp_all only: list.set insert_iff ball_simps simp_thms)
    moreover have "2 * x + 1 = int (2 * n + 1)" by (simp add: n)
    ultimately show "\<not> 3 dvd n" "\<not> 5 dvd n" "\<not> 3 dvd 2 * n + 1" "\<not> 5 dvd 2 * n + 1"
      by (simp_all only: n int_dvd_int_iff not_False_eq_True)
  qed
  have "odd n" using assms(2) n by simp
  define k where "k = n mod 30"
  have k: "k < 30" by (simp add: k_def)
  have mods: "n mod 2 = k mod 2" "n mod 3 = k mod 3" "n mod 5 = k mod 5" by (simp_all add: k_def mod_mod_cancel)
  have twice: "(2 * n + 1) mod 3 = (2 * k + 1) mod 3" "(2 * n + 1) mod 5 = (2 * k + 1) mod 5"
    using mods by (metis mod_add_left_eq mod_mult_right_eq)+
  have conds: "k mod 2 \<noteq> 0 \<and> k mod 3 \<noteq> 0 \<and> k mod 5 \<noteq> 0 \<and> (2 * k + 1) mod 3 \<noteq> 0 \<and> (2 * k + 1) mod 5 \<noteq> 0"
    using three \<open>odd n\<close> unfolding dvd_eq_mod_eq_0 mods twice by simp
  have "list_all (\<lambda>k. k mod 2 \<noteq> 0 \<and> k mod 3 \<noteq> 0 \<and> k mod 5 \<noteq> 0 \<and> (2 * k + 1) mod 3 \<noteq> 0 \<and> (2 * k + 1) mod 5 \<noteq> 0 \<longrightarrow> sieved k) [0..<30]"
    by (simp add: upt_rec sieved_def)
  then have "sieved k" using conds k by (simp add: list_all_iff)
  then show ?thesis by (simp add: n k_def)
qed

definition good :: "srp_world \<Rightarrow> bignum \<Rightarrow> bool" where
  "good w x \<longleftrightarrow> passes w x \<and> passes w (2 * x + 1)"

text \<open>What a search says of the numbers from \<open>a\<close> to \<open>hi\<close> that satisfy \<open>P\<close>: the first one that passes, or that none does.\<close>

definition first_good :: "srp_world \<Rightarrow> (bignum \<Rightarrow> bool) \<Rightarrow> bignum \<Rightarrow> bignum \<Rightarrow> prime_search \<Rightarrow> bool" where
  "first_good w P a hi s = (case s of
     Found x \<Rightarrow> a \<le> x \<and> x < hi \<and> P x \<and> good w x \<and> (\<forall>y. a \<le> y \<and> y < x \<and> P y \<longrightarrow> \<not> good w y)
   | Prime_generation_failed \<Rightarrow> \<forall>y. a \<le> y \<and> y < hi \<and> P y \<longrightarrow> \<not> good w y)"

definition visited :: "bignum \<Rightarrow> bignum \<Rightarrow> bool" where
  "visited q x \<longleftrightarrow> x = q \<or> sieved (nat x mod 30)"

lemma nat_add_mod: "0 \<le> q \<Longrightarrow> nat (q + int j) mod 30 = (nat q mod 30 + j) mod 30"
  by (simp add: nat_add_distrib mod_add_left_eq)

lemma first_good_step:
  assumes "0 < q" "\<not> good w q" "first_good w (visited (q + int i)) (q + int i) hi s" "i = sieve30 ! (nat q mod 30)"
  shows "first_good w (visited q) q hi s"
proof -
  have i: "0 < i" using assms(4) by (simp add: sieve30_pos)
  have next': "sieved (nat (q + int i) mod 30)"
    using sieve30_next(1) [of "nat q mod 30"] assms(1,4) by (simp add: nat_add_mod)
  have between: "\<not> visited q y" if "q < y" "y < q + int i" for y
  proof -
    define j where "j = nat (y - q)"
    have j: "y = q + int j" "0 < j" "j < i" using that by (auto simp: j_def)
    then show ?thesis using sieve30_next(2) [of "nat q mod 30" j] assms(1,4) by (simp add: visited_def nat_add_mod)
  qed
  have same: "visited (q + int i) y = visited q y" if "q + int i \<le> y" for y using that i next' by (auto simp: visited_def)
  have skip: "y = q \<or> q + int i \<le> y" if "q \<le> y" "visited q y" for y using between [of y] that by force
  show ?thesis
  proof (cases s)
    case (Found x)
    then have x: "q + int i \<le> x" "x < hi" "visited (q + int i) x" "good w x"
      and least: "\<And>y. q + int i \<le> y \<Longrightarrow> y < x \<Longrightarrow> visited (q + int i) y \<Longrightarrow> \<not> good w y"
      using assms(3) by (auto simp: first_good_def)
    have "\<not> good w y" if "q \<le> y" "y < x" "visited q y" for y
      using skip [OF that(1,3)] least [of y] same [of y] that assms(2) by auto
    then show ?thesis using x same [of x] Found by (simp add: first_good_def)
  next
    case Prime_generation_failed
    then have none: "\<And>y. q + int i \<le> y \<Longrightarrow> y < hi \<Longrightarrow> visited (q + int i) y \<Longrightarrow> \<not> good w y"
      using assms(3) by (auto simp: first_good_def)
    have "\<not> good w y" if "q \<le> y" "y < hi" "visited q y" for y
      using skip [OF that(1,3)] none [of y] same [of y] that assms(2) by auto
    then show ?thesis using Prime_generation_failed by (simp add: first_good_def)
  qed
qed

lemma search_loop_first:
  assumes "w_engine w = None" "0 < q"
  shows "\<exists>s. search_loop w hi r q (nat q mod 30) = Some s \<and> first_good w (visited q) q hi s"
  using assms(2)
proof (induction "nat (hi - q)" arbitrary: q r rule: less_induct)
  case less
  obtain ok r' where t: "candidate_test w r q = (ok, r')" by fastforce
  have ok: "ok \<longleftrightarrow> good w q" using candidate_test_passes [OF assms(1) less.prems, of r] t by (simp add: good_def)
  have cmp: "BigIntegerCmp q hi < 0 \<longleftrightarrow> q < hi" by (simp add: BigIntegerCmp_def sgn_if)
  let ?i = "sieve30 ! (nat q mod 30)"
  have step: "search_loop w hi r q (nat q mod 30) =
      (if q < hi then if ok then Some (Found q) else search_loop w hi r' (q + int ?i) (nat (q + int ?i) mod 30)
       else Some Prime_generation_failed)"
    using less.prems by (subst search_loop.simps) (simp add: cmp t Let_def BigIntegerAddInt_def nat_add_mod)
  show ?case
  proof (cases "q < hi \<and> \<not> ok")
    case True
    have i: "0 < ?i" by (simp add: sieve30_pos)
    then obtain s where s: "search_loop w hi r' (q + int ?i) (nat (q + int ?i) mod 30) = Some s"
      "first_good w (visited (q + int ?i)) (q + int ?i) hi s"
      using less.hyps [of "q + int ?i" r'] less.prems True by auto
    then show ?thesis using first_good_step [OF less.prems _ s(2) refl] True ok by (simp add: step)
  next
    case False
    then show ?thesis using ok by (auto simp: step first_good_def visited_def)
  qed
qed

lemma first_good_odd:
  assumes "first_good w (visited q) q hi s" "odd q" "0 < q"
  shows "first_good w odd q hi s"
proof -
  have sieved_odd: "odd x" if "q \<le> x" "visited q x" for x
  proof -
    have "odd (nat x)" if "sieved (nat x mod 30)"
    proof -
      have "odd (nat x mod 30)" using that by (auto simp: sieved_def)
      then show ?thesis by (simp add: dvd_mod_iff)
    qed
    then show ?thesis using that assms(2,3) by (auto simp: visited_def even_nat_iff)
  qed
  have odd_good: "visited q y" if "q \<le> y" "odd y" "good w y" for y
    using odd_passes_sieved [of y w] that assms(3) by (auto simp: visited_def good_def)
  show ?thesis
  proof (cases s)
    case (Found x)
    then show ?thesis using assms(1) sieved_odd [of x] odd_good by (auto simp: first_good_def)
  next
    case Prime_generation_failed
    then show ?thesis using assms(1) odd_good by (auto simp: first_good_def)
  qed
qed

text \<open>What the generation relies on: memory, the exponentiation of the library, and random bytes of the length asked for.\<close>

definition makes_primes :: "srp_world \<Rightarrow> bool" where
  "makes_primes w \<longleftrightarrow> w_engine w = None \<and> total_mem (w_mem w) \<and> (\<forall>n. length (w_random w n) = n)"

lemma search_start_odd:
  assumes "makes_primes w" "0 \<le> lo" "lo < hi"
  obtains q r where "search_start w lo hi = Some (q, r)" "odd q" "lo \<le> q" "q \<le> hi" "0 < q"
proof -
  define i where "i = BigIntegerByteLen (hi - lo)"
  have mem: "total_mem (w_mem w)" and len: "length (w_random w i) = i" using assms(1) by (auto simp: makes_primes_def)
  obtain str' r where s: "cstr_set_length (w_mem w) new_cstr (int i) = (str', r)" "i < length (c_data str')"
    using set_length_mem [OF new_cstr_wf(1) mem, of i] by metis
  have buf: "write_data str' (w_random w i) = Some (str'\<lparr>c_data := w_random w i @ drop i (c_data str')\<rparr>)"
    using s(2) len write_data_fits [of "w_random w i" str'] by simp
  define v where "v = BigIntegerFromBytes (w_random w i)"
  define q where "q = v mod (hi - lo) + lo"
  have v: "0 \<le> v" by (simp add: v_def BigIntegerFromBytes_def)
  have mod: "BigIntegerMod v v (hi - lo) = v mod (hi - lo)" using assms(3) v by (auto simp: BigIntegerMod_def sgn_if)
  have q: "lo \<le> q" "q < hi" unfolding q_def using assms(3) pos_mod_bound [of "hi - lo" v] pos_mod_sign [of "hi - lo" v] by linarith+
  have even: "BigIntegerModInt q 2 = 0 \<longleftrightarrow> even q" using modint_zero [of q 2] by simp
  have "search_start w lo hi = Some (if even q then q + 1 else q, v mod (hi - lo))"
    using s(1) buf len mod
    by (simp add: search_start_def BigIntegerSub_def BigIntegerAdd_def BigIntegerAddInt_def even Let_def flip: i_def v_def q_def)
  moreover have "odd (if even q then q + 1 else q)" by simp
  moreover have "0 < (if even q then q + 1 else q)" using q(1) assms(2) by (cases "q = 0") auto
  ultimately show thesis using q by (intro that) auto
qed

lemma sophie_germain_first:
  assumes "makes_primes w" "0 \<le> lo" "lo < hi"
  shows "\<exists>start s. sophie_germain w lo hi = Some s \<and> odd start \<and> lo \<le> start \<and> start \<le> hi \<and> first_good w odd start hi s"
proof -
  obtain q r where q: "search_start w lo hi = Some (q, r)" "odd q" "lo \<le> q" "q \<le> hi" "0 < q"
    by (rule search_start_odd [OF assms])
  have "w_engine w = None" using assms(1) by (simp add: makes_primes_def)
  from search_loop_first [OF this q(5), of hi r] obtain s
    where s: "search_loop w hi r q (nat q mod 30) = Some s" "first_good w (visited q) q hi s" by blast
  have "BigIntegerModInt q 30 = nat q mod 30" using q(5) by (simp add: BigIntegerModInt_def)
  then have "sophie_germain w lo hi = Some s" using q(1) s(1) by (simp add: sophie_germain_def)
  then show ?thesis using q first_good_odd [OF s(2) q(2,5)] by blast
qed

section \<open>Generators\<close>

lemma generator_loop_least:
  assumes "w_engine w = None" "0 < e" "1 < n" "2 \<le> a" "a \<le> n"
  shows "\<exists>g. generator_loop w e n t a = Some g \<and> a \<le> g \<and> g \<le> n \<and> g ^ nat e mod n \<noteq> 1 \<and> (\<forall>x. a \<le> x \<and> x < g \<longrightarrow> x ^ nat e mod n = 1)"
  using assms(4,5)
proof (induction "nat (n - a)" arbitrary: a t rule: less_induct)
  case less
  have e: "BigIntegerModExp (w_engine w) t a e n None = a ^ nat e mod n" using assms by (intro modexp_positive) auto
  have one: "BigIntegerCmpInt (a ^ nat e mod n) 1 = 0 \<longleftrightarrow> a ^ nat e mod n = 1"
    using cmpint_mod [of "a ^ nat e mod n" 1] assms(3) by simp
  have step: "generator_loop w e n t a =
      (if a ^ nat e mod n = 1 then generator_loop w e n (a ^ nat e mod n) (a + 1) else Some a)"
    by (subst generator_loop.simps) (simp add: e one [simplified] Let_def BigIntegerAddInt_def)
  show ?case
  proof (cases "a ^ nat e mod n = 1")
    case True
    have "a \<noteq> n"
    proof
      assume "a = n"
      then have "n dvd a ^ nat e" using assms(2) dvd_power [of "nat e" n] by simp
      then show False using True by (simp add: dvd_eq_mod_eq_0)
    qed
    then obtain g where g: "generator_loop w e n (a ^ nat e mod n) (a + 1) = Some g" "a + 1 \<le> g" "g \<le> n" "g ^ nat e mod n \<noteq> 1"
      "\<forall>x. a + 1 \<le> x \<and> x < g \<longrightarrow> x ^ nat e mod n = 1"
      using less.hyps [of "a + 1" "a ^ nat e mod n"] less.prems by auto
    have "x ^ nat e mod n = 1" if "a \<le> x" "x < g" for x using that g(5) True by (cases "x = a") auto
    then show ?thesis using g True by (intro exI [of _ g]) (simp add: step)
  next
    case False
    then show ?thesis using less.prems by (intro exI [of _ a]) (auto simp: step)
  qed
qed

definition least_generator :: "bignum \<Rightarrow> bignum \<Rightarrow> bignum \<Rightarrow> bool" where
  "least_generator e n g \<longleftrightarrow> 2 \<le> g \<and> g \<le> n \<and> g ^ nat e mod n \<noteq> 1 \<and> (\<forall>x. 2 \<le> x \<and> x < g \<longrightarrow> x ^ nat e mod n = 1)"



text \<open>A modulus has exactly the number of bits asked for; it is 2q + 1 for a q such that both
  pass the tests, and the generator is the least from 2 on whose q-th power is not 1.\<close>

lemma conf_modulus_correct:
  assumes "makes_primes w" "2 \<le> nsize"
  shows "conf_modulus w nsize = Some Exit_1 \<or>
    (\<exists>q g. conf_modulus w nsize = Some (Made (2 * q + 1) g) \<and> passes w q \<and> passes w (2 * q + 1) \<and>
       BigIntegerBitLen (2 * q + 1) = nsize \<and> least_generator q (2 * q + 1) g)"
proof -
  let ?lo = "2 ^ (nsize - 2) :: int" and ?hi = "2 ^ (nsize - 1) :: int"
  have hi: "?hi = 2 * ?lo" using assms(2) by (simp flip: power_Suc add: Suc_diff_Suc numeral_2_eq_2)
  have lt: "?lo < ?hi" unfolding hi by simp
  obtain start s where s: "sophie_germain w ?lo ?hi = Some s" "?lo \<le> start" "first_good w odd start ?hi s"
    using sophie_germain_first [OF assms(1) _ lt] by auto
  have run: "conf_modulus w nsize = (case s of Prime_generation_failed \<Rightarrow> Some Exit_1
      | Found q \<Rightarrow> map_option (Made (2 * q + 1)) (generator_loop w q (2 * q + 1) ?lo 2))"
    using s(1) hi
    by (simp add: conf_modulus_def BigIntegerFromInt_def BigIntegerLShift_def BigIntegerMulInt_def BigIntegerAddInt_def
        Let_def mult.commute map_option_case split: prime_search.split option.split)
  show ?thesis
  proof (cases s)
    case (Found q)
    then have q: "?lo \<le> q" "q < ?hi" "good w q" using s by (auto simp: first_good_def)
    have pos: "0 < q" using q(1) zero_less_power [of "2 :: int" "nsize - 2"] by linarith
    have "w_engine w = None" using assms(1) by (simp add: makes_primes_def)
    from generator_loop_least [OF this pos, of "2 * q + 1" 2 ?lo] pos obtain g
      where g: "generator_loop w q (2 * q + 1) ?lo 2 = Some g" "least_generator q (2 * q + 1) g"
      by (auto simp: least_generator_def)
    have "BigIntegerBitLen (2 * q + 1) = nsize"
    proof -
      have "(2 :: int) ^ nsize = 2 * ?hi" using assms(2) by (cases nsize) auto
      then have "int (nat (2 * q + 1)) < int (2 ^ nsize)" "int (2 ^ (nsize - 1)) \<le> int (nat (2 * q + 1))"
        using q(1,2) hi pos by simp_all
      then have "nat (2 * q + 1) < 2 ^ nsize" "2 ^ (nsize - 1) \<le> nat (2 * q + 1)" by (simp_all only: of_nat_less_iff of_nat_le_iff)
      then have "bit_length (nat (2 * q + 1)) \<le> nsize" "\<not> bit_length (nat (2 * q + 1)) \<le> nsize - 1"
        by (simp_all add: bit_length_le_iff)
      then show ?thesis using pos by (simp add: BigIntegerBitLen_def)
    qed
    then show ?thesis using g q(3) Found by (auto simp: run good_def)
  next
    case Prime_generation_failed
    then show ?thesis by (simp add: run)
  qed
qed

text \<open>The composite modulus: two searches from three quarters of the highest power on, so that the product has all its bits.\<close>

lemma bit_length_exact: "2 ^ (m - 1) \<le> n \<Longrightarrow> n < 2 ^ m \<Longrightarrow> 0 < m \<Longrightarrow> bit_length n = m"
  using bit_length_le_iff [of n m] bit_length_le_iff [of n "m - 1"] by auto

lemma double: "BigIntegerAddInt (BigIntegerMulInt x 2) 1 = 2 * x + 1"
  by (simp add: BigIntegerAddInt_def BigIntegerMulInt_def)

lemma search_from_three_quarters:
  assumes "makes_primes w" "3 \<le> m"
  obtains s where "sophie_germain w (3 * 2 ^ (m - 3)) (4 * 2 ^ (m - 3)) = Some s"
    "\<And>x. s = Found x \<Longrightarrow> 3 * 2 ^ (m - 3) \<le> x \<and> x < 4 * 2 ^ (m - 3) \<and> good w x"
proof -
  have "(3 :: int) * 2 ^ (m - 3) < 4 * 2 ^ (m - 3)" "(0 :: int) \<le> 3 * 2 ^ (m - 3)" by simp_all
  from sophie_germain_first [OF assms(1) this(2,1)] obtain start s where
    s: "sophie_germain w (3 * 2 ^ (m - 3)) (4 * 2 ^ (m - 3)) = Some s" "3 * 2 ^ (m - 3) \<le> start" "first_good w odd start (4 * 2 ^ (m - 3)) s"
    by blast
  then have "3 * 2 ^ (m - 3) \<le> x \<and> x < 4 * 2 ^ (m - 3) \<and> good w x" if "s = Found x" for x
    using that by (auto simp: first_good_def)
  then show thesis using that s(1) by blast
qed

lemma composite_bits:
  fixes j k :: int
  assumes j: "3 * 2 ^ a \<le> j" "j < 4 * 2 ^ a" and k: "3 * 2 ^ b \<le> k" "k < 4 * 2 ^ b"
  shows "BigIntegerBitLen ((2 * j + 1) * (2 * k + 1)) = a + b + 6"
proof -
  let ?A = "2 ^ a :: int" and ?B = "2 ^ b :: int"
  have pos: "0 < ?A" "0 < ?B" by simp_all
  have le: "6 * ?A \<le> 2 * j + 1" "6 * ?B \<le> 2 * k + 1" using j k by linarith+
  have less: "2 * j + 1 \<le> 8 * ?A - 1" "2 * k + 1 \<le> 8 * ?B - 1" using j k by linarith+
  have lo: "6 * ?A * (6 * ?B) \<le> (2 * j + 1) * (2 * k + 1)" using le pos by (intro mult_mono) linarith+
  have "(2 * j + 1) * (2 * k + 1) \<le> (8 * ?A - 1) * (8 * ?B - 1)" using le less pos by (intro mult_mono) linarith+
  also have "\<dots> = 64 * (?A * ?B) - 8 * ?A - 8 * ?B + 1" by (simp add: algebra_simps)
  also have "\<dots> < 64 * (?A * ?B)" using pos by linarith
  finally have hi: "(2 * j + 1) * (2 * k + 1) < 64 * (?A * ?B)" .
  define n where "n = nat ((2 * j + 1) * (2 * k + 1))"
  have "0 \<le> (2 * j + 1) * (2 * k + 1)" using lo pos by (intro order_trans [OF _ lo]) auto
  then have n: "int n = (2 * j + 1) * (2 * k + 1)" by (simp add: n_def)
  have "int n < int (2 ^ (a + b + 6))" using hi n by (simp add: power_add mult.commute)
  moreover have "int (2 ^ (a + b + 6 - 1)) \<le> int n"
  proof -
    have "int (2 ^ (a + b + 6 - 1)) = 32 * (?A * ?B)" by (simp add: power_add)
    also have "\<dots> \<le> 6 * ?A * (6 * ?B)" using pos by (simp add: mult_ac)
    finally show ?thesis using lo n by linarith
  qed
  ultimately have "bit_length n = a + b + 6" by (intro bit_length_exact) (simp_all only: of_nat_less_iff of_nat_le_iff)
  moreover have "nat \<bar>(2 * j + 1) * (2 * k + 1)\<bar> = n" using n by (metis nat_int abs_of_nat)
  ultimately show ?thesis by (simp only: BigIntegerBitLen_def)
qed

lemma conf_modulus_c_correct:
  assumes "makes_primes w" "makes_primes w2" "6 \<le> nsize"
  shows "conf_modulus_c w w2 nsize = Some Exit_1 \<or>
    (\<exists>j k g. conf_modulus_c w w2 nsize = Some (Made ((2 * j + 1) * (2 * k + 1)) g) \<and> good w j \<and> good w2 k \<and>
       BigIntegerBitLen ((2 * j + 1) * (2 * k + 1)) = nsize \<and> least_generator (j * k) ((2 * j + 1) * (2 * k + 1)) g)"
proof -
  define p where "p = nsize div 2"
  define q where "q = nsize - p"
  have pq: "3 \<le> p" "3 \<le> q" "p + q = nsize" using assms(3) by (auto simp: p_def q_def)
  obtain sj where sj: "sophie_germain w (3 * 2 ^ (p - 3)) (4 * 2 ^ (p - 3)) = Some sj"
    "\<And>x. sj = Found x \<Longrightarrow> 3 * 2 ^ (p - 3) \<le> x \<and> x < 4 * 2 ^ (p - 3) \<and> good w x"
    by (rule search_from_three_quarters [OF assms(1) pq(1)]) blast
  obtain sk where sk: "sophie_germain w2 (3 * 2 ^ (q - 3)) (4 * 2 ^ (q - 3)) = Some sk"
    "\<And>x. sk = Found x \<Longrightarrow> 3 * 2 ^ (q - 3) \<le> x \<and> x < 4 * 2 ^ (q - 3) \<and> good w2 x"
    by (rule search_from_three_quarters [OF assms(2) pq(2)]) blast
  have bounds: "BigIntegerMulInt (BigIntegerLShift (BigIntegerFromInt 1) m) 3 = 3 * 2 ^ m"
    "BigIntegerAdd (BigIntegerLShift (BigIntegerFromInt 1) m) (3 * 2 ^ m) = 4 * 2 ^ m" for m
    by (simp_all add: BigIntegerMulInt_def BigIntegerLShift_def BigIntegerFromInt_def BigIntegerAdd_def)
  have run: "conf_modulus_c w w2 nsize = (case sj of Prime_generation_failed \<Rightarrow> Some Exit_1
      | Found j \<Rightarrow> (case sk of Prime_generation_failed \<Rightarrow> Some Exit_1
        | Found k \<Rightarrow> map_option (Made ((2 * j + 1) * (2 * k + 1)))
            (generator_loop w2 (j * k) ((2 * j + 1) * (2 * k + 1)) (3 * 2 ^ (q - 3)) 2)))"
    using sj(1) sk(1)
    by (cases "q = p") (simp_all add: conf_modulus_c_def bounds Let_def double [unfolded One_nat_def] BigIntegerMul_def
        map_option_case flip: p_def q_def split: prime_search.split option.split)
  show ?thesis
  proof (cases "\<exists>j k. sj = Found j \<and> sk = Found k")
    case True
    then obtain j k where jk: "sj = Found j" "sk = Found k" by blast
    note j = sj(2) [OF jk(1)] and k = sk(2) [OF jk(2)]
    have pos: "0 < j" "0 < k" using j k by (smt (verit) zero_less_power)+
    have big: "j * k \<ge> 1" using pos by (simp add: int_one_le_iff_zero_less)
    have n: "1 < (2 * j + 1) * (2 * k + 1)" using pos big by (simp add: algebra_simps)
    have "w_engine w2 = None" using assms(2) by (simp add: makes_primes_def)
    from generator_loop_least [OF this _ n, of "j * k" 2 "3 * 2 ^ (q - 3)"] pos n obtain g
      where g: "generator_loop w2 (j * k) ((2 * j + 1) * (2 * k + 1)) (3 * 2 ^ (q - 3)) 2 = Some g"
        "least_generator (j * k) ((2 * j + 1) * (2 * k + 1)) g"
      by (auto simp: least_generator_def)
    have "BigIntegerBitLen ((2 * j + 1) * (2 * k + 1)) = (p - 3) + (q - 3) + 6" using j k by (intro composite_bits) auto
    then show ?thesis using g j k pq jk by (auto simp: run)
  next
    case False
    then show ?thesis by (auto simp: run split: prime_search.splits)
  qed
qed

text \<open>\<open>t_isprime\<close> refuses every prime that trial division divides by.\<close>

lemma isprime_refuses_small: "p \<in> set small_primes \<Longrightarrow> \<not> t_isprime w (int p)"
proof -
  assume "p \<in> set small_primes"
  then have "\<not> trialdiv (int p) < 2" using trialdiv_less [of "int p"] dvd_refl [of "int p"] by blast
  then show ?thesis by (simp add: t_isprime_def)
qed

lemma isprime_exact:
  assumes "w_engine w = None" "0 < x"
  shows "t_isprime w x \<longleftrightarrow> passes w x"
proof -
  have "trialdiv x > 1 \<longleftrightarrow> \<not> trialdiv x < 2" by linarith
  moreover have "BigIntegerCmpInt (2 ^ nat x mod x) 2 = 0 \<longleftrightarrow> 2 ^ nat x mod x = 2" using assms(2) cmpint_mod [of "2 ^ nat x mod x" 2] by simp
  moreover have "BigIntegerModExp (w_engine w) 2 2 x x None = 2 ^ nat x mod x" using assms by (intro modexp_positive)
  ultimately show ?thesis by (simp add: t_isprime_def trialdiv_less passes_def BigIntegerCheckPrime_def Let_def)
qed

end
