(* ===== verification/Srp_Params.thy ===== *)
theory Srp_Params
  imports Srp_Primes Hap_Message
begin

text \<open>
  srp/t_read.c, the file of moduli of srp/t_conf.c, and the hashes t_mgf1 and t_sessionkey of srp/t_misc.c. A stream is
  the bytes that are left; a field is what stands before a colon, the end of the line or the end of the file. Numbers
  are base-64 texts read by \<open>t_cstrfromb64\<close> of \<open>Conv\<close>, which is None where it leaves its array.
\<close>

section \<open>Fields\<close>

fun nextfield_loop :: "nat \<Rightarrow> byte list \<Rightarrow> byte list \<Rightarrow> byte list \<times> byte list" where
  "nextfield_loop max_len [] s = (s, [])"
| "nextfield_loop max_len (c # fp) s =
     (if c = 13 \<or> c = 10 then (s, c # fp)
      else if c = 58 then (s, fp)
      else nextfield_loop max_len fp (if length s < max_len - 1 then s @ [c] else s))"

text \<open>The text with its terminator, the count and the stream.\<close>

definition t_nextfield :: "byte list \<Rightarrow> nat \<Rightarrow> byte list \<times> nat \<times> byte list" where
  "t_nextfield fp max_len = (let (s, fp) = nextfield_loop max_len fp [] in (s @ [0], length s, fp))"

fun nextcstr_loop :: "(int \<Rightarrow> byte list option) \<Rightarrow> byte list \<Rightarrow> cstr \<Rightarrow> nat \<Rightarrow> cstr \<times> nat \<times> byte list" where
  "nextcstr_loop mem [] s count = (s, count, [])"
| "nextcstr_loop mem (c # fp) s count =
     (if c = 13 \<or> c = 10 then (s, count, c # fp)
      else if c = 58 then (s, count, fp)
      else nextcstr_loop mem fp (fst (cstr_appendn mem s [c] 1)) (count + 1))"

definition t_nextcstrfield :: "(int \<Rightarrow> byte list option) \<Rightarrow> byte list \<Rightarrow> cstr \<Rightarrow> cstr \<times> nat \<times> byte list" where
  "t_nextcstrfield mem fp s = nextcstr_loop mem fp (fst (cstr_set_length mem s 0)) 0"

fun t_nextline :: "byte list \<Rightarrow> int \<times> byte list" where
  "t_nextline [] = (- 1, [])"
| "t_nextline (c # fp) = (if c = 10 then (0, fp) else t_nextline fp)"

section \<open>Entries\<close>

text \<open>The file and the entry read last, whose numbers lie in the two strings.\<close>

record t_conf =
  tc_file :: "byte list"
  tc_instream :: "byte list"
  tc_modbuf :: cstr
  tc_genbuf :: cstr
  tc_index :: int
  tc_modlen :: int
  tc_genlen :: int

text \<open>The stream is the one given or that of the default file, None where that cannot be opened; memory is granted. The
  numbers of the first entry are set only by a reading or making operation, here they start as 0.\<close>

definition t_openconf :: "byte list option \<Rightarrow> t_conf option" where
  "t_openconf fp = map_option (\<lambda>f. \<lparr>tc_file = f, tc_instream = f, tc_modbuf = new_cstr, tc_genbuf = new_cstr,
     tc_index = 0, tc_modlen = 0, tc_genlen = 0\<rparr>) fp"

definition t_rewindconf :: "t_conf \<Rightarrow> t_conf" where
  "t_rewindconf tc = tc\<lparr>tc_instream := tc_file tc\<rparr>"

text \<open>The two numbers of an entry; the flag says that both were read.\<close>

definition read_numbers ::
  "(nat \<Rightarrow> byte list option) \<Rightarrow> (int \<Rightarrow> byte list option) \<Rightarrow> cstr \<Rightarrow> t_conf \<Rightarrow> (bool \<times> cstr \<times> t_conf) option" where
  "read_numbers heap mem b64buf tc =
     (let (b64buf, n, fp) = t_nextcstrfield mem (tc_instream tc) b64buf; tc = tc\<lparr>tc_instream := fp\<rparr> in
      if n = 0 then Some (False, b64buf, tc) else do {
        (m, len) \<leftarrow> t_cstrfromb64 heap mem (tc_modbuf tc) (take (strlen (c_data b64buf)) (c_data b64buf));
        let tc = tc\<lparr>tc_modbuf := m, tc_modlen := len\<rparr>;
        if len \<le> 0 then Some (False, b64buf, tc) else
        let (b64buf, n, fp) = t_nextcstrfield mem (tc_instream tc) b64buf; tc = tc\<lparr>tc_instream := fp\<rparr> in
        if n = 0 then Some (False, b64buf, tc) else do {
          (g, len) \<leftarrow> t_cstrfromb64 heap mem (tc_genbuf tc) (take (strlen (c_data b64buf)) (c_data b64buf));
          let tc = tc\<lparr>tc_genbuf := g, tc_genlen := len\<rparr>;
          Some (0 < len, b64buf, tc) } })"

definition read_entry ::
  "(nat \<Rightarrow> byte list option) \<Rightarrow> (int \<Rightarrow> byte list option) \<Rightarrow> cstr \<Rightarrow> t_conf \<Rightarrow> (bool \<times> cstr \<times> t_conf) option" where
  "read_entry heap mem b64buf tc =
     (let (indexbuf, n, fp) = t_nextfield (tc_instream tc) 16; tc = tc\<lparr>tc_instream := fp\<rparr> in
      if n = 0 then Some (False, b64buf, tc) else do {
        i \<leftarrow> atoi indexbuf;
        let tc = tc\<lparr>tc_index := i\<rparr>;
        if i \<le> 0 then Some (False, b64buf, tc) else read_numbers heap mem b64buf tc })"

text \<open>The loops over the lines: True with the entry in \<open>tc\<close>, False for the null pointer.\<close>

partial_function (option) getconfent_loop ::
  "(nat \<Rightarrow> byte list option) \<Rightarrow> (int \<Rightarrow> byte list option) \<Rightarrow> cstr \<Rightarrow> t_conf \<Rightarrow> (bool \<times> t_conf) option" where
  "getconfent_loop heap mem b64buf tc = do {
     x \<leftarrow> read_entry heap mem b64buf tc;
     let (ok, b64buf, tc) = x;
     let line = t_nextline (tc_instream tc);
     let tc = tc\<lparr>tc_instream := snd line\<rparr>;
     if ok then Some (True, tc) else if fst line < 0 then Some (False, tc) else getconfent_loop heap mem b64buf tc }"

definition t_getconfent :: "(nat \<Rightarrow> byte list option) \<Rightarrow> (int \<Rightarrow> byte list option) \<Rightarrow> t_conf \<Rightarrow> (bool \<times> t_conf) option" where
  "t_getconfent heap mem tc = getconfent_loop heap mem new_cstr tc"

partial_function (option) getconflast_loop ::
  "(nat \<Rightarrow> byte list option) \<Rightarrow> (int \<Rightarrow> byte list option) \<Rightarrow> bool \<Rightarrow> t_conf \<Rightarrow> (bool \<times> t_conf) option" where
  "getconflast_loop heap mem valid tc = do {
     x \<leftarrow> t_getconfent heap mem tc;
     if fst x then getconflast_loop heap mem True (snd x) else Some (valid, snd x) }"

definition t_getconflast :: "(nat \<Rightarrow> byte list option) \<Rightarrow> (int \<Rightarrow> byte list option) \<Rightarrow> t_conf \<Rightarrow> (bool \<times> t_conf) option" where
  "t_getconflast heap mem tc = getconflast_loop heap mem False (t_rewindconf tc)"

partial_function (option) getconfbyindex_loop ::
  "(nat \<Rightarrow> byte list option) \<Rightarrow> (int \<Rightarrow> byte list option) \<Rightarrow> int \<Rightarrow> cstr \<Rightarrow> t_conf \<Rightarrow> (bool \<times> t_conf) option" where
  "getconfbyindex_loop heap mem index' b64buf tc =
     (let field = t_nextfield (tc_instream tc) 16; tc = tc\<lparr>tc_instream := snd (snd field)\<rparr> in
      if fst (snd field) = 0 then Some (False, tc) else do {
        tindex \<leftarrow> atoi (fst field);
        x \<leftarrow> (if tindex = index' then read_numbers heap mem b64buf tc else Some (False, b64buf, tc));
        let (ok, b64buf, tc) = x;
        let line = t_nextline (tc_instream tc);
        if ok then Some (True, tc\<lparr>tc_index := tindex, tc_instream := snd line\<rparr>)
        else if fst line < 0 then Some (False, tc\<lparr>tc_instream := snd line\<rparr>)
        else getconfbyindex_loop heap mem index' b64buf (tc\<lparr>tc_instream := snd line\<rparr>) })"

definition t_getconfbyindex :: "(nat \<Rightarrow> byte list option) \<Rightarrow> (int \<Rightarrow> byte list option) \<Rightarrow> t_conf \<Rightarrow> int \<Rightarrow> (bool \<times> t_conf) option" where
  "t_getconfbyindex heap mem tc index' = getconfbyindex_loop heap mem index' new_cstr (t_rewindconf tc)"

text \<open>New entries. The process ends where no prime is found.\<close>

definition t_newconfent :: "t_conf \<Rightarrow> t_conf" where
  "t_newconfent tc = tc\<lparr>tc_index := 0, tc_modlen := 0, tc_genlen := 0\<rparr>"

definition store_conf :: "(int \<Rightarrow> byte list option) \<Rightarrow> bignum \<Rightarrow> bignum \<Rightarrow> t_conf \<Rightarrow> t_conf option" where
  "store_conf mem n g tc = do {
     (modbuf, r) \<leftarrow> BigIntegerToCstr mem n (tc_modbuf tc);
     let tc = tc\<lparr>tc_modbuf := modbuf, tc_modlen := c_length modbuf\<rparr>;
     (genbuf, r) \<leftarrow> BigIntegerToCstr mem g (tc_genbuf tc);
     let tc = tc\<lparr>tc_genbuf := genbuf, tc_genlen := c_length genbuf\<rparr>;
     Some (tc\<lparr>tc_index := 1\<rparr>) }"

datatype makeconf_result = Made_entry t_conf | Process_exit

definition make_entry :: "srp_world \<Rightarrow> t_conf \<Rightarrow> made_conf \<Rightarrow> makeconf_result option" where
  "make_entry w tc m = (case m of Exit_1 \<Rightarrow> Some Process_exit | Made n g \<Rightarrow> map_option Made_entry (store_conf (w_mem w) n g tc))"

definition t_makeconfent :: "srp_world \<Rightarrow> t_conf \<Rightarrow> nat \<Rightarrow> makeconf_result option" where
  "t_makeconfent w tc nsize = do { m \<leftarrow> conf_modulus w nsize; make_entry w tc m }"

definition t_makeconfent_c :: "srp_world \<Rightarrow> srp_world \<Rightarrow> t_conf \<Rightarrow> nat \<Rightarrow> makeconf_result option" where
  "t_makeconfent_c w w2 tc nsize = do { m \<leftarrow> conf_modulus_c w w2 nsize; make_entry w2 tc m }"

text \<open>What is printed for an entry; \<open>%d\<close> of an index that is not negative.\<close>

record t_confent =
  ce_index :: nat
  ce_modulus :: "byte list"
  ce_generator :: "byte list"

definition t_putconfent :: "(int \<Rightarrow> byte list option) \<Rightarrow> t_confent \<Rightarrow> byte list option" where
  "t_putconfent mem ent = do {
     strbuf \<leftarrow> t_tob64cstr mem new_cstr (ce_modulus ent);
     let out = int2str (ce_index ent) @ [58] @ take (strlen (c_data strbuf)) (c_data strbuf) @ [58];
     strbuf \<leftarrow> t_tob64cstr mem strbuf (ce_generator ent);
     Some (out @ take (strlen (c_data strbuf)) (c_data strbuf) @ [10]) }"

text \<open>\<open>memcmp\<close> of as many bytes as the first number has, once the lengths are equal.\<close>

fun memcmp :: "byte list \<Rightarrow> byte list \<Rightarrow> int" where
  "memcmp (x # xs) (y # ys) = (if x = y then memcmp xs ys else if x < y then - 1 else 1)"
| "memcmp _ _ = 0"

definition t_cmpconfent :: "t_confent \<Rightarrow> t_confent \<Rightarrow> int" where
  "t_cmpconfent cf1 cf2 =
     (let diff = int (length (ce_modulus cf1)) - int (length (ce_modulus cf2)) in if diff \<noteq> 0 then diff else
      let diff = int (length (ce_generator cf1)) - int (length (ce_generator cf2)) in if diff \<noteq> 0 then diff else
      let diff = memcmp (ce_modulus cf1) (ce_modulus cf2) in if diff \<noteq> 0 then diff else
      memcmp (ce_generator cf1) (ce_generator cf2))"

section \<open>Hashes\<close>

text \<open>\<open>t_mgf1\<close>, for masks whose end is 64 bytes or more below 4 GiB, so that \<open>pos\<close> does not wrap.\<close>

function mgf1_loop :: "srp_world \<Rightarrow> byte list \<Rightarrow> nat \<Rightarrow> byte list \<Rightarrow> nat \<Rightarrow> nat \<Rightarrow> byte list" where
  "mgf1_loop w mask' masklen seed i pos =
     (if pos < masklen then
        let cnt = be_bytes 4 i; hout = sha_digest w [seed, cnt] in
        if pos + 64 > masklen then mgf1_loop w (buffer_copy mask' pos (take (masklen - pos) hout)) masklen seed (i + 1) masklen
        else mgf1_loop w (buffer_copy mask' pos hout) masklen seed (i + 1) (pos + 64)
      else mask')"
  by pat_completeness auto
termination
  by (relation "measure (\<lambda>(w, mask', masklen, seed, i, pos). masklen - pos)") auto

declare mgf1_loop.simps [simp del]

definition t_mgf1 :: "srp_world \<Rightarrow> byte list \<Rightarrow> nat \<Rightarrow> byte list \<Rightarrow> byte list" where
  "t_mgf1 w mask' masklen seed = mgf1_loop w mask' masklen seed 0 0"

text \<open>\<open>t_sessionkey\<close> writes 128 bytes to \<open>key\<close>; None is the null pointer it returns when there is no memory.\<close>

fun skip_zeros :: "byte list \<Rightarrow> byte list" where
  "skip_zeros (b # sk) = (if b = 0 then skip_zeros sk else b # sk)"
| "skip_zeros [] = []"

definition spread :: "byte list \<Rightarrow> nat \<Rightarrow> byte list \<Rightarrow> byte list" where
  "spread key off hout = fold (\<lambda>i key. key[2 * i + off := hout ! i]) [0..<64] key"

definition t_sessionkey :: "srp_world \<Rightarrow> (nat \<Rightarrow> bool) \<Rightarrow> byte list \<Rightarrow> byte list \<Rightarrow> byte list option" where
  "t_sessionkey w malloc key sk =
     (let sk = skip_zeros sk; sklen = length sk; klen = sklen div 2 in
      if \<not> malloc klen then None
      else let hbuf = map (\<lambda>i. sk ! (sklen - 2 * i - 1)) [0..<klen];
               key = spread key 0 (sha_digest w [hbuf]);
               hbuf = map (\<lambda>i. sk ! (sklen - 2 * i - 2)) [0..<klen]
           in Some (spread key 1 (sha_digest w [hbuf])))"

section \<open>Reading fields\<close>

definition plain :: "byte list \<Rightarrow> bool" where
  "plain f \<longleftrightarrow> (\<forall>c \<in> set f. c \<noteq> 13 \<and> c \<noteq> 10 \<and> c \<noteq> 58 \<and> c \<noteq> 0)"

lemma nextfield_loop_plain:
  "plain f \<Longrightarrow> length s + length f < m \<Longrightarrow> nextfield_loop m (f @ 58 # rest) s = (s @ f, rest)"
  by (induction f arbitrary: s) (auto simp: plain_def)

lemma nextline_plain: "10 \<notin> set f \<Longrightarrow> t_nextline (f @ 10 # rest) = (0, rest)"
  by (induction f) auto

text \<open>What the reading relies on: an allocator that grants everything, for the strings and for the decoder.\<close>

definition grants :: "(nat \<Rightarrow> byte list option) \<Rightarrow> (int \<Rightarrow> byte list option) \<Rightarrow> bool" where
  "grants heap mem \<longleftrightarrow> total_mem mem \<and> (\<forall>n. \<exists>a. heap n = Some a \<and> length a = n)"

lemma appendn_total:
  assumes "cstr_wf s" "total_mem mem"
  shows "cstr_wf (fst (cstr_appendn mem s [c] 1))" "cstr_value (fst (cstr_appendn mem s [c] 1)) = cstr_value s @ [c]"
proof -
  have g: "good_mem mem" unfolding good_mem_def using assms(2) by (metis option.inject total_mem_def)
  obtain s' r where a: "cstr_appendn mem s [c] 1 = (s', r)" by fastforce
  have "0 \<le> r" using a assms(2)
    by (auto simp: cstr_appendn_def cstr_alloc_def total_mem_def Let_def split: if_splits option.splits)
      (metis option.distinct(1))+
  then show "cstr_wf (fst (cstr_appendn mem s [c] 1))" "cstr_value (fst (cstr_appendn mem s [c] 1)) = cstr_value s @ [c]"
    using cstr_appendn_result [OF assms(1) g _ _ a] a by simp_all
qed

lemma nextcstr_loop_plain:
  assumes "total_mem mem" "stop = 58 \<or> stop = 10"
  shows "plain f \<Longrightarrow> cstr_wf s \<Longrightarrow> \<exists>s'. nextcstr_loop mem (f @ stop # rest) s n = (s', n + length f, if stop = 58 then rest else stop # rest) \<and>
    cstr_wf s' \<and> cstr_value s' = cstr_value s @ f"
proof (induction f arbitrary: s n)
  case Nil
  then show ?case using assms(2) by auto
next
  case (Cons c f)
  let ?s = "fst (cstr_appendn mem s [c] 1)"
  obtain s' where "nextcstr_loop mem (f @ stop # rest) ?s (n + 1) = (s', n + 1 + length f, if stop = 58 then rest else stop # rest)"
    "cstr_wf s'" "cstr_value s' = cstr_value ?s @ f"
    using Cons.IH [of ?s "n + 1"] Cons.prems appendn_total(1) [OF Cons.prems(2) assms(1)] by (auto simp: plain_def)
  then show ?case using Cons.prems appendn_total(2) [OF Cons.prems(2) assms(1)] by (auto simp: plain_def)
qed

lemma nextcstrfield_plain:
  assumes "total_mem mem" "stop = 58 \<or> stop = 10" "plain f" "cstr_wf s"
  shows "\<exists>s'. t_nextcstrfield mem (f @ stop # rest) s = (s', length f, if stop = 58 then rest else stop # rest) \<and> cstr_wf s' \<and> cstr_value s' = f"
proof -
  obtain s0 r where s0: "cstr_set_length mem s (int 0) = (s0, r)" "cstr_wf s0" "cstr_value s0 = []"
    using set_length_mem [OF assms(4,1), of 0] by (metis take_0)
  then show ?thesis using nextcstr_loop_plain [OF assms(1,2,3) s0(2), of rest 0] by (simp add: t_nextcstrfield_def)
qed

lemma take_strlen_value:
  assumes "cstr_wf s" "0 \<notin> set (cstr_value s)"
  shows "take (strlen (c_data s)) (c_data s) = cstr_value s"
proof -
  let ?n = "nat (c_length s)"
  have n: "?n < length (c_data s)" "c_data s ! ?n = 0" using assms(1) by (auto simp: cstr_wf_def cstr_empty_string_def)
  have split: "c_data s = cstr_value s @ 0 # drop (Suc ?n) (c_data s)"
    using n by (simp add: cstr_value_def id_take_nth_drop [symmetric] flip: n(2))
  have "takeWhile (\<lambda>b. b \<noteq> 0) (c_data s) = cstr_value s"
    by (subst split, subst takeWhile_append2) (use assms(2) in auto)
  then show ?thesis by (metis strlen_def takeWhile_eq_take)
qed

lemma plain_b64: "plain (t_tob64 bs)"
proof -
  obtain F where F: "t_tob64 bs = map (\<lambda>d. b64table ! d) (strip_zeros F)" "\<forall>d \<in> set F. d < 64"
    by (rule t_tob64_digits)
  have "length b64table = 64" "plain b64table" by (simp_all add: b64table_def plain_def ascii_def)
  moreover have "\<forall>d \<in> set (strip_zeros F). d < 64" using F(2) set_dropWhileD by (metis strip_zeros_def)
  ultimately show ?thesis by (auto simp: F(1) plain_def)
qed

lemma b64_nonempty: "be_val bs \<noteq> 0 \<Longrightarrow> t_tob64 bs \<noteq> []"
proof
  assume "be_val bs \<noteq> 0" "t_tob64 bs = []"
  obtain F where F: "t_tob64 bs = map (\<lambda>d. b64table ! d) (strip_zeros F)" "base_val 64 F = be_val bs"
    by (rule t_tob64_digits)
  then show False using \<open>be_val bs \<noteq> 0\<close> \<open>t_tob64 bs = []\<close> strip_empty_iff [of 64 F] by simp
qed

section \<open>Entries are read back\<close>

definition valid_entry :: "t_confent \<Rightarrow> bool" where
  "valid_entry e \<longleftrightarrow> 0 < ce_index e \<and> ce_index e < 2 ^ 31 \<and> be_val (ce_modulus e) \<noteq> 0 \<and> be_val (ce_generator e) \<noteq> 0"

definition put_line :: "t_confent \<Rightarrow> byte list" where
  "put_line e = int2str (ce_index e) @ [58] @ t_tob64 (ce_modulus e) @ [58] @ t_tob64 (ce_generator e) @ [10]"

definition wf_conf :: "t_conf \<Rightarrow> bool" where
  "wf_conf tc \<longleftrightarrow> cstr_wf (tc_modbuf tc) \<and> cstr_wf (tc_genbuf tc)"

text \<open>The entry that lies in \<open>tc\<close>, up to leading zeros of its numbers.\<close>

definition entry_is :: "t_conf \<Rightarrow> t_confent \<Rightarrow> bool" where
  "entry_is tc e \<longleftrightarrow> tc_index tc = int (ce_index e) \<and>
     cstr_value (tc_modbuf tc) = strip_zeros (ce_modulus e) \<and> tc_modlen tc = int (length (strip_zeros (ce_modulus e))) \<and>
     cstr_value (tc_genbuf tc) = strip_zeros (ce_generator e) \<and> tc_genlen tc = int (length (strip_zeros (ce_generator e)))"

lemma strip_zeros_pos: "be_val bs \<noteq> 0 \<Longrightarrow> 0 < length (strip_zeros bs)"
proof -
  assume nz: "be_val bs \<noteq> 0"
  have "strip_zeros bs \<noteq> []"
  proof
    assume "strip_zeros bs = []"
    then have "\<forall>b \<in> set bs. b = 0" by (simp add: strip_zeros_def dropWhile_eq_Nil_conv)
    then have "be_val bs = 0" by (induction bs) (auto simp: be_val_Cons)
    then show False using nz by simp
  qed
  then show ?thesis by simp
qed

lemma read_number:
  assumes g: "grants heap mem" and wf: "cstr_wf buf" "cstr_wf b64" and nz: "be_val bs \<noteq> 0" and stop: "stop = 58 \<or> stop = 10"
  shows "\<exists>b64' d. t_nextcstrfield mem (t_tob64 bs @ stop # rest) b64 = (b64', length (t_tob64 bs), if stop = 58 then rest else stop # rest) \<and>
    cstr_wf b64' \<and> t_cstrfromb64 heap mem buf (take (strlen (c_data b64')) (c_data b64')) = Some (d, int (length (strip_zeros bs))) \<and>
    cstr_wf d \<and> cstr_value d = strip_zeros bs"
proof -
  have mem: "total_mem mem" using g by (simp add: grants_def)
  obtain b64' where b: "t_nextcstrfield mem (t_tob64 bs @ stop # rest) b64 = (b64', length (t_tob64 bs), if stop = 58 then rest else stop # rest)"
    "cstr_wf b64'" "cstr_value b64' = t_tob64 bs"
    using nextcstrfield_plain [OF mem stop plain_b64 wf(2)] by blast
  have "0 \<notin> set (cstr_value b64')" using plain_b64 [of bs] b(3) by (auto simp: plain_def)
  then have "take (strlen (c_data b64')) (c_data b64') = t_tob64 bs" using take_strlen_value [OF b(2)] b(3) by simp
  moreover obtain d where "t_cstrfromb64 heap mem buf (t_tob64 bs) = Some (d, int (length (strip_zeros bs)))" "cstr_wf d" "cstr_value d = strip_zeros bs"
    using conv_cstr_fits [OF wf(1,1), of mem heap bs] g nz unfolding grants_def total_mem_def by blast
  ultimately show ?thesis using b by auto
qed

lemma read_numbers_line:
  assumes g: "grants heap mem" and wf: "wf_conf tc" "cstr_wf b64" and e: "be_val m \<noteq> 0" "be_val gen \<noteq> 0"
    and tc: "tc_instream tc = t_tob64 m @ 58 # t_tob64 gen @ 10 # rest"
  shows "\<exists>b64' tc'. read_numbers heap mem b64 tc = Some (True, b64', tc') \<and> cstr_wf b64' \<and> wf_conf tc' \<and>
    tc_instream tc' = 10 # rest \<and> tc_file tc' = tc_file tc \<and> tc_index tc' = tc_index tc \<and>
    cstr_value (tc_modbuf tc') = strip_zeros m \<and> tc_modlen tc' = int (length (strip_zeros m)) \<and>
    cstr_value (tc_genbuf tc') = strip_zeros gen \<and> tc_genlen tc' = int (length (strip_zeros gen))"
proof -
  obtain b1 d1 where 1: "t_nextcstrfield mem (t_tob64 m @ 58 # t_tob64 gen @ 10 # rest) b64 = (b1, length (t_tob64 m), t_tob64 gen @ 10 # rest)"
    "cstr_wf b1" "t_cstrfromb64 heap mem (tc_modbuf tc) (take (strlen (c_data b1)) (c_data b1)) = Some (d1, int (length (strip_zeros m)))"
    "cstr_wf d1" "cstr_value d1 = strip_zeros m"
    using read_number [OF g _ wf(2) e(1), of "tc_modbuf tc" 58 "t_tob64 gen @ 10 # rest"] wf(1) by (auto simp: wf_conf_def)
  obtain b2 d2 where 2: "t_nextcstrfield mem (t_tob64 gen @ 10 # rest) b1 = (b2, length (t_tob64 gen), 10 # rest)"
    "cstr_wf b2" "t_cstrfromb64 heap mem (tc_genbuf tc) (take (strlen (c_data b2)) (c_data b2)) = Some (d2, int (length (strip_zeros gen)))"
    "cstr_wf d2" "cstr_value d2 = strip_zeros gen"
    using read_number [OF g _ 1(2) e(2), of "tc_genbuf tc" 10 rest] wf(1) by (auto simp: wf_conf_def)
  have "t_tob64 m \<noteq> []" "t_tob64 gen \<noteq> []" "0 < length (strip_zeros m)" "0 < length (strip_zeros gen)"
    using b64_nonempty strip_zeros_pos e by auto
  then show ?thesis using 1 2 by (simp add: read_numbers_def tc Let_def wf_conf_def)
qed

lemma int2str_plain: "plain (int2str n)"
  using int2str_digits(2) [of n] by (auto simp: plain_def isdigit_def)

lemma index_field:
  assumes "n < 2 ^ 31"
  shows "t_nextfield (int2str n @ 58 # rest) 16 = (int2str n @ [0], length (int2str n), rest)"
    "atoi (int2str n @ [0]) = Some (int n)" "0 < length (int2str n)"
proof -
  have "length (int2str n) \<le> 10" using assms by (intro length_int2str) auto
  then show "t_nextfield (int2str n @ 58 # rest) 16 = (int2str n @ [0], length (int2str n), rest)"
    using nextfield_loop_plain [OF int2str_plain, of "[]" n 16 rest] by (simp add: t_nextfield_def)
  have "strtol10 (int2str n @ 0 # []) = Some (int n, 0 # [])" using assms by (intro strtol10_at) (auto simp: isdigit_def)
  then show "atoi (int2str n @ [0]) = Some (int n)" using assms by (simp add: atoi_def)
  show "0 < length (int2str n)" using int2str_digits(3) by simp
qed

lemma tob64cstr_text:
  assumes "grants heap mem" "cstr_wf dst"
  shows "\<exists>d. t_tob64cstr mem dst bs = Some d \<and> cstr_wf d \<and> take (strlen (c_data d)) (c_data d) = t_tob64 bs"
proof -
  have mem: "total_mem mem" using assms(1) by (simp add: grants_def)
  define n where "n = (length bs * 8 + 5) div 6 + 1"
  obtain d r where d: "cstr_set_length mem dst (int n) = (d, r)" "cstr_wf d" "c_length d = int n"
    by (rule set_length_mem [OF assms(2) mem, of n]) blast
  have fits: "length (t_tob64 bs @ [0]) \<le> n" using length_t_tob64 [of bs] by (simp add: n_def)
  let ?d = "d\<lparr>c_data := (t_tob64 bs @ [0]) @ drop (length (t_tob64 bs @ [0])) (c_data d)\<rparr>"
  have n: "int ((length bs * 8 + 5) div 6) + 1 = int n" by (simp add: n_def)
  have "t_tob64cstr mem dst bs = Some ?d"
    unfolding t_tob64cstr_def n d(1) Let_def prod.case by (rule write_prefix(1) [OF d(2,3) fits])
  moreover have "cstr_wf ?d" by (rule write_prefix(2) [OF d(2,3) fits])
  moreover have "takeWhile (\<lambda>b. b \<noteq> 0) (c_data ?d) = t_tob64 bs"
  proof -
    have "\<forall>c \<in> set (t_tob64 bs). c \<noteq> 0" using plain_b64 [of bs] by (auto simp: plain_def)
    then show ?thesis by (simp add: takeWhile_append2)
  qed
  then have "take (strlen (c_data ?d)) (c_data ?d) = t_tob64 bs" by (metis strlen_def takeWhile_eq_take)
  ultimately show ?thesis by blast
qed

lemma put_line_append:
  "put_line e @ rest = int2str (ce_index e) @ 58 # t_tob64 (ce_modulus e) @ 58 # t_tob64 (ce_generator e) @ 10 # rest"
  by (simp add: put_line_def)

lemma putconfent_line:
  assumes "grants heap mem"
  shows "t_putconfent mem e = Some (put_line e)"
proof -
  obtain d1 where 1: "t_tob64cstr mem new_cstr (ce_modulus e) = Some d1" "cstr_wf d1"
    "take (strlen (c_data d1)) (c_data d1) = t_tob64 (ce_modulus e)"
    using tob64cstr_text [OF assms new_cstr_wf(1)] by blast
  obtain d2 where 2: "t_tob64cstr mem d1 (ce_generator e) = Some d2" "cstr_wf d2"
    "take (strlen (c_data d2)) (c_data d2) = t_tob64 (ce_generator e)"
    using tob64cstr_text [OF assms 1(2)] by blast
  show ?thesis using 1 2 by (simp add: t_putconfent_def put_line_def Let_def)
qed

lemma read_entry_line:
  assumes g: "grants heap mem" and wf: "wf_conf tc" "cstr_wf b64" and e: "valid_entry e" and tc: "tc_instream tc = put_line e @ rest"
  shows "\<exists>b64' tc'. read_entry heap mem b64 tc = Some (True, b64', tc') \<and> cstr_wf b64' \<and> wf_conf tc' \<and> entry_is tc' e \<and> tc_instream tc' = 10 # rest"
proof -
  have idx: "ce_index e < 2 ^ 31" using e by (simp add: valid_entry_def)
  let ?more = "t_tob64 (ce_modulus e) @ 58 # t_tob64 (ce_generator e) @ 10 # rest"
  have stream: "tc_instream tc = int2str (ce_index e) @ 58 # ?more" using tc by (simp add: put_line_append)
  let ?tc = "tc\<lparr>tc_instream := ?more, tc_index := int (ce_index e)\<rparr>"
  have "wf_conf ?tc" using wf(1) by (simp add: wf_conf_def)
  from read_numbers_line [OF g this wf(2), of "ce_modulus e" "ce_generator e" rest] e
  obtain b64' tc' where "read_numbers heap mem b64 ?tc = Some (True, b64', tc')" "cstr_wf b64'" "wf_conf tc'"
    "tc_instream tc' = 10 # rest" "entry_is tc' e"
    by (auto simp: valid_entry_def entry_is_def)
  then show ?thesis using e index_field(1) [OF idx, of ?more] index_field(2,3) [OF idx] by (simp add: read_entry_def stream Let_def valid_entry_def)
qed

lemma getconfent_line:
  assumes "grants heap mem" "wf_conf tc" "valid_entry e" "tc_instream tc = put_line e @ rest"
  shows "\<exists>tc'. t_getconfent heap mem tc = Some (True, tc') \<and> wf_conf tc' \<and> entry_is tc' e \<and> tc_instream tc' = rest"
proof -
  obtain b64' tc' where r: "read_entry heap mem new_cstr tc = Some (True, b64', tc')" "wf_conf tc'" "entry_is tc' e" "tc_instream tc' = 10 # rest"
    using read_entry_line [OF assms(1,2) new_cstr_wf(1) assms(3,4)] by blast
  have "t_getconfent heap mem tc = Some (True, tc'\<lparr>tc_instream := rest\<rparr>)"
    unfolding t_getconfent_def by (subst getconfent_loop.simps) (simp add: r Let_def)
  then show ?thesis using r(2,3) by (auto simp: entry_is_def wf_conf_def)
qed


definition sample_entry :: t_confent where
  "sample_entry = \<lparr>ce_index = 12, ce_modulus = [0, 3, 191], ce_generator = [2]\<rparr>"

definition sample_conf :: t_conf where
  "sample_conf = the (t_openconf (Some (put_line sample_entry @ [35, 10])))"


lemma getconfent_end: "tc_instream tc = [] \<Longrightarrow> t_getconfent heap mem tc = Some (False, tc)"
  unfolding t_getconfent_def by (subst getconfent_loop.simps) (simp add: read_entry_def t_nextfield_def Let_def)

lemma getconflast_lines:
  assumes "grants heap mem"
  shows "wf_conf tc \<Longrightarrow> \<forall>e \<in> set es. valid_entry e \<Longrightarrow> tc_instream tc = concat (map put_line es) \<Longrightarrow>
    \<exists>tc'. getconflast_loop heap mem v tc = Some (v \<or> es \<noteq> [], tc') \<and> (if es = [] then tc' = tc else entry_is tc' (last es))"
proof (induction es arbitrary: v tc)
  case Nil
  then show ?case by (subst getconflast_loop.simps) (simp add: getconfent_end)
next
  case (Cons e es)
  obtain tc' where r: "t_getconfent heap mem tc = Some (True, tc')" "wf_conf tc'" "entry_is tc' e" "tc_instream tc' = concat (map put_line es)"
    using getconfent_line [OF assms Cons.prems(1), of e "concat (map put_line es)"] Cons.prems(2,3) by auto
  have step: "getconflast_loop heap mem v tc = getconflast_loop heap mem True tc'"
    by (subst getconflast_loop.simps) (simp add: r)
  show ?case using Cons.IH [OF r(2), of True] Cons.prems(2) r(3,4) by (auto simp: step split: if_splits)
qed

text \<open>\<open>t_getconflast\<close> finds the last entry of a file of printed entries, and fails exactly on the empty file.\<close>

theorem conf_last:
  assumes "grants heap mem" "wf_conf tc" "\<forall>e \<in> set es. valid_entry e" "tc_file tc = concat (map put_line es)"
  shows "\<exists>tc'. t_getconflast heap mem tc = Some (es \<noteq> [], tc') \<and> (es \<noteq> [] \<longrightarrow> entry_is tc' (last es))"
  using getconflast_lines [OF assms(1), of "t_rewindconf tc" es False] assms(2-4)
  by (auto simp: t_getconflast_def t_rewindconf_def wf_conf_def split: if_splits)

lemma no_newline: "plain f \<Longrightarrow> 10 \<notin> set f"
  by (auto simp: plain_def)

lemma getconfbyindex_lines:
  assumes g: "grants heap mem" and i: "0 < i"
  shows "wf_conf tc \<Longrightarrow> cstr_wf b64 \<Longrightarrow> \<forall>e \<in> set es. valid_entry e \<Longrightarrow> tc_instream tc = concat (map put_line es) \<Longrightarrow>
    \<exists>ok tc'. getconfbyindex_loop heap mem (int i) b64 tc = Some (ok, tc') \<and>
      (case find (\<lambda>e. ce_index e = i) es of None \<Rightarrow> \<not> ok | Some e \<Rightarrow> ok \<and> entry_is tc' e)"
proof (induction es arbitrary: tc b64)
  case Nil
  then have "getconfbyindex_loop heap mem (int i) b64 tc = Some (False, tc)"
    by (subst getconfbyindex_loop.simps) (simp add: t_nextfield_def)
  then show ?case by (intro exI [of _ False]) simp
next
  case (Cons e es)
  let ?rest = "concat (map put_line es)"
  let ?more = "t_tob64 (ce_modulus e) @ 58 # t_tob64 (ce_generator e) @ 10 # ?rest"
  have e: "valid_entry e" and idx: "ce_index e < 2 ^ 31" using Cons.prems(3) by (auto simp: valid_entry_def)
  have stream: "tc_instream tc = int2str (ce_index e) @ 58 # ?more" using Cons.prems(4) by (simp add: put_line_append)
  note f = index_field(1) [OF idx, of ?more] index_field(2,3) [OF idx]
  let ?tc = "tc\<lparr>tc_instream := ?more\<rparr>"
  have wf: "wf_conf ?tc" using Cons.prems(1) by (simp add: wf_conf_def)
  show ?case
  proof (cases "ce_index e = i")
    case True
    obtain b64' tc' where r: "read_numbers heap mem b64 ?tc = Some (True, b64', tc')" "tc_instream tc' = 10 # ?rest"
      "cstr_value (tc_modbuf tc') = strip_zeros (ce_modulus e)" "tc_modlen tc' = int (length (strip_zeros (ce_modulus e)))"
      "cstr_value (tc_genbuf tc') = strip_zeros (ce_generator e)" "tc_genlen tc' = int (length (strip_zeros (ce_generator e)))"
      using read_numbers_line [OF g wf Cons.prems(2), of "ce_modulus e" "ce_generator e" ?rest] e by (auto simp: valid_entry_def)
    then show ?thesis using True f
      by (subst getconfbyindex_loop.simps, intro exI [of _ True]) (simp add: stream Let_def entry_is_def)
  next
    case False
    have "t_nextline ?more = (0, ?rest)"
      using nextline_plain [of "t_tob64 (ce_modulus e) @ 58 # t_tob64 (ce_generator e)" ?rest]
        no_newline [OF plain_b64, of "ce_modulus e"] no_newline [OF plain_b64, of "ce_generator e"] by simp
    then have step: "getconfbyindex_loop heap mem (int i) b64 tc = getconfbyindex_loop heap mem (int i) b64 (tc\<lparr>tc_instream := ?rest\<rparr>)"
      using False f by (subst getconfbyindex_loop.simps) (simp add: stream Let_def)
    show ?thesis
      using Cons.IH [of "tc\<lparr>tc_instream := ?rest\<rparr>" b64] Cons.prems False by (simp add: step wf_conf_def)
  qed
qed

text \<open>In a file of printed entries \<open>t_getconfbyindex\<close> finds the first entry with the index, from any position of the
  stream, and answers the null pointer exactly when there is none.\<close>

theorem conf_by_index:
  assumes "grants heap mem" "wf_conf tc" "\<forall>e \<in> set es. valid_entry e" "tc_file tc = concat (map put_line es)" "0 < i"
  shows "\<exists>ok tc'. t_getconfbyindex heap mem tc (int i) = Some (ok, tc') \<and>
    (case find (\<lambda>e. ce_index e = i) es of None \<Rightarrow> \<not> ok | Some e \<Rightarrow> ok \<and> entry_is tc' e)"
  using getconfbyindex_lines [OF assms(1,5), of "t_rewindconf tc" new_cstr es] assms(2-4)
  by (simp add: t_getconfbyindex_def t_rewindconf_def wf_conf_def)

text \<open>An empty line ends this search, though \<open>t_getconfent\<close> reads on after it.\<close>

lemma empty_line_ends_search:
  assumes "tc_file tc = 10 # rest"
  shows "\<exists>tc'. t_getconfbyindex heap mem tc i = Some (False, tc')"
    "tc_instream tc = 10 # rest \<Longrightarrow> t_getconfent heap mem tc = t_getconfent heap mem (tc\<lparr>tc_instream := rest\<rparr>)"
proof -
  have f: "t_nextfield (10 # rest) 16 = ([0], 0, 10 # rest)" by (simp add: t_nextfield_def)
  show "\<exists>tc'. t_getconfbyindex heap mem tc i = Some (False, tc')"
    unfolding t_getconfbyindex_def by (subst getconfbyindex_loop.simps) (simp add: t_rewindconf_def assms f)
  show "t_getconfent heap mem tc = t_getconfent heap mem (tc\<lparr>tc_instream := rest\<rparr>)" if "tc_instream tc = 10 # rest"
    unfolding t_getconfent_def by (subst getconfent_loop.simps) (simp add: read_entry_def that f Let_def)
qed

section \<open>Made entries\<close>

definition holds_numbers :: "t_conf \<Rightarrow> bignum \<Rightarrow> bignum \<Rightarrow> bool" where
  "holds_numbers tc n g \<longleftrightarrow> wf_conf tc \<and> tc_index tc = 1 \<and>
     BigIntegerFromBytes (cstr_value (tc_modbuf tc)) = n \<and> tc_modlen tc = int (BigIntegerByteLen n) \<and>
     BigIntegerFromBytes (cstr_value (tc_genbuf tc)) = g \<and> tc_genlen tc = int (BigIntegerByteLen g)"

lemma make_entry_holds:
  assumes "makes_primes w" "wf_conf tc" "0 \<le> n" "0 \<le> g"
  shows "\<exists>tc'. make_entry w tc (Made n g) = Some (Made_entry tc') \<and> holds_numbers tc' n g"
proof -
  have mem: "total_mem (w_mem w)" and wf: "cstr_wf (tc_modbuf tc)" "cstr_wf (tc_genbuf tc)"
    using assms(1,2) by (simp_all add: makes_primes_def wf_conf_def)
  obtain m where m: "BigIntegerToCstr (w_mem w) n (tc_modbuf tc) = Some (m, BIG_INTEGER_SUCCESS)" "cstr_wf m"
    "cstr_value m = BigIntegerToBytes n" "c_length m = int (BigIntegerByteLen n)"
    by (rule BigIntegerToCstr_result [OF wf(1) mem])
  obtain k where k: "BigIntegerToCstr (w_mem w) g (tc_genbuf tc) = Some (k, BIG_INTEGER_SUCCESS)" "cstr_wf k"
    "cstr_value k = BigIntegerToBytes g" "c_length k = int (BigIntegerByteLen g)"
    by (rule BigIntegerToCstr_result [OF wf(2) mem])
  show ?thesis using m k assms(3,4)
    by (simp add: make_entry_def store_conf_def holds_numbers_def wf_conf_def from_to_bytes Let_def)
qed

text \<open>C28: \<open>t_makeconfent\<close> ends the process or leaves in the strings a modulus of exactly the number of bits asked for and a
  generator: the modulus is 2q + 1 for a q such that both pass the tests, and the generator is the least number from 2 on
  whose q-th power is not 1.\<close>

theorem makeconfent_correct:
  assumes "makes_primes w" "wf_conf tc" "2 \<le> nsize"
  shows "t_makeconfent w tc nsize = Some Process_exit \<or>
    (\<exists>q g tc'. t_makeconfent w tc nsize = Some (Made_entry tc') \<and> holds_numbers tc' (2 * q + 1) g \<and>
       good w q \<and> BigIntegerBitLen (2 * q + 1) = nsize \<and> least_generator q (2 * q + 1) g)"
proof (cases "conf_modulus w nsize = Some Exit_1")
  case True
  then show ?thesis by (simp add: t_makeconfent_def make_entry_def)
next
  case False
  then obtain q g where m: "conf_modulus w nsize = Some (Made (2 * q + 1) g)" "good w q"
    "BigIntegerBitLen (2 * q + 1) = nsize" "least_generator q (2 * q + 1) g"
    using conf_modulus_correct [OF assms(1,3)] by (auto simp: good_def)
  then have "2 \<le> g" "g \<le> 2 * q + 1" by (simp_all add: least_generator_def)
  then obtain tc' where "make_entry w tc (Made (2 * q + 1) g) = Some (Made_entry tc')" "holds_numbers tc' (2 * q + 1) g"
    using make_entry_holds [OF assms(1,2), of "2 * q + 1" g] by auto
  then show ?thesis using m by (auto simp: t_makeconfent_def)
qed

theorem makeconfent_correct_witness:
  "t_makeconfent sample_world (the (t_openconf (Some []))) 12 = Some Process_exit \<or>
   (\<exists>q g tc'. t_makeconfent sample_world (the (t_openconf (Some []))) 12 = Some (Made_entry tc') \<and> holds_numbers tc' (2 * q + 1) g \<and>
      good sample_world q \<and> BigIntegerBitLen (2 * q + 1) = 12 \<and> least_generator q (2 * q + 1) g)"
  by (rule makeconfent_correct)
    (simp_all add: makes_primes_def sample_world_def total_mem_def wf_conf_def t_openconf_def new_cstr_wf)

lemma makeconfent_c_correct:
  assumes "makes_primes w" "makes_primes w2" "wf_conf tc" "6 \<le> nsize"
  shows "t_makeconfent_c w w2 tc nsize = Some Process_exit \<or>
    (\<exists>j k g tc'. t_makeconfent_c w w2 tc nsize = Some (Made_entry tc') \<and> holds_numbers tc' ((2 * j + 1) * (2 * k + 1)) g \<and>
       good w j \<and> good w2 k \<and> BigIntegerBitLen ((2 * j + 1) * (2 * k + 1)) = nsize \<and>
       least_generator (j * k) ((2 * j + 1) * (2 * k + 1)) g)"
proof (cases "conf_modulus_c w w2 nsize = Some Exit_1")
  case True
  then show ?thesis by (simp add: t_makeconfent_c_def make_entry_def)
next
  case False
  then obtain j k g where m: "conf_modulus_c w w2 nsize = Some (Made ((2 * j + 1) * (2 * k + 1)) g)" "good w j" "good w2 k"
    "BigIntegerBitLen ((2 * j + 1) * (2 * k + 1)) = nsize" "least_generator (j * k) ((2 * j + 1) * (2 * k + 1)) g"
    using conf_modulus_c_correct [OF assms(1,2,4)] by auto
  then have "2 \<le> g" "g \<le> (2 * j + 1) * (2 * k + 1)" by (simp_all add: least_generator_def)
  then obtain tc' where "make_entry w2 tc (Made ((2 * j + 1) * (2 * k + 1)) g) = Some (Made_entry tc')"
    "holds_numbers tc' ((2 * j + 1) * (2 * k + 1)) g"
    using make_entry_holds [OF assms(2,3), of "(2 * j + 1) * (2 * k + 1)" g] by auto
  then show ?thesis using m by (auto simp: t_makeconfent_c_def)
qed

section \<open>The comparison and the hashes\<close>

lemma memcmp_zero: "length xs = length ys \<Longrightarrow> memcmp xs ys = 0 \<longleftrightarrow> xs = ys"
  by (induction xs ys rule: memcmp.induct) auto

lemma cmpconfent_zero: "t_cmpconfent a b = 0 \<longleftrightarrow> ce_modulus a = ce_modulus b \<and> ce_generator a = ce_generator b"
  using memcmp_zero [of "ce_modulus a" "ce_modulus b"] memcmp_zero [of "ce_generator a" "ce_generator b"]
  by (auto simp: t_cmpconfent_def Let_def)

text \<open>The blocks of MGF1.\<close>

definition mgf1_blocks :: "byte list \<Rightarrow> nat \<Rightarrow> nat \<Rightarrow> byte list" where
  "mgf1_blocks seed i n = concat (map (\<lambda>j. sha512_hash (seed @ be_bytes 4 j)) [i..<i + n])"

lemma mgf1_loop_blocks:
  assumes "world_ok w" "length seed < 2 ^ 32" "length mask' = masklen" "pos \<le> masklen" "masklen \<le> pos + 64 * n" "masklen + 64 > pos + 64 * n"
  shows "mgf1_loop w mask' masklen seed i pos = take pos mask' @ take (masklen - pos) (mgf1_blocks seed i n)"
  using assms(3-6)
proof (induction n arbitrary: mask' i pos)
  case 0
  then show ?case by (subst mgf1_loop.simps) (simp add: mgf1_blocks_def)
next
  case (Suc n)
  let ?h = "sha512_hash (seed @ be_bytes 4 i)"
  have d: "sha_digest w [seed, be_bytes 4 i] = ?h" using assms(1,2) by (subst sha_digest_hash) auto
  have h: "length ?h = 64" by simp
  have pos: "pos < masklen" using Suc.prems by simp
  have blocks: "mgf1_blocks seed i (Suc n) = ?h @ mgf1_blocks seed (i + 1) n" by (simp add: mgf1_blocks_def upt_conv_Cons del: upt_Suc)
  show ?case
  proof (cases "masklen < pos + 64")
    case True
    then have "n = 0" using Suc.prems by simp
    have "mgf1_loop w mask' masklen seed i pos = buffer_copy mask' pos (take (masklen - pos) ?h)"
      using pos True by (subst mgf1_loop.simps) (simp add: d Let_def mgf1_loop.simps)
    then show ?thesis using True pos Suc.prems h by (simp add: blocks buffer_copy_at)
  next
    case False
    have "mgf1_loop w mask' masklen seed i pos = mgf1_loop w (buffer_copy mask' pos ?h) masklen seed (i + 1) (pos + 64)"
      using pos False by (subst mgf1_loop.simps) (simp add: d Let_def)
    also have "\<dots> = take (pos + 64) (buffer_copy mask' pos ?h) @ take (masklen - (pos + 64)) (mgf1_blocks seed (i + 1) n)"
      using Suc.prems False by (intro Suc.IH) auto
    also have "take (pos + 64) (buffer_copy mask' pos ?h) = take pos mask' @ ?h"
      using False Suc.prems h by (simp add: buffer_copy_at)
    finally show ?thesis using False h by (simp add: blocks)
  qed
qed

text \<open>The mask is the beginning of the hashes of the seed with the big-endian counters 0, 1, 2, \<dots>; what stood in the
  mask does not matter.\<close>

theorem mgf1_correct:
  assumes "world_ok w" "length seed < 2 ^ 32" "length mask' = masklen" "masklen + 64 \<le> 2 ^ 32"
  shows "t_mgf1 w mask' masklen seed = take masklen (mgf1_blocks seed 0 ((masklen + 63) div 64))"
  using mgf1_loop_blocks [OF assms(1-3), of 0 "(masklen + 63) div 64" 0] by (simp add: t_mgf1_def)

lemma skip_zeros_strip: "skip_zeros sk = strip_zeros sk"
  by (induction sk) (auto simp: strip_zeros_def)

lemma spread_prefix:
  "2 * n \<le> length key \<Longrightarrow> off < 2 \<Longrightarrow> length (fold (\<lambda>i key. key[2 * i + off := hout ! i]) [0..<n] key) = length key \<and>
    (\<forall>j < length key. fold (\<lambda>i key. key[2 * i + off := hout ! i]) [0..<n] key ! j =
      (if j < 2 * n \<and> j mod 2 = off then hout ! (j div 2) else key ! j))"
proof (induction n)
  case (Suc n)
  let ?f = "\<lambda>n. fold (\<lambda>i key. key[2 * i + off := hout ! i]) [0..<n] key"
  have IH: "length (?f n) = length key"
    "\<And>j. j < length key \<Longrightarrow> ?f n ! j = (if j < 2 * n \<and> j mod 2 = off then hout ! (j div 2) else key ! j)"
    using Suc by auto
  have "?f (Suc n) ! j = (if j < 2 * Suc n \<and> j mod 2 = off then hout ! (j div 2) else key ! j)" if j: "j < length key" for j
  proof (cases "j = 2 * n + off")
    case True
    then have "j div 2 = n" "j mod 2 = off" "j < 2 * Suc n" using Suc.prems(2) by auto
    then show ?thesis using j True by (simp add: IH(1))
  next
    case False
    then have "j < 2 * Suc n \<and> j mod 2 = off \<longleftrightarrow> j < 2 * n \<and> j mod 2 = off" using Suc.prems(2) by presburger
    then show ?thesis using j False by (simp add: IH)
  qed
  then show ?case using IH(1) by simp
qed simp

lemma spread_nth:
  assumes "128 \<le> length key" "off < 2"
  shows "length (spread key off hout) = length key"
    "j < length key \<Longrightarrow> spread key off hout ! j = (if j < 128 \<and> j mod 2 = off then hout ! (j div 2) else key ! j)"
  using spread_prefix [of 64 key off hout] assms by (auto simp: spread_def)

text \<open>The session key interleaves the hashes of every second byte from the end on, as RFC 2945 does; the length of the
  secret is taken after its leading zeros.\<close>

theorem sessionkey_correct:
  assumes "world_ok w" "128 \<le> length key" "length sk < 2 ^ 32" "malloc (length (strip_zeros sk) div 2)"
  shows "\<exists>k. t_sessionkey w malloc key sk = Some k \<and> length k = length key \<and> drop 128 k = drop 128 key \<and>
    (let s = strip_zeros sk; n = length s div 2 in
     \<forall>i < 64. k ! (2 * i) = sha512_hash (map (\<lambda>j. rev s ! (2 * j)) [0..<n]) ! i \<and>
              k ! (2 * i + 1) = sha512_hash (map (\<lambda>j. rev s ! (2 * j + 1)) [0..<n]) ! i)"
proof -
  let ?s = "strip_zeros sk"
  define n where "n = length ?s div 2"
  define h0 where "h0 = sha512_hash (map (\<lambda>j. rev ?s ! (2 * j)) [0..<n])"
  define h1 where "h1 = sha512_hash (map (\<lambda>j. rev ?s ! (2 * j + 1)) [0..<n])"
  have short: "n < 2 ^ 32" using assms(3) length_strip_le [of sk] by (simp add: n_def)
  have d: "sha_digest w [p] = sha512_hash p" if "length p = n" for p
    using sha_digest_hash [OF assms(1), of "[p]"] that short by simp
  have bufs: "map (\<lambda>i. ?s ! (length ?s - 2 * i - 1)) [0..<n] = map (\<lambda>j. rev ?s ! (2 * j)) [0..<n]"
    "map (\<lambda>i. ?s ! (length ?s - 2 * i - 2)) [0..<n] = map (\<lambda>j. rev ?s ! (2 * j + 1)) [0..<n]"
    by (auto simp: n_def rev_nth mult_2 intro!: arg_cong [of _ _ "nth ?s"])
  have run: "t_sessionkey w malloc key sk = Some (spread (spread key 0 h0) 1 h1)"
    using assms(4) unfolding t_sessionkey_def skip_zeros_strip Let_def n_def [symmetric] bufs h0_def h1_def
    by (subst (1 2) d) simp_all
  have "drop 128 (spread (spread key 0 h0) 1 h1) = drop 128 key"
    using assms(2) by (intro nth_equalityI) (simp_all add: spread_nth)
  then show ?thesis using assms(2)
    unfolding Let_def n_def [symmetric] h0_def [symmetric] h1_def [symmetric]
    by (intro exI [of _ "spread (spread key 0 h0) 1 h1"]) (simp add: run spread_nth)
qed

end
