(* ===== verification/Spec2Isabelle.thy ===== *)
theory Spec2Isabelle
  imports Hap_Server Irr_Signal Srp_Params
begin

text \<open>
  The HomeKit accessory server of naichichi2 (src/Personal-HomeKit-HAP) and the cryptography it rests on, and the infrared
  recorder and sender of its device control (src/sub/irr).

  A controller (a phone) connects by TCP. It pairs once, by a password protocol over the pin of the accessory
  (\<open>handlePairSeup\<close>); after that each connection is verified by signatures and a key agreement
  (\<open>handlePairVerify\<close>) and then carries requests and answers in sealed frames (\<open>handleAccessoryRequest\<close>). All messages
  of the pairing are lists of typed records inside HTTP-like requests. Below are ChaCha20, Poly1305, Curve25519, HKDF,
  HMAC, SHA-512 and SRP-6a with its big integers and counted strings.

  A remote control is learned by a kernel module that records the times of the edges of its signal and shows them in
  /proc, and a tool that turns them into waves, checks and stores them (\<open>CaptureIR\<close>) and later sends them (\<open>FireIR\<close>).

  Theories, from the bottom:

  \<^item> \<open>Prelude\<close>: bytes and words, the collections of rewrite rules, list and buffer lemmas shared by all; \<open>Positional\<close>:
    numbers in a base as digit lists; \<open>Digest_Machine\<close>: the interface of a block-wise digest (a locale), with what
    follows for any split of the input.
  \<^item> \<open>Chacha20\<close> (Chacha20/chacha20_simple.c and .h): the context with its buffered keystream, every function. Lemmas: the
    buffered loop is the byte-serial cipher, decryption, seeking by counter.
  \<^item> \<open>Poly1305\<close> (poly1305-opt-master/poly1305.c): the 26-bit limb arithmetic on 32-bit words with its carries, the
    block loop, the final reduction. Lemmas: bounds of every limb, the value modulo 2^130 - 5, the authenticator of
    RFC 8439 for any split of the message; the context interprets the locale of \<open>Digest_Machine\<close>.
  \<^item> \<open>Curve_Field\<close>, \<open>Curve_Bytes\<close>, \<open>Curve25519\<close> (curve25519/curve25519-donna.c): the arithmetic modulo 2^255 - 19 on ten signed
    limbs, its conversion from and to bytes, the Montgomery ladder and the inversion. Lemmas: the bounds that keep every
    operation from overflowing, each operation's value modulo 2^255 - 19, and the refinement of the ladder on integers;
    the last concerns the key agreement that \<open>Hap_Verify\<close> calls.
  \<^item> \<open>Sha512\<close> (openssl/crypto/sha/sha512.c and sha.h): the three C bodies of the block function against FIPS 180-4, padding,
    streaming. \<open>Hmac\<close> (rfc6234-master/hmac.c, sha.c, sha.h) and \<open>Hkdf\<close> (hkdf.c): every function with its error codes and the
    sticky states.
  \<^item> \<open>Cstr\<close> (srp/cstr.c and .h): counted strings over an allocator that may fail; every run refines the string
    operations. \<open>Conv\<close> (srp/t_conv.c): hexadecimal and base-64. \<open>Bignum\<close> (srp/t_math.c in its OpenSSL branch): the
    operations over integers, the digits of \<open>BigIntegerToString\<close>.
  \<^item> \<open>Srp\<close> and \<open>Srp_Session\<close> (srp/srp.c, srp6_server.c, srp.h, \<open>t_isprime\<close> of t_conf.c): the SRP-6a server with its
    method table, hashes and states; the runs of the protocol and its agreement with a client of RFC 5054.
  \<^item> \<open>Srp_Primes\<close> and \<open>Srp_Params\<close> (srp/t_conf.c, t_read.c, \<open>t_mgf1\<close> and \<open>t_sessionkey\<close> of t_misc.c): the search of moduli and
    generators, their entries and the file of entries. Lemmas: the sieve misses no number that passes, the sizes of the
    moduli, the least generator, printed entries are read back and found by index, the hashes as blocks and halves.
  \<^item> \<open>Tlv8\<close>, \<open>Hap_Message\<close> (PHKNetworkIP.cpp and .h): the record lists and the requests and responses around them; parsing,
    writing, round trips, and where the parser leaves its buffers.
  \<^item> \<open>Hap_Aead\<close> (\<open>Poly1305_GenKey\<close> and the start of every sealed message): refines the AEAD construction of RFC 8439.
  \<^item> \<open>Hap_Session\<close> (\<open>handleAccessoryRequest\<close>, \<open>broadcastMessage\<close>, the notification list of \<open>connectionInfo\<close>): the sealed frames.
  \<^item> \<open>Hap_Store\<close> (PHKControllerRecord.cpp): the paired controllers and their file; the locale \<open>key_store\<close> is the map the
    pairing relies on, interpreted on the code's operations.
  \<^item> \<open>Hap_Setup\<close> (\<open>handlePairSeup\<close>), \<open>Hap_Verify\<close> (\<open>handlePairVerify\<close>), \<open>Hap_Server\<close> (\<open>connectionLoop\<close>, \<open>handleConnection\<close>, the
    announced record): the handlers step by step, their loops over the packets, and the whole life of a connection.

  \<^item> \<open>Irr_Driver\<close> (sub/irr/kernelland_*/irr_driver.c): the three kernel modules over a kernel that answers each call as it
    likes. Lemmas: what is held after loading, failing and unloading; every interleaving of edges and reads (the step
    relation \<open>recording\<close>) keeps the recording, and reading on ends with all of it. The fuel 2400001 of \<open>drain\<close> is one more
    than the bytes of the buffer.
  \<^item> \<open>Irr_Capture\<close>, \<open>Irr_Signal\<close> (sub/irr/userland_razby/irr.cpp): reading the module (the locale \<open>proc_file\<close>, interpreted on
    both kinds of file the modules make), the distances and waves, the check with the rounding of float and double
    written out, the files, and sending by the timer. Lemmas: bounds and sums of the waves, the check in whole numbers,
    round trip of the files, the time each wave takes, and the path from the recorded edges to the file.

  Conventions. A C struct or class is a record with the fields of the source; \<open>uint32_t\<close> and the like are words of their
  width. A function that may read or write outside an object, use a null or an uninitialised pointer, or follow a
  failed allocation has an option result, and None is that outcome; error codes are values. Uninitialised memory,
  random bytes, what \<open>recv\<close> returns and the answers of the allocator are arguments (\<open>srp_world\<close>, \<open>hap_world\<close>), given anew for
  each message of a handler. Loops are recursions that end: on the list, the length of the text or the packets left; the
  parser of records advances its 16-bit offset and is \<open>partial_function (option)\<close>, and its theorems show that it returns.
  The host is little-endian, the 32-bit branch of Poly1305 and the OpenSSL branch of the big integers are modelled,
  and \<open>HomeKitLog\<close> is 1 as in Configuration.h, so that what the log lines read counts.

  Not modelled:

  \<^item> The ed25519 signatures (ed25519-donna): arguments of \<open>hap_world\<close>; a theorem that needs a law of them states it as a
    hypothesis. That the ladder of curve25519 multiplies points of an elliptic curve, and so gives two parties one
    secret, is not proved: a theorem about both sides names the secret the accessory computes.
  \<^item> The accessory objects and their JSON text (PHKAccessory.cpp, Accessory.cpp): the accessory is an argument of the
    session that gets a request and a state and gives an answer.
  \<^item> Sockets, threads, the mutexes of a connection and the registration of the service: what they return is an argument.
    A connection is handled by one thread; the theorems are about one connection at a time.
  \<^item> OpenSSL's BIGNUM (the operations have the values its manual states; inverse, division and exponentiation are those of
    the integers) and its primality test, the password files and the table of known moduli of SRP (arguments), the drawing of
    random bytes in srp/t_misc.c and the randomness code of srp/t_truerand.c (timer signals).
  \<^item> Of the infrared tool the pulse hardware, the printed numbers and the device tree handling of userland_bb, whose functions
    on data are those of userland_razby; in the kernel a read does not interleave with the handler.
  \<^item> The rest of the repository: the C++ application, the reboot helper (two writes to /proc), and the vendored trees.
\<close>

end
